(* ===== verification/Prelude.thy ===== *)
theory Prelude
  imports Main "HOL-Library.Word" "HOL-Library.Monad_Syntax"
begin

text \<open>
  Shared vocabulary of the development: the machine integers of the kernel, little- and
  big-endian byte codecs (\<open>to_le_bytes\<close>, \<open>from_le_bytes\<close>, \<open>to_be_bytes\<close>,
  \<open>from_be_bytes\<close> of Rust's integer types), slices with Rust's bounds checks, saturating
  arithmetic, and the generic list and word lemmas the components share.

  Effects. The kernel is built with \<^verbatim>\<open>panic = "abort"\<close> and its panic handler
  (\<^verbatim>\<open>src/src/panic.rs\<close>) is a halt loop, so a panic and a loop that never ends look
  the same to the caller: the call does not return. Operations that can do so have an
  \<open>option\<close> result, with \<^const>\<open>None\<close> for "does not return"; results the caller sees
  are values of \<open>error + 'a\<close>.
\<close>

unbundle bit_operations_syntax

type_synonym u8 = "8 word"
type_synonym u16 = "16 word"
type_synonym u32 = "32 word"
type_synonym u64 = "64 word"
type_synonym bytes = "u8 list"

named_theorems layout_simps \<open>array lengths that an operation keeps\<close>
named_theorems frame_simps \<open>parts of the state that an operation does not touch\<close>

declare Option.bind_cong [fundef_cong]

subsection \<open>Slices with bounds checks\<close>

text \<open>
  \<open>slice xs i j\<close> is \<open>&xs[i..j]\<close>: it panics (\<^const>\<open>None\<close>) unless \<open>i \<le> j \<le> len\<close>.
  \<open>copy_into out i j xs\<close> is \<open>out[i..j].copy_from_slice(xs)\<close>: it also panics when the
  lengths differ.
\<close>

definition slice :: "'a list \<Rightarrow> nat \<Rightarrow> nat \<Rightarrow> 'a list option" where
  "slice xs i j = (if i \<le> j \<and> j \<le> length xs then Some (take (j - i) (drop i xs)) else None)"

definition copy_into :: "'a list \<Rightarrow> nat \<Rightarrow> nat \<Rightarrow> 'a list \<Rightarrow> 'a list option" where
  "copy_into out i j xs =
     (if i \<le> j \<and> j \<le> length out \<and> length xs = j - i
      then Some (take i out @ xs @ drop j out) else None)"

definition index_get :: "'a list \<Rightarrow> nat \<Rightarrow> 'a option" where
  "index_get xs i = (if i < length xs then Some (xs ! i) else None)"

definition index_set :: "'a list \<Rightarrow> nat \<Rightarrow> 'a \<Rightarrow> 'a list option" where
  "index_set xs i x = (if i < length xs then Some (xs[i := x]) else None)"

lemma slice_Some [simp]: "i \<le> j \<Longrightarrow> j \<le> length xs \<Longrightarrow> slice xs i j = Some (take (j - i) (drop i xs))"
  by (simp add: slice_def)

lemma replicate_numeral: "replicate (numeral k) x = x # replicate (pred_numeral k) x"
  by (simp add: numeral_eq_Suc)

lemma slice_length: "slice xs i j = Some ys \<Longrightarrow> length ys = j - i"
  by (auto simp: slice_def split: if_splits)

lemma copy_into_Some [simp]:
  "i \<le> j \<Longrightarrow> j \<le> length out \<Longrightarrow> length xs = j - i \<Longrightarrow>
   copy_into out i j xs = Some (take i out @ xs @ drop j out)"
  by (simp add: copy_into_def)

lemma copy_into_length: "copy_into out i j xs = Some out' \<Longrightarrow> length out' = length out"
  by (auto simp: copy_into_def split: if_splits)

lemma copy_into_reads_back:
  "copy_into out i j xs = Some out' \<Longrightarrow> slice out' i j = Some xs"
  by (auto simp: copy_into_def slice_def split: if_splits)

lemma index_set_length: "index_set xs i x = Some ys \<Longrightarrow> length ys = length xs"
  by (auto simp: index_set_def split: if_splits)

lemma index_get_Some [simp]: "i < length xs \<Longrightarrow> index_get xs i = Some (xs ! i)"
  by (simp add: index_get_def)

lemma index_set_Some [simp]: "i < length xs \<Longrightarrow> index_set xs i x = Some (xs[i := x])"
  by (simp add: index_set_def)

subsection \<open>Byte codecs\<close>

text \<open>\<open>to_le n w\<close> are the \<open>n\<close> low bytes of \<open>w\<close>, least significant first.\<close>

definition to_le :: "nat \<Rightarrow> 'a::len word \<Rightarrow> bytes" where
  "to_le n w = map (\<lambda>i. ucast (drop_bit (8 * i) w)) [0..<n]"

fun from_le :: "bytes \<Rightarrow> 'a::len word" where
  "from_le [] = 0"
| "from_le (b # bs) = ucast b OR push_bit 8 (from_le bs)"

definition to_be :: "nat \<Rightarrow> 'a::len word \<Rightarrow> bytes" where
  "to_be n w = rev (to_le n w)"

definition from_be :: "bytes \<Rightarrow> 'a::len word" where
  "from_be bs = from_le (rev bs)"

lemma length_to_le [simp]: "length (to_le n w) = n"
  by (simp add: to_le_def)

lemma length_to_be [simp]: "length (to_be n w) = n"
  by (simp add: to_be_def)

lemma bit_from_le:
  "bit (from_le bs :: 'a::len word) k \<longleftrightarrow>
     k < LENGTH('a) \<and> k div 8 < length bs \<and> bit (bs ! (k div 8)) (k mod 8)"
proof (induction bs arbitrary: k)
  case Nil
  then show ?case by simp
next
  case (Cons b bs)
  show ?case
  proof (cases "k < 8")
    case True
    then show ?thesis
      by (auto simp: bit_or_iff bit_ucast_iff bit_push_bit_iff dest: bit_imp_le_length)
  next
    case False
    then obtain m where m: "k = m + 8" by (metis le_add_diff_inverse2 not_less)
    have "\<not> bit b k" using False by (auto dest: bit_imp_le_length)
    moreover have "(m + 8) div 8 = Suc (m div 8)" by simp
    ultimately show ?thesis using Cons.IH [of m] m
      by (auto simp: bit_or_iff bit_ucast_iff bit_push_bit_iff dest: bit_imp_le_length)
  qed
qed

lemma from_to_le:
  assumes "LENGTH('a) = 8 * n"
  shows "from_le (to_le n w) = (w :: 'a::len word)"
proof (rule bit_word_eqI)
  fix k assume k: "k < LENGTH('a)"
  have "k div 8 < n" using k assms by (simp add: less_mult_imp_div_less mult.commute)
  then show "bit (from_le (to_le n w) :: 'a word) k = bit w k"
    using k by (auto simp: bit_from_le to_le_def bit_ucast_iff bit_drop_bit_eq)
qed

lemma to_from_le:
  assumes "LENGTH('a) = 8 * n" "length bs = n"
  shows "to_le n (from_le bs :: 'a::len word) = bs"
proof (rule nth_equalityI)
  show "length (to_le n (from_le bs :: 'a word)) = length bs" using assms by simp
next
  fix i assume "i < length (to_le n (from_le bs :: 'a word))"
  then have i: "i < n" by simp
  show "to_le n (from_le bs :: 'a word) ! i = bs ! i"
  proof (rule bit_word_eqI)
    fix k assume k: "k < LENGTH(8)"
    have "8 * i + k < 8 * n" using i k by simp
    then show "bit (to_le n (from_le bs :: 'a word) ! i) k = bit (bs ! i) k"
      using i k assms by (auto simp: to_le_def bit_ucast_iff bit_drop_bit_eq bit_from_le)
  qed
qed

lemma from_to_le_16 [simp]: "from_le (to_le 2 w) = (w :: u16)"
  by (rule from_to_le) simp
lemma from_to_le_32 [simp]: "from_le (to_le 4 w) = (w :: u32)"
  by (rule from_to_le) simp
lemma from_to_le_64 [simp]: "from_le (to_le 8 w) = (w :: u64)"
  by (rule from_to_le) simp
lemma to_from_le_16 [simp]: "length bs = 2 \<Longrightarrow> to_le 2 (from_le bs :: u16) = bs"
  by (rule to_from_le) simp_all
lemma to_from_le_32 [simp]: "length bs = 4 \<Longrightarrow> to_le 4 (from_le bs :: u32) = bs"
  by (rule to_from_le) simp_all
lemma to_from_le_64 [simp]: "length bs = 8 \<Longrightarrow> to_le 8 (from_le bs :: u64) = bs"
  by (rule to_from_le) simp_all

lemma from_to_be_64 [simp]: "from_be (to_be 8 w) = (w :: u64)"
  by (simp add: from_be_def to_be_def)
lemma to_from_be_64 [simp]: "length bs = 8 \<Longrightarrow> to_be 8 (from_be bs :: u64) = bs"
  by (simp add: from_be_def to_be_def)

lemma to_le_inject_64: "to_le 8 (v :: u64) = to_le 8 w \<Longrightarrow> v = w"
  by (metis from_to_le_64)

subsection \<open>Saturating arithmetic\<close>

definition sat_add :: "'a::len word \<Rightarrow> 'a word \<Rightarrow> 'a word" where
  "sat_add a b = (if unat a + unat b < 2 ^ LENGTH('a) then a + b else - 1)"

definition sat_mul :: "'a::len word \<Rightarrow> 'a word \<Rightarrow> 'a word" where
  "sat_mul a b = (if unat a * unat b < 2 ^ LENGTH('a) then a * b else - 1)"

lemma unat_sat_add:
  "unat (sat_add a b) = min (unat a + unat b) (2 ^ LENGTH('a) - 1)" for a :: "'a::len word"
proof (cases "unat a + unat b < 2 ^ LENGTH('a)")
  case True
  then show ?thesis by (simp add: sat_add_def unat_word_ariths)
next
  case False
  then show ?thesis by (simp add: sat_add_def unsigned_minus_1_eq_mask mask_eq_exp_minus_1)
qed

subsection \<open>Words\<close>

lemma word_and_eq_trans:
  "a AND r = r \<Longrightarrow> b AND a = a \<Longrightarrow> b AND r = r" for a b r :: "'a::len word"
  by (metis and.assoc)

lemma unat_less_pow: "unat (w :: 'a::len word) < 2 ^ LENGTH('a)"
  by simp

lemma unat_succ_no_wrap: "w \<noteq> - 1 \<Longrightarrow> unat (w + 1) = Suc (unat w)" for w :: "'a::len word"
  by (metis add.commute add.inverse_inverse eq_neg_iff_add_eq_0 unatSuc)

subsection \<open>Lists\<close>

lemma length_filter_update:
  assumes "i < length xs"
  shows "length (filter P (xs[i := x])) + (if P (xs ! i) then 1 else 0)
       = length (filter P xs) + (if P x then 1 else 0)"
  using assms by (induction xs arbitrary: i) (simp, fastforce split: nat.splits)

lemma filter_upt_first:
  "i < n \<Longrightarrow> P i \<Longrightarrow> (\<And>j. j < i \<Longrightarrow> \<not> P j) \<Longrightarrow> find P [0..<n] = Some i"
  by (auto simp: find_Some_iff intro!: exI [of _ i])

lemma find_map: "List.find P (map f xs) = map_option f (List.find (\<lambda>x. P (f x)) xs)"
  by (induction xs) simp_all

lemma find_upt_Some_iff:
  "find P [0..<n] = Some i \<longleftrightarrow> i < n \<and> P i \<and> (\<forall>j<i. \<not> P j)"
  by (auto simp: find_Some_iff)

lemma find_upt_None_iff: "find P [0..<n] = None \<longleftrightarrow> (\<forall>i<n. \<not> P i)"
  by (auto simp: find_None_iff)

subsection \<open>Fallible operations on a state\<close>

text \<open>
  \<open>try_then r f\<close> is the operator \<open>?\<close> of Rust: an error of \<open>r\<close> is the result, with the state \<open>r\<close> left
  behind. \<open>map_err\<close> converts the error.
\<close>

definition try_then :: "('s \<times> ('e + 'a)) option \<Rightarrow> ('a \<Rightarrow> 's \<Rightarrow> ('s \<times> ('e + 'b)) option) \<Rightarrow> ('s \<times> ('e + 'b)) option" where
  "try_then r f =
     (case r of
        None \<Rightarrow> None
      | Some (s, Inl e) \<Rightarrow> Some (s, Inl e)
      | Some (s, Inr x) \<Rightarrow> f x s)"

definition map_err :: "('e \<Rightarrow> 'e2) \<Rightarrow> ('s \<times> ('e + 'a)) option \<Rightarrow> ('s \<times> ('e2 + 'a)) option" where
  "map_err f r =
     (case r of
        None \<Rightarrow> None
      | Some (s, Inl e) \<Rightarrow> Some (s, Inl (f e))
      | Some (s, Inr x) \<Rightarrow> Some (s, Inr x))"

lemma try_then_assoc: "try_then (try_then r f) g = try_then r (\<lambda>x s. try_then (f x s) g)"
  by (simp add: try_then_def split: option.split sum.split prod.split)

lemma try_then_simps [simp]:
  "try_then (Some (s, Inl e)) f = Some (s, Inl e)" "try_then (Some (s, Inr x)) f = f x s"
  by (simp_all add: try_then_def)

subsection \<open>Serialising records into a staging buffer\<close>

text \<open>
  The interface of a writer of fixed-width records: \<open>put\<close> writes the record at an offset of the
  buffer and leaves the rest alone. A loop that writes the records \<open>i\<close> to \<open>i + n\<close> of a list
  behind a header of \<open>base\<close> bytes then lays them out one after the other.
\<close>

locale record_writer =
  fixes put :: "bytes \<Rightarrow> nat \<Rightarrow> 'a \<Rightarrow> bytes option"
    and enc :: "'a \<Rightarrow> bytes"
    and wf :: "'a \<Rightarrow> bool"
    and width :: nat
  assumes put_at: "wf x \<Longrightarrow> off + width \<le> length st \<Longrightarrow>
      put st off x = Some (take off st @ enc x @ drop (off + width) st)"
    and enc_width: "wf x \<Longrightarrow> length (enc x) = width"
begin

fun put_run :: "nat \<Rightarrow> nat \<Rightarrow> nat \<Rightarrow> 'a list \<Rightarrow> bytes \<Rightarrow> bytes option" where
  "put_run base i 0 xs st = Some st"
| "put_run base i (Suc n) xs st =
     do {
       x \<leftarrow> index_get xs i;
       st \<leftarrow> put st (base + i * width) x;
       put_run base (i + 1) n xs st
     }"

lemma length_encs: "\<forall>x \<in> set xs. wf x \<Longrightarrow> length (concat (map enc xs)) = width * length xs"
  by (induction xs) (simp_all add: enc_width)

lemma put_run_eq:
  assumes "\<forall>x \<in> set xs. wf x" "i + n \<le> length xs" "base + (i + n) * width \<le> length st"
  shows "put_run base i n xs st =
     Some (take (base + i * width) st @ concat (map enc (take n (drop i xs))) @
           drop (base + (i + n) * width) st)"
  using assms
proof (induction n arbitrary: i st)
  case (Suc n)
  let ?o = "base + i * width"
  let ?st = "take ?o st @ enc (xs ! i) @ drop (?o + width) st"
  have wf: "wf (xs ! i)" and room: "?o + width \<le> length st" "?o + width + n * width \<le> length st"
    using Suc.prems by (simp_all add: algebra_simps)
  note len = enc_width [OF wf]
  have "put_run base (i + 1) n xs ?st =
     Some (take (base + (i + 1) * width) ?st @ concat (map enc (take n (drop (i + 1) xs))) @
           drop (base + (i + 1 + n) * width) ?st)"
    using Suc.prems len room by (intro Suc.IH) (auto simp: algebra_simps)
  moreover have "take (base + (i + 1) * width) ?st = take ?o st @ enc (xs ! i)"
    using room len by (simp add: algebra_simps)
  moreover have "drop (base + (i + 1 + n) * width) ?st = drop (base + (i + Suc n) * width) st"
    using room len by (simp add: algebra_simps)
  moreover have "take (Suc n) (drop i xs) = xs ! i # take n (drop (i + 1) xs)"
    using Suc.prems by (simp add: Cons_nth_drop_Suc [symmetric])
  ultimately show ?case using Suc.prems put_at [OF wf room(1)] by simp
qed simp

end

end
