(* ===== verification/Platform.thy ===== *)
theory Platform
  imports Prelude
begin

text \<open>
  What the kernel calls and the repository does not contain. The cryptographic crates
  (\<^verbatim>\<open>elib-k0-nt\<close>: hashes, signatures, AEAD ciphers, X448, the SP 800-90A hash DRBG), the
  virtio-rng driver crate and the CPU instructions behind \<open>asm!\<close> (RDSEED, RDRAND, RDTSC, CPUID,
  CMOS port reads) are fields of one record, an argument of every definition that uses them.
  The machine state the instructions read is a type variable \<open>'m\<close>, the DRBG state a type
  variable \<open>'d\<close>. The last field is the build feature \<^verbatim>\<open>entropy-degraded-ok\<close>. \<open>platform_ok\<close> is the documented behaviour the kernel relies on: output
  lengths only.
\<close>

datatype drbg_error = ReseedRequired | DrbgOther

record ('m, 'd) platform =
  p_blake3 :: "bytes \<Rightarrow> bytes option"
  p_blake3_xof :: "bytes \<Rightarrow> nat \<Rightarrow> bytes option"
  p_mldsa44_verify :: "bytes \<Rightarrow> bytes \<Rightarrow> bytes \<Rightarrow> bytes \<Rightarrow> bool option"
  p_mldsa44_keygen :: "bytes \<Rightarrow> (bytes \<times> bytes) option"
  p_mldsa44_sign :: "bytes \<Rightarrow> bytes \<Rightarrow> bytes \<Rightarrow> bytes \<Rightarrow> bytes option"
  p_aes256gcm_encrypt :: "bytes \<Rightarrow> bytes \<Rightarrow> bytes \<Rightarrow> bytes \<Rightarrow> bytes \<times> bytes"
  p_aes256gcm_decrypt :: "bytes \<Rightarrow> bytes \<Rightarrow> bytes \<Rightarrow> bytes \<Rightarrow> bytes \<Rightarrow> bytes option"
  p_chacha_encrypt :: "bytes \<Rightarrow> bytes \<Rightarrow> bytes \<Rightarrow> bytes \<Rightarrow> (bytes \<times> bytes) option"
  p_chacha_decrypt :: "bytes \<Rightarrow> bytes \<Rightarrow> bytes \<Rightarrow> bytes \<Rightarrow> bytes \<Rightarrow> bytes option"
  p_sha256 :: "bytes \<Rightarrow> bytes"
  p_sha3_256 :: "bytes \<Rightarrow> bytes"
  p_sha3_512 :: "bytes \<Rightarrow> bytes"
  p_ed25519_sign :: "bytes \<Rightarrow> bytes \<Rightarrow> bytes"
  p_ed25519_verify :: "bytes \<Rightarrow> bytes \<Rightarrow> bytes \<Rightarrow> bool"
  p_ed448_sign :: "bytes \<Rightarrow> bytes \<Rightarrow> bytes"
  p_ed448_verify :: "bytes \<Rightarrow> bytes \<Rightarrow> bytes \<Rightarrow> bool"
  p_x448_dh :: "bytes \<Rightarrow> bytes \<Rightarrow> bytes option"
  p_drbg_new :: "bytes \<Rightarrow> bytes \<Rightarrow> bytes \<Rightarrow> 'd option"
  p_drbg_generate :: "'d \<Rightarrow> nat \<Rightarrow> 'd \<times> (drbg_error + bytes)"
  p_drbg_reseed :: "'d \<Rightarrow> bytes \<Rightarrow> 'd \<times> bool"
  p_has_rdseed :: bool
  p_has_rdrand :: bool
  p_rdseed64 :: "'m \<Rightarrow> 'm \<times> u64 option"
  p_rdrand64 :: "'m \<Rightarrow> 'm \<times> u64 option"
  p_rdtsc :: "'m \<Rightarrow> 'm \<times> u64"
  p_cpuid :: "u32 \<Rightarrow> u32 \<times> u32 \<times> u32 \<times> u32"
  p_cmos_status_a :: "'m \<Rightarrow> 'm \<times> u8"
  p_virtio_request :: "'m \<Rightarrow> bytes \<Rightarrow> 'm \<times> bytes \<times> nat option"
  p_entropy_degraded_ok :: bool

text \<open>Sizes fixed by the crates' public constants.\<close>

definition MLDSA44_PK_LEN :: nat where "MLDSA44_PK_LEN = 1312"
definition MLDSA44_SK_LEN :: nat where "MLDSA44_SK_LEN = 2560"
definition MLDSA44_SIG_LEN :: nat where "MLDSA44_SIG_LEN = 2420"
definition BLAKE3_OUT_LEN :: nat where "BLAKE3_OUT_LEN = 32"
definition GCM_NONCE_SIZE :: nat where "GCM_NONCE_SIZE = 12"
definition GCM_TAG_SIZE :: nat where "GCM_TAG_SIZE = 16"

lemmas crate_sizes =
  MLDSA44_PK_LEN_def MLDSA44_SK_LEN_def MLDSA44_SIG_LEN_def BLAKE3_OUT_LEN_def
  GCM_NONCE_SIZE_def GCM_TAG_SIZE_def

definition platform_ok :: "('m, 'd) platform \<Rightarrow> bool" where
  "platform_ok P \<longleftrightarrow>
     (\<forall>x d. p_blake3 P x = Some d \<longrightarrow> length d = BLAKE3_OUT_LEN) \<and>
     (\<forall>x n d. p_blake3_xof P x n = Some d \<longrightarrow> length d = n) \<and>
     (\<forall>s pk sk. p_mldsa44_keygen P s = Some (pk, sk) \<longrightarrow>
        length pk = MLDSA44_PK_LEN \<and> length sk = MLDSA44_SK_LEN) \<and>
     (\<forall>sk m c r sig. p_mldsa44_sign P sk m c r = Some sig \<longrightarrow> length sig = MLDSA44_SIG_LEN) \<and>
     (\<forall>k n a pt. length (fst (p_aes256gcm_encrypt P k n a pt)) = length pt \<and>
        length (snd (p_aes256gcm_encrypt P k n a pt)) = GCM_TAG_SIZE) \<and>
     (\<forall>k n a ct t pt. p_aes256gcm_decrypt P k n a ct t = Some pt \<longrightarrow> length pt = length ct) \<and>
     (\<forall>k n a pt ct t. p_chacha_encrypt P k n a pt = Some (ct, t) \<longrightarrow>
        length ct = length pt \<and> length t = GCM_TAG_SIZE) \<and>
     (\<forall>k n a ct t pt. p_chacha_decrypt P k n a ct t = Some pt \<longrightarrow> length pt = length ct) \<and>
     (\<forall>x. length (p_sha256 P x) = 32 \<and> length (p_sha3_256 P x) = 32 \<and> length (p_sha3_512 P x) = 64) \<and>
     (\<forall>x sk. length (p_ed25519_sign P x sk) = 64 \<and> length (p_ed448_sign P x sk) = 114) \<and>
     (\<forall>sk pk ss. p_x448_dh P sk pk = Some ss \<longrightarrow> length ss = 56) \<and>
     (\<forall>d n d' out. p_drbg_generate P d n = (d', Inr out) \<longrightarrow> length out = n) \<and>
     (\<forall>m s m' s' r. p_virtio_request P m s = (m', s', r) \<longrightarrow> length s' = length s)"

lemma platform_blake3: "platform_ok P \<Longrightarrow> p_blake3 P x = Some d \<Longrightarrow> length d = 32"
  by (simp add: platform_ok_def BLAKE3_OUT_LEN_def)

lemma platform_xof: "platform_ok P \<Longrightarrow> p_blake3_xof P x n = Some d \<Longrightarrow> length d = n"
  by (simp add: platform_ok_def)

lemma platform_keygen:
  "platform_ok P \<Longrightarrow> p_mldsa44_keygen P s = Some (pk, sk) \<Longrightarrow> length pk = 1312 \<and> length sk = 2560"
  by (simp add: platform_ok_def crate_sizes)

lemma platform_sign: "platform_ok P \<Longrightarrow> p_mldsa44_sign P sk m c r = Some sig \<Longrightarrow> length sig = 2420"
  by (simp add: platform_ok_def crate_sizes)

lemma platform_gcm:
  "platform_ok P \<Longrightarrow> p_aes256gcm_encrypt P k n a pt = (ct, tag) \<Longrightarrow>
     length ct = length pt \<and> length tag = 16"
  by (auto simp: platform_ok_def crate_sizes) (metis fst_conv, metis snd_conv)

lemma platform_decrypt:
  "platform_ok P \<Longrightarrow> p_aes256gcm_decrypt P k n a ct t = Some pt \<Longrightarrow> length pt = length ct"
  "platform_ok P \<Longrightarrow> p_chacha_decrypt P k n a ct t = Some pt \<Longrightarrow> length pt = length ct"
  "platform_ok P \<Longrightarrow> p_chacha_encrypt P k n a pt = Some (ct, t) \<Longrightarrow> length ct = length pt \<and> length t = 16"
  unfolding platform_ok_def GCM_TAG_SIZE_def by - (elim conjE, metis)+

lemma platform_digest:
  assumes "platform_ok P"
  shows "length (p_sha256 P x) = 32" "length (p_sha3_256 P x) = 32" "length (p_sha3_512 P x) = 64"
    "length (p_ed25519_sign P x sk) = 64" "length (p_ed448_sign P x sk) = 114"
    "p_x448_dh P sk pk = Some ss \<Longrightarrow> length ss = 56"
  using assms unfolding platform_ok_def by - (elim conjE, metis)+

lemma platform_drbg:
  "platform_ok P \<Longrightarrow> p_drbg_generate P d n = (d', Inr out) \<Longrightarrow> length out = n"
  by (auto simp: platform_ok_def)

lemma platform_virtio:
  "platform_ok P \<Longrightarrow> p_virtio_request P m s = (m', s', r) \<Longrightarrow> length s' = length s"
  unfolding platform_ok_def by blast

text \<open>
  A concrete platform, used to show that the hypotheses on the platform can hold together: the
  "hash" repeats the xor of its input, verification compares the signature with a fixed pattern,
  the DRBG is a counter, the machine state is the cycle counter.
\<close>

definition sum_byte :: "bytes \<Rightarrow> u8" where
  "sum_byte bs = fold (+) bs 0"

definition demo_platform :: "(u64, u64) platform" where
  "demo_platform =
     \<lparr>p_blake3 = (\<lambda>x. Some (replicate 32 (sum_byte x))),
      p_blake3_xof = (\<lambda>x n. Some (replicate n (sum_byte x + 1))),
      p_mldsa44_verify = (\<lambda>pk m sig ctx. Some (sig = replicate 2420 7)),
      p_mldsa44_keygen = (\<lambda>s. Some (replicate 1312 (sum_byte s), replicate 2560 (sum_byte s))),
      p_mldsa44_sign = (\<lambda>sk m ctx rnd. Some (replicate 2420 7)),
      p_aes256gcm_encrypt = (\<lambda>k n a pt. (pt, replicate 16 (sum_byte k))),
      p_aes256gcm_decrypt = (\<lambda>k n a ct t. if t = replicate 16 (sum_byte k) then Some ct else None),
      p_chacha_encrypt = (\<lambda>k n a pt. Some (pt, replicate 16 (sum_byte k))),
      p_chacha_decrypt = (\<lambda>k n a ct t. if t = replicate 16 (sum_byte k) then Some ct else None),
      p_sha256 = (\<lambda>x. replicate 32 (sum_byte x)),
      p_sha3_256 = (\<lambda>x. replicate 32 (sum_byte x)),
      p_sha3_512 = (\<lambda>x. replicate 64 (sum_byte x)),
      p_ed25519_sign = (\<lambda>x sk. replicate 64 (sum_byte x)),
      p_ed25519_verify = (\<lambda>x sig pk. sig = replicate 64 (sum_byte x)),
      p_ed448_sign = (\<lambda>x sk. replicate 114 (sum_byte x)),
      p_ed448_verify = (\<lambda>x sig pk. sig = replicate 114 (sum_byte x)),
      p_x448_dh = (\<lambda>sk pk. Some (replicate 56 (sum_byte sk + sum_byte pk))),
      p_drbg_new = (\<lambda>e n p. Some 0),
      p_drbg_generate = (\<lambda>d n. (d + 1, Inr (replicate n (ucast (d + 1))))),
      p_drbg_reseed = (\<lambda>d e. (d, True)),
      p_has_rdseed = True,
      p_has_rdrand = True,
      p_rdseed64 = (\<lambda>m. (m + 1, Some (m + 3))),
      p_rdrand64 = (\<lambda>m. (m + 1, Some (m + 5))),
      p_rdtsc = (\<lambda>m. (m + 7, m)),
      p_cpuid = (\<lambda>l. (1, 1, 1000000, 0)),
      p_cmos_status_a = (\<lambda>m. (m + 1, 0)),
      p_virtio_request = (\<lambda>m s. (m, map (\<lambda>i. of_nat (i + 1)) [0..<length s], Some (length s))),
      p_entropy_degraded_ok = False\<rparr>"

lemma demo_fields [simp]:
  "p_blake3 demo_platform x = Some (replicate 32 (sum_byte x))"
  "p_blake3_xof demo_platform x n = Some (replicate n (sum_byte x + 1))"
  "p_mldsa44_verify demo_platform pk msg sig ctx = Some (sig = replicate 2420 7)"
  "p_mldsa44_keygen demo_platform x = Some (replicate 1312 (sum_byte x), replicate 2560 (sum_byte x))"
  "p_mldsa44_sign demo_platform sk msg ctx rnd = Some (replicate 2420 7)"
  "p_aes256gcm_encrypt demo_platform k nonce a pt = (pt, replicate 16 (sum_byte k))"
  "p_aes256gcm_decrypt demo_platform k nonce a ct t =
     (if t = replicate 16 (sum_byte k) then Some ct else None)"
  "p_chacha_encrypt demo_platform k nonce a pt = Some (pt, replicate 16 (sum_byte k))"
  "p_chacha_decrypt demo_platform k nonce a ct t =
     (if t = replicate 16 (sum_byte k) then Some ct else None)"
  "p_sha256 demo_platform x = replicate 32 (sum_byte x)"
  "p_ed25519_sign demo_platform x sk = replicate 64 (sum_byte x)"
  "p_ed25519_verify demo_platform x sig pk = (sig = replicate 64 (sum_byte x))"
  "p_x448_dh demo_platform sk pk = Some (replicate 56 (sum_byte sk + sum_byte pk))"
  "p_drbg_new demo_platform e nonce pers = Some 0"
  "p_drbg_generate demo_platform d n = (d + 1, Inr (replicate n (ucast (d + 1))))"
  "p_drbg_reseed demo_platform d e = (d, True)"
  "p_has_rdseed demo_platform" "p_has_rdrand demo_platform"
  "p_rdseed64 demo_platform m = (m + 1, Some (m + 3))"
  "p_rdrand64 demo_platform m = (m + 1, Some (m + 5))"
  "p_rdtsc demo_platform m = (m + 7, m)"
  "p_cpuid demo_platform l = (1, 1, 1000000, 0)"
  "p_cmos_status_a demo_platform m = (m + 1, 0)"
  "p_virtio_request demo_platform m scr = (m, map (\<lambda>i. of_nat (i + 1)) [0..<length scr], Some (length scr))"
  "\<not> p_entropy_degraded_ok demo_platform"
  by (simp_all add: demo_platform_def)

lemma demo_platform_ok: "platform_ok demo_platform"
  by (simp add: platform_ok_def demo_platform_def crate_sizes)

end
