(* ===== verification/EntropyHealth.thy ===== *)
theory EntropyHealth
  imports Prelude
begin

text \<open>
  \<^verbatim>\<open>src/src/arch/common/entropy/health.rs\<close>: the per-source health test of SP 800-90B, a
  repetition count test and an adaptive proportion test evaluated sample by sample, with the
  re-admission counter. The state machine is shown to compute the two tests as they are defined
  on the history of samples.
\<close>

definition APT_WINDOW :: nat where "APT_WINDOW = 1024"
definition RCT_CUTOFF :: u32 where "RCT_CUTOFF = 41"
definition APT_CUTOFF :: u32 where "APT_CUTOFF = 793"
definition REENTRY_THRESHOLD :: u32 where "REENTRY_THRESHOLD = 16"

lemmas health_consts = APT_WINDOW_def RCT_CUTOFF_def APT_CUTOFF_def REENTRY_THRESHOLD_def

datatype HealthVerdict = Pass | Fail | NeedMoreData

record StreamHealth =
  rct_last :: u8
  rct_count :: u32
  apt_window :: bytes
  apt_idx :: nat
  apt_observed_count :: u32
  apt_initial :: u8
  apt_filled :: nat
  consecutive_pass :: u32
  disabled :: bool

definition health_new :: StreamHealth where
  "health_new =
     \<lparr>rct_last = 0, rct_count = 0, apt_window = replicate APT_WINDOW 0, apt_idx = 0,
      apt_observed_count = 0, apt_initial = 0, apt_filled = 0, consecutive_pass = 0,
      disabled = False\<rparr>"

definition is_disabled :: "StreamHealth \<Rightarrow> bool" where
  "is_disabled h = disabled h"

subsection \<open>The evaluator\<close>

text \<open>
  \<open>check\<close> in the order of the code: the repetition count test with its early return, the
  re-admission counter, then the proportion test. The three parts are separate definitions so
  that each has its own lemma; \<open>check\<close> composes them.
\<close>

definition rct_step :: "StreamHealth \<Rightarrow> u8 \<Rightarrow> StreamHealth" where
  "rct_step h sample =
     (if sample = rct_last h then h\<lparr>rct_count := sat_add (rct_count h) 1\<rparr>
      else h\<lparr>rct_count := 1, rct_last := sample\<rparr>)"

definition readmit_step :: "StreamHealth \<Rightarrow> StreamHealth" where
  "readmit_step h =
     (let h1 = h\<lparr>consecutive_pass := sat_add (consecutive_pass h) 1\<rparr>
      in if disabled h1 \<and> REENTRY_THRESHOLD \<le> consecutive_pass h1 then h1\<lparr>disabled := False\<rparr>
         else h1)"

definition apt_count_step :: "StreamHealth \<Rightarrow> u8 \<Rightarrow> StreamHealth" where
  "apt_count_step h sample =
     (let h1 = (if apt_filled h = 0 then h\<lparr>apt_initial := sample, apt_observed_count := 1\<rparr>
                else if sample = apt_initial h
                then h\<lparr>apt_observed_count := sat_add (apt_observed_count h) 1\<rparr> else h)
      in h1\<lparr>apt_filled := apt_filled h1 + 1\<rparr>)"

definition apt_step :: "StreamHealth \<Rightarrow> u8 \<Rightarrow> StreamHealth \<times> HealthVerdict" where
  "apt_step h sample =
     (if apt_filled h < APT_WINDOW then
        let h1 = apt_count_step h sample
        in if apt_filled h1 < APT_WINDOW then (h1, NeedMoreData)
           else
             let observed = apt_observed_count h1;
                 h2 = h1\<lparr>apt_filled := 0, apt_observed_count := 0\<rparr>
             in if APT_CUTOFF \<le> observed
                then (h2\<lparr>disabled := True, consecutive_pass := 0\<rparr>, Fail)
                else (h2, Pass)
      else (h, Pass))"

definition check :: "StreamHealth \<Rightarrow> u8 \<Rightarrow> StreamHealth \<times> HealthVerdict" where
  "check h sample =
     (let h1 = rct_step h sample
      in if sample = rct_last h \<and> RCT_CUTOFF \<le> rct_count h1
         then (h1\<lparr>disabled := True, consecutive_pass := 0\<rparr>, Fail)
         else apt_step (readmit_step h1) sample)"

fun check_all :: "StreamHealth \<Rightarrow> bytes \<Rightarrow> StreamHealth \<times> HealthVerdict list" where
  "check_all h [] = (h, [])"
| "check_all h (x # xs) =
     (let (h1, v) = check h x; (h2, vs) = check_all h1 xs in (h2, v # vs))"

subsection \<open>The tests on the history\<close>

text \<open>
  The reference: \<open>run_length\<close> is the length of the run of equal samples that ends the
  history; \<open>hs_window\<close> collects the samples of the current proportion window, into which a
  sample rejected by the repetition test does not go.
\<close>

definition run_length :: "bytes \<Rightarrow> nat" where
  "run_length hist = length (takeWhile (\<lambda>x. x = last hist) (rev hist))"

record health_spec =
  hs_history :: bytes
  hs_window :: bytes

definition spec_check :: "health_spec \<Rightarrow> u8 \<Rightarrow> health_spec \<times> HealthVerdict" where
  "spec_check s x =
     (let hist = hs_history s @ [x]; w = hs_window s @ [x]
      in if 41 \<le> run_length hist then (s\<lparr>hs_history := hist\<rparr>, Fail)
         else if length w < 1024 then (\<lparr>hs_history = hist, hs_window = w\<rparr>, NeedMoreData)
         else (\<lparr>hs_history = hist, hs_window = []\<rparr>,
               if 793 \<le> count_list w (hd w) then Fail else Pass))"

definition health_rel :: "StreamHealth \<Rightarrow> health_spec \<Rightarrow> bool" where
  "health_rel h s \<longleftrightarrow>
     (if hs_history s = [] then rct_last h = 0 \<and> rct_count h = 0
      else rct_last h = last (hs_history s) \<and>
           unat (rct_count h) = min (run_length (hs_history s)) (2 ^ 32 - 1)) \<and>
     apt_filled h = length (hs_window s) \<and> length (hs_window s) < 1024 \<and>
     (hs_window s \<noteq> [] \<longrightarrow>
        apt_initial h = hd (hs_window s) \<and>
        unat (apt_observed_count h) = count_list (hs_window s) (hd (hs_window s)))"

lemma run_length_Nil [simp]: "run_length [] = 0"
  by (simp add: run_length_def)

lemma run_length_snoc:
  "run_length (h @ [x]) = (if h \<noteq> [] \<and> last h = x then Suc (run_length h) else 1)"
proof (cases "h = []")
  case True
  then show ?thesis by (simp add: run_length_def)
next
  case False
  then obtain ys y where "h = ys @ [y]" by (metis rev_exhaust)
  then show ?thesis by (auto simp: run_length_def)
qed

lemma health_new_rel: "health_rel health_new \<lparr>hs_history = [], hs_window = []\<rparr>"
  by (simp add: health_rel_def health_new_def)

lemma rct_step_rel:
  assumes "health_rel h s"
  shows "rct_last (rct_step h x) = x"
    and "unat (rct_count (rct_step h x)) = min (run_length (hs_history s @ [x])) (2 ^ 32 - 1)"
  using assms
  by (auto simp: health_rel_def rct_step_def run_length_snoc unat_sat_add split: if_splits)

lemma rct_fails_iff:
  assumes "health_rel h s"
  shows "x = rct_last h \<and> RCT_CUTOFF \<le> rct_count (rct_step h x)
     \<longleftrightarrow> 41 \<le> run_length (hs_history s @ [x])"
proof -
  have "RCT_CUTOFF \<le> rct_count (rct_step h x) \<longleftrightarrow> 41 \<le> run_length (hs_history s @ [x])"
    using rct_step_rel(2) [OF assms, of x] by (simp add: word_le_nat_alt RCT_CUTOFF_def)
  moreover have "x = rct_last h" if "41 \<le> run_length (hs_history s @ [x])"
    using that assms by (auto simp: health_rel_def run_length_snoc split: if_splits)
  ultimately show ?thesis by blast
qed

lemma readmit_frame [simp]:
  "rct_last (readmit_step h) = rct_last h" "rct_count (readmit_step h) = rct_count h"
  "apt_filled (readmit_step h) = apt_filled h" "apt_initial (readmit_step h) = apt_initial h"
  "apt_observed_count (readmit_step h) = apt_observed_count h"
  by (simp_all add: readmit_step_def Let_def)

lemma rct_frame [simp]:
  "apt_filled (rct_step h x) = apt_filled h" "apt_initial (rct_step h x) = apt_initial h"
  "apt_observed_count (rct_step h x) = apt_observed_count h"
  by (simp_all add: rct_step_def)

lemma apt_count_frame [simp]:
  "rct_last (apt_count_step h x) = rct_last h" "rct_count (apt_count_step h x) = rct_count h"
  "apt_filled (apt_count_step h x) = Suc (apt_filled h)"
  by (simp_all add: apt_count_step_def Let_def)

lemma apt_count_rel:
  assumes "apt_filled h = length w" "length w < 1024"
    and "w \<noteq> [] \<longrightarrow> apt_initial h = hd w \<and> unat (apt_observed_count h) = count_list w (hd w)"
  shows "apt_initial (apt_count_step h x) = hd (w @ [x])"
    and "unat (apt_observed_count (apt_count_step h x)) = count_list (w @ [x]) (hd (w @ [x]))"
proof -
  have "count_list w (hd w) \<le> length w" by (rule count_le_length)
  then show "apt_initial (apt_count_step h x) = hd (w @ [x])"
    and "unat (apt_observed_count (apt_count_step h x)) = count_list (w @ [x]) (hd (w @ [x]))"
    using assms by (cases w; auto simp: apt_count_step_def Let_def unat_sat_add)+
qed

text \<open>One step of the evaluator is one step of the reference: same verdict, related states.\<close>

lemma check_refines:
  assumes rel: "health_rel h s"
  shows "snd (check h x) = snd (spec_check s x) \<and> health_rel (fst (check h x)) (fst (spec_check s x))"
proof (cases "41 \<le> run_length (hs_history s @ [x])")
  case True
  have "check h x = ((rct_step h x)\<lparr>disabled := True, consecutive_pass := 0\<rparr>, Fail)"
    using True rct_fails_iff [OF rel, of x] by (auto simp: check_def Let_def)
  moreover have "spec_check s x = (s\<lparr>hs_history := hs_history s @ [x]\<rparr>, Fail)"
    using True by (simp add: spec_check_def Let_def)
  moreover have "health_rel ((rct_step h x)\<lparr>disabled := True, consecutive_pass := 0\<rparr>)
      (s\<lparr>hs_history := hs_history s @ [x]\<rparr>)"
    using rct_step_rel [OF rel, of x] rel by (simp add: health_rel_def)
  ultimately show ?thesis by simp
next
  case False
  let ?w = "hs_window s"
  let ?g = "readmit_step (rct_step h x)"
  have nf: "\<not> (x = rct_last h \<and> RCT_CUTOFF \<le> rct_count (rct_step h x))"
    using False rct_fails_iff [OF rel, of x] by simp
  have w: "apt_filled ?g = length ?w" "length ?w < 1024"
    "?w \<noteq> [] \<longrightarrow> apt_initial ?g = hd ?w \<and> unat (apt_observed_count ?g) = count_list ?w (hd ?w)"
    using rel by (simp_all add: health_rel_def)
  note cnt = apt_count_rel [OF w, of x]
  have cut: "APT_CUTOFF \<le> apt_observed_count (apt_count_step ?g x) \<longleftrightarrow>
      793 \<le> count_list (?w @ [x]) (hd (?w @ [x]))"
    by (simp add: word_le_nat_alt APT_CUTOFF_def cnt)
  have "check h x = apt_step ?g x" using nf by (auto simp: check_def Let_def)
  then show ?thesis
    using False w(1,2) cnt cut rct_step_rel [OF rel, of x]
    by (simp add: apt_step_def spec_check_def health_rel_def Let_def APT_WINDOW_def)
qed

lemma run_length_le: "run_length hist \<le> length hist"
  using length_takeWhile_le [of _ "rev hist"] by (simp add: run_length_def)

text \<open>Neither test can fail on a stream shorter than both cutoffs.\<close>

lemma short_stream_passes:
  "health_rel h s \<Longrightarrow> length (hs_history s) + length xs < 41 \<Longrightarrow> length (hs_window s) + length xs < 1024
     \<Longrightarrow> Fail \<notin> set (snd (check_all h xs))"
proof (induction xs arbitrary: h s)
  case (Cons x xs)
  have nf: "\<not> 41 \<le> run_length (hs_history s @ [x])"
    using Cons.prems(2) run_length_le [of "hs_history s @ [x]"] by simp
  then have sp: "spec_check s x =
      (\<lparr>hs_history = hs_history s @ [x], hs_window = hs_window s @ [x]\<rparr>, NeedMoreData)"
    using Cons.prems(3) by (simp add: spec_check_def Let_def)
  have "Fail \<notin> set (snd (check_all (fst (check h x)) xs))"
    using Cons.IH [of "fst (check h x)" "fst (spec_check s x)"] check_refines [OF Cons.prems(1), of x]
      Cons.prems(2,3) by (simp add: sp)
  then show ?case
    using check_refines [OF Cons.prems(1), of x] by (auto simp: sp split: prod.splits)
qed simp

subsection \<open>Disabling and re-admission\<close>

lemma check_fail_disables: "snd (check h x) = Fail \<Longrightarrow> disabled (fst (check h x))"
  by (auto simp: check_def apt_step_def Let_def split: if_splits)

lemma check_fail_resets: "snd (check h x) = Fail \<Longrightarrow> consecutive_pass (fst (check h x)) = 0"
  by (auto simp: check_def apt_step_def Let_def split: if_splits)

lemma check_no_fail_counts:
  assumes "snd (check h x) \<noteq> Fail"
  shows "consecutive_pass (fst (check h x)) = sat_add (consecutive_pass h) 1"
    and "disabled (fst (check h x)) \<longleftrightarrow>
           disabled h \<and> \<not> REENTRY_THRESHOLD \<le> sat_add (consecutive_pass h) 1"
  using assms
  by (auto simp: check_def apt_step_def apt_count_step_def readmit_step_def rct_step_def Let_def
      split: if_splits)

end
