(* ===== verification/AuditRing.thy ===== *)
theory AuditRing
  imports Prelude
begin

text \<open>
  The audit ring of \<^verbatim>\<open>src/src/hsm_attest.rs\<close>: a static array of 32 enrolment events with a
  write position (\<open>head\<close>, a byte) and a running event count (\<open>total\<close>, 32 bits), the
  operations \<open>audit_enqueue\<close> and \<open>audit_snapshot\<close>, and the proof that the ring implements an
  append-only log of which a reader sees the last 32 entries, oldest first, for as long as the
  32-bit counter has not wrapped.
\<close>

subsection \<open>Data\<close>

definition AUDIT_RING_CAPACITY :: nat where
  "AUDIT_RING_CAPACITY = 32"

record enroll_event =
  ev_seq :: u32
  ev_slot_idx :: u8
  ev_result :: u8
  ev_bus_kind :: u8
  ev_pad :: u8
  ev_pk_hash_prefix :: bytes

definition enroll_event_default :: enroll_event where
  "enroll_event_default =
     \<lparr>ev_seq = 0, ev_slot_idx = 0, ev_result = 0, ev_bus_kind = 0, ev_pad = 0,
      ev_pk_hash_prefix = replicate 4 0\<rparr>"

record audit_ring =
  events :: "enroll_event list"
  head :: u8
  total :: u32

definition audit_ring_init :: audit_ring where
  "audit_ring_init =
     \<lparr>events = replicate AUDIT_RING_CAPACITY enroll_event_default, head = 0, total = 0\<rparr>"

subsection \<open>Operations\<close>

definition audit_enqueue :: "u8 \<Rightarrow> u8 \<Rightarrow> u8 \<Rightarrow> bytes \<Rightarrow> audit_ring \<Rightarrow> audit_ring" where
  "audit_enqueue slot_idx result bus_kind pk_hash_prefix r =
     (let i = unat (head r) mod AUDIT_RING_CAPACITY
      in r\<lparr>events := (events r)[i := \<lparr>ev_seq = total r, ev_slot_idx = slot_idx,
                                    ev_result = result, ev_bus_kind = bus_kind, ev_pad = 0,
                                    ev_pk_hash_prefix = pk_hash_prefix\<rparr>],
           head := of_nat ((unat (head r) + 1) mod AUDIT_RING_CAPACITY),
           total := total r + 1\<rparr>)"

text \<open>The caller's buffer is returned with the copied prefix, then the pair the code returns.\<close>

definition audit_snapshot ::
  "audit_ring \<Rightarrow> enroll_event list \<Rightarrow> enroll_event list \<times> nat \<times> u32" where
  "audit_snapshot r out =
     (let cap = min (length out) AUDIT_RING_CAPACITY;
          valid = min (unat (total r)) AUDIT_RING_CAPACITY;
          start = (if AUDIT_RING_CAPACITY < unat (total r) then unat (head r) else 0);
          n = min valid cap
      in (map (\<lambda>i. events r ! ((start + i) mod AUDIT_RING_CAPACITY)) [0..<n] @ drop n out,
          n, total r))"

subsection \<open>The abstract log\<close>

text \<open>
  The interface of a bounded view of an append-only log. \<open>rel r log\<close> says that the
  concrete \<open>r\<close> stands for the history \<open>log\<close>; \<open>mk n a\<close> is the entry that the
  \<open>n\<close>-th append of \<open>a\<close> writes; the provider promises its laws for histories shorter
  than \<open>limit\<close>.
\<close>

locale bounded_log =
  fixes rel :: "'r \<Rightarrow> 'e list \<Rightarrow> bool"
    and push :: "'a \<Rightarrow> 'r \<Rightarrow> 'r"
    and recent :: "'r \<Rightarrow> 'e list"
    and start :: 'r
    and mk :: "nat \<Rightarrow> 'a \<Rightarrow> 'e"
    and cap :: nat
    and limit :: nat
  assumes rel_start: "rel start []"
    and rel_push: "rel r log \<Longrightarrow> Suc (length log) < limit \<Longrightarrow> rel (push a r) (log @ [mk (length log) a])"
    and rel_recent: "rel r log \<Longrightarrow> recent r = drop (length log - cap) log"
begin

definition history :: "'a list \<Rightarrow> 'e list" where
  "history as = map (\<lambda>(i, a). mk i a) (enumerate 0 as)"

lemma history_snoc: "history (as @ [a]) = history as @ [mk (length as) a]"
  by (simp add: history_def enumerate_append_eq)

lemma length_history [simp]: "length (history as) = length as"
  by (simp add: history_def)

lemma rel_run: "length as < limit \<Longrightarrow> rel (fold push as start) (history as)"
proof (induction as rule: rev_induct)
  case Nil
  then show ?case using rel_start by (simp add: history_def)
next
  case (snoc a as)
  then have "rel (fold push as start) (history as)" by simp
  then show ?case using snoc.prems rel_push [of _ "history as" a] by (simp add: history_snoc)
qed

lemma recent_run:
  "length as < limit \<Longrightarrow> recent (fold push as start) = drop (length as - cap) (history as)"
  using rel_recent [OF rel_run] by simp

end

subsection \<open>The ring implements the log\<close>

type_synonym audit_args = "u8 \<times> u8 \<times> u8 \<times> bytes"

definition audit_push :: "audit_args \<Rightarrow> audit_ring \<Rightarrow> audit_ring" where
  "audit_push a r = (case a of (slot, res, kind, pre) \<Rightarrow> audit_enqueue slot res kind pre r)"

definition audit_entry :: "nat \<Rightarrow> audit_args \<Rightarrow> enroll_event" where
  "audit_entry n a = (case a of (slot, res, kind, pre) \<Rightarrow>
     \<lparr>ev_seq = of_nat n, ev_slot_idx = slot, ev_result = res, ev_bus_kind = kind, ev_pad = 0,
      ev_pk_hash_prefix = pre\<rparr>)"

definition audit_recent :: "audit_ring \<Rightarrow> enroll_event list" where
  "audit_recent r =
     (case audit_snapshot r (replicate AUDIT_RING_CAPACITY enroll_event_default) of
        (out, n, _) \<Rightarrow> take n out)"

definition ring_stands_for :: "audit_ring \<Rightarrow> enroll_event list \<Rightarrow> bool" where
  "ring_stands_for r log \<longleftrightarrow>
     length (events r) = AUDIT_RING_CAPACITY \<and> length log < 2 ^ 32 \<and>
     total r = of_nat (length log) \<and> head r = of_nat (length log mod AUDIT_RING_CAPACITY) \<and>
     (\<forall>j < length log. length log \<le> j + AUDIT_RING_CAPACITY \<longrightarrow>
        events r ! (j mod AUDIT_RING_CAPACITY) = log ! j)"

lemma ring_head_unat: "ring_stands_for r log \<Longrightarrow> unat (head r) = length log mod 32"
  by (simp add: ring_stands_for_def AUDIT_RING_CAPACITY_def unat_of_nat)

lemma ring_total_unat: "ring_stands_for r log \<Longrightarrow> unat (total r) = length log"
  by (simp add: ring_stands_for_def unat_of_nat)

lemma mod_32_window:
  assumes "j mod 32 = n mod 32" "j < n" "n < j + (32::nat)"
  shows False
proof -
  have "32 dvd n - j" using assms by (metis less_imp_le mod_eq_dvd_iff_nat)
  then have "32 \<le> n - j" using assms by (intro dvd_imp_le) auto
  then show False using assms by simp
qed

lemma ring_push:
  assumes r: "ring_stands_for r log" and n: "Suc (length log) < 2 ^ 32"
  shows "ring_stands_for (audit_push a r) (log @ [audit_entry (length log) a])"
proof -
  obtain slot res kind pre where a: "a = (slot, res, kind, pre)" by (cases a) auto
  let ?n = "length log"
  let ?r = "audit_push a r"
  have len: "length (events r) = 32"
    and old: "\<And>j. j < ?n \<Longrightarrow> ?n \<le> j + 32 \<Longrightarrow> events r ! (j mod 32) = log ! j"
    using r by (auto simp: ring_stands_for_def AUDIT_RING_CAPACITY_def)
  have hd: "unat (head r) = ?n mod 32" by (rule ring_head_unat [OF r])
  have tot: "total r = of_nat ?n" using r by (simp add: ring_stands_for_def)
  have ev: "events ?r = (events r)[?n mod 32 := audit_entry ?n a]"
    by (simp add: audit_push_def audit_enqueue_def a hd tot AUDIT_RING_CAPACITY_def
        audit_entry_def)
  have "events ?r ! (j mod 32) = (log @ [audit_entry ?n a]) ! j"
    if "j < Suc ?n" "Suc ?n \<le> j + 32" for j
  proof (cases "j = ?n")
    case True
    then show ?thesis by (simp add: ev len)
  next
    case False
    with that have "j < ?n" "?n < j + 32" by auto
    then have "j mod 32 \<noteq> ?n mod 32" using mod_32_window by metis
    then show ?thesis using old \<open>j < ?n\<close> \<open>?n < j + 32\<close> by (simp add: ev nth_append)
  qed
  moreover have "head ?r = of_nat (Suc ?n mod 32)"
    by (simp add: audit_push_def audit_enqueue_def a hd AUDIT_RING_CAPACITY_def Let_def mod_Suc_eq)
  moreover have "total ?r = of_nat (Suc ?n)"
    by (simp add: audit_push_def audit_enqueue_def a tot Let_def)
  ultimately show ?thesis
    using n by (simp add: ring_stands_for_def AUDIT_RING_CAPACITY_def ev len)
qed

lemma ring_recent:
  assumes r: "ring_stands_for r log"
  shows "audit_recent r = drop (length log - AUDIT_RING_CAPACITY) log"
proof -
  let ?n = "length log"
  have tot: "unat (total r) = ?n" by (rule ring_total_unat [OF r])
  have hd: "unat (head r) = ?n mod 32" by (rule ring_head_unat [OF r])
  have old: "events r ! (j mod 32) = log ! j" if "j < ?n" "?n \<le> j + 32" for j
    using r that by (auto simp: ring_stands_for_def AUDIT_RING_CAPACITY_def)
  define st where "st = (if 32 < ?n then ?n mod 32 else 0)"
  have idx: "(st + i) mod 32 = (?n - 32 + i) mod 32" for i
    by (auto simp: st_def mod_add_left_eq le_mod_geq [of 32 "?n + i"])
  have cell: "events r ! ((st + i) mod 32) = drop (?n - 32) log ! i" if "i < min ?n 32" for i
  proof -
    have "?n - 32 + i < ?n" "?n \<le> ?n - 32 + i + 32" using that by auto
    then show ?thesis using old by (simp add: idx)
  qed
  have "take (min ?n 32) (map (\<lambda>i. events r ! ((st + i) mod 32)) [0..<min ?n 32] @ xs)
        = drop (?n - 32) log" for xs
    using cell by (intro nth_equalityI) simp_all
  then show ?thesis
    unfolding audit_recent_def audit_snapshot_def Let_def AUDIT_RING_CAPACITY_def tot hd
      st_def [symmetric]
    by simp
qed

lemma ring_start: "ring_stands_for audit_ring_init []"
  by (simp add: ring_stands_for_def audit_ring_init_def)

interpretation aring: bounded_log ring_stands_for audit_push audit_recent audit_ring_init
  audit_entry AUDIT_RING_CAPACITY "2 ^ 32"
  by unfold_locales (rule ring_start, erule (1) ring_push, erule ring_recent)

subsection \<open>Layout and frame facts\<close>

lemma audit_enqueue_length [layout_simps, simp]:
  "length (events (audit_enqueue s x k p r)) = length (events r)"
  by (simp add: audit_enqueue_def Let_def)

lemma audit_enqueue_total [simp]: "total (audit_enqueue s x k p r) = total r + 1"
  by (simp add: audit_enqueue_def Let_def)

definition ring_ok :: "audit_ring \<Rightarrow> bool" where
  "ring_ok r \<longleftrightarrow> length (events r) = AUDIT_RING_CAPACITY \<and>
     (\<forall>e \<in> set (events r). length (ev_pk_hash_prefix e) = 4)"

lemma ring_ok_init: "ring_ok audit_ring_init"
  by (simp add: ring_ok_def audit_ring_init_def enroll_event_default_def)

lemma ring_ok_enqueue [intro]: "ring_ok r \<Longrightarrow> length p = 4 \<Longrightarrow> ring_ok (audit_enqueue s x k p r)"
  using set_update_subset_insert [of "events r" "unat (head r) mod AUDIT_RING_CAPACITY"]
  by (fastforce simp: ring_ok_def audit_enqueue_def Let_def)

lemma audit_snapshot_length:
  "audit_snapshot r out = (out', n, t) \<Longrightarrow>
     length out' = length out \<and> n \<le> length out \<and> n \<le> AUDIT_RING_CAPACITY \<and> t = total r"
  by (auto simp: audit_snapshot_def Let_def)

end
