(* ===== verification/EntropySources.thy ===== *)
theory EntropySources
  imports Platform EntropyHealth AuditRing
begin

text \<open>
  The three entropy sources and the clock they are polled against:
  \<^verbatim>\<open>src/src/arch/x86_64/entropy/hw.rs\<close> (RDSEED with RDRAND fallback),
  \<^verbatim>\<open>src/src/arch/common/entropy/virtio_rng.rs\<close> (sentinel-checked device reads),
  \<^verbatim>\<open>src/src/arch/common/entropy/jitter.rs\<close> (timing jitter, von Neumann debiasing, boot
  self-test, RTC calibration) and \<^verbatim>\<open>src/src/arch/cpu.rs\<close> (timer frequency). The record
  holds the modules' static variables.
\<close>

datatype EntropyError = QuorumFailed | SourceUnavailable | HealthTestFailed

record 'm entropy_state =
  mach :: 'm
  virtio_scratch :: bytes
  virtio_present :: bool
  jitter_pool :: bytes
  jitter_disabled :: bool
  boot_self_test_buf :: bytes
  hw_health :: StreamHealth
  virtio_health :: StreamHealth
  jitter_health :: StreamHealth
  sources_available_at_boot :: u8
  sources_latched :: bool
  audit :: audit_ring

subsection \<open>Hardware instructions\<close>

definition HW_RNG_MAX_RETRIES :: nat where "HW_RNG_MAX_RETRIES = 1024"

fun hw_retry :: "('m \<Rightarrow> 'm \<times> u64 option) \<Rightarrow> nat \<Rightarrow> 'm \<Rightarrow> 'm \<times> u64 option" where
  "hw_retry instr 0 m = (m, None)"
| "hw_retry instr (Suc n) m =
     (case instr m of (m1, Some v) \<Rightarrow> (m1, Some v) | (m1, None) \<Rightarrow> hw_retry instr n m1)"

lemma hw_retry_first: "instr m = (m1, Some v) \<Longrightarrow> 0 < n \<Longrightarrow> hw_retry instr n m = (m1, Some v)"
  by (cases n) simp_all

definition hw_value :: "('m, 'd) platform \<Rightarrow> 'm \<Rightarrow> 'm \<times> u64 option" where
  "hw_value P m =
     (let (m1, v) = (if p_has_rdseed P then hw_retry (p_rdseed64 P) HW_RNG_MAX_RETRIES m
                     else (m, None))
      in if v = None \<and> p_has_rdrand P then hw_retry (p_rdrand64 P) HW_RNG_MAX_RETRIES m1
         else (m1, v))"

text \<open>The loop of \<open>collect_hw_into\<close>; on failure the buffer keeps what was written so far.\<close>

function hw_fill ::
  "('m, 'd) platform \<Rightarrow> 'm \<Rightarrow> bytes \<Rightarrow> nat \<Rightarrow> 'm \<times> bytes \<times> (EntropyError + unit)" where
  "hw_fill P m buf offset =
     (if offset < length buf then
        (case hw_value P m of
           (m1, None) \<Rightarrow> (m1, buf, Inl SourceUnavailable)
         | (m1, Some v) \<Rightarrow>
             (let chunk = min 8 (length buf - offset)
              in hw_fill P m1 (take offset buf @ take chunk (to_le 8 v) @ drop (offset + chunk) buf)
                   (offset + chunk)))
      else (m, buf, Inr ()))"
  by pat_completeness auto
termination
  by (relation "measure (\<lambda>(P, m, buf, offset). length buf - offset)") auto

declare hw_fill.simps [simp del]

definition collect_hw_into ::
  "('m, 'd) platform \<Rightarrow> 'm \<Rightarrow> bytes \<Rightarrow> 'm \<times> bytes \<times> (EntropyError + unit)" where
  "collect_hw_into P m buf =
     (if \<not> p_has_rdseed P \<and> \<not> p_has_rdrand P then (m, buf, Inl SourceUnavailable)
      else hw_fill P m buf 0)"

lemma hw_fill_length:
  "hw_fill P m buf offset = (m', buf', r) \<Longrightarrow> length buf' = length buf"
proof (induction P m buf offset arbitrary: m' buf' r rule: hw_fill.induct)
  case (1 P m buf offset)
  show ?case
  proof (cases "offset < length buf")
    case False
    then show ?thesis using "1.prems" by (simp add: hw_fill.simps [of P m buf])
  next
    case True
    obtain m1 v where hv: "hw_value P m = (m1, v)" by fastforce
    show ?thesis
    proof (cases v)
      case None
      then show ?thesis using "1.prems" True hv by (simp add: hw_fill.simps [of P m buf])
    next
      case (Some w)
      let ?c = "min 8 (length buf - offset)"
      let ?b = "take offset buf @ take ?c (to_le 8 w) @ drop (offset + ?c) buf"
      have "hw_fill P m1 ?b (offset + ?c) = (m', buf', r)"
        using "1.prems" True hv Some by (simp add: hw_fill.simps [of P m buf] Let_def)
      then have "length buf' = length ?b"
        using "1.IH" [OF True hv [symmetric] Some refl] by blast
      then show ?thesis using True by (auto simp: min_def)
    qed
  qed
qed

lemma collect_hw_into_length:
  "collect_hw_into P m buf = (m', buf', r) \<Longrightarrow> length buf' = length buf"
  by (auto simp: collect_hw_into_def dest: hw_fill_length split: if_splits)

subsection \<open>virtio-rng\<close>

definition SENTINEL :: u8 where "SENTINEL = 0xFE"
definition VIRTIO_SCRATCH_LEN :: nat where "VIRTIO_SCRATCH_LEN = 32"

text \<open>
  \<open>request\<close> stands for the driver's \<open>request_entropy\<close>, which fills the scratch buffer
  and returns a byte count or an error. The result is the scratch buffer (always wiped), the
  caller's buffer, the machine state, and the byte count.
\<close>

definition sentinel_collect_with ::
  "bytes \<Rightarrow> bytes \<Rightarrow> (bytes \<Rightarrow> 'm \<times> bytes \<times> nat option) \<Rightarrow>
     bytes \<times> bytes \<times> 'm \<times> (EntropyError + nat)" where
  "sentinel_collect_with scratch buf request =
     (let filled = replicate (length scratch) SENTINEL;
          wiped = replicate (length scratch) 0;
          (m, scr, res) = request filled
      in case res of
           None \<Rightarrow> (wiped, buf, m, Inl SourceUnavailable)
         | Some n \<Rightarrow>
             if n = 0 then (wiped, buf, m, Inl SourceUnavailable)
             else if scr = replicate VIRTIO_SCRATCH_LEN SENTINEL
             then (wiped, buf, m, Inl SourceUnavailable)
             else
               let tk = min (min n VIRTIO_SCRATCH_LEN) (length buf)
               in (wiped, take tk scr @ drop tk buf, m, Inr tk))"

definition virtio_collect ::
  "('m, 'd) platform \<Rightarrow> 'm entropy_state \<Rightarrow> bytes \<Rightarrow>
     'm entropy_state \<times> bytes \<times> (EntropyError + nat)" where
  "virtio_collect P st buf =
     (if \<not> virtio_present st
      then (st\<lparr>virtio_scratch := replicate (length (virtio_scratch st)) 0\<rparr>, buf,
            Inl SourceUnavailable)
      else
        let (scr, buf', m, r) =
              sentinel_collect_with (virtio_scratch st) buf (p_virtio_request P (mach st))
        in (st\<lparr>virtio_scratch := scr, mach := m\<rparr>, buf', r))"

lemma sentinel_wipes:
  "sentinel_collect_with scratch buf request = (scr, buf', m, r) \<Longrightarrow>
     scr = replicate (length scratch) 0"
  by (auto simp: sentinel_collect_with_def Let_def split: prod.splits option.splits if_splits)

lemma sentinel_changed:
  assumes "sentinel_collect_with scratch buf request = (scr, buf', m, Inr k)"
    "length scratch = VIRTIO_SCRATCH_LEN"
  shows "\<exists>s n. request (replicate VIRTIO_SCRATCH_LEN SENTINEL) = (m, s, Some n) \<and> 0 < n \<and>
           s \<noteq> replicate VIRTIO_SCRATCH_LEN SENTINEL \<and>
           k = min (min n VIRTIO_SCRATCH_LEN) (length buf) \<and> buf' = take k s @ drop k buf"
  using assms
  by (auto simp: sentinel_collect_with_def Let_def split: prod.splits option.splits if_splits)

subsection \<open>Timing jitter\<close>

definition POOL_SIZE :: nat where "POOL_SIZE = 2048"
definition SAMPLES_PER_BYTE :: nat where "SAMPLES_PER_BYTE = 64"
definition BOOT_SELF_TEST_SAMPLES :: nat where "BOOT_SELF_TEST_SAMPLES = 16384"

definition fold_one :: "nat \<Rightarrow> bytes \<times> u64 \<Rightarrow> bytes \<times> u64" where
  "fold_one idx s =
     (case s of (pool, acc) \<Rightarrow>
        let v = pool ! idx * ucast ((0x9E3779B1 :: u32) * (of_nat idx + 1))
        in (pool[idx := v], acc + ucast v))"

definition jitter_fold_step :: "bytes \<Rightarrow> bytes \<times> u64" where
  "jitter_fold_step pool = fold fold_one [0..<POOL_SIZE] (pool, 0)"

lemma fold_one_length: "length (fst (fold_one i s)) = length (fst s)"
  by (simp add: fold_one_def Let_def split: prod.splits)

lemma jitter_fold_length: "length (fst (jitter_fold_step pool)) = length pool"
proof -
  have "length (fst (fold fold_one xs s)) = length (fst s)" for xs s
    by (induction xs arbitrary: s) (simp_all add: fold_one_length)
  then show ?thesis by (simp add: jitter_fold_step_def)
qed

text \<open>
  The pool is a zero-initialised static and every step multiplies it in place, so it stays zero
  and the accumulated value is zero: the fold contributes its running time, never data.
\<close>

lemma jitter_fold_zero:
  "jitter_fold_step (replicate POOL_SIZE 0) = (replicate POOL_SIZE 0, 0)"
proof -
  have upd: "(replicate n x)[i := x] = replicate n x" for n i and x :: u8
    by (metis length_replicate list_update_beyond list_update_id not_le nth_replicate)
  have "fold fold_one xs (replicate POOL_SIZE 0, 0) = (replicate POOL_SIZE 0, 0)"
    if "\<forall>i \<in> set xs. i < POOL_SIZE" for xs
    using that by (induction xs) (simp_all add: fold_one_def Let_def upd)
  then show ?thesis by (simp add: jitter_fold_step_def)
qed

fun jitter_byte_loop ::
  "('m, 'd) platform \<Rightarrow> nat \<Rightarrow> 'm \<Rightarrow> bytes \<Rightarrow> u8 \<Rightarrow> u8 \<Rightarrow> 'm \<times> bytes \<times> u8 option" where
  "jitter_byte_loop P 0 m pool accumulator bit_count = (m, pool, None)"
| "jitter_byte_loop P (Suc n) m pool accumulator bit_count =
     (let (m0, t0) = p_rdtsc P m;
          (pool1, _) = jitter_fold_step pool;
          (m1, t1) = p_rdtsc P m0;
          (pool2, _) = jitter_fold_step pool1;
          (m2, t2) = p_rdtsc P m1;
          delta_a = (ucast (t1 - t0) :: u8) AND 1;
          delta_b = (ucast (t2 - t1) :: u8) AND 1;
          debiased = (if delta_a = 0 \<and> delta_b = 1 then Some (0 :: u8)
                      else if delta_a = 1 \<and> delta_b = 0 then Some 1 else None)
      in case debiased of
           None \<Rightarrow> jitter_byte_loop P n m2 pool2 accumulator bit_count
         | Some b \<Rightarrow>
             let acc1 = push_bit 1 accumulator OR b; cnt1 = bit_count + 1
             in if cnt1 = 8 then (m2, pool2, Some acc1)
                else jitter_byte_loop P n m2 pool2 acc1 cnt1)"

definition jitter_collect_byte ::
  "('m, 'd) platform \<Rightarrow> 'm entropy_state \<Rightarrow> 'm entropy_state \<times> u8 option" where
  "jitter_collect_byte P st =
     (if jitter_disabled st then (st, None)
      else
        let (m, pool, r) = jitter_byte_loop P SAMPLES_PER_BYTE (mach st) (jitter_pool st) 0 0
        in (st\<lparr>mach := m, jitter_pool := pool\<rparr>, r))"

fun self_test_loop ::
  "('m, 'd) platform \<Rightarrow> nat \<Rightarrow> nat \<Rightarrow> 'm \<Rightarrow> bytes \<Rightarrow> bytes \<Rightarrow> StreamHealth \<Rightarrow> nat \<Rightarrow>
     'm \<times> bytes \<times> bytes \<times> nat" where
  "self_test_loop P 0 i m pool buf health fail_count = (m, pool, buf, fail_count)"
| "self_test_loop P (Suc n) i m pool buf health fail_count =
     (let (m0, t0) = p_rdtsc P m;
          (pool1, _) = jitter_fold_step pool;
          (m1, t1) = p_rdtsc P m0;
          sample = (ucast (t1 - t0) :: u8);
          (health1, v) = check health sample
      in self_test_loop P n (i + 1) m1 pool1 (buf[i := sample]) health1
           (if v = Fail then fail_count + 1 else fail_count))"

definition jitter_boot_self_test ::
  "('m, 'd) platform \<Rightarrow> 'm entropy_state \<Rightarrow> 'm entropy_state \<times> bool" where
  "jitter_boot_self_test P st =
     (let (m, pool, buf, fail_count) =
            self_test_loop P BOOT_SELF_TEST_SAMPLES 0 (mach st) (jitter_pool st)
              (boot_self_test_buf st) health_new 0;
          st1 = st\<lparr>mach := m, jitter_pool := pool, boot_self_test_buf := buf\<rparr>;
          pass_count = BOOT_SELF_TEST_SAMPLES - fail_count
      in if pass_count * 2 < BOOT_SELF_TEST_SAMPLES
         then (st1\<lparr>jitter_disabled := True\<rparr>, False)
         else (st1, True))"

lemma self_test_fail_count:
  "self_test_loop P n i m pool buf h f = (m', pool', buf', f') \<Longrightarrow> f \<le> f' \<and> f' \<le> f + n"
  by (induction P n i m pool buf h f rule: self_test_loop.induct)
     (force simp: Let_def split: prod.splits if_splits)+

text \<open>A source that failed its boot self-test yields no byte from then on.\<close>

lemma jitter_disabled_no_byte:
  "jitter_disabled st \<Longrightarrow> jitter_collect_byte P st = (st, None)"
  by (simp add: jitter_collect_byte_def)

subsection \<open>The clock\<close>

definition CALIBRATE_LOOP_ITERS :: nat where "CALIBRATE_LOOP_ITERS = 8000000"

fun wait_uip_loop :: "('m, 'd) platform \<Rightarrow> nat \<Rightarrow> bool \<Rightarrow> 'm \<Rightarrow> 'm \<times> u64 option" where
  "wait_uip_loop P 0 seen_high m = (m, None)"
| "wait_uip_loop P (Suc n) seen_high m =
     (let (m1, a) = p_cmos_status_a P m; uip = a AND 0x80
      in if uip \<noteq> 0 then wait_uip_loop P n True m1
         else if seen_high then (let (m2, t) = p_rdtsc P m1 in (m2, Some t))
         else wait_uip_loop P n seen_high m1)"

definition wait_uip_falling_edge :: "('m, 'd) platform \<Rightarrow> 'm \<Rightarrow> 'm \<times> u64 option" where
  "wait_uip_falling_edge P m = wait_uip_loop P CALIBRATE_LOOP_ITERS False m"

definition calibrate_tsc_via_rtc :: "('m, 'd) platform \<Rightarrow> 'm \<Rightarrow> 'm \<times> u64 option" where
  "calibrate_tsc_via_rtc P m =
     (case wait_uip_falling_edge P m of
        (m1, None) \<Rightarrow> (m1, None)
      | (m1, Some t0) \<Rightarrow>
          (case wait_uip_falling_edge P m1 of
             (m2, None) \<Rightarrow> (m2, None)
           | (m2, Some t1) \<Rightarrow>
               let ticks = t1 - t0 in if ticks = 0 then (m2, None) else (m2, Some ticks)))"

datatype TimerKind = InvariantTsc | JitterCalibration

definition timer_frequency ::
  "('m, 'd) platform \<Rightarrow> 'm \<Rightarrow> 'm \<times> (u64 \<times> TimerKind) option" where
  "timer_frequency P m =
     (let (eax, ebx, ecx, edx) = p_cpuid P 0x15
      in if eax \<noteq> 0 \<and> ebx \<noteq> 0 \<and> ecx \<noteq> 0
         then (m, Some (ucast ecx * ucast ebx div ucast eax, InvariantTsc))
         else
           let (eax16, ebx16, ecx16, edx16) = p_cpuid P 0x16
           in if eax16 AND 0xFFFF \<noteq> 0
              then (m, Some (ucast (eax16 AND 0xFFFF) * 1000000, InvariantTsc))
              else
                (case calibrate_tsc_via_rtc P m of
                   (m1, None) \<Rightarrow> (m1, None)
                 | (m1, Some hz) \<Rightarrow> (m1, Some (hz, JitterCalibration))))"

definition elapsed_since_boot_ms :: "('m, 'd) platform \<Rightarrow> 'm \<Rightarrow> 'm \<times> u64" where
  "elapsed_since_boot_ms P m =
     (let (m1, ticks) = p_rdtsc P m; (m2, tf) = timer_frequency P m1
      in case tf of
           Some (hz, k) \<Rightarrow> if 1000 \<le> hz then (m2, ticks div (hz div 1000)) else (m2, 0)
         | None \<Rightarrow> (m2, 0))"

lemma calibrate_never_zero: "calibrate_tsc_via_rtc P m = (m', Some hz) \<Longrightarrow> hz \<noteq> 0"
  by (auto simp: calibrate_tsc_via_rtc_def Let_def split: prod.splits option.splits if_splits)

end
