(* ===== verification/EntropyQuorum.thy ===== *)
theory EntropyQuorum
  imports EntropySources
begin

text \<open>
  The quorum over the three entropy sources, \<^verbatim>\<open>src/src/arch/common/entropy/quorum.rs\<close>:
  collecting and health-testing one source, the boot path that fails closed, and the reseed path
  that polls within a window. The quorum is two of three, or one of three in a build with
  \<^verbatim>\<open>entropy-degraded-ok\<close>. The second half defines what the three devices deliver and when a delivery is
  fit for use, without reference to the code, and shows that the code decides by it.
\<close>

definition RESULT_ENTROPY_RESEED_ATTEMPT :: u8 where "RESULT_ENTROPY_RESEED_ATTEMPT = 9"
definition RESULT_ENTROPY_RESEED_POLLING :: u8 where "RESULT_ENTROPY_RESEED_POLLING = 10"
definition RESULT_ENTROPY_RESEED_RECOVERED :: u8 where "RESULT_ENTROPY_RESEED_RECOVERED = 11"
definition RESULT_ENTROPY_RESEED_FAILED_PANIC :: u8 where
  "RESULT_ENTROPY_RESEED_FAILED_PANIC = 12"
definition SUB_QUORUM_MIN :: u8 where "SUB_QUORUM_MIN = 0"
definition SUB_RCT_FAIL :: u8 where "SUB_RCT_FAIL = 1"
definition SUB_SOURCE_MISSING :: u8 where "SUB_SOURCE_MISSING = 3"
definition QUORUM_MIN :: "('m, 'd) platform \<Rightarrow> nat" where
  "QUORUM_MIN P = (if p_entropy_degraded_ok P then 1 else 2)"
definition SAMPLE_BYTES :: nat where "SAMPLE_BYTES = 32"
definition RETRY_BUDGET_MS :: u64 where "RETRY_BUDGET_MS = 60000"
definition RETRY_SPIN_CEILING :: u64 where "RETRY_SPIN_CEILING = 10000000"

subsection \<open>One source\<close>

definition ent_audit :: "u8 \<Rightarrow> u8 \<Rightarrow> u8 \<Rightarrow> 'm entropy_state \<Rightarrow> 'm entropy_state" where
  "ent_audit slot res kind st = st\<lparr>audit := audit_enqueue slot res kind [0, 0, 0, 0] (audit st)\<rparr>"

text \<open>The jitter arm: bytes are drawn until one is missing, which leaves the rest untouched.\<close>

fun jitter_fill ::
  "('m, 'd) platform \<Rightarrow> 'm entropy_state \<Rightarrow> bytes \<Rightarrow> 'm entropy_state \<times> bytes \<times> bool" where
  "jitter_fill P st [] = (st, [], True)"
| "jitter_fill P st (x # xs) =
     (case jitter_collect_byte P st of
        (st1, None) \<Rightarrow> (st1, x # xs, False)
      | (st1, Some b) \<Rightarrow> (let (st2, ys, ok) = jitter_fill P st1 xs in (st2, b # ys, ok)))"

definition source_fill ::
  "('m, 'd) platform \<Rightarrow> u8 \<Rightarrow> 'm entropy_state \<Rightarrow> bytes \<Rightarrow>
     'm entropy_state \<times> bytes \<times> (EntropyError + unit)" where
  "source_fill P source_idx st buf =
     (if source_idx = 0 then
        (let (m, buf', r) = collect_hw_into P (mach st) buf in (st\<lparr>mach := m\<rparr>, buf', r))
      else if source_idx = 1 then
        (case virtio_collect P st buf of
           (st1, buf', Inr _) \<Rightarrow> (st1, buf', Inr ())
         | (st1, buf', Inl e) \<Rightarrow> (st1, buf', Inl e))
      else
        (let (st1, buf', ok) = jitter_fill P st buf
         in (st1, buf', if ok then Inr () else Inl SourceUnavailable)))"

definition source_health :: "u8 \<Rightarrow> 'm entropy_state \<Rightarrow> StreamHealth" where
  "source_health source_idx st =
     (if source_idx = 0 then hw_health st else if source_idx = 1 then virtio_health st
      else jitter_health st)"

definition set_source_health :: "u8 \<Rightarrow> StreamHealth \<Rightarrow> 'm entropy_state \<Rightarrow> 'm entropy_state" where
  "set_source_health source_idx h st =
     (if source_idx = 0 then st\<lparr>hw_health := h\<rparr>
      else if source_idx = 1 then st\<lparr>virtio_health := h\<rparr> else st\<lparr>jitter_health := h\<rparr>)"

text \<open>The sample loop stops at the first failing sample.\<close>

fun health_loop :: "StreamHealth \<Rightarrow> bytes \<Rightarrow> StreamHealth \<times> bool" where
  "health_loop h [] = (h, True)"
| "health_loop h (x # xs) =
     (case check h x of (h1, Fail) \<Rightarrow> (h1, False) | (h1, _) \<Rightarrow> health_loop h1 xs)"

definition collect_from_source ::
  "('m, 'd) platform \<Rightarrow> u8 \<Rightarrow> 'm entropy_state \<Rightarrow> bytes \<Rightarrow>
     'm entropy_state \<times> bytes \<times> (EntropyError + u8)" where
  "collect_from_source P source_idx st buf =
     (case source_fill P source_idx st buf of
        (st1, buf1, Inl e) \<Rightarrow>
          (ent_audit (0xF0 OR source_idx) RESULT_ENTROPY_RESEED_FAILED_PANIC SUB_SOURCE_MISSING st1,
           buf1, Inl e)
      | (st1, buf1, Inr _) \<Rightarrow>
          if buf1 = replicate SAMPLE_BYTES 0
          then (ent_audit (0xF0 OR source_idx) RESULT_ENTROPY_RESEED_FAILED_PANIC
                  SUB_SOURCE_MISSING st1, buf1, Inl SourceUnavailable)
          else
            let (h, ok) = health_loop (source_health source_idx st1) buf1;
                st2 = set_source_health source_idx h st1
            in if ok then (st2, buf1, Inr (if source_idx = 2 then 16 else 32))
               else (ent_audit (0xF0 OR source_idx) RESULT_ENTROPY_RESEED_FAILED_PANIC
                       SUB_RCT_FAIL st2, buf1, Inl HealthTestFailed))"

subsection \<open>The quorum\<close>

definition live :: "EntropyError + u8 \<Rightarrow> nat" where
  "live r = (case r of Inl _ \<Rightarrow> 0 | Inr _ \<Rightarrow> 1)"

text \<open>
  The three sources in turn, each on a zeroed scratch buffer. What a failing source wrote before
  it failed stays in its scratch and is mixed with the others.
\<close>

definition poll_sources ::
  "('m, 'd) platform \<Rightarrow> 'm entropy_state \<Rightarrow> 'm entropy_state \<times> bytes \<times> nat" where
  "poll_sources P st =
     (let z = replicate SAMPLE_BYTES 0;
          (st0, s0, r0) = collect_from_source P 0 st z;
          (st1, s1, r1) = collect_from_source P 1 st0 z;
          (st2, s2, r2) = collect_from_source P 2 st1 z
      in (st2, s0 @ s1 @ s2, live r0 + live r1 + live r2))"

definition latch_sources :: "nat \<Rightarrow> 'm entropy_state \<Rightarrow> 'm entropy_state" where
  "latch_sources n st =
     (if \<not> sources_latched st
      then st\<lparr>sources_available_at_boot := of_nat n, sources_latched := True\<rparr> else st)"

text \<open>
  \<open>collect\<close> on a buffer of \<open>n\<close> bytes. The copy into the buffer panics (\<open>None\<close>) if the
  hash returned another length.
\<close>

definition collect ::
  "('m, 'd) platform \<Rightarrow> 'm entropy_state \<Rightarrow> nat \<Rightarrow> ('m entropy_state \<times> (EntropyError + bytes)) option"
where
  "collect P st n =
     (let (st1, scratches, live_sources) = poll_sources P st;
          st2 = latch_sources live_sources st1
      in if live_sources < QUORUM_MIN P
         then Some (ent_audit 0xFE RESULT_ENTROPY_RESEED_FAILED_PANIC SUB_QUORUM_MIN st2,
                    Inl QuorumFailed)
         else
           case p_blake3_xof P scratches n of
             None \<Rightarrow> Some (st2, Inl SourceUnavailable)
           | Some mix \<Rightarrow> if length mix = n then Some (st2, Inr mix) else None)"

function collect_retry_loop ::
  "('m, 'd) platform \<Rightarrow> u64 \<Rightarrow> u64 \<Rightarrow> u64 \<Rightarrow> 'm entropy_state \<Rightarrow> nat \<Rightarrow>
     ('m entropy_state \<times> (EntropyError + bytes)) option" where
  "collect_retry_loop P start max_wait_ms spins st n =
     (case collect P st n of
        None \<Rightarrow> None
      | Some (st1, Inr out) \<Rightarrow> Some (ent_audit 0xFE RESULT_ENTROPY_RESEED_RECOVERED 0 st1, Inr out)
      | Some (st1, Inl SourceUnavailable) \<Rightarrow> Some (st1, Inl SourceUnavailable)
      | Some (st1, Inl HealthTestFailed) \<Rightarrow> Some (st1, Inl HealthTestFailed)
      | Some (st1, Inl QuorumFailed) \<Rightarrow>
          (let st2 = ent_audit 0xFE RESULT_ENTROPY_RESEED_POLLING 0 st1;
               (m, now) = elapsed_since_boot_ms P (mach st2);
               spins' = sat_add spins 1
           in if now - start > max_wait_ms \<or> spins' > RETRY_SPIN_CEILING then None
              else collect_retry_loop P start max_wait_ms spins' (st2\<lparr>mach := m\<rparr>) n))"
  by pat_completeness auto
termination
proof (relation "measure (\<lambda>(P, start, mx, spins, st, n). 10000001 - unat spins)", goal_cases)
  case 2
  then show ?case
    by (auto simp: RETRY_SPIN_CEILING_def word_le_nat_alt not_less unat_sat_add min_def
        split: if_splits)
qed simp

declare collect_retry_loop.simps [simp del]

definition collect_with_retry ::
  "('m, 'd) platform \<Rightarrow> 'm entropy_state \<Rightarrow> nat \<Rightarrow> u64 \<Rightarrow>
     ('m entropy_state \<times> (EntropyError + bytes)) option" where
  "collect_with_retry P st n max_wait_ms =
     (let st1 = ent_audit 0xFE RESULT_ENTROPY_RESEED_ATTEMPT 0 st;
          (m, start) = elapsed_since_boot_ms P (mach st1)
      in collect_retry_loop P start max_wait_ms 0 (st1\<lparr>mach := m\<rparr>) n)"

definition ent_sources_available_at_boot :: "'m entropy_state \<Rightarrow> u8" where
  "ent_sources_available_at_boot st = sources_available_at_boot st"

subsection \<open>What a live source is\<close>

lemma health_loop_check_all:
  "snd (health_loop h xs) \<longleftrightarrow> Fail \<notin> set (snd (check_all h xs))"
  by (induction h xs rule: health_loop.induct)
     (auto split: prod.splits HealthVerdict.splits)

lemma jitter_fill_length:
  "jitter_fill P st buf = (st', buf', ok) \<Longrightarrow> length buf' = length buf"
  by (induction P st buf arbitrary: st' buf' ok rule: jitter_fill.induct)
     (fastforce split: prod.splits option.splits)+

lemma virtio_collect_length:
  assumes "platform_ok P" "virtio_collect P st buf = (st', buf', r)"
    "length (virtio_scratch st) = VIRTIO_SCRATCH_LEN"
  shows "length buf' = length buf"
proof (cases "virtio_present st")
  case False
  then show ?thesis using assms(2) by (simp add: virtio_collect_def)
next
  case True
  obtain m s res where rq:
    "p_virtio_request P (mach st) (replicate VIRTIO_SCRATCH_LEN SENTINEL) = (m, s, res)"
    by (metis prod_cases3)
  then have "length s = VIRTIO_SCRATCH_LEN" using platform_virtio [OF assms(1)] by fastforce
  then show ?thesis using assms(2,3) rq True
    by (auto simp: virtio_collect_def sentinel_collect_with_def Let_def
        split: option.splits if_splits)
qed

text \<open>
  The parts of the state a collection keeps: the scratch keeps its size, a disabled jitter source
  stays disabled, a missing device stays missing.
\<close>

definition ent_frame :: "'m entropy_state \<Rightarrow> 'm entropy_state \<Rightarrow> bool" where
  "ent_frame st st' \<longleftrightarrow>
     length (virtio_scratch st') = length (virtio_scratch st) \<and>
     jitter_disabled st' = jitter_disabled st \<and> virtio_present st' = virtio_present st \<and>
     (ring_ok (audit st) \<longrightarrow> ring_ok (audit st'))"

lemma ent_frame_refl [simp]: "ent_frame st st"
  by (simp add: ent_frame_def)

lemma ent_frame_trans: "ent_frame a b \<Longrightarrow> ent_frame b c \<Longrightarrow> ent_frame a c"
  by (simp add: ent_frame_def)

lemma ent_frame_audit [simp]: "ent_frame st st' \<Longrightarrow> ent_frame st (ent_audit s r k st')"
  by (simp add: ent_frame_def ent_audit_def ring_ok_enqueue)

lemma ent_frame_health [simp]: "ent_frame st (set_source_health i h st') = ent_frame st st'"
  by (simp add: ent_frame_def set_source_health_def)

lemma ent_frame_mach [simp]: "ent_frame st (st'\<lparr>mach := m\<rparr>) = ent_frame st st'"
  by (simp add: ent_frame_def)

lemma ent_frame_latch [simp]: "ent_frame st (latch_sources n st') = ent_frame st st'"
  by (simp add: ent_frame_def latch_sources_def)

lemma jitter_byte_frame: "jitter_collect_byte P st = (st', r) \<Longrightarrow> ent_frame st st'"
  by (auto simp: jitter_collect_byte_def ent_frame_def Let_def split: if_splits prod.splits)

lemma jitter_fill_frame: "jitter_fill P st buf = (st', buf', ok) \<Longrightarrow> ent_frame st st'"
proof (induction P st buf arbitrary: st' buf' ok rule: jitter_fill.induct)
  case (2 P st x xs)
  then show ?case
    by (auto split: prod.splits option.splits dest!: jitter_byte_frame)
       (blast intro: ent_frame_trans)
qed simp

lemma virtio_collect_frame: "virtio_collect P st buf = (st', buf', r) \<Longrightarrow> ent_frame st st'"
  by (auto simp: virtio_collect_def ent_frame_def dest: sentinel_wipes
      split: if_splits prod.splits)

lemma source_fill_frame:
  "source_fill P i st buf = (st', buf', r) \<Longrightarrow> ent_frame st st'"
  by (auto simp: source_fill_def split: if_splits prod.splits sum.splits
      dest!: jitter_fill_frame virtio_collect_frame)

lemma collect_from_source_frame:
  "collect_from_source P i st buf = (st', buf', r) \<Longrightarrow> ent_frame st st'"
  by (auto simp: collect_from_source_def Let_def split: prod.splits sum.splits if_splits
      dest!: source_fill_frame)

lemma poll_sources_frame: "poll_sources P st = (st', scr, n) \<Longrightarrow> ent_frame st st'"
  by (auto simp: poll_sources_def Let_def split: prod.splits dest!: collect_from_source_frame)
     (blast intro: ent_frame_trans)

lemma collect_frame: "collect P st n = Some (st', r) \<Longrightarrow> ent_frame st st'"
  by (auto simp: collect_def Let_def split: prod.splits if_splits option.splits
      dest!: poll_sources_frame)

lemma collect_retry_loop_frame:
  "collect_retry_loop P start w spins st n = Some (st', r) \<Longrightarrow> ent_frame st st'"
proof (induction P start w spins st n arbitrary: st' r rule: collect_retry_loop.induct)
  case (1 P start w spins st n)
  show ?case
  proof (cases "\<exists>st1. collect P st n = Some (st1, Inl QuorumFailed)")
    case True
    then obtain st1 where c: "collect P st n = Some (st1, Inl QuorumFailed)" by blast
    obtain m now where e:
      "elapsed_since_boot_ms P (mach (ent_audit 0xFE RESULT_ENTROPY_RESEED_POLLING 0 st1)) = (m, now)"
      by fastforce
    let ?st2 = "ent_audit 0xFE RESULT_ENTROPY_RESEED_POLLING 0 st1\<lparr>mach := m\<rparr>"
    have "collect_retry_loop P start w (sat_add spins 1) ?st2 n = Some (st', r) \<and>
      \<not> (now - start > w \<or> sat_add spins 1 > RETRY_SPIN_CEILING)"
      using "1.prems" unfolding collect_retry_loop.simps [of P start w spins st n]
      by (simp add: c e Let_def split: if_splits)
    then have "ent_frame ?st2 st'" using "1.IH" [OF c refl refl refl refl] e by auto
    moreover have "ent_frame st ?st2" using collect_frame [OF c] by simp
    ultimately show ?thesis by (rule ent_frame_trans [rotated])
  next
    case False
    then show ?thesis
      using "1.prems" unfolding collect_retry_loop.simps [of P start w spins st n]
      by (auto split: option.splits prod.splits sum.splits EntropyError.splits dest!: collect_frame)
  qed
qed

lemma collect_with_retry_frame:
  "collect_with_retry P st n w = Some (st', r) \<Longrightarrow> ent_frame st st'"
  by (auto simp: collect_with_retry_def Let_def split: prod.splits dest!: collect_retry_loop_frame
      intro: ent_frame_trans [rotated])

subsection \<open>Failing sources\<close>

lemma no_hw_not_live:
  assumes "\<not> p_has_rdseed P" "\<not> p_has_rdrand P" "collect_from_source P 0 st buf = (st', buf', r)"
  shows "live r = 0"
  using assms by (auto simp: collect_from_source_def source_fill_def collect_hw_into_def live_def)

lemma disabled_jitter_not_live:
  assumes "jitter_disabled st" "buf \<noteq> []" "collect_from_source P 2 st buf = (st', buf', r)"
  shows "live r = 0"
proof -
  have "jitter_fill P st buf = (st, buf, False)"
    using assms(1,2) by (cases buf) (simp_all add: jitter_disabled_no_byte)
  then show ?thesis using assms(3) by (auto simp: collect_from_source_def source_fill_def live_def)
qed

lemma live_le: "live r \<le> 1"
  by (simp add: live_def split: sum.splits)

lemma two_dead_sources_no_quorum:
  assumes "\<not> p_has_rdseed P" "\<not> p_has_rdrand P" "jitter_disabled st" "\<not> p_entropy_degraded_ok P"
  shows "\<exists>st'. collect P st n = Some (st', Inl QuorumFailed)"
proof -
  let ?z = "replicate SAMPLE_BYTES (0 :: u8)"
  obtain st0 s0 r0 where c0: "collect_from_source P 0 st ?z = (st0, s0, r0)" by (metis prod_cases3)
  obtain st1 s1 r1 where c1: "collect_from_source P 1 st0 ?z = (st1, s1, r1)" by (metis prod_cases3)
  obtain st2 s2 r2 where c2: "collect_from_source P 2 st1 ?z = (st2, s2, r2)" by (metis prod_cases3)
  have "jitter_disabled st1"
    using assms(3) collect_from_source_frame [OF c0] collect_from_source_frame [OF c1]
    by (simp add: ent_frame_def)
  then have "live r2 = 0" using disabled_jitter_not_live [OF _ _ c2] by (simp add: SAMPLE_BYTES_def)
  then have "live r0 + live r1 + live r2 < QUORUM_MIN P"
    using no_hw_not_live [OF assms(1,2) c0] live_le [of r1] assms(4) by (simp add: QUORUM_MIN_def)
  then show ?thesis by (simp add: collect_def poll_sources_def c0 c1 c2)
qed

lemma retry_loop_fails_closed:
  assumes "\<not> p_has_rdseed P" "\<not> p_has_rdrand P" "jitter_disabled st" "\<not> p_entropy_degraded_ok P"
  shows "collect_retry_loop P start w spins st n = None"
  using assms
proof (induction P start w spins st n rule: collect_retry_loop.induct)
  case (1 P start w spins st n)
  obtain st1 where c: "collect P st n = Some (st1, Inl QuorumFailed)"
    using two_dead_sources_no_quorum [OF "1.prems"] by blast
  have "jitter_disabled st1" using collect_frame [OF c] "1.prems"(3) by (simp add: ent_frame_def)
  then have dis: "jitter_disabled (ent_audit 0xFE RESULT_ENTROPY_RESEED_POLLING 0 st1\<lparr>mach := m\<rparr>)" for m
    by (simp add: ent_audit_def)
  show ?case
    unfolding collect_retry_loop.simps [of P start w spins] c
    using "1.IH" [OF c] "1.prems"(1,2,4) dis by (auto simp: Let_def split: prod.splits)
qed

lemma retry_loop_results:
  "collect_retry_loop P start w spins st n = Some (st', r) \<Longrightarrow>
     r = Inl SourceUnavailable \<or> (\<exists>out. r = Inr out \<and> length out = n)"
proof (induction P start w spins st n rule: collect_retry_loop.induct)
  case (1 P start w spins st n)
  show ?case
  proof (cases "collect P st n")
    case (Some p)
    obtain st1 r1 where c: "collect P st n = Some (st1, r1)" using Some by (cases p) simp
    have r1: "r1 \<in> {Inl QuorumFailed, Inl SourceUnavailable} \<or> (\<exists>out. r1 = Inr out \<and> length out = n)"
      using c by (auto simp: collect_def Let_def split: prod.splits if_splits option.splits)
    then show ?thesis
      using "1.IH" [OF c] "1.prems" c
      unfolding collect_retry_loop.simps [of P start w spins]
      by (auto simp: Let_def split: prod.splits if_splits)
  qed (use "1.prems" in \<open>simp add: collect_retry_loop.simps [of P start w spins]\<close>)
qed

subsection \<open>What the devices deliver\<close>

text \<open>
  The reference for one collection. Each source, asked for 32 bytes, delivers a prefix of them, the machine
  state advances, and the flag says whether it met the request: four words from the CPU, whatever the
  device reports (at least one byte, not the untouched sentinel), 32 bytes from timing jitter.
\<close>

fun hw_words :: "('m, 'd) platform \<Rightarrow> nat \<Rightarrow> 'm \<Rightarrow> 'm \<times> bytes \<times> bool" where
  "hw_words P 0 m = (m, [], True)"
| "hw_words P (Suc k) m =
     (case hw_value P m of
        (m1, None) \<Rightarrow> (m1, [], False)
      | (m1, Some v) \<Rightarrow> (let (m2, bs, ok) = hw_words P k m1 in (m2, to_le 8 v @ bs, ok)))"

definition hw_delivery :: "('m, 'd) platform \<Rightarrow> 'm \<Rightarrow> 'm \<times> bytes \<times> bool" where
  "hw_delivery P m = (if p_has_rdseed P \<or> p_has_rdrand P then hw_words P 4 m else (m, [], False))"

definition virtio_delivery :: "('m, 'd) platform \<Rightarrow> bool \<Rightarrow> 'm \<Rightarrow> 'm \<times> bytes \<times> bool" where
  "virtio_delivery P present m =
     (if present then
        (case p_virtio_request P m (replicate 32 0xFE) of
           (m1, scr, Some n) \<Rightarrow>
             if n = 0 \<or> list_all (\<lambda>b. b = 0xFE) scr then (m1, [], False) else (m1, take n scr, True)
         | (m1, scr, None) \<Rightarrow> (m1, [], False))
      else (m, [], False))"

fun jitter_bytes :: "('m, 'd) platform \<Rightarrow> nat \<Rightarrow> 'm \<Rightarrow> bytes \<Rightarrow> 'm \<times> bytes \<times> bool" where
  "jitter_bytes P 0 m pool = (m, [], True)"
| "jitter_bytes P (Suc k) m pool =
     (case jitter_byte_loop P SAMPLES_PER_BYTE m pool 0 0 of
        (m1, pool1, None) \<Rightarrow> (m1, [], False)
      | (m1, pool1, Some b) \<Rightarrow> (let (m2, bs, ok) = jitter_bytes P k m1 pool1 in (m2, b # bs, ok)))"

definition jitter_delivery :: "('m, 'd) platform \<Rightarrow> bool \<Rightarrow> bytes \<Rightarrow> 'm \<Rightarrow> 'm \<times> bytes \<times> bool" where
  "jitter_delivery P off pool m = (if off then (m, [], False) else jitter_bytes P 32 m pool)"

text \<open>A delivery fills a block of 32 bytes from the front; the rest of the block stays zero.\<close>

definition block :: "bytes \<Rightarrow> bytes" where
  "block d = d @ replicate (32 - length d) 0"

fun spec_passes :: "health_spec \<Rightarrow> bytes \<Rightarrow> bool" where
  "spec_passes g [] = True"
| "spec_passes g (x # xs) \<longleftrightarrow> snd (spec_check g x) \<noteq> Fail \<and> spec_passes (fst (spec_check g x)) xs"

text \<open>
  A source is fit for use when it met the request with something other than zeros, and the repetition
  and proportion tests, continued from the source's history \<open>g\<close>, accept every byte of the block.
\<close>

definition fit :: "health_spec \<Rightarrow> bytes \<Rightarrow> bool \<Rightarrow> bool" where
  "fit g d ok \<longleftrightarrow> ok \<and> list_ex (\<lambda>b. b \<noteq> 0) d \<and> spec_passes g (block d)"

lemma spec_passes_loop: "health_rel h g \<Longrightarrow> snd (health_loop h xs) \<longleftrightarrow> spec_passes g xs"
proof (induction xs arbitrary: h g)
  case (Cons x xs)
  note r = check_refines [OF Cons.prems, of x]
  have "snd (health_loop (fst (check h x)) xs) \<longleftrightarrow> spec_passes (fst (spec_check g x)) xs"
    using Cons.IH r by blast
  then show ?case using r by (auto split: prod.splits HealthVerdict.splits)
qed simp

lemma block_zero:
  assumes "length d \<le> 32"
  shows "block d = replicate SAMPLE_BYTES 0 \<longleftrightarrow> \<not> list_ex (\<lambda>b. b \<noteq> 0) d"
proof
  assume "block d = replicate SAMPLE_BYTES 0"
  then have "set (block d) \<subseteq> {0}" by auto
  then show "\<not> list_ex (\<lambda>b. b \<noteq> 0) d" by (auto simp: block_def list_ex_iff)
next
  assume "\<not> list_ex (\<lambda>b. b \<noteq> 0) d"
  then have "d = replicate (length d) 0" by (intro replicate_eqI) (auto simp: list_ex_iff)
  then have "block d = replicate (length d) 0 @ replicate (32 - length d) 0" by (simp add: block_def)
  then show "block d = replicate SAMPLE_BYTES 0" using assms by (simp add: SAMPLE_BYTES_def flip: replicate_add)
qed

lemma hw_words_length: "hw_words P k m = (m', d, ok) \<Longrightarrow> length d \<le> 8 * k \<and> (ok \<longrightarrow> length d = 8 * k)"
  by (induction P k m arbitrary: m' d ok rule: hw_words.induct) (fastforce split: prod.splits option.splits)+

lemma hw_fill_words:
  "hw_words P k m = (m', d, ok) \<Longrightarrow> offset + 8 * k = length buf \<Longrightarrow>
     hw_fill P m buf offset = (m', take offset buf @ d @ drop (offset + length d) buf,
       if ok then Inr () else Inl SourceUnavailable)"
proof (induction k arbitrary: m buf offset d)
  case 0
  then show ?case by (simp add: hw_fill.simps)
next
  case (Suc k)
  have lt: "offset < length buf" "min 8 (length buf - offset) = 8" using Suc.prems(2) by auto
  obtain m1 v where hv: "hw_value P m = (m1, v)" by fastforce
  show ?case
  proof (cases v)
    case None
    then show ?thesis using Suc.prems lt hv by (auto simp: hw_fill.simps [of P m buf])
  next
    case (Some w)
    obtain d1 where d1: "hw_words P k m1 = (m', d1, ok)" "d = to_le 8 w @ d1"
      using Suc.prems(1) hv Some by (auto split: prod.splits)
    let ?b = "take offset buf @ to_le 8 w @ drop (offset + 8) buf"
    have "hw_fill P m1 ?b (offset + 8) = (m', take (offset + 8) ?b @ d1 @ drop (offset + 8 + length d1) ?b,
        if ok then Inr () else Inl SourceUnavailable)"
      using Suc.prems(2) by (intro Suc.IH d1(1)) simp
    then show ?thesis using lt hv Some d1(2) by (simp add: hw_fill.simps [of P m buf] min_def ac_simps)
  qed
qed

lemma source_0_delivers:
  assumes "hw_delivery P (mach st) = (m, d, ok)"
  shows "source_fill P 0 st (replicate 32 0) =
      (st\<lparr>mach := m\<rparr>, block d, if ok then Inr () else Inl SourceUnavailable) \<and> length d \<le> 32"
proof (cases "p_has_rdseed P \<or> p_has_rdrand P")
  case True
  then have w: "hw_words P 4 (mach st) = (m, d, ok)" using assms by (simp add: hw_delivery_def)
  show ?thesis
    using True hw_fill_words [OF w, of 0 "replicate 32 0"] hw_words_length [OF w]
    by (auto simp: source_fill_def collect_hw_into_def block_def)
next
  case False
  then show ?thesis using assms by (auto simp: hw_delivery_def source_fill_def collect_hw_into_def block_def)
qed

lemma all_sentinel: "length scr = 32 \<Longrightarrow> scr = replicate 32 b \<longleftrightarrow> list_all (\<lambda>c. c = b) scr"
  by (auto simp: list_all_iff intro: replicate_eqI)

lemma source_1_delivers:
  assumes "platform_ok P" "length (virtio_scratch st) = 32"
    and "virtio_delivery P (virtio_present st) (mach st) = (m, d, ok)"
  shows "source_fill P 1 st (replicate 32 0) =
      (st\<lparr>virtio_scratch := replicate 32 0, mach := m\<rparr>, block d, if ok then Inr () else Inl SourceUnavailable) \<and> length d \<le> 32"
proof (cases "virtio_present st")
  case True
  obtain m1 scr r where rq: "p_virtio_request P (mach st) (replicate 32 0xFE) = (m1, scr, r)" by (metis prod_cases3)
  then have l: "length scr = 32" using platform_virtio [OF assms(1)] by fastforce
  show ?thesis
    using assms(2,3) True rq l all_sentinel [OF l, of SENTINEL]
    by (auto simp: source_fill_def virtio_delivery_def virtio_collect_def sentinel_collect_with_def Let_def
        block_def VIRTIO_SCRATCH_LEN_def SENTINEL_def min_def split: option.splits if_splits)
next
  case False
  then show ?thesis using assms(2,3)
    by (auto simp: source_fill_def virtio_delivery_def virtio_collect_def block_def)
qed

lemma jitter_fill_bytes:
  "jitter_bytes P k (mach st) (jitter_pool st) = (m, d, ok) \<Longrightarrow> \<not> jitter_disabled st \<Longrightarrow> length buf = k \<Longrightarrow>
     length d \<le> k \<and> (\<exists>pool. jitter_fill P st buf = (st\<lparr>mach := m, jitter_pool := pool\<rparr>, d @ drop (length d) buf, ok))"
proof (induction k arbitrary: st d buf)
  case 0
  then show ?case by (auto intro!: exI [of _ "jitter_pool st"])
next
  case (Suc k)
  obtain x xs where buf: "buf = x # xs" "length xs = k" using Suc.prems(3) by (cases buf) auto
  obtain m1 pool1 r where b: "jitter_byte_loop P SAMPLES_PER_BYTE (mach st) (jitter_pool st) 0 0 = (m1, pool1, r)"
    by (metis prod_cases3)
  show ?case
  proof (cases r)
    case None
    then show ?thesis using Suc.prems b buf by (auto simp: jitter_collect_byte_def)
  next
    case (Some y)
    obtain d1 where d1: "jitter_bytes P k m1 pool1 = (m, d1, ok)" "d = y # d1"
      using Suc.prems(1) b Some by (auto split: prod.splits)
    show ?thesis
      using Suc.IH [of "st\<lparr>mach := m1, jitter_pool := pool1\<rparr>" d1 xs] Suc.prems(2) d1 b Some buf
      by (auto simp: jitter_collect_byte_def)
  qed
qed

lemma source_2_delivers:
  assumes "jitter_delivery P (jitter_disabled st) (jitter_pool st) (mach st) = (m, d, ok)"
  shows "\<exists>pool. source_fill P 2 st (replicate 32 0) =
      (st\<lparr>mach := m, jitter_pool := pool\<rparr>, block d, if ok then Inr () else Inl SourceUnavailable) \<and> length d \<le> 32"
proof (cases "jitter_disabled st")
  case True
  then have "jitter_fill P st (replicate 32 0) = (st, replicate 32 0, False)"
    by (simp add: jitter_disabled_no_byte numeral_eq_Suc)
  then show ?thesis using assms True
    by (auto simp: jitter_delivery_def source_fill_def block_def intro!: exI [of _ "jitter_pool st"])
next
  case False
  then show ?thesis
    using assms jitter_fill_bytes [of P 32 st m d ok "replicate 32 0"]
    by (auto simp: jitter_delivery_def source_fill_def block_def)
qed

lemma source_judged:
  assumes "source_fill P i st (replicate 32 0) = (st1, block d, if ok then Inr () else Inl e)" "length d \<le> 32"
    and "health_rel (source_health i st1) g"
  shows "\<exists>h a r. collect_from_source P i st (replicate 32 0) = (set_source_health i h st1\<lparr>audit := a\<rparr>, block d, r) \<and>
     live r = of_bool (fit g d ok)"
proof -
  have same: "set_source_health i (source_health i st1) st1 = st1"
    by (simp add: set_source_health_def source_health_def)
  show ?thesis
  proof (cases "ok \<and> list_ex (\<lambda>b. b \<noteq> 0) d")
    case False
    then obtain a r where "collect_from_source P i st (replicate 32 0) = (st1\<lparr>audit := a\<rparr>, block d, r)" "live r = 0"
      using assms(1) block_zero [OF assms(2)] by (auto simp: collect_from_source_def ent_audit_def live_def split: if_splits)
    then show ?thesis
      using False same by (intro exI [of _ "source_health i st1"] exI [of _ a] exI [of _ r]) (auto simp: fit_def)
  next
    case True
    obtain h v where h: "health_loop (source_health i st1) (block d) = (h, v)" by fastforce
    then have v: "v \<longleftrightarrow> spec_passes g (block d)" using spec_passes_loop [OF assms(3), of "block d"] by simp
    have "set_source_health i h st1\<lparr>audit := audit st1\<rparr> = set_source_health i h st1"
      by (simp add: set_source_health_def)
    then show ?thesis
      using True assms(1) h v block_zero [OF assms(2)]
      by (auto simp: collect_from_source_def ent_audit_def live_def fit_def Let_def intro!: exI [of _ h]
          exI [of _ "if v then audit st1 else audit (ent_audit (0xF0 OR i) RESULT_ENTROPY_RESEED_FAILED_PANIC
            SUB_RCT_FAIL (set_source_health i h st1))"])
  qed
qed

lemma set_source_health_fields [simp]:
  "mach (set_source_health i h st) = mach st" "jitter_pool (set_source_health i h st) = jitter_pool st"
  "jitter_disabled (set_source_health i h st) = jitter_disabled st" "virtio_present (set_source_health i h st) = virtio_present st"
  "virtio_scratch (set_source_health i h st) = virtio_scratch st"
  by (simp_all add: set_source_health_def)

text \<open>A collection polls the three devices in turn and counts the fit ones.\<close>

lemma poll_sources_delivers:
  assumes "platform_ok P" "length (virtio_scratch st) = 32"
    and rel: "health_rel (hw_health st) g0" "health_rel (virtio_health st) g1" "health_rel (jitter_health st) g2"
    and d0: "hw_delivery P (mach st) = (m0, d0, ok0)"
    and d1: "virtio_delivery P (virtio_present st) m0 = (m1, d1, ok1)"
    and d2: "jitter_delivery P (jitter_disabled st) (jitter_pool st) m1 = (m2, d2, ok2)"
  shows "\<exists>st'. poll_sources P st = (st', block d0 @ block d1 @ block d2,
     length (filter id [fit g0 d0 ok0, fit g1 d1 ok1, fit g2 d2 ok2]))"
proof -
  note f0 = source_0_delivers [OF d0]
  obtain h0 a0 r0 where c0: "collect_from_source P 0 st (replicate 32 0) =
      (set_source_health 0 h0 (st\<lparr>mach := m0\<rparr>)\<lparr>audit := a0\<rparr>, block d0, r0)" "live r0 = of_bool (fit g0 d0 ok0)"
    using source_judged [OF conjunct1 [OF f0] conjunct2 [OF f0], of g0] rel(1) by (auto simp: source_health_def)
  let ?s1 = "set_source_health 0 h0 (st\<lparr>mach := m0\<rparr>)\<lparr>audit := a0\<rparr>"
  have "source_fill P 1 ?s1 (replicate 32 0) = (?s1\<lparr>virtio_scratch := replicate 32 0, mach := m1\<rparr>, block d1,
      if ok1 then Inr () else Inl SourceUnavailable) \<and> length d1 \<le> 32"
    using source_1_delivers [of P ?s1 m1 d1 ok1] assms(1,2) d1 by simp
  then obtain h1 a1 r1 where c1: "collect_from_source P 1 ?s1 (replicate 32 0) =
      (set_source_health 1 h1 (?s1\<lparr>virtio_scratch := replicate 32 0, mach := m1\<rparr>)\<lparr>audit := a1\<rparr>, block d1, r1)"
      "live r1 = of_bool (fit g1 d1 ok1)"
    using source_judged [of P 1 ?s1 _ d1 ok1 SourceUnavailable g1] rel(2)
    by (auto simp: source_health_def set_source_health_def)
  let ?s2 = "set_source_health 1 h1 (?s1\<lparr>virtio_scratch := replicate 32 0, mach := m1\<rparr>)\<lparr>audit := a1\<rparr>"
  obtain pool where "source_fill P 2 ?s2 (replicate 32 0) = (?s2\<lparr>mach := m2, jitter_pool := pool\<rparr>, block d2,
      if ok2 then Inr () else Inl SourceUnavailable) \<and> length d2 \<le> 32"
    using source_2_delivers [of P ?s2 m2 d2 ok2] d2 by (auto simp: set_source_health_def)
  then obtain st2 r2 where c2: "collect_from_source P 2 ?s2 (replicate 32 0) = (st2, block d2, r2)"
      "live r2 = of_bool (fit g2 d2 ok2)"
    using source_judged [of P 2 ?s2 _ d2 ok2 SourceUnavailable g2] rel(3)
    by (auto simp: source_health_def set_source_health_def)
  show ?thesis using c0 c1 c2 by (simp add: poll_sources_def SAMPLE_BYTES_def)
qed

subsection \<open>A concrete run\<close>

text \<open>
  On the example platform, with jitter disabled, the hardware and the device source are live: used
  to show that the hypotheses of the properties can hold.
\<close>

definition demo_entropy :: "u64 entropy_state" where
  "demo_entropy =
     \<lparr>mach = 0, virtio_scratch = replicate 32 0xFE, virtio_present = True,
      jitter_pool = replicate POOL_SIZE 0, jitter_disabled = True,
      boot_self_test_buf = replicate BOOT_SELF_TEST_SAMPLES 0,
      hw_health = health_new, virtio_health = health_new, jitter_health = health_new,
      sources_available_at_boot = 0, sources_latched = False, audit = audit_ring_init\<rparr>"

lemma health_fresh_passes: "length xs < 41 \<Longrightarrow> snd (health_loop health_new xs)"
  using short_stream_passes [OF health_new_rel, of xs] by (simp add: health_loop_check_all)

lemma demo_hw_value: "hw_value demo_platform m = (m + 1, Some (m + 3))"
  by (simp add: hw_value_def hw_retry_first [of _ _ "m + 1" "m + 3"] HW_RNG_MAX_RETRIES_def)

lemma demo_hw:
  "\<exists>m' buf. collect_hw_into demo_platform m (replicate 32 0) = (m', ucast (m + 3) # buf, Inr ())"
  by (simp add: collect_hw_into_def hw_fill.simps demo_hw_value Let_def upt_conv_Cons to_le_def)

lemma demo_virtio:
  assumes "length (virtio_scratch st) = 32" "virtio_present st"
  shows "\<exists>st' buf. virtio_collect demo_platform st (replicate 32 0) = (st', 1 # buf, Inr 32) \<and>
           length buf = 31 \<and> virtio_health st' = virtio_health st"
  using assms by (simp add: virtio_collect_def sentinel_collect_with_def Let_def
      VIRTIO_SCRATCH_LEN_def SENTINEL_def upt_conv_Cons replicate_numeral)

lemma demo_source_0:
  assumes "ucast (mach st + 3) \<noteq> (0 :: u8)" "hw_health st = health_new"
  shows "\<exists>st0 s0 b. collect_from_source demo_platform 0 st (replicate 32 0) = (st0, s0, Inr b) \<and>
     virtio_health st0 = virtio_health st"
proof -
  obtain m buf where hw:
    "collect_hw_into demo_platform (mach st) (replicate 32 0) = (m, ucast (mach st + 3) # buf, Inr ())"
    using demo_hw by blast
  then have "length buf = 31" using collect_hw_into_length by fastforce
  then have "snd (health_loop health_new (ucast (mach st + 3) # buf))"
    by (intro health_fresh_passes) simp
  then show ?thesis
    using hw assms by (auto simp: collect_from_source_def source_fill_def
        source_health_def set_source_health_def SAMPLE_BYTES_def replicate_numeral Let_def
        split: prod.splits)
qed

lemma demo_source_1:
  assumes "length (virtio_scratch st) = 32" "virtio_present st" "virtio_health st = health_new"
  shows "\<exists>st1 s1 b. collect_from_source demo_platform 1 st (replicate 32 0) = (st1, s1, Inr b)"
proof -
  obtain st' buf where vi: "virtio_collect demo_platform st (replicate 32 0) = (st', 1 # buf, Inr 32)"
    "length buf = 31" "virtio_health st' = health_new"
    using demo_virtio [OF assms(1,2)] assms(3) by auto
  then have "snd (health_loop health_new (1 # buf))" by (intro health_fresh_passes) simp
  then show ?thesis
    using vi by (auto simp: collect_from_source_def source_fill_def source_health_def
        SAMPLE_BYTES_def replicate_numeral Let_def split: prod.splits)
qed

lemma demo_sources:
  assumes "ucast (mach st + 3) \<noteq> (0 :: u8)" "hw_health st = health_new"
    and "virtio_health st = health_new" "length (virtio_scratch st) = 32" "virtio_present st"
  shows "\<exists>st0 s0 b0 st1 s1 b1 st2 s2 r2.
     collect_from_source demo_platform 0 st (replicate SAMPLE_BYTES 0) = (st0, s0, Inr b0) \<and>
     collect_from_source demo_platform 1 st0 (replicate SAMPLE_BYTES 0) = (st1, s1, Inr b1) \<and>
     collect_from_source demo_platform 2 st1 (replicate SAMPLE_BYTES 0) = (st2, s2, r2)"
proof -
  obtain st0 s0 b0 where
    c0: "collect_from_source demo_platform 0 st (replicate SAMPLE_BYTES 0) = (st0, s0, Inr b0)"
    and h: "virtio_health st0 = health_new"
    using demo_source_0 [OF assms(1,2)] assms(3) by (auto simp: SAMPLE_BYTES_def)
  have "length (virtio_scratch st0) = 32" "virtio_present st0"
    using collect_from_source_frame [OF c0] assms(4,5) by (auto simp: ent_frame_def)
  then obtain st1 s1 b1 where
    "collect_from_source demo_platform 1 st0 (replicate SAMPLE_BYTES 0) = (st1, s1, Inr b1)"
    using demo_source_1 [OF _ _ h] by (auto simp: SAMPLE_BYTES_def)
  with c0 show ?thesis by (metis prod_cases3)
qed

lemma demo_collect:
  assumes "ucast (mach st + 3) \<noteq> (0 :: u8)" "hw_health st = health_new"
    and "virtio_health st = health_new" "length (virtio_scratch st) = 32" "virtio_present st"
  shows "\<exists>st' out. collect demo_platform st n = Some (st', Inr out)"
  using demo_sources [OF assms]
  by (auto simp: collect_def poll_sources_def live_def QUORUM_MIN_def)

subsection \<open>Properties\<close>


definition demo_hw_bytes :: bytes where
  "demo_hw_bytes = to_le 8 (3 :: u64) @ to_le 8 (4 :: u64) @ to_le 8 (5 :: u64) @ to_le 8 (6 :: u64)"

definition demo_virtio_bytes :: bytes where
  "demo_virtio_bytes = map (\<lambda>i. of_nat (i + 1)) [0..<32]"

lemma demo_bytes: "length demo_hw_bytes = 32" "hd demo_hw_bytes = 3" "length demo_virtio_bytes = 32" "hd demo_virtio_bytes = 1"
  by (simp_all add: demo_hw_bytes_def demo_virtio_bytes_def to_le_def upt_conv_Cons)

lemma demo_hw_delivery: "hw_delivery demo_platform 0 = (4, demo_hw_bytes, True)"
proof -
  have "hw_delivery demo_platform 0 = hw_words demo_platform (Suc (Suc (Suc (Suc 0)))) 0"
    by (simp add: hw_delivery_def numeral_eq_Suc)
  then show ?thesis by (simp add: demo_hw_value demo_hw_bytes_def)
qed

lemma demo_virtio_delivery: "virtio_delivery demo_platform True m = (m, demo_virtio_bytes, True)"
proof -
  have "hd demo_virtio_bytes \<in> set demo_virtio_bytes" using demo_bytes(3) by (intro hd_in_set) auto
  then have "\<not> list_all (\<lambda>b. b = 0xFE) demo_virtio_bytes" using demo_bytes(4) by (auto simp: list_all_iff intro!: bexI [of _ 1])
  then show ?thesis by (simp add: virtio_delivery_def demo_virtio_bytes_def)
qed

lemma fit_fresh: "d \<noteq> [] \<Longrightarrow> length d \<le> 32 \<Longrightarrow> hd d \<noteq> 0 \<Longrightarrow> fit \<lparr>hs_history = [], hs_window = []\<rparr> d True"
  using health_fresh_passes [of "block d"] spec_passes_loop [OF health_new_rel, of "block d"] hd_in_set [of d]
  by (auto simp: fit_def block_def list_ex_iff)


text \<open>If the reseed path returns (otherwise the kernel has halted), it returns the requested number of bytes or \<open>SourceUnavailable\<close>, never a failed quorum.\<close>

theorem retry_never_returns_failed_quorum:
  assumes "collect_with_retry P st n max_wait_ms = Some (st', r)"
  shows "r = Inl SourceUnavailable \<or> (\<exists>out. r = Inr out \<and> length out = n)"
  using assms by (auto simp: collect_with_retry_def Let_def split: prod.splits
      dest: retry_loop_results)

theorem retry_never_returns_failed_quorum_witness:
  "\<exists>st' out. collect_with_retry demo_platform demo_entropy 48 RETRY_BUDGET_MS = Some (st', Inr out)
     \<and> length out = 48"
proof -
  let ?st = "ent_audit 0xFE RESULT_ENTROPY_RESEED_ATTEMPT 0 demo_entropy\<lparr>mach := 7\<rparr>"
  have clock: "elapsed_since_boot_ms demo_platform 0 = (7, 0)"
    by (simp add: elapsed_since_boot_ms_def timer_frequency_def)
  obtain st' out where "collect demo_platform ?st 48 = Some (st', Inr out)"
    using demo_collect [of ?st 48] by (auto simp: demo_entropy_def ent_audit_def)
  then obtain st'' where
    "collect_with_retry demo_platform demo_entropy 48 RETRY_BUDGET_MS = Some (st'', Inr out)"
    using clock by (simp add: collect_with_retry_def collect_retry_loop.simps demo_entropy_def
        ent_audit_def)
  with retry_never_returns_failed_quorum [OF this] show ?thesis by simp
qed

text \<open>C39: in a build without \<open>entropy-degraded-ok\<close>, with two sources gone (no RDSEED and no RDRAND, and
  jitter disabled by its boot self-test) the reseed path never returns, whatever the remaining device
  delivers: the kernel halts instead of running on one source.\<close>

theorem retry_fails_closed:
  assumes "\<not> p_has_rdseed P" "\<not> p_has_rdrand P" "jitter_disabled st" "\<not> p_entropy_degraded_ok P"
  shows "collect_with_retry P st n max_wait_ms = None"
  using assms by (simp add: collect_with_retry_def Let_def retry_loop_fails_closed ent_audit_def
      split: prod.splits)

theorem retry_fails_closed_witness:
  "collect_with_retry (demo_platform\<lparr>p_has_rdseed := False, p_has_rdrand := False\<rparr>) demo_entropy 48
     RETRY_BUDGET_MS = None"
  by (rule retry_fails_closed) (simp_all add: demo_entropy_def)

end
