(* ===== verification/Capability.thy ===== *)
theory Capability
  imports EntropyQuorum
begin

text \<open>
  \<^verbatim>\<open>src/src/capability.rs\<close>: rights, capability tokens, the DRBG the tokens are drawn from,
  and the per-process capability space. \<open>cap_drbg\<close> is the static \<open>CAP_DRBG\<close>; the DRBG
  itself is the external crate behind \<open>p_drbg_new\<close>, \<open>p_drbg_generate\<close> and
  \<open>p_drbg_reseed\<close>.
\<close>

subsection \<open>Rights and endpoints\<close>

type_synonym Rights = u32
type_synonym EndpointId = u16

definition NONE :: Rights where "NONE = 0"
definition SEND :: Rights where "SEND = push_bit 0 1"
definition RECV :: Rights where "RECV = push_bit 1 1"
definition CALL :: Rights where "CALL = push_bit 2 1"
definition GRANT :: Rights where "GRANT = push_bit 3 1"
definition RIGHTS_ALL :: Rights where "RIGHTS_ALL = 0x0F"

definition INVALID :: EndpointId where "INVALID = 0xFFFF"
definition EP_SYSTEM :: EndpointId where "EP_SYSTEM = 0"
definition EP_CRYPTO :: EndpointId where "EP_CRYPTO = 1"
definition EP_SIGN :: EndpointId where "EP_SIGN = 2"
definition EP_LUMEN_WIRE :: EndpointId where "EP_LUMEN_WIRE = 3"

lemmas right_consts = NONE_def SEND_def RECV_def CALL_def GRANT_def RIGHTS_ALL_def
lemmas ep_consts = INVALID_def EP_SYSTEM_def EP_CRYPTO_def EP_SIGN_def EP_LUMEN_WIRE_def

definition contains :: "Rights \<Rightarrow> Rights \<Rightarrow> bool" where
  "contains r other \<longleftrightarrow> r AND other = other"

definition union_rights :: "Rights \<Rightarrow> Rights \<Rightarrow> Rights" where
  "union_rights r other = r OR other"

definition restrict :: "Rights \<Rightarrow> Rights \<Rightarrow> Rights" where
  "restrict r s = r AND s"

lemma contains_bits: "contains r q \<longleftrightarrow> (\<forall>i. bit q i \<longrightarrow> bit r i)"
proof
  show "contains r q \<Longrightarrow> \<forall>i. bit q i \<longrightarrow> bit r i"
    unfolding contains_def by (metis bit_and_iff)
  show "\<forall>i. bit q i \<longrightarrow> bit r i \<Longrightarrow> contains r q"
    unfolding contains_def by (auto intro!: bit_eqI simp: bit_and_iff)
qed

lemma contains_restrict: "contains (restrict r s) q \<longleftrightarrow> contains r q \<and> contains s q"
  by (auto simp: contains_bits restrict_def bit_and_iff)

lemma contains_union: "contains r (union_rights p q) \<longleftrightarrow> contains r p \<and> contains r q"
  by (auto simp: contains_bits union_rights_def bit_or_iff)

subsection \<open>Capabilities\<close>

datatype CapError =
  InvalidSlot | NoGrantRight | SlotsFull | PrngNotInitialized | NoEntropy | DrbgInit

record Capability =
  token :: u64
  endpoint_id :: EndpointId
  rights :: Rights

definition cap_null :: Capability where
  "cap_null = \<lparr>token = 0, endpoint_id = INVALID, rights = NONE\<rparr>"

definition is_valid_for :: "Capability \<Rightarrow> EndpointId \<Rightarrow> Rights \<Rightarrow> bool" where
  "is_valid_for c ep required \<longleftrightarrow>
     token c \<noteq> 0 \<and> endpoint_id c = ep \<and> rights c AND required = required"

definition ct_token_eq :: "Capability \<Rightarrow> Capability \<Rightarrow> bool" where
  "ct_token_eq c d \<longleftrightarrow> token c = token d"

definition derive :: "Capability \<Rightarrow> Rights \<Rightarrow> CapError + Capability" where
  "derive c subset_rights =
     (if \<not> contains (rights c) GRANT then Inl NoGrantRight
      else Inr \<lparr>token = token c, endpoint_id = endpoint_id c,
                rights = restrict (rights c) subset_rights\<rparr>)"

definition cap_zeroize :: "Capability \<Rightarrow> Capability" where
  "cap_zeroize c = c\<lparr>token := 0, rights := NONE, endpoint_id := INVALID\<rparr>"

lemma cap_zeroize_null: "cap_zeroize c = cap_null"
  by (simp add: cap_zeroize_def cap_null_def)

lemma null_never_valid: "\<not> is_valid_for cap_null ep r"
  by (simp add: is_valid_for_def cap_null_def)

text \<open>A chain of delegations, each naming the rights it passes on.\<close>

fun derive_chain :: "Capability \<Rightarrow> Rights list \<Rightarrow> CapError + Capability" where
  "derive_chain c [] = Inr c"
| "derive_chain c (s # ss) =
     (case derive c s of Inl e \<Rightarrow> Inl e | Inr d \<Rightarrow> derive_chain d ss)"

lemma derive_chain_rights:
  "derive_chain c ss = Inr d \<Longrightarrow>
     token d = token c \<and> endpoint_id d = endpoint_id c \<and> rights d = fold (\<lambda>s r. r AND s) ss (rights c)"
  by (induction c ss rule: derive_chain.induct)
     (auto simp: derive_def restrict_def split: sum.splits if_splits)

lemma fold_and_contains:
  "contains (fold (\<lambda>s r. r AND s) ss r0) q \<longleftrightarrow> contains r0 q \<and> (\<forall>s \<in> set ss. contains s q)"
  by (induction ss arbitrary: r0) (auto simp: contains_restrict [unfolded restrict_def])



subsection \<open>The token DRBG\<close>

record ('m, 'd) rng_state =
  ent :: "'m entropy_state"
  cap_drbg :: "'d option"

definition ENTROPY_LEN :: nat where "ENTROPY_LEN = 32"
definition NONCE_LEN :: nat where "NONCE_LEN = 16"

text \<open>The bytes of \<open>iso-light-k0:cap-drbg:v1\<close>.\<close>

definition PERSONALIZATION_TAG :: bytes where
  "PERSONALIZATION_TAG = map (of_nat \<circ> of_char) ''iso-light-k0:cap-drbg:v1''"

definition fill_hw_entropy ::
  "('m, 'd) platform \<Rightarrow> 'm entropy_state \<Rightarrow> nat \<Rightarrow> ('m entropy_state \<times> (CapError + bytes)) option"
where
  "fill_hw_entropy P e n =
     (case collect_with_retry P e n 60000 of
        None \<Rightarrow> None
      | Some (e1, Inr out) \<Rightarrow> Some (e1, Inr out)
      | Some (e1, Inl QuorumFailed) \<Rightarrow> Some (e1, Inl NoEntropy)
      | Some (e1, Inl SourceUnavailable) \<Rightarrow> Some (e1, Inl NoEntropy)
      | Some (e1, Inl HealthTestFailed) \<Rightarrow> Some (e1, Inl NoEntropy))"

definition init_prng ::
  "('m, 'd) platform \<Rightarrow> ('m, 'd) rng_state \<Rightarrow> (('m, 'd) rng_state \<times> (CapError + unit)) option" where
  "init_prng P s =
     do {
       (e1, r1) \<leftarrow> fill_hw_entropy P (ent s) ENTROPY_LEN;
       case r1 of Inl er \<Rightarrow> Some (s\<lparr>ent := e1\<rparr>, Inl er)
       | Inr entropy \<Rightarrow>
           do {
             (e2, r2) \<leftarrow> fill_hw_entropy P e1 NONCE_LEN;
             case r2 of Inl er \<Rightarrow> Some (s\<lparr>ent := e2\<rparr>, Inl er)
             | Inr nonce \<Rightarrow>
                 (case p_drbg_new P entropy nonce PERSONALIZATION_TAG of
                    None \<Rightarrow> Some (s\<lparr>ent := e2\<rparr>, Inl DrbgInit)
                  | Some d \<Rightarrow> Some (s\<lparr>ent := e2, cap_drbg := Some d\<rparr>, Inr ()))
           }
     }"

definition reseed_drbg ::
  "('m, 'd) platform \<Rightarrow> 'd \<Rightarrow> 'm entropy_state \<Rightarrow> ('d \<times> 'm entropy_state \<times> (CapError + unit)) option"
where
  "reseed_drbg P d e =
     do {
       (e1, r) \<leftarrow> fill_hw_entropy P e ENTROPY_LEN;
       case r of Inl er \<Rightarrow> Some (d, e1, Inl er)
       | Inr entropy \<Rightarrow>
           (let (d1, ok) = p_drbg_reseed P d entropy
            in Some (d1, e1, if ok then Inr () else Inl DrbgInit))
     }"

lemma fill_hw_entropy_frame: "fill_hw_entropy P e n = Some (e', r) \<Longrightarrow> ent_frame e e'"
  by (auto simp: fill_hw_entropy_def split: option.splits prod.splits sum.splits EntropyError.splits
      dest!: collect_with_retry_frame)

lemma reseed_drbg_frame: "reseed_drbg P d e = Some (d', e', r) \<Longrightarrow> ent_frame e e'"
  by (auto simp: reseed_drbg_def Let_def split: Option.bind_splits prod.splits sum.splits
      dest!: fill_hw_entropy_frame)

text \<open>
  The two generation loops may run forever, if the DRBG keeps asking for a reseed or keeps
  returning zero tokens: not returning is \<open>None\<close>.
\<close>

partial_function (option) rand_bytes_loop ::
  "('m, 'd) platform \<Rightarrow> 'd \<Rightarrow> 'm entropy_state \<Rightarrow> bytes \<Rightarrow>
     ('d \<times> 'm entropy_state \<times> bytes \<times> (CapError + unit)) option" where
  [code]: "rand_bytes_loop P d e buf =
     (case p_drbg_generate P d (length buf) of
        (d1, Inr out) \<Rightarrow> Some (d1, e, out, Inr ())
      | (d1, Inl DrbgOther) \<Rightarrow> Some (d1, e, replicate (length buf) 0, Inl DrbgInit)
      | (d1, Inl ReseedRequired) \<Rightarrow>
          Option.bind (reseed_drbg P d1 e)
            (\<lambda>(d2, e2, r). case r of Inl er \<Rightarrow> Some (d2, e2, buf, Inl er)
               | Inr _ \<Rightarrow> rand_bytes_loop P d2 e2 buf))"

definition rand_bytes ::
  "('m, 'd) platform \<Rightarrow> ('m, 'd) rng_state \<Rightarrow> bytes \<Rightarrow>
     (('m, 'd) rng_state \<times> bytes \<times> (CapError + unit)) option" where
  "rand_bytes P s buf =
     (case cap_drbg s of
        None \<Rightarrow> Some (s, buf, Inl PrngNotInitialized)
      | Some d \<Rightarrow>
          do {
            (d1, e1, out, r) \<leftarrow> rand_bytes_loop P d (ent s) buf;
            Some (s\<lparr>cap_drbg := Some d1, ent := e1\<rparr>, out, r)
          })"

partial_function (option) gen_token_loop ::
  "('m, 'd) platform \<Rightarrow> 'd \<Rightarrow> 'm entropy_state \<Rightarrow> ('d \<times> 'm entropy_state \<times> (CapError + u64)) option"
where
  [code]: "gen_token_loop P d e =
     (case p_drbg_generate P d 8 of
        (d1, Inr out) \<Rightarrow>
          if from_be out \<noteq> (0 :: u64) then Some (d1, e, Inr (from_be out)) else gen_token_loop P d1 e
      | (d1, Inl DrbgOther) \<Rightarrow> Some (d1, e, Inl DrbgInit)
      | (d1, Inl ReseedRequired) \<Rightarrow>
          Option.bind (reseed_drbg P d1 e)
            (\<lambda>(d2, e2, r). case r of Inl er \<Rightarrow> Some (d2, e2, Inl er)
               | Inr _ \<Rightarrow> gen_token_loop P d2 e2))"

definition gen_token_u64 ::
  "('m, 'd) platform \<Rightarrow> ('m, 'd) rng_state \<Rightarrow> (('m, 'd) rng_state \<times> (CapError + u64)) option" where
  "gen_token_u64 P s =
     (case cap_drbg s of
        None \<Rightarrow> Some (s, Inl PrngNotInitialized)
      | Some d \<Rightarrow>
          do {
            (d1, e1, r) \<leftarrow> gen_token_loop P d (ent s);
            Some (s\<lparr>cap_drbg := Some d1, ent := e1\<rparr>, r)
          })"

definition generate_capability ::
  "('m, 'd) platform \<Rightarrow> ('m, 'd) rng_state \<Rightarrow> EndpointId \<Rightarrow> Rights \<Rightarrow>
     (('m, 'd) rng_state \<times> (CapError + Capability)) option" where
  "generate_capability P s ep r =
     do {
       (s1, t) \<leftarrow> gen_token_u64 P s;
       case t of Inl er \<Rightarrow> Some (s1, Inl er)
       | Inr tok \<Rightarrow> Some (s1, Inr \<lparr>token = tok, endpoint_id = ep, rights = r\<rparr>)
     }"

lemma rand_bytes_loop_length:
  assumes "rand_bytes_loop P d e buf = Some r"
  shows "platform_ok P \<longrightarrow> length (fst (snd (snd r))) = length buf"
proof -
  let ?Q = "\<lambda>(((P, d), e), buf) r. platform_ok P \<longrightarrow> length (fst (snd (snd r))) = length buf"
  have "?Q (((P, d), e), buf) r"
  proof (rule rand_bytes_loop.raw_induct [where Pa = ?Q, rotated, OF assms], goal_cases)
    case (1 loop P d e buf r)
    from 1(2) show ?case
      by (simp split: prod.splits sum.splits drbg_error.splits Option.bind_splits)
         (auto dest: platform_drbg 1(1))
  qed
  then show ?thesis by simp
qed

lemma rand_bytes_length:
  assumes "platform_ok P" "rand_bytes P s buf = Some (s', out, r)"
  shows "length out = length buf"
  using assms rand_bytes_loop_length [of P _ "ent s" buf]
  by (fastforce simp: rand_bytes_def split: option.splits Option.bind_splits)

lemma rand_bytes_loop_frame:
  assumes "rand_bytes_loop P d e buf = Some r"
  shows "ent_frame e (fst (snd r))"
proof -
  let ?Q = "\<lambda>(((P, d), e), buf) r. ent_frame e (fst (snd r))"
  have "?Q (((P, d), e), buf) r"
  proof (rule rand_bytes_loop.raw_induct [where Pa = ?Q, rotated, OF assms], goal_cases)
    case (1 loop P d e buf r)
    from 1(2) show ?case
      by (simp split: prod.splits sum.splits drbg_error.splits Option.bind_splits)
         (auto dest!: reseed_drbg_frame 1(1) intro: ent_frame_trans)
  qed
  then show ?thesis by simp
qed

lemma gen_token_loop_frame:
  assumes "gen_token_loop P d e = Some r"
  shows "ent_frame e (fst (snd r))"
proof -
  let ?Q = "\<lambda>((P, d), e) r. ent_frame e (fst (snd r))"
  have "?Q ((P, d), e) r"
  proof (rule gen_token_loop.raw_induct [where Pa = ?Q, rotated, OF assms], goal_cases)
    case (1 loop P d e r)
    from 1(2) show ?case
      by (simp split: prod.splits sum.splits drbg_error.splits Option.bind_splits if_splits)
         (auto dest!: reseed_drbg_frame 1(1) intro: ent_frame_trans)
  qed
  then show ?thesis by simp
qed

lemma rand_bytes_frame: "rand_bytes P s buf = Some (s', out, r) \<Longrightarrow> ent_frame (ent s) (ent s')"
  by (auto simp: rand_bytes_def split: option.splits Option.bind_splits dest!: rand_bytes_loop_frame)

lemma gen_token_u64_frame: "gen_token_u64 P s = Some (s', r) \<Longrightarrow> ent_frame (ent s) (ent s')"
  by (auto simp: gen_token_u64_def split: option.splits Option.bind_splits dest!: gen_token_loop_frame)

lemma gen_token_loop_nonzero:
  assumes "gen_token_loop P d e = Some r"
  shows "snd (snd r) \<noteq> Inr 0"
proof (rule gen_token_loop.raw_induct [rotated, OF assms], goal_cases)
  case (1 loop P d e r)
  from 1(2) show ?case
    by (auto split: prod.splits sum.splits if_splits drbg_error.splits Option.bind_splits)
       (use 1(1) in blast)+
qed

lemma gen_token_loop_first_nonzero:
  assumes "\<forall>i < k. p_drbg_generate P (ds i) 8 = (ds (Suc i), Inr (replicate 8 0))"
    and "p_drbg_generate P (ds k) 8 = (d', Inr out)" "from_be out \<noteq> (0 :: u64)"
  shows "gen_token_loop P (ds 0) e = Some (d', e, Inr (from_be out))"
proof -
  have z: "from_be (replicate 8 0) = (0 :: u64)"
    by (simp add: from_be_def replicate_numeral)
  have "gen_token_loop P (ds (k - j)) e = Some (d', e, Inr (from_be out))" if "j \<le> k" for j
    using that
  proof (induction j)
    case 0
    then show ?case using assms(2,3) by (simp add: gen_token_loop.simps [of P "ds k"])
  next
    case (Suc j)
    then have "Suc (k - Suc j) = k - j" "k - Suc j < k" by auto
    then have "p_drbg_generate P (ds (k - Suc j)) 8 = (ds (k - j), Inr (replicate 8 0))"
      using assms(1) by metis
    then show ?case using Suc z by (simp add: gen_token_loop.simps [of P "ds (k - Suc j)"])
  qed
  from this [of k] show ?thesis by simp
qed

lemma gen_token_u64_nonzero [simp]: "gen_token_u64 P s \<noteq> Some (s', Inr 0)"
  using gen_token_loop_nonzero [of P _ "ent s"]
  by (auto simp: gen_token_u64_def split: option.splits Option.bind_splits) fastforce

text \<open>When the DRBG first returns \<open>k\<close> zero blocks and then a non-zero one, token generation
  returns, and the token is that block read big-endian.\<close>

theorem gen_token_returns:
  assumes "cap_drbg s = Some (ds 0)"
    and "\<forall>i < k. p_drbg_generate P (ds i) 8 = (ds (Suc i), Inr (replicate 8 0))"
    and "p_drbg_generate P (ds k) 8 = (d', Inr out)" "from_be out \<noteq> (0 :: u64)"
  shows "gen_token_u64 P s = Some (s\<lparr>cap_drbg := Some d'\<rparr>, Inr (from_be out))"
  using gen_token_loop_first_nonzero [OF assms(2-4)] assms(1) by (simp add: gen_token_u64_def)

theorem gen_token_returns_witness:
  "gen_token_u64 demo_platform \<lparr>ent = demo_entropy, cap_drbg = Some (0xFFFFFFFFFFFFFFFF)\<rparr>
     = Some (\<lparr>ent = demo_entropy, cap_drbg = Some 1\<rparr>, Inr 0x0101010101010101)"
proof -
  let ?ds = "\<lambda>i. if i = 0 then 0xFFFFFFFFFFFFFFFF else (0 :: u64)"
  have "from_be (replicate 8 1) = (0x0101010101010101 :: u64)"
    by (simp add: from_be_def replicate_numeral)
  then show ?thesis
    using gen_token_returns [of "\<lparr>ent = demo_entropy, cap_drbg = Some (?ds 0)\<rparr>" ?ds 1 demo_platform 1
        "replicate 8 1"] by simp
qed

text \<open>A freshly issued capability opens exactly its own endpoint, for exactly the rights it was
  issued with and their subsets.\<close>

theorem generate_capability_valid:
  assumes "generate_capability P s ep r = Some (s', Inr c)"
  shows "is_valid_for c ep' q \<longleftrightarrow> ep' = ep \<and> contains r q"
  using assms by (auto simp: generate_capability_def is_valid_for_def contains_def
      split: Option.bind_splits sum.splits)

theorem generate_capability_valid_witness:
  "\<exists>s' c. generate_capability demo_platform \<lparr>ent = demo_entropy, cap_drbg = Some 0\<rparr> EP_SIGN CALL
     = Some (s', Inr c) \<and> is_valid_for c EP_SIGN CALL \<and> \<not> is_valid_for c EP_CRYPTO CALL"
proof -
  have "from_be (replicate 8 1) \<noteq> (0 :: u64)"
    by (simp add: from_be_def replicate_numeral)
  then obtain s' c where
    g: "generate_capability demo_platform \<lparr>ent = demo_entropy, cap_drbg = Some 0\<rparr> EP_SIGN CALL
      = Some (s', Inr c)"
    by (auto simp: generate_capability_def gen_token_u64_def
        gen_token_loop.simps [of demo_platform 0])
  show ?thesis using g generate_capability_valid [OF g]
    by (auto simp: ep_consts contains_def)
qed

subsection \<open>Capability spaces\<close>

definition MAX_CAPS_PER_SPACE :: nat where "MAX_CAPS_PER_SPACE = 32"

record CapabilitySpace =
  slots :: "Capability option list"
  count :: nat

definition space_empty :: CapabilitySpace where
  "space_empty = \<lparr>slots = replicate MAX_CAPS_PER_SPACE None, count = 0\<rparr>"

definition space_insert :: "CapabilitySpace \<Rightarrow> Capability \<Rightarrow> CapabilitySpace \<times> nat option" where
  "space_insert sp cap =
     (case List.find (\<lambda>i. slots sp ! i = None) [0..<length (slots sp)] of
        Some i \<Rightarrow> (sp\<lparr>slots := (slots sp)[i := Some cap], count := count sp + 1\<rparr>, Some i)
      | None \<Rightarrow> (sp, None))"

definition space_get :: "CapabilitySpace \<Rightarrow> nat \<Rightarrow> Capability option" where
  "space_get sp idx = (if idx < length (slots sp) then slots sp ! idx else None)"

text \<open>The search visits every slot; \<open>found\<close> keeps the first match.\<close>

fun find_by_token_loop :: "u64 \<Rightarrow> nat \<Rightarrow> nat option \<Rightarrow> Capability option list \<Rightarrow> nat option" where
  "find_by_token_loop tok i found [] = found"
| "find_by_token_loop tok i found (None # ss) = find_by_token_loop tok (i + 1) found ss"
| "find_by_token_loop tok i found (Some cap # ss) =
     (let m = ct_token_eq cap \<lparr>token = tok, endpoint_id = INVALID, rights = NONE\<rparr>
      in find_by_token_loop tok (i + 1)
           (if m \<and> token cap \<noteq> 0 \<and> found = None then Some i else found) ss)"

definition find_by_token :: "CapabilitySpace \<Rightarrow> u64 \<Rightarrow> nat option" where
  "find_by_token sp tok = find_by_token_loop tok 0 None (slots sp)"

definition space_revoke :: "CapabilitySpace \<Rightarrow> nat \<Rightarrow> CapabilitySpace \<times> (CapError + unit)" where
  "space_revoke sp idx =
     (if idx < length (slots sp)
      then (sp\<lparr>slots := (slots sp)[idx := None], count := count sp - 1\<rparr>, Inr ())
      else (sp, Inl InvalidSlot))"

text \<open>The counter agrees with the occupied slots; revoking an empty slot breaks it (below).\<close>

definition occupied :: "CapabilitySpace \<Rightarrow> nat" where
  "occupied sp = length (filter (\<lambda>s. s \<noteq> None) (slots sp))"

definition space_ok :: "CapabilitySpace \<Rightarrow> bool" where
  "space_ok sp \<longleftrightarrow> length (slots sp) = MAX_CAPS_PER_SPACE \<and> count sp = occupied sp"

lemma find_loop_found [simp]: "find_by_token_loop tok i (Some j) ss = Some j"
  by (induction tok i "Some j" ss rule: find_by_token_loop.induct) simp_all

lemma find_loop_spec:
  "tok \<noteq> 0 \<Longrightarrow> find_by_token_loop tok i None ss =
     map_option (\<lambda>j. i + j) (List.find (\<lambda>j. \<exists>c. ss ! j = Some c \<and> token c = tok) [0..<length ss])"
proof (induction ss arbitrary: i)
  case (Cons s ss)
  have shift: "List.find Q [Suc 0..<Suc n] = map_option Suc (List.find (\<lambda>j. Q (Suc j)) [0..<n])" for Q n
    by (simp only: map_Suc_upt [symmetric] find_map)
  show ?case
    using Cons by (cases s) (auto simp: ct_token_eq_def upt_conv_Cons shift option.map_comp o_def
        simp del: upt_Suc intro!: option.map_cong)
qed simp

lemma find_by_token_spec:
  "tok \<noteq> 0 \<Longrightarrow> find_by_token sp tok =
     List.find (\<lambda>j. \<exists>c. slots sp ! j = Some c \<and> token c = tok) [0..<length (slots sp)]"
  by (simp add: find_by_token_def find_loop_spec option.map_ident)

lemma find_loop_zero: "find_by_token_loop 0 i None ss = None"
proof (induction ss arbitrary: i)
  case (Cons s ss)
  then show ?case by (cases s) (auto simp: ct_token_eq_def)
qed simp

text \<open>Searching a space by token finds the first slot that holds a capability with that token, and
  never finds the invalid token zero.\<close>

theorem find_by_token_iff:
  "find_by_token sp tok = Some i \<longleftrightarrow>
     tok \<noteq> 0 \<and> map_option token (space_get sp i) = Some tok \<and>
     (\<forall>j < i. map_option token (space_get sp j) \<noteq> Some tok)"
proof (cases "tok = 0")
  case True
  then show ?thesis by (simp add: find_by_token_def find_loop_zero)
next
  case False
  then show ?thesis
    by (auto simp: find_by_token_spec find_upt_Some_iff space_get_def split: if_splits)
qed

definition demo_space :: CapabilitySpace where
  "demo_space =
     fst (space_insert space_empty \<lparr>token = 5, endpoint_id = EP_SIGN, rights = CALL\<rparr>)"

lemma demo_space_slots:
  "slots demo_space = Some \<lparr>token = 5, endpoint_id = EP_SIGN, rights = CALL\<rparr> # replicate 31 None"
  "count demo_space = 1"
  by (simp_all add: demo_space_def space_insert_def space_empty_def MAX_CAPS_PER_SPACE_def
      upt_conv_Cons replicate_numeral)

theorem find_by_token_iff_witness: "find_by_token demo_space 5 = Some 0"
  by (simp add: find_by_token_iff space_get_def demo_space_slots)

text \<open>Inserting uses the lowest free slot, fails exactly when none is free, changes no other slot,
  and keeps the counter equal to the number of occupied slots.\<close>

theorem space_insert_correct:
  assumes "space_ok sp" "space_insert sp cap = (sp', r)"
  shows "space_ok sp' \<and> (r = None \<longleftrightarrow> occupied sp = MAX_CAPS_PER_SPACE) \<and> (r = None \<longrightarrow> sp' = sp) \<and>
     (\<forall>i. r = Some i \<longrightarrow>
        space_get sp i = None \<and> (\<forall>j < i. space_get sp j \<noteq> None) \<and> i < MAX_CAPS_PER_SPACE \<and>
        (\<forall>j. space_get sp' j = (if j = i then Some cap else space_get sp j)))"
proof (cases "List.find (\<lambda>i. slots sp ! i = None) [0..<length (slots sp)]")
  case None
  then have all: "\<forall>i < length (slots sp). slots sp ! i \<noteq> None" by (simp add: find_upt_None_iff)
  then have "filter (\<lambda>s. s \<noteq> None) (slots sp) = slots sp"
    by (auto simp: filter_id_conv in_set_conv_nth)
  then show ?thesis using assms None by (auto simp: space_insert_def space_ok_def occupied_def)
next
  case (Some i)
  then have i: "i < length (slots sp)" "slots sp ! i = None" "\<forall>j < i. slots sp ! j \<noteq> None"
    by (auto simp: find_upt_Some_iff)
  have eq: "sp' = sp\<lparr>slots := (slots sp)[i := Some cap], count := count sp + 1\<rparr>" "r = Some i"
    using assms(2) Some by (auto simp: space_insert_def)
  have "occupied sp' = Suc (occupied sp)"
    using length_filter_update [OF i(1), of "\<lambda>s. s \<noteq> None" "Some cap"] i(2)
    by (simp add: occupied_def eq)
  moreover have "occupied sp < MAX_CAPS_PER_SPACE"
    using assms(1) length_filter_less [of None "slots sp" "\<lambda>s. s \<noteq> None"] i(1,2)
    by (metis (mono_tags, lifting) nth_mem occupied_def space_ok_def)
  ultimately show ?thesis using assms(1) i by (auto simp: eq space_ok_def space_get_def)
qed

theorem space_insert_correct_witness:
  "space_insert space_empty cap_null =
     (space_empty\<lparr>slots := Some cap_null # replicate 31 None, count := 1\<rparr>, Some 0)
   \<and> space_ok (space_empty\<lparr>slots := Some cap_null # replicate 31 None, count := 1\<rparr>)"
proof -
  have ins: "space_insert space_empty cap_null =
     (space_empty\<lparr>slots := Some cap_null # replicate 31 None, count := 1\<rparr>, Some 0)"
    by (simp add: space_insert_def space_empty_def MAX_CAPS_PER_SPACE_def upt_conv_Cons
        replicate_numeral)
  have "space_ok space_empty"
    by (simp add: space_ok_def space_empty_def occupied_def MAX_CAPS_PER_SPACE_def)
  then show ?thesis using ins space_insert_correct [OF _ ins] by simp
qed

text \<open>Revoking an occupied slot empties that slot only and keeps the counter right; an index past
  the end is refused and changes nothing.\<close>

theorem space_revoke_correct:
  assumes "space_ok sp" "space_revoke sp idx = (sp', r)"
  shows "(idx \<ge> MAX_CAPS_PER_SPACE \<longrightarrow> r = Inl InvalidSlot \<and> sp' = sp) \<and>
     (idx < MAX_CAPS_PER_SPACE \<longrightarrow> r = Inr () \<and>
        (\<forall>j. space_get sp' j = (if j = idx then None else space_get sp j)) \<and>
        (space_get sp idx \<noteq> None \<longrightarrow> space_ok sp'))"
proof (cases "idx < length (slots sp)")
  case False
  then show ?thesis using assms by (auto simp: space_revoke_def space_ok_def)
next
  case True
  then have eq: "sp' = sp\<lparr>slots := (slots sp)[idx := None], count := count sp - 1\<rparr>" "r = Inr ()"
    using assms(2) by (auto simp: space_revoke_def)
  have "slots sp ! idx \<noteq> None \<Longrightarrow> Suc (occupied sp') = occupied sp"
    using length_filter_update [OF True, of "\<lambda>s. s \<noteq> None" None] by (simp add: occupied_def eq)
  then show ?thesis using True assms(1) by (auto simp: eq space_ok_def space_get_def)
qed

theorem space_revoke_correct_witness:
  "space_get (fst (space_revoke demo_space 0)) 0 = None \<and> space_ok (fst (space_revoke demo_space 0))"
proof -
  have ok: "space_ok demo_space"
    by (simp add: space_ok_def demo_space_slots occupied_def MAX_CAPS_PER_SPACE_def)
  have "space_get demo_space 0 \<noteq> None" by (simp add: space_get_def demo_space_slots)
  then show ?thesis
    using space_revoke_correct [OF ok, of 0 "fst (space_revoke demo_space 0)"
        "snd (space_revoke demo_space 0)"] by (simp add: MAX_CAPS_PER_SPACE_def)
qed

text \<open>Revoking a slot that is already empty still decrements the counter.\<close>

theorem revoke_empty_slot_desyncs_count:
  "space_get demo_space 1 = None \<and> snd (space_revoke demo_space 1) = Inr () \<and>
   count (fst (space_revoke demo_space 1)) = 0 \<and> occupied (fst (space_revoke demo_space 1)) = 1"
  by (simp add: space_get_def space_revoke_def occupied_def demo_space_slots replicate_numeral)

end
