(* ===== verification/Ipc.thy ===== *)
theory Ipc
  imports Capability
begin

text \<open>
  \<^verbatim>\<open>src/src/ipc.rs\<close>: messages, the endpoint state machine (one message at a time,
  rendezvous), the registry and the service side of the API (\<open>ipc_recv\<close>, \<open>ipc_reply\<close>).
  \<open>ipc_call\<close>, which runs the kernel services inside the call, is in \<open>IpcCall\<close>.
  Erasing a payload when a message is dropped is not observable here: a dropped message is gone.
\<close>

definition IPC_MAX_PAYLOAD :: nat where "IPC_MAX_PAYLOAD = 256"
definition IPC_MAX_ENDPOINTS :: nat where "IPC_MAX_ENDPOINTS = 16"

definition is_kernel_service :: "EndpointId \<Rightarrow> bool" where
  "is_kernel_service i \<longleftrightarrow> i = EP_CRYPTO \<or> i = EP_SYSTEM \<or> i = EP_SIGN"

datatype MessageType =
  Ping | Pong | Connect | Disconnect
  | EncryptReq | EncryptResp | DecryptReq | DecryptResp | HashReq | HashResp
  | KeyDeriveReq | KeyDeriveResp | SignReq | SignResp | VerifyReq | VerifyResp | DhReq | DhResp
  | SignBeginReq | SignBeginResp | SignInChunkReq | SignInChunkResp | SignExecReq | SignExecResp
  | SignOutChunkReq | SignOutChunkResp | SignEndReq | SignEndResp
  | MsgError

datatype IpcError =
  CapabilityDenied | EndpointBusy | EndpointNotFound | PayloadTooLarge | PayloadLenMismatch
  | NoMessage | EndpointsFull | InvalidMessageType

subsection \<open>Messages\<close>

record IpcMessage =
  msg_type :: MessageType
  payload_len :: u16
  msg_sequence :: u32
  payload :: bytes

definition message_new :: "MessageType \<Rightarrow> u32 \<Rightarrow> IpcMessage" where
  "message_new t s =
     \<lparr>msg_type = t, payload_len = 0, msg_sequence = s, payload = replicate IPC_MAX_PAYLOAD 0\<rparr>"

definition set_payload :: "IpcMessage \<Rightarrow> bytes \<Rightarrow> IpcError + IpcMessage" where
  "set_payload m d =
     (if IPC_MAX_PAYLOAD < length d then Inl PayloadTooLarge
      else Inr (m\<lparr>payload := d @ replicate (IPC_MAX_PAYLOAD - length d) 0,
                  payload_len := of_nat (length d)\<rparr>))"

definition payload_bytes :: "IpcMessage \<Rightarrow> bytes" where
  "payload_bytes m = take (unat (payload_len m)) (payload m)"

lemma set_payload_bytes: "set_payload m d = Inr m' \<Longrightarrow> payload_bytes m' = d"
  by (auto simp: set_payload_def payload_bytes_def IPC_MAX_PAYLOAD_def unat_of_nat
      split: if_splits)

lemma set_payload_length:
  "set_payload m d = Inr m' \<Longrightarrow> length (payload m') = IPC_MAX_PAYLOAD"
  by (auto simp: set_payload_def split: if_splits)

lemma set_payload_keeps:
  "set_payload m d = Inr m' \<Longrightarrow> msg_type m' = msg_type m \<and> msg_sequence m' = msg_sequence m"
  by (auto simp: set_payload_def split: if_splits)

subsection \<open>Endpoints\<close>

datatype EndpointState = EpIdle | PendingReply IpcMessage | ReplyReady IpcMessage

record IpcEndpoint =
  ep_id :: EndpointId
  required_rights :: Rights
  ep_state :: EndpointState
  ep_sequence :: u32

definition endpoint_new :: "EndpointId \<Rightarrow> Rights \<Rightarrow> IpcEndpoint" where
  "endpoint_new i r = \<lparr>ep_id = i, required_rights = r, ep_state = EpIdle, ep_sequence = 0\<rparr>"

definition next_sequence :: "IpcEndpoint \<Rightarrow> IpcEndpoint \<times> u32" where
  "next_sequence ep =
     (let s = ep_sequence ep + 1 in (ep\<lparr>ep_sequence := s\<rparr>, s))"

definition post :: "IpcEndpoint \<Rightarrow> Capability \<Rightarrow> IpcMessage \<Rightarrow> IpcEndpoint \<times> (IpcError + unit)" where
  "post ep cap msg =
     (if \<not> is_valid_for cap (ep_id ep) (required_rights ep) then (ep, Inl CapabilityDenied)
      else if (case ep_state ep of PendingReply _ \<Rightarrow> True | _ \<Rightarrow> False) then (ep, Inl EndpointBusy)
      else if IPC_MAX_PAYLOAD < unat (payload_len msg) then (ep, Inl PayloadLenMismatch)
      else
        let (ep1, s) = next_sequence ep
        in (ep1\<lparr>ep_state := PendingReply (msg\<lparr>msg_sequence := s\<rparr>)\<rparr>, Inr ()))"

definition take_msg :: "IpcEndpoint \<Rightarrow> IpcEndpoint \<times> (IpcError + IpcMessage)" where
  "take_msg ep =
     (case ep_state ep of
        PendingReply msg \<Rightarrow> (ep\<lparr>ep_state := EpIdle\<rparr>, Inr msg)
      | other \<Rightarrow> (ep\<lparr>ep_state := other\<rparr>, Inl NoMessage))"

definition post_reply :: "IpcEndpoint \<Rightarrow> IpcMessage \<Rightarrow> IpcEndpoint \<times> (IpcError + unit)" where
  "post_reply ep reply =
     (case ep_state ep of
        ReplyReady _ \<Rightarrow> (ep, Inl EndpointBusy)
      | _ \<Rightarrow> (ep\<lparr>ep_state := ReplyReady reply\<rparr>, Inr ()))"

definition take_reply :: "IpcEndpoint \<Rightarrow> IpcEndpoint \<times> (IpcError + IpcMessage)" where
  "take_reply ep =
     (case ep_state ep of
        ReplyReady msg \<Rightarrow> (ep\<lparr>ep_state := EpIdle\<rparr>, Inr msg)
      | other \<Rightarrow> (ep\<lparr>ep_state := other\<rparr>, Inl NoMessage))"

lemmas endpoint_ops = post_def take_msg_def post_reply_def take_reply_def next_sequence_def Let_def

lemma endpoint_ids [frame_simps, simp]:
  "ep_id (fst (post ep cap msg)) = ep_id ep" "ep_id (fst (take_msg ep)) = ep_id ep"
  "ep_id (fst (post_reply ep msg)) = ep_id ep" "ep_id (fst (take_reply ep)) = ep_id ep"
  by (auto simp: endpoint_ops split: EndpointState.splits)

subsection \<open>The registry\<close>

record IpcRegistry =
  endpoints :: "IpcEndpoint option list"
  ep_count :: nat

definition registry_empty :: IpcRegistry where
  "registry_empty = \<lparr>endpoints = replicate IPC_MAX_ENDPOINTS None, ep_count = 0\<rparr>"

definition register :: "IpcRegistry \<Rightarrow> EndpointId \<Rightarrow> Rights \<Rightarrow> IpcRegistry \<times> (IpcError + unit)" where
  "register reg i r =
     (if IPC_MAX_ENDPOINTS \<le> ep_count reg then (reg, Inl EndpointsFull)
      else
        case List.find (\<lambda>j. endpoints reg ! j = None) [0..<length (endpoints reg)] of
          Some j \<Rightarrow> (reg\<lparr>endpoints := (endpoints reg)[j := Some (endpoint_new i r)],
                         ep_count := ep_count reg + 1\<rparr>, Inr ())
        | None \<Rightarrow> (reg, Inl EndpointsFull))"

text \<open>\<open>find_mut\<close> yields the position of the first endpoint with the identifier.\<close>

definition find_mut :: "IpcRegistry \<Rightarrow> EndpointId \<Rightarrow> nat option" where
  "find_mut reg i =
     List.find (\<lambda>j. map_option ep_id (endpoints reg ! j) = Some i) [0..<length (endpoints reg)]"

definition endpoint_at :: "IpcRegistry \<Rightarrow> nat \<Rightarrow> IpcEndpoint" where
  "endpoint_at reg j = the (endpoints reg ! j)"

definition set_endpoint :: "IpcRegistry \<Rightarrow> nat \<Rightarrow> IpcEndpoint \<Rightarrow> IpcRegistry" where
  "set_endpoint reg j ep = reg\<lparr>endpoints := (endpoints reg)[j := Some ep]\<rparr>"

definition endpoint_exists :: "IpcRegistry \<Rightarrow> EndpointId \<Rightarrow> bool" where
  "endpoint_exists reg i =
     (if i = INVALID then False
      else list_ex (\<lambda>s. case s of None \<Rightarrow> False | Some ep \<Rightarrow> ep_id ep = i) (endpoints reg))"

definition ipc_init :: "IpcRegistry \<Rightarrow> IpcRegistry" where
  "ipc_init reg =
     (let reg = fst (register reg EP_SYSTEM CALL);
          reg = fst (register reg EP_CRYPTO CALL);
          reg = fst (register reg EP_SIGN CALL)
      in fst (register reg EP_LUMEN_WIRE CALL))"

definition ipc_recv :: "IpcRegistry \<Rightarrow> EndpointId \<Rightarrow> IpcRegistry \<times> (IpcError + IpcMessage)" where
  "ipc_recv reg i =
     (case find_mut reg i of
        None \<Rightarrow> (reg, Inl EndpointNotFound)
      | Some j \<Rightarrow> (let (ep, r) = take_msg (endpoint_at reg j) in (set_endpoint reg j ep, r)))"

definition ipc_reply ::
  "IpcRegistry \<Rightarrow> EndpointId \<Rightarrow> MessageType \<Rightarrow> bytes \<Rightarrow> IpcRegistry \<times> (IpcError + unit)" where
  "ipc_reply reg i reply_type d =
     (case find_mut reg i of
        None \<Rightarrow> (reg, Inl EndpointNotFound)
      | Some j \<Rightarrow>
          (case set_payload (message_new reply_type (ep_sequence (endpoint_at reg j))) d of
             Inl e \<Rightarrow> (reg, Inl e)
           | Inr reply \<Rightarrow>
               (let (ep, r) = post_reply (endpoint_at reg j) reply in (set_endpoint reg j ep, r))))"

lemma find_mut_Some:
  "find_mut reg i = Some j \<Longrightarrow> j < length (endpoints reg) \<and> ep_id (endpoint_at reg j) = i \<and>
     endpoints reg ! j = Some (endpoint_at reg j)"
  by (auto simp: find_mut_def find_upt_Some_iff endpoint_at_def)

lemma set_endpoint_twice [simp]:
  "set_endpoint (set_endpoint reg j ep) j ep' = set_endpoint reg j ep'"
  by (simp add: set_endpoint_def)

lemma find_set_endpoint:
  assumes "find_mut reg i = Some j" "ep_id ep = i"
  shows "find_mut (set_endpoint reg j ep) i = Some j" "endpoint_at (set_endpoint reg j ep) j = ep"
proof -
  have j: "j < length (endpoints reg)" "\<forall>k < j. map_option ep_id (endpoints reg ! k) \<noteq> Some i"
    using assms(1) by (auto simp: find_mut_def find_upt_Some_iff)
  then have "map_option ep_id ((endpoints reg)[j := Some ep] ! k) \<noteq> Some i" if "k < j" for k
    using that by simp
  then show "find_mut (set_endpoint reg j ep) i = Some j" "endpoint_at (set_endpoint reg j ep) j = ep"
    using j(1) assms(2) by (simp_all add: find_mut_def find_upt_Some_iff set_endpoint_def endpoint_at_def)
qed

lemma endpoint_exists_find_mut:
  "endpoint_exists reg i \<longleftrightarrow> i \<noteq> INVALID \<and> find_mut reg i \<noteq> None"
  by (auto simp: endpoint_exists_def find_mut_def find_upt_None_iff list_ex_length
      split: option.splits)

subsection \<open>Well-formed registries\<close>

definition message_ok :: "IpcMessage \<Rightarrow> bool" where
  "message_ok m \<longleftrightarrow> length (payload m) = IPC_MAX_PAYLOAD \<and> unat (payload_len m) \<le> IPC_MAX_PAYLOAD"

text \<open>What an endpoint holds is well-formed and carries the endpoint's current sequence number.\<close>

definition endpoint_ok :: "IpcEndpoint \<Rightarrow> bool" where
  "endpoint_ok ep \<longleftrightarrow>
     (case ep_state ep of EpIdle \<Rightarrow> True
      | PendingReply m \<Rightarrow> message_ok m \<and> msg_sequence m = ep_sequence ep
      | ReplyReady m \<Rightarrow> message_ok m \<and> msg_sequence m = ep_sequence ep)"

definition ipc_ok :: "IpcRegistry \<Rightarrow> bool" where
  "ipc_ok reg \<longleftrightarrow> (\<forall>ep. Some ep \<in> set (endpoints reg) \<longrightarrow> endpoint_ok ep)"

lemma message_ok_new [simp]: "message_ok (message_new t s)"
  by (simp add: message_ok_def message_new_def)

lemma set_payload_ok: "set_payload m d = Inr m' \<Longrightarrow> message_ok m'"
  by (auto simp: set_payload_def message_ok_def IPC_MAX_PAYLOAD_def unat_of_nat split: if_splits)

lemma endpoint_ok_steps:
  "endpoint_ok ep \<Longrightarrow> message_ok m \<Longrightarrow> endpoint_ok (fst (post ep cap m))"
  "endpoint_ok ep \<Longrightarrow> endpoint_ok (fst (take_msg ep))"
  "endpoint_ok ep \<Longrightarrow> message_ok m \<Longrightarrow> msg_sequence m = ep_sequence ep \<Longrightarrow> endpoint_ok (fst (post_reply ep m))"
  "endpoint_ok ep \<Longrightarrow> endpoint_ok (fst (take_reply ep))"
  by (auto simp: endpoint_ok_def endpoint_ops message_ok_def split: EndpointState.splits)

lemma ipc_ok_at: "ipc_ok reg \<Longrightarrow> find_mut reg i = Some j \<Longrightarrow> endpoint_ok (endpoint_at reg j)"
  using find_mut_Some [of reg i j] by (auto simp: ipc_ok_def) (metis nth_mem)

lemma ipc_ok_set: "ipc_ok reg \<Longrightarrow> endpoint_ok ep \<Longrightarrow> ipc_ok (set_endpoint reg j ep)"
  by (auto simp: ipc_ok_def set_endpoint_def dest!: set_update_subset_insert [THEN subsetD])

lemma ipc_recv_ok:
  assumes "ipc_ok reg" "ipc_recv reg i = (reg', r)"
  shows "ipc_ok reg'" "r = Inr m \<Longrightarrow> message_ok m"
  using assms ipc_ok_at [OF assms(1), of i]
  by (auto simp: ipc_recv_def take_msg_def endpoint_ok_def
      split: option.splits EndpointState.splits intro!: ipc_ok_set)

lemma ipc_reply_ok:
  assumes "ipc_ok reg" "ipc_reply reg i t d = (reg', r)"
  shows "ipc_ok reg'"
proof (cases "find_mut reg i")
  case (Some j)
  have "endpoint_ok (fst (post_reply (endpoint_at reg j) m))"
    if "set_payload (message_new t (ep_sequence (endpoint_at reg j))) d = Inr m" for m
    using endpoint_ok_steps(3) [OF ipc_ok_at [OF assms(1) Some] set_payload_ok [OF that]]
      set_payload_keeps [OF that] by (simp add: message_new_def)
  then show ?thesis
    using assms Some by (auto simp: ipc_reply_def split: sum.splits prod.splits intro!: ipc_ok_set)
qed (use assms in \<open>simp add: ipc_reply_def\<close>)

end
