(* ===== verification/SignService.thy ===== *)
theory SignService
  imports Ipc
begin

text \<open>
  \<^verbatim>\<open>src/src/sign_service.rs\<close>: the ML-DSA-44 signing service behind \<open>EP_SIGN\<close>. A
  session collects key, auxiliary data and message in chunks, runs one operation, and hands the
  result out in chunks. \<open>sign_state\<close> holds the module's statics: the session and its four
  buffers.
\<close>

definition MSG_BUF_LEN :: nat where "MSG_BUF_LEN = 1020"
definition OUT_BUF_LEN :: nat where "OUT_BUF_LEN = MLDSA44_PK_LEN + MLDSA44_SK_LEN"
definition CHUNK_SIZE :: nat where "CHUNK_SIZE = 240"

lemmas sign_sizes = crate_sizes MSG_BUF_LEN_def OUT_BUF_LEN_def CHUNK_SIZE_def

datatype Op = Keygen | Sign | Verify
datatype Phase = Idle | CollectKey | CollectAux | CollectMsg | Ready | OutputReady

record SignSession =
  phase :: Phase
  op :: Op
  key_total :: u32
  aux_total :: u32
  msg_total :: u32
  key_recv :: u32
  aux_recv :: u32
  msg_recv :: u32
  out_total :: u32
  verify_ok :: bool

definition session_idle :: SignSession where
  "session_idle =
     \<lparr>phase = Idle, op = Keygen, key_total = 0, aux_total = 0, msg_total = 0, key_recv = 0,
      aux_recv = 0, msg_recv = 0, out_total = 0, verify_ok = False\<rparr>"

record sign_state =
  session :: SignSession
  key_buf :: bytes
  aux_buf :: bytes
  msg_buf :: bytes
  out_buf :: bytes

definition sign_init :: sign_state where
  "sign_init =
     \<lparr>session = session_idle, key_buf = replicate MLDSA44_SK_LEN 0,
      aux_buf = replicate MLDSA44_SIG_LEN 0, msg_buf = replicate MSG_BUF_LEN 0,
      out_buf = replicate OUT_BUF_LEN 0\<rparr>"

datatype SignError =
  InvalidPhase | InvalidOp | InvalidVariant | SizeTooLarge | ChunkOverflow | ExecFailed
  | VerifyFailed | InvalidRequest

fun sign_error_code :: "SignError \<Rightarrow> u8" where
  "sign_error_code InvalidPhase = 1"
| "sign_error_code InvalidOp = 2"
| "sign_error_code InvalidVariant = 3"
| "sign_error_code SizeTooLarge = 4"
| "sign_error_code ChunkOverflow = 5"
| "sign_error_code ExecFailed = 6"
| "sign_error_code VerifyFailed = 7"
| "sign_error_code InvalidRequest = 8"

subsection \<open>The payload\<close>

record SignPayload =
  sp_phase :: u8
  sp_op :: u8
  sp_variant :: u8
  sp_result :: u8
  sp_offset :: u32
  sp_total :: u32
  sp_chunk_len :: u16
  sp_pad :: u16
  sp_data :: bytes

definition decode_sign :: "bytes \<Rightarrow> SignPayload" where
  "decode_sign b =
     \<lparr>sp_phase = b ! 0, sp_op = b ! 1, sp_variant = b ! 2, sp_result = b ! 3,
      sp_offset = from_le (take 4 (drop 4 b)), sp_total = from_le (take 4 (drop 8 b)),
      sp_chunk_len = from_le (take 2 (drop 12 b)), sp_pad = from_le (take 2 (drop 14 b)),
      sp_data = take 240 (drop 16 b)\<rparr>"

definition encode_sign :: "SignPayload \<Rightarrow> bytes" where
  "encode_sign sp =
     [sp_phase sp, sp_op sp, sp_variant sp, sp_result sp] @ to_le 4 (sp_offset sp) @
     to_le 4 (sp_total sp) @ to_le 2 (sp_chunk_len sp) @ to_le 2 (sp_pad sp) @ sp_data sp"

definition parse_req :: "IpcMessage \<Rightarrow> SignError + SignPayload" where
  "parse_req msg =
     (if unat (payload_len msg) < 256 then Inl InvalidRequest else Inr (decode_sign (payload msg)))"

definition write_sign_reply :: "u8 \<Rightarrow> u8 \<Rightarrow> u32 \<Rightarrow> u32 \<Rightarrow> bytes \<Rightarrow> bytes" where
  "write_sign_reply ph res off tot d =
     (let chunk_len = min (length d) CHUNK_SIZE
      in encode_sign
           \<lparr>sp_phase = ph, sp_op = 0, sp_variant = 0, sp_result = res, sp_offset = off,
            sp_total = tot, sp_chunk_len = of_nat chunk_len, sp_pad = 0,
            sp_data = take chunk_len d @ replicate (240 - chunk_len) 0\<rparr>)"

lemma decode_encode_sign:
  "length (sp_data sp) = 240 \<Longrightarrow> decode_sign (encode_sign sp) = sp"
  by (simp add: decode_sign_def encode_sign_def from_to_le_16 from_to_le_32)

lemma encode_sign_length: "length (sp_data sp) = 240 \<Longrightarrow> length (encode_sign sp) = 256"
  by (simp add: encode_sign_def)

lemma write_sign_reply_length [layout_simps]: "length (write_sign_reply ph res off tot d) = 256"
  unfolding write_sign_reply_def Let_def by (rule encode_sign_length) (simp add: CHUNK_SIZE_def)

lemma write_sign_reply_decode:
  "decode_sign (write_sign_reply ph res off tot d) =
     \<lparr>sp_phase = ph, sp_op = 0, sp_variant = 0, sp_result = res, sp_offset = off,
      sp_total = tot, sp_chunk_len = of_nat (min (length d) 240), sp_pad = 0,
      sp_data = take 240 d @ replicate (240 - length d) 0\<rparr>"
  unfolding write_sign_reply_def Let_def by (subst decode_encode_sign) (simp_all add: CHUNK_SIZE_def min_def)

subsection \<open>The phases\<close>

definition erase_inputs :: "sign_state \<Rightarrow> sign_state" where
  "erase_inputs st =
     st\<lparr>key_buf := replicate MLDSA44_SK_LEN 0, aux_buf := replicate MLDSA44_SIG_LEN 0,
        msg_buf := replicate MSG_BUF_LEN 0\<rparr>"

definition erase_all :: "sign_state \<Rightarrow> sign_state" where
  "erase_all st = (erase_inputs st)\<lparr>out_buf := replicate OUT_BUF_LEN 0\<rparr>"

definition op_of_code :: "u8 \<Rightarrow> Op option" where
  "op_of_code c =
     (if c = 1 then Some Keygen else if c = 2 then Some Sign else if c = 3 then Some Verify
      else None)"

definition sizes_allowed :: "Op \<Rightarrow> u32 \<Rightarrow> u32 \<Rightarrow> u32 \<Rightarrow> bool" where
  "sizes_allowed o' k a m =
     (case o' of
        Keygen \<Rightarrow> k \<le> 32 \<and> a = 0 \<and> m = 0
      | Sign \<Rightarrow> unat k \<le> MLDSA44_SK_LEN \<and> a = 0 \<and> unat m \<le> MSG_BUF_LEN
      | Verify \<Rightarrow> unat k \<le> MLDSA44_PK_LEN \<and> unat a \<le> MLDSA44_SIG_LEN \<and> unat m \<le> MSG_BUF_LEN)"

definition session_begin :: "Op \<Rightarrow> u32 \<Rightarrow> u32 \<Rightarrow> u32 \<Rightarrow> SignSession" where
  "session_begin o' k a m =
     session_idle\<lparr>phase := if 0 < k then CollectKey else if 0 < a then CollectAux
                           else if 0 < m then CollectMsg else Ready,
       op := o', key_total := k, aux_total := a, msg_total := m\<rparr>"

definition handle_begin :: "SignPayload \<Rightarrow> sign_state \<Rightarrow> sign_state \<times> (SignError + unit)" where
  "handle_begin req st =
     (if phase (session st) \<noteq> Idle then (st, Inl InvalidPhase)
      else case op_of_code (sp_op req) of
        None \<Rightarrow> (st, Inl InvalidOp)
      | Some o' \<Rightarrow>
          if sp_variant req \<noteq> 1 then (st, Inl InvalidVariant)
          else if sp_chunk_len req < 12 then (st, Inl InvalidRequest)
          else
            let k = from_le (take 4 (sp_data req));
                a = from_le (take 4 (drop 4 (sp_data req)));
                m = from_le (take 4 (drop 8 (sp_data req)))
            in if \<not> sizes_allowed o' k a m then (st, Inl SizeTooLarge)
               else (erase_all (st\<lparr>session := session_begin o' k a m\<rparr>), Inr ()))"

text \<open>Writing \<open>req.data[..chunk_len]\<close> at \<open>offset..end\<close> of a buffer.\<close>

definition put_chunk :: "bytes \<Rightarrow> nat \<Rightarrow> nat \<Rightarrow> SignPayload \<Rightarrow> bytes option" where
  "put_chunk buf offset chunk_len req =
     do { d \<leftarrow> slice (sp_data req) 0 chunk_len; copy_into buf offset (offset + chunk_len) d }"

definition handle_in_chunk ::
  "SignPayload \<Rightarrow> sign_state \<Rightarrow> (sign_state \<times> (SignError + unit)) option" where
  "handle_in_chunk req st =
     (let se = session st; offset = unat (sp_offset req); chunk_len = unat (sp_chunk_len req);
          fin = offset + chunk_len
      in if CHUNK_SIZE < chunk_len then Some (st, Inl ChunkOverflow)
         else case phase se of
           CollectKey \<Rightarrow>
             if MLDSA44_SK_LEN < fin \<or> unat (key_total se) < fin then Some (st, Inl ChunkOverflow)
             else do {
               b \<leftarrow> put_chunk (key_buf st) offset chunk_len req;
               let se1 = se\<lparr>key_recv := of_nat fin\<rparr>;
               let se2 = (if key_total se1 \<le> key_recv se1
                          then se1\<lparr>phase := if 0 < aux_total se1 then CollectAux
                                            else if 0 < msg_total se1 then CollectMsg else Ready\<rparr>
                          else se1);
               Some (st\<lparr>key_buf := b, session := se2\<rparr>, Inr ())
             }
         | CollectAux \<Rightarrow>
             if MLDSA44_SIG_LEN < fin \<or> unat (aux_total se) < fin then Some (st, Inl ChunkOverflow)
             else do {
               b \<leftarrow> put_chunk (aux_buf st) offset chunk_len req;
               let se1 = se\<lparr>aux_recv := of_nat fin\<rparr>;
               let se2 = (if aux_total se1 \<le> aux_recv se1
                          then se1\<lparr>phase := if 0 < msg_total se1 then CollectMsg else Ready\<rparr>
                          else se1);
               Some (st\<lparr>aux_buf := b, session := se2\<rparr>, Inr ())
             }
         | CollectMsg \<Rightarrow>
             if MSG_BUF_LEN < fin \<or> unat (msg_total se) < fin then Some (st, Inl ChunkOverflow)
             else do {
               b \<leftarrow> put_chunk (msg_buf st) offset chunk_len req;
               let se1 = se\<lparr>msg_recv := of_nat fin\<rparr>;
               let se2 = (if msg_total se1 \<le> msg_recv se1 then se1\<lparr>phase := Ready\<rparr> else se1);
               Some (st\<lparr>msg_buf := b, session := se2\<rparr>, Inr ())
             }
         | _ \<Rightarrow> Some (st, Inl InvalidPhase))"

text \<open>The operation itself: the new output buffer, the output size and the verification flag.\<close>

definition run_op ::
  "('m, 'd) platform \<Rightarrow> bytes \<Rightarrow> sign_state \<Rightarrow> (sign_state \<times> (SignError + u32)) option" where
  "run_op P rnd st =
     (let se = session st
      in case op se of
        Keygen \<Rightarrow>
          do {
            seed \<leftarrow> (if unat (key_total se) = 32 then slice (key_buf st) 0 32 else Some rnd);
            case p_mldsa44_keygen P seed of
              None \<Rightarrow> Some (st, Inl ExecFailed)
            | Some (pk, sk) \<Rightarrow>
                do {
                  b1 \<leftarrow> copy_into (out_buf st) 0 MLDSA44_PK_LEN pk;
                  b2 \<leftarrow> copy_into b1 MLDSA44_PK_LEN (MLDSA44_PK_LEN + MLDSA44_SK_LEN) sk;
                  Some (st\<lparr>out_buf := b2\<rparr>, Inr (of_nat (MLDSA44_PK_LEN + MLDSA44_SK_LEN)))
                }
          }
      | Sign \<Rightarrow>
          if unat (key_total se) \<noteq> MLDSA44_SK_LEN then Some (st, Inl InvalidRequest)
          else do {
            msg \<leftarrow> slice (msg_buf st) 0 (unat (msg_total se));
            case p_mldsa44_sign P (key_buf st) msg [] rnd of
              None \<Rightarrow> Some (st, Inl ExecFailed)
            | Some sig \<Rightarrow>
                do {
                  b \<leftarrow> copy_into (out_buf st) 0 MLDSA44_SIG_LEN sig;
                  Some (st\<lparr>out_buf := b\<rparr>, Inr (of_nat MLDSA44_SIG_LEN))
                }
          }
      | Verify \<Rightarrow>
          if unat (key_total se) \<noteq> MLDSA44_PK_LEN \<or> unat (aux_total se) \<noteq> MLDSA44_SIG_LEN
          then Some (st, Inl InvalidRequest)
          else do {
            pk \<leftarrow> slice (key_buf st) 0 MLDSA44_PK_LEN;
            msg \<leftarrow> slice (msg_buf st) 0 (unat (msg_total se));
            case p_mldsa44_verify P pk msg (aux_buf st) [] of
              None \<Rightarrow> Some (st, Inl ExecFailed)
            | Some ok \<Rightarrow>
                let st1 = st\<lparr>session := se\<lparr>verify_ok := ok\<rparr>\<rparr>
                in if \<not> ok then Some (st1, Inl VerifyFailed)
                   else do {
                     b \<leftarrow> index_set (out_buf st1) 0 1;
                     Some (st1\<lparr>out_buf := b\<rparr>, Inr 1)
                   }
          })"

definition handle_exec ::
  "('m, 'd) platform \<Rightarrow> bytes \<Rightarrow> sign_state \<Rightarrow> (sign_state \<times> (SignError + u32)) option" where
  "handle_exec P rnd st =
     (if phase (session st) \<noteq> Ready then Some (st, Inl InvalidPhase)
      else do {
        (st1, r) \<leftarrow> run_op P rnd st;
        case r of
          Inl e \<Rightarrow> Some (st1, Inl e)
        | Inr tot \<Rightarrow>
            let st2 = erase_inputs st1
            in Some (st2\<lparr>session := (session st2)\<lparr>out_total := tot, phase := OutputReady\<rparr>\<rparr>, Inr tot)
      })"

text \<open>The reply buffer starts zeroed; the pair is the buffer and \<open>chunk_out_len\<close>.\<close>

definition handle_out_chunk ::
  "SignPayload \<Rightarrow> sign_state \<Rightarrow> (SignError + bytes \<times> u16) option" where
  "handle_out_chunk req st =
     (let se = session st; z = replicate CHUNK_SIZE 0
      in if phase se \<noteq> OutputReady then Some (Inl InvalidPhase)
         else
           let offset = unat (sp_offset req); tot = unat (out_total se)
           in if tot \<le> offset then Some (Inr (z, 0))
              else
                let tk = min (tot - offset) CHUNK_SIZE
                in do {
                     src \<leftarrow> slice (out_buf st) offset (offset + tk);
                     b \<leftarrow> copy_into z 0 tk src;
                     Some (Inr (b, of_nat tk))
                   })"

definition handle_end :: "sign_state \<Rightarrow> sign_state" where
  "handle_end st = (erase_all st)\<lparr>session := session_idle\<rparr>"

subsection \<open>The dispatcher\<close>

record ('m, 'd) service_state =
  rng :: "('m, 'd) rng_state"
  ipc :: IpcRegistry
  sign :: sign_state

record sign_answer =
  sa_type :: MessageType
  sa_code :: u8
  sa_offset :: u32
  sa_total :: u32
  sa_data_len :: u16
  sa_chunk :: bytes

definition sign_error_answer :: "SignError \<Rightarrow> sign_answer" where
  "sign_error_answer e =
     \<lparr>sa_type = MsgError, sa_code = sign_error_code e, sa_offset = 0, sa_total = 0,
      sa_data_len = 0, sa_chunk = replicate CHUNK_SIZE 0\<rparr>"

definition sign_plain_answer :: "MessageType \<Rightarrow> u32 \<Rightarrow> u32 \<Rightarrow> sign_answer" where
  "sign_plain_answer t off tot =
     \<lparr>sa_type = t, sa_code = 0, sa_offset = off, sa_total = tot, sa_data_len = 0,
      sa_chunk = replicate CHUNK_SIZE 0\<rparr>"

definition sign_answer_for ::
  "('m, 'd) platform \<Rightarrow> MessageType \<Rightarrow> SignPayload \<Rightarrow> ('m, 'd) service_state \<Rightarrow>
     (('m, 'd) service_state \<times> sign_answer) option" where
  "sign_answer_for P t req s =
     (case t of
        SignBeginReq \<Rightarrow>
          (case handle_begin req (sign s) of
             (sg, Inr _) \<Rightarrow>
               Some (s\<lparr>sign := sg\<rparr>,
                 \<lparr>sa_type = SignBeginResp, sa_code = 0, sa_offset = 0, sa_total = 0, sa_data_len = 4,
                  sa_chunk = to_le 4 (240 :: u32) @ replicate 236 0\<rparr>)
           | (sg, Inl e) \<Rightarrow> Some (s\<lparr>sign := sg\<rparr>, sign_error_answer e))
      | SignInChunkReq \<Rightarrow>
          do {
            (sg, r) \<leftarrow> handle_in_chunk req (sign s);
            case r of
              Inr _ \<Rightarrow>
                Some (s\<lparr>sign := sg\<rparr>,
                  sign_plain_answer SignInChunkResp
                    (key_recv (session sg) + aux_recv (session sg) + msg_recv (session sg)) 0)
            | Inl e \<Rightarrow> Some (s\<lparr>sign := sg\<rparr>, sign_error_answer e)
          }
      | SignExecReq \<Rightarrow>
          do {
            (g, rnd, ok) \<leftarrow> rand_bytes P (rng s) (replicate 32 0);
            (sg, r) \<leftarrow> (case ok of Inr _ \<Rightarrow> handle_exec P rnd (sign s)
                                 | Inl _ \<Rightarrow> Some (sign s, Inl ExecFailed));
            case r of
              Inr tot \<Rightarrow> Some (s\<lparr>rng := g, sign := sg\<rparr>, sign_plain_answer SignExecResp 0 tot)
            | Inl e \<Rightarrow> Some (s\<lparr>rng := g, sign := sg\<rparr>, sign_error_answer e)
          }
      | SignOutChunkReq \<Rightarrow>
          do {
            r \<leftarrow> handle_out_chunk req (sign s);
            case r of
              Inr (b, n) \<Rightarrow>
                Some (s,
                  \<lparr>sa_type = SignOutChunkResp, sa_code = 0, sa_offset = sp_offset req,
                   sa_total = out_total (session (sign s)), sa_data_len = n, sa_chunk = b\<rparr>)
            | Inl e \<Rightarrow> Some (s, sign_error_answer e)
          }
      | SignEndReq \<Rightarrow> Some (s\<lparr>sign := handle_end (sign s)\<rparr>, sign_plain_answer SignEndResp 0 0)
      | _ \<Rightarrow> Some (s, sign_error_answer InvalidRequest))"

definition sign_dispatch ::
  "('m, 'd) platform \<Rightarrow> ('m, 'd) service_state \<Rightarrow> (('m, 'd) service_state \<times> (IpcError + unit)) option"
where
  "sign_dispatch P s =
     (case ipc_recv (ipc s) EP_SIGN of
        (reg, Inl e) \<Rightarrow> Some (s\<lparr>ipc := reg\<rparr>, Inl e)
      | (reg, Inr msg) \<Rightarrow>
          (let s1 = s\<lparr>ipc := reg\<rparr>
           in case parse_req msg of
                Inl _ \<Rightarrow>
                  (let (reg2, r) = ipc_reply reg EP_SIGN MsgError
                         (write_sign_reply 0 (sign_error_code InvalidRequest) 0 0 [])
                   in Some (s1\<lparr>ipc := reg2\<rparr>, r))
              | Inr req \<Rightarrow>
                  do {
                    (s2, a) \<leftarrow> sign_answer_for P (msg_type msg) req s1;
                    d \<leftarrow> slice (sa_chunk a) 0 (unat (sa_data_len a));
                    let (reg2, r) = ipc_reply (ipc s2) EP_SIGN (sa_type a)
                          (write_sign_reply (sp_phase req) (sa_code a) (sa_offset a) (sa_total a) d);
                    Some (s2\<lparr>ipc := reg2\<rparr>, r)
                  }))"

subsection \<open>The session invariant\<close>

definition zeroed :: "bytes \<Rightarrow> bool" where
  "zeroed b \<longleftrightarrow> set b \<subseteq> {0}"

lemma zeroed_replicate [simp]: "zeroed (replicate n 0)"
  by (simp add: zeroed_def set_replicate_conv_if)

definition sizes_ok :: "sign_state \<Rightarrow> bool" where
  "sizes_ok st \<longleftrightarrow>
     length (key_buf st) = MLDSA44_SK_LEN \<and> length (aux_buf st) = MLDSA44_SIG_LEN \<and>
     length (msg_buf st) = MSG_BUF_LEN \<and> length (out_buf st) = OUT_BUF_LEN"

definition progress_ok :: "SignSession \<Rightarrow> bool" where
  "progress_ok se \<longleftrightarrow>
     sizes_allowed (op se) (key_total se) (aux_total se) (msg_total se) \<and>
     key_recv se \<le> key_total se \<and> aux_recv se \<le> aux_total se \<and> msg_recv se \<le> msg_total se \<and>
     (phase se = CollectKey \<longrightarrow> key_recv se < key_total se \<and> aux_recv se = 0 \<and> msg_recv se = 0) \<and>
     (phase se = CollectAux \<longrightarrow> aux_recv se < aux_total se \<and> msg_recv se = 0) \<and>
     (phase se = CollectMsg \<longrightarrow> msg_recv se < msg_total se) \<and>
     (phase se \<in> {Ready, OutputReady} \<longrightarrow>
        key_recv se = key_total se \<and> aux_recv se = aux_total se \<and> msg_recv se = msg_total se) \<and>
     (phase se \<in> {CollectAux, CollectMsg} \<longrightarrow> key_recv se = key_total se) \<and>
     (phase se = CollectMsg \<longrightarrow> aux_recv se = aux_total se) \<and>
     unat (out_total se) \<le> OUT_BUF_LEN"

text \<open>Outside a running session nothing is left in any buffer; a result is only in the output
  buffer while the session offers it, and then the inputs are gone.\<close>

definition erased_ok :: "sign_state \<Rightarrow> bool" where
  "erased_ok st \<longleftrightarrow>
     (phase (session st) \<in> {Idle, OutputReady} \<longrightarrow>
        zeroed (key_buf st) \<and> zeroed (aux_buf st) \<and> zeroed (msg_buf st)) \<and>
     (phase (session st) \<noteq> OutputReady \<longrightarrow> zeroed (out_buf st))"

definition sign_ok :: "sign_state \<Rightarrow> bool" where
  "sign_ok st \<longleftrightarrow> sizes_ok st \<and> progress_ok (session st) \<and> erased_ok st"

lemmas sign_ok_defs = sign_ok_def sizes_ok_def progress_ok_def erased_ok_def

lemma sign_ok_init: "sign_ok sign_init"
  by (simp add: sign_ok_defs sign_init_def session_idle_def sizes_allowed_def)

lemma erase_all_fields [simp]:
  "session (erase_all st) = session st" "key_buf (erase_all st) = replicate MLDSA44_SK_LEN 0"
  "aux_buf (erase_all st) = replicate MLDSA44_SIG_LEN 0"
  "msg_buf (erase_all st) = replicate MSG_BUF_LEN 0" "out_buf (erase_all st) = replicate OUT_BUF_LEN 0"
  by (simp_all add: erase_all_def erase_inputs_def)

lemma erase_inputs_fields [simp]:
  "session (erase_inputs st) = session st" "key_buf (erase_inputs st) = replicate MLDSA44_SK_LEN 0"
  "aux_buf (erase_inputs st) = replicate MLDSA44_SIG_LEN 0"
  "msg_buf (erase_inputs st) = replicate MSG_BUF_LEN 0" "out_buf (erase_inputs st) = out_buf st"
  by (simp_all add: erase_inputs_def)

lemma handle_begin_ok:
  assumes "sign_ok st" "handle_begin req st = (st', r)"
  shows "sign_ok st'"
proof (cases r)
  case (Inl e)
  then have "st' = st" using assms(2)
    by (auto simp: handle_begin_def Let_def split: if_splits option.splits)
  then show ?thesis using assms(1) by simp
next
  case (Inr u)
  then obtain o' k a m where
    "st' = erase_all (st\<lparr>session := session_begin o' k a m\<rparr>)" "sizes_allowed o' k a m"
    using assms(2) by (auto simp: handle_begin_def Let_def split: if_splits option.splits)
  then show ?thesis
    by (simp add: sign_ok_defs session_begin_def session_idle_def word_neq_0_conv not_less)
qed

lemma put_chunk_length: "put_chunk b i n req = Some b' \<Longrightarrow> length b' = length b"
  by (auto simp: put_chunk_def dest: copy_into_length split: Option.bind_splits)

lemma put_chunk_Some:
  "n \<le> length (sp_data req) \<Longrightarrow> i + n \<le> length b \<Longrightarrow>
     put_chunk b i n req = Some (take i b @ take n (sp_data req) @ drop (i + n) b)"
  by (simp add: put_chunk_def)

lemma recv_le: "unat (i :: u32) + unat (n :: u16) \<le> unat (t :: u32) \<Longrightarrow> i + ucast n \<le> t"
proof -
  assume le: "unat i + unat n \<le> unat t"
  have "unat n < 2 ^ 32" using unsigned_less [of n, where ?'a = nat] by simp
  then have "unat (ucast n :: u32) = unat n"
    by (simp add: unsigned_ucast_eq take_bit_nat_eq_self)
  then have "unat (i + ucast n) = unat i + unat n"
    using le unsigned_less [of t, where ?'a = nat] by (simp add: unat_word_ariths)
  then show ?thesis using le by (simp add: word_le_nat_alt)
qed

lemma handle_in_chunk_ok:
  assumes ok: "sign_ok st" and h: "handle_in_chunk req st = Some (st', r)"
  shows "sign_ok st'"
proof (cases r)
  case (Inl e)
  then have "st' = st" using h
    by (auto simp: handle_in_chunk_def Let_def split: if_splits Phase.splits Option.bind_splits)
  then show ?thesis using ok by simp
next
  case (Inr u)
  consider "phase (session st) = CollectKey" | "phase (session st) = CollectAux"
    | "phase (session st) = CollectMsg"
    using h Inr by (auto simp: handle_in_chunk_def Let_def split: if_splits Phase.splits)
  then show ?thesis
  proof cases
    case 1
    then show ?thesis using ok h Inr
      by (auto simp: handle_in_chunk_def Let_def sign_ok_defs not_less word_neq_0_conv
          not_le split: if_splits Option.bind_splits dest!: put_chunk_length dest: recv_le)
  next
    case 2
    then show ?thesis using ok h Inr
      by (auto simp: handle_in_chunk_def Let_def sign_ok_defs not_less word_neq_0_conv
          not_le split: if_splits Option.bind_splits dest!: put_chunk_length dest: recv_le)
  next
    case 3
    then show ?thesis using ok h Inr
      by (auto simp: handle_in_chunk_def Let_def sign_ok_defs not_less word_neq_0_conv
          not_le split: if_splits Option.bind_splits dest!: put_chunk_length dest: recv_le)
  qed
qed

lemma handle_in_chunk_total:
  assumes "sign_ok st" "length (sp_data req) = 240"
  shows "handle_in_chunk req st \<noteq> None"
  using assms
  by (auto simp: handle_in_chunk_def Let_def sign_ok_def sizes_ok_def put_chunk_Some CHUNK_SIZE_def
      split: Phase.splits)

lemma run_op_session:
  "run_op P rnd st = Some (st', r) \<Longrightarrow>
     session st' = (session st)\<lparr>verify_ok := verify_ok (session st')\<rparr> \<and>
     (\<forall>e. r = Inl e \<longrightarrow> out_buf st' = out_buf st) \<and>
     key_buf st' = key_buf st \<and> aux_buf st' = aux_buf st \<and> msg_buf st' = msg_buf st \<and>
     length (out_buf st') = length (out_buf st)"
  by (auto simp: run_op_def Let_def split: Op.splits if_splits option.splits Option.bind_splits
      dest!: copy_into_length index_set_length)

lemma run_op_total_size:
  "run_op P rnd st = Some (st', Inr tot) \<Longrightarrow> unat tot \<le> OUT_BUF_LEN"
  by (auto simp: run_op_def Let_def sign_sizes split: Op.splits if_splits option.splits
      Option.bind_splits)

lemma progress_verify_ok [simp]: "progress_ok (se\<lparr>verify_ok := b\<rparr>) = progress_ok se"
  by (simp add: progress_ok_def)

lemma handle_exec_ok:
  assumes ok: "sign_ok st" and h: "handle_exec P rnd st = Some (st', r)"
  shows "sign_ok st'"
proof (cases "phase (session st) = Ready")
  case False
  then show ?thesis using ok h by (simp add: handle_exec_def)
next
  case True
  with h obtain st1 r1 where run: "run_op P rnd st = Some (st1, r1)"
    by (auto simp: handle_exec_def split: Option.bind_splits)
  note s1 = run_op_session [OF run]
  have se: "session st1 = (session st)\<lparr>verify_ok := verify_ok (session st1)\<rparr>" using s1 by blast
  have pr: "progress_ok (session st1)" by (subst se) (use ok in \<open>simp add: sign_ok_def\<close>)
  have ph: "phase (session st1) = Ready" by (subst se) (simp add: True)
  show ?thesis
  proof (cases r1)
    case (Inl e)
    then have "st' = st1" using h True run by (simp add: handle_exec_def)
    then show ?thesis using ok True s1 pr ph Inl by (simp add: sign_ok_def sizes_ok_def erased_ok_def)
  next
    case (Inr tot)
    then have st': "st' = (erase_inputs st1)\<lparr>session := (session st1)\<lparr>out_total := tot, phase := OutputReady\<rparr>\<rparr>"
      using h True run by (simp add: handle_exec_def Let_def)
    show ?thesis
      using ok s1 pr ph run_op_total_size [OF run [unfolded Inr]]
      by (simp add: st' sign_ok_defs)
  qed
qed

lemma handle_exec_total:
  assumes "platform_ok P" "sign_ok st"
  shows "handle_exec P rnd st \<noteq> None"
proof -
  have sz: "length (key_buf st) = 2560" "length (aux_buf st) = 2420" "length (msg_buf st) = 1020"
    "length (out_buf st) = 3872" "unat (msg_total (session st)) \<le> 1020"
    using assms(2)
    by (auto simp: sign_ok_defs sizes_allowed_def sign_sizes split: Op.splits)
  have "run_op P rnd st \<noteq> None"
    using sz assms(1)
    by (auto simp: run_op_def Let_def sign_sizes split: Op.splits option.splits
        dest!: platform_keygen [OF assms(1)] platform_sign [OF assms(1)])
  then show ?thesis by (auto simp: handle_exec_def Let_def split: sum.splits)
qed

lemma handle_end_ok: "sign_ok (handle_end st)"
  by (simp add: handle_end_def sign_ok_defs session_idle_def sizes_allowed_def)

lemma handle_out_chunk_spec:
  assumes "sign_ok st"
  shows "handle_out_chunk req st =
    (if phase (session st) \<noteq> OutputReady then Some (Inl InvalidPhase)
     else let c = take 240 (drop (unat (sp_offset req)) (take (unat (out_total (session st))) (out_buf st)))
          in Some (Inr (c @ replicate (240 - length c) 0, of_nat (length c))))"
proof -
  let ?o = "unat (sp_offset req)" and ?t = "unat (out_total (session st))"
  have sz: "length (out_buf st) = 3872" "?t \<le> 3872"
    using assms by (auto simp: sign_ok_defs sign_sizes)
  let ?n = "min (?t - ?o) 240" and ?c = "take 240 (drop ?o (take ?t (out_buf st)))"
  have c: "?c = take ?n (drop ?o (out_buf st))" by (simp add: drop_take min.commute)
  have len: "length ?c = ?n" using sz by simp
  show ?thesis
  proof (cases "?t \<le> ?o")
    case True
    then show ?thesis by (simp add: handle_out_chunk_def Let_def CHUNK_SIZE_def)
  next
    case False
    then have "slice (out_buf st) ?o (?o + ?n) = Some ?c" using sz by (simp add: c)
    moreover have "copy_into (replicate 240 0) 0 ?n ?c = Some (?c @ replicate (240 - length ?c) 0)"
      using len by simp
    ultimately show ?thesis
      using False len by (simp only: handle_out_chunk_def Let_def CHUNK_SIZE_def) simp
  qed
qed

subsection \<open>The dispatcher keeps the invariant\<close>

lemma sign_answer_ok:
  assumes ok: "sign_ok (sign s)" and a: "sign_answer_for P t req s = Some (s', a)"
  shows "sign_ok (sign s') \<and> ipc s' = ipc s \<and> length (sa_chunk a) = 240 \<and> unat (sa_data_len a) \<le> 240"
proof -
  note err = sign_error_answer_def sign_plain_answer_def CHUNK_SIZE_def
  have out: "length b = 240 \<and> unat n \<le> 240" if "handle_out_chunk req (sign s) = Some (Inr (b, n))" for b n
    using that by (auto simp: handle_out_chunk_spec [OF ok] Let_def unat_of_nat
        split: if_splits)
  show ?thesis
    using a ok out
    by (auto simp: sign_answer_for_def err handle_end_ok
        split: MessageType.splits sum.splits prod.splits Option.bind_splits
        dest: handle_begin_ok handle_in_chunk_ok handle_exec_ok)
qed

lemma parse_req_data: "message_ok m \<Longrightarrow> parse_req m = Inr req \<Longrightarrow> length (sp_data req) = 240"
  by (auto simp: parse_req_def decode_sign_def message_ok_def IPC_MAX_PAYLOAD_def split: if_splits)

lemma sign_dispatch_ok:
  assumes "ipc_ok (ipc s)" "sign_ok (sign s)" "sign_dispatch P s = Some (s', r)"
  shows "ipc_ok (ipc s') \<and> sign_ok (sign s')"
proof -
  obtain reg r1 where rc: "ipc_recv (ipc s) EP_SIGN = (reg, r1)" by fastforce
  have reg: "ipc_ok reg" using ipc_recv_ok(1) [OF assms(1) rc] .
  show ?thesis
    using assms(2,3) reg
    by (auto simp: sign_dispatch_def rc Let_def
        split: sum.splits prod.splits Option.bind_splits
        dest!: sign_answer_ok [rotated] dest: ipc_reply_ok)
qed

text \<open>Only the DRBG can keep an answer from being produced.\<close>

lemma sign_answer_total:
  assumes "platform_ok P" "sign_ok (sign s)" "length (sp_data req) = 240"
    and "t = SignExecReq \<longrightarrow> rand_bytes P (rng s) (replicate 32 0) \<noteq> None"
  shows "\<exists>s' a. sign_answer_for P t req s = Some (s', a)"
  using assms(2,4) handle_in_chunk_total [OF assms(2,3)]
  by (auto simp: sign_answer_for_def handle_out_chunk_spec handle_exec_total [OF assms(1,2)] Let_def
      split: MessageType.splits sum.splits prod.splits Option.bind_splits)

subsection \<open>Streams\<close>

text \<open>
  A client sends a stream as consecutive chunks. \<open>phase_buf\<close>, \<open>phase_total\<close> and
  \<open>phase_recv\<close> name the buffer and the counters a collecting phase uses, so that the three
  phases share one lemma.
\<close>

definition phase_buf :: "Phase \<Rightarrow> sign_state \<Rightarrow> bytes" where
  "phase_buf ph st =
     (case ph of CollectKey \<Rightarrow> key_buf st | CollectAux \<Rightarrow> aux_buf st | _ \<Rightarrow> msg_buf st)"

definition phase_total :: "Phase \<Rightarrow> sign_state \<Rightarrow> nat" where
  "phase_total ph st =
     unat (case ph of CollectKey \<Rightarrow> key_total (session st) | CollectAux \<Rightarrow> aux_total (session st)
           | _ \<Rightarrow> msg_total (session st))"

definition next_phase :: "Phase \<Rightarrow> sign_state \<Rightarrow> Phase" where
  "next_phase ph st =
     (if ph = CollectKey \<and> 0 < aux_total (session st) then CollectAux
      else if ph \<noteq> CollectMsg \<and> 0 < msg_total (session st) then CollectMsg else Ready)"

definition collecting :: "Phase \<Rightarrow> bool" where
  "collecting ph \<longleftrightarrow> ph \<in> {CollectKey, CollectAux, CollectMsg}"

definition chunk_req :: "nat \<Rightarrow> bytes \<Rightarrow> SignPayload" where
  "chunk_req off c =
     \<lparr>sp_phase = 2, sp_op = 0, sp_variant = 1, sp_result = 0, sp_offset = of_nat off, sp_total = 0,
      sp_chunk_len = of_nat (length c), sp_pad = 0, sp_data = c @ replicate (240 - length c) 0\<rparr>"

fun upload :: "nat \<Rightarrow> bytes list \<Rightarrow> sign_state \<Rightarrow> sign_state option" where
  "upload off [] st = Some st"
| "upload off (c # cs) st =
     do {
       (st1, r) \<leftarrow> handle_in_chunk (chunk_req off c) st;
       case r of Inr _ \<Rightarrow> upload (off + length c) cs st1 | Inl _ \<Rightarrow> None
     }"

lemma phase_total_bound: "sign_ok st \<Longrightarrow> phase_total ph st \<le> length (phase_buf ph st)"
  by (auto simp: sign_ok_defs phase_total_def phase_buf_def sizes_allowed_def sign_sizes
      word_le_nat_alt split: Phase.splits Op.splits)

lemma phase_total_le: "sign_ok st \<Longrightarrow> phase_total ph st \<le> 2560"
  by (auto simp: sign_ok_defs phase_total_def sizes_allowed_def sign_sizes
      word_le_nat_alt split: Phase.splits Op.splits)

lemma in_chunk_step:
  assumes ok: "sign_ok st" and ph: "collecting ph" "phase (session st) = ph"
    and c: "length c \<le> 240" "off + length c \<le> phase_total ph st"
  shows "\<exists>st'. handle_in_chunk (chunk_req off c) st = Some (st', Inr ()) \<and> sign_ok st' \<and>
     phase_buf ph st' = take off (phase_buf ph st) @ c @ drop (off + length c) (phase_buf ph st) \<and>
     phase (session st') = (if off + length c < phase_total ph st then ph else next_phase ph st) \<and>
     phase_total ph st' = phase_total ph st \<and> next_phase ph st' = next_phase ph st"
proof -
  have small: "off + length c \<le> 2560" using c(2) phase_total_le [OF ok, of ph] by simp
  have u: "unat (of_nat off :: u32) = off" "unat (of_nat (length c) :: u16) = length c"
    "\<And>t. (t :: u32) \<le> of_nat off + of_nat (length c) \<longleftrightarrow> unat t \<le> off + length c"
    using small c(1) by (simp_all add: unat_of_nat word_le_nat_alt unat_word_ariths)
  have b: "off + length c \<le> length (phase_buf ph st)" using c(2) phase_total_bound [OF ok, of ph] by simp
  obtain st' r where h: "handle_in_chunk (chunk_req off c) st = Some (st', r)"
    using handle_in_chunk_total [OF ok, of "chunk_req off c"] c(1) by (auto simp: chunk_req_def)
  have ok': "sign_ok st'" by (rule handle_in_chunk_ok [OF ok h])
  have sz: "length (key_buf st) = 2560" "length (aux_buf st) = 2420" "length (msg_buf st) = 1020"
    using ok by (simp_all add: sign_ok_def sizes_ok_def sign_sizes)
  note eval = handle_in_chunk_def chunk_req_def put_chunk_Some phase_buf_def phase_total_def
    next_phase_def sign_sizes u Let_def
  consider "ph = CollectKey" | "ph = CollectAux" | "ph = CollectMsg"
    using ph(1) by (auto simp: collecting_def)
  then show ?thesis
  proof cases
    case 1
    then show ?thesis using h ph(2) c b sz(1) ok' by (simp add: eval split: if_splits) auto
  next
    case 2
    then show ?thesis using h ph(2) c b sz(2) ok' by (simp add: eval split: if_splits) auto
  next
    case 3
    then show ?thesis using h ph(2) c b sz(3) ok' by (simp add: eval split: if_splits) auto
  qed
qed

text \<open>C33: a stream sent as consecutive chunks of at most 240 bytes is stored exactly as sent, the service
  accepts every chunk, and the session moves to the next part it expects.\<close>

theorem upload_stream:
  assumes "sign_ok st" "collecting ph" "phase (session st) = ph"
    and "\<forall>c \<in> set cs. length c \<le> 240 \<and> c \<noteq> []"
    and "off + length (concat cs) = phase_total ph st" "cs \<noteq> []"
  shows "\<exists>st'. upload off cs st = Some st' \<and> sign_ok st' \<and> phase (session st') = next_phase ph st \<and>
     take (phase_total ph st) (phase_buf ph st') = take off (phase_buf ph st) @ concat cs"
  using assms
proof (induction off cs st rule: upload.induct)
  case (2 off c cs st)
  obtain st1 where h: "handle_in_chunk (chunk_req off c) st = Some (st1, Inr ())" and ok: "sign_ok st1"
    and buf: "phase_buf ph st1 = take off (phase_buf ph st) @ c @ drop (off + length c) (phase_buf ph st)"
    and ph: "phase (session st1) = (if off + length c < phase_total ph st then ph else next_phase ph st)"
    and tot: "phase_total ph st1 = phase_total ph st" "next_phase ph st1 = next_phase ph st"
    using in_chunk_step [of st ph c off] "2.prems" by auto
  have len: "off + length c \<le> length (phase_buf ph st)"
    using phase_total_bound [OF "2.prems"(1), of ph] "2.prems"(5) by simp
  show ?case
  proof (cases "cs = []")
    case True
    then show ?thesis using h ok buf ph "2.prems"(5) len by simp
  next
    case False
    then have "0 < length (concat cs)" using "2.prems"(4) by (cases cs) auto
    moreover have "phase_total ph st = off + length c + length (concat cs)"
      using "2.prems"(5) by simp
    ultimately have "off + length c < phase_total ph st" by linarith
    then have "phase (session st1) = ph" using ph by simp
    then obtain st' where "upload (off + length c) cs st1 = Some st'" "sign_ok st'"
      "phase (session st') = next_phase ph st"
      "take (phase_total ph st) (phase_buf ph st') = take (off + length c) (phase_buf ph st1) @ concat cs"
      using "2.IH" [OF h refl refl ok "2.prems"(2)] "2.prems"(4,5) False tot by auto
    then show ?thesis using h buf len by simp
  qed
qed simp

definition demo_sign :: sign_state where
  "demo_sign = sign_init\<lparr>session := session_begin Keygen 32 0 0\<rparr>"

lemma demo_sign_ok: "sign_ok demo_sign"
  by (simp add: demo_sign_def sign_init_def session_begin_def session_idle_def sign_ok_defs
      sizes_allowed_def)

theorem upload_stream_witness:
  "\<exists>st'. upload 0 [replicate 16 1, replicate 16 2] demo_sign = Some st' \<and>
     phase (session st') = Ready \<and> take 32 (key_buf st') = replicate 16 1 @ replicate 16 2"
proof -
  have d: "collecting CollectKey" "phase (session demo_sign) = CollectKey"
    "phase_total CollectKey demo_sign = 32" "next_phase CollectKey demo_sign = Ready"
    by (simp_all add: demo_sign_def session_begin_def session_idle_def phase_total_def
        next_phase_def collecting_def)
  show ?thesis
    using upload_stream [OF demo_sign_ok d(1,2), of "[replicate 16 1, replicate 16 2]" 0] d(3,4)
    by (auto simp: phase_buf_def simp del: upload.simps)
qed

text \<open>The service takes the end of the last chunk as the amount received: one chunk at the end of
  the stream completes it.\<close>

theorem last_chunk_completes_stream:
  "\<exists>st'. handle_in_chunk (chunk_req 31 [7]) demo_sign = Some (st', Inr ()) \<and>
     phase (session st') = Ready \<and> take 31 (key_buf st') = replicate 31 0"
  by (simp add: handle_in_chunk_def chunk_req_def demo_sign_def session_begin_def session_idle_def
      sign_init_def put_chunk_Some sign_sizes Let_def)



text \<open>The bytes a client reads from one output request.\<close>

definition out_chunk :: "sign_state \<Rightarrow> nat \<Rightarrow> bytes" where
  "out_chunk st off =
     (case handle_out_chunk (chunk_req off []) st of
        Some (Inr (b, n)) \<Rightarrow> take (unat n) b | _ \<Rightarrow> [])"

lemma concat_chunks:
  "concat (map (\<lambda>i. take k (drop (k * i) xs)) [0..<n]) = take (k * n) xs"
proof (induction n)
  case (Suc n)
  have "take (k * Suc n) xs = take (k * n) xs @ take k (drop (k * n) xs)"
    by (simp add: add.commute [of k] take_add)
  then show ?case using Suc by simp
qed simp

text \<open>C34: reading the result in steps of 240 bytes and joining the pieces gives exactly the result, with
  no byte missing, repeated or taken from beyond its end.\<close>

theorem download_reassembles:
  assumes "sign_ok st" "phase (session st) = OutputReady"
    and "unat (out_total (session st)) \<le> 240 * n" "240 * n < 2 ^ 32"
  shows "concat (map (\<lambda>i. out_chunk st (240 * i)) [0..<n])
     = take (unat (out_total (session st))) (out_buf st)"
proof -
  let ?r = "take (unat (out_total (session st))) (out_buf st)"
  have "out_chunk st (240 * i) = take 240 (drop (240 * i) ?r)" if "i < n" for i
  proof -
    have "unat (of_nat (240 * i) :: u32) = 240 * i"
      by (subst unat_of_nat) (use that assms(4) in simp)
    then show ?thesis
      using assms(2) by (simp add: out_chunk_def handle_out_chunk_spec [OF assms(1)] chunk_req_def
          Let_def unat_of_nat min_def)
  qed
  then have "concat (map (\<lambda>i. out_chunk st (240 * i)) [0..<n]) =
      concat (map (\<lambda>i. take 240 (drop (240 * i) ?r)) [0..<n])"
    by (intro arg_cong [of _ _ concat] map_cong) simp_all
  also have "\<dots> = ?r" using assms(3) by (simp add: concat_chunks)
  finally show ?thesis .
qed

theorem download_reassembles_witness:
  "concat (map (\<lambda>i. out_chunk (sign_init\<lparr>session := session_idle\<lparr>phase := OutputReady,
       out_total := 2420\<rparr>, out_buf := replicate 2420 7 @ replicate 1452 0\<rparr>) (240 * i)) [0..<11])
     = replicate 2420 7"
proof -
  let ?st = "sign_init\<lparr>session := session_idle\<lparr>phase := OutputReady, out_total := 2420\<rparr>,
    out_buf := replicate 2420 7 @ replicate 1452 0\<rparr>"
  have "sign_ok ?st"
    by (simp add: sign_init_def session_idle_def sign_ok_defs sizes_allowed_def sign_sizes)
  from download_reassembles [OF this, of 11] show ?thesis by (simp add: session_idle_def)
qed

end
