(* ===== verification/CryptoService.thy ===== *)
theory CryptoService
  imports Ipc
begin

text \<open>
  \<^verbatim>\<open>src/src/crypto_service.rs\<close>: the synchronous crypto service behind \<open>EP_CRYPTO\<close>. A
  request is a 256-byte \<open>CryptoPayload\<close>; the handlers check lengths, call the external
  primitive and lay out the reply. HMAC and HKDF are built here from SHA-256. Digests and
  signatures are fixed-size values of the crates. The erasure of working copies
  (\<open>Secret\<close>) has no counterpart: the copies are local to the call.
\<close>

definition CRYPTO_DATA_OFFSET :: nat where "CRYPTO_DATA_OFFSET = 88"
definition CRYPTO_DATA_LEN :: nat where "CRYPTO_DATA_LEN = 168"
definition SHA256_BLOCK_SIZE :: nat where "SHA256_BLOCK_SIZE = 64"
definition SHA256_OUTPUT_SIZE :: nat where "SHA256_OUTPUT_SIZE = 32"
definition HKDF_MAX_OUTPUT :: nat where "HKDF_MAX_OUTPUT = CRYPTO_DATA_LEN"

lemmas crypto_sizes = CRYPTO_DATA_OFFSET_def CRYPTO_DATA_LEN_def SHA256_BLOCK_SIZE_def
  SHA256_OUTPUT_SIZE_def HKDF_MAX_OUTPUT_def GCM_TAG_SIZE_def GCM_NONCE_SIZE_def

datatype CryptoAlgo =
  Aes128Gcm | Aes256Gcm | ChaCha20Poly | HmacSha256 | Blake3 | Sha3_256 | Sha3_512 | HkdfSha256
  | Ed25519Sign | Ed25519Verify | Ed448Sign | Ed448Verify | X448Dh

datatype CryptoError =
  UnknownAlgorithm | InvalidKeyLength | InvalidNonceLength | InvalidDataLength
  | AuthenticationFailed | InvalidRequest | OutputTooLarge | WeakNonce

fun crypto_error_code :: "CryptoError \<Rightarrow> u8" where
  "crypto_error_code UnknownAlgorithm = 1"
| "crypto_error_code InvalidKeyLength = 2"
| "crypto_error_code InvalidNonceLength = 3"
| "crypto_error_code InvalidDataLength = 4"
| "crypto_error_code AuthenticationFailed = 5"
| "crypto_error_code InvalidRequest = 6"
| "crypto_error_code OutputTooLarge = 7"
| "crypto_error_code WeakNonce = 8"

subsection \<open>Payloads\<close>

record CryptoPayload =
  cp_algo :: u8
  cp_key_len :: u8
  cp_nonce_len :: u8
  cp_flags :: u8
  cp_data_len :: u16
  cp_key :: bytes
  cp_nonce :: bytes
  cp_data :: bytes

definition decode_crypto :: "bytes \<Rightarrow> CryptoPayload" where
  "decode_crypto b =
     \<lparr>cp_algo = b ! 0, cp_key_len = b ! 1, cp_nonce_len = b ! 2, cp_flags = b ! 3,
      cp_data_len = from_le (take 2 (drop 4 b)), cp_key = take 64 (drop 8 b),
      cp_nonce = take 12 (drop 72 b), cp_data = take 168 (drop 88 b)\<rparr>"

definition payload_ok :: "CryptoPayload \<Rightarrow> bool" where
  "payload_ok req \<longleftrightarrow>
     length (cp_key req) = 64 \<and> length (cp_nonce req) = 12 \<and> length (cp_data req) = 168"

definition parse_request :: "IpcMessage \<Rightarrow> CryptoError + CryptoPayload" where
  "parse_request msg =
     (if unat (payload_len msg) < 256 then Inl InvalidRequest
      else Inr (decode_crypto (payload msg)))"

definition write_error_reply :: "bytes \<Rightarrow> CryptoError \<Rightarrow> bytes" where
  "write_error_reply buf e = buf[0 := crypto_error_code e]"

definition write_ok_reply :: "u8 \<Rightarrow> bytes \<Rightarrow> (CryptoError + bytes) option" where
  "write_ok_reply algo d =
     (if CRYPTO_DATA_LEN < length d then Some (Inl OutputTooLarge)
      else do {
        b \<leftarrow> copy_into (replicate IPC_MAX_PAYLOAD 0) 0 6 ([algo, 0, 0, 0] @ to_le 2 (of_nat (length d) :: u16));
        b \<leftarrow> copy_into b CRYPTO_DATA_OFFSET (CRYPTO_DATA_OFFSET + length d) d;
        Some (Inr b)
      })"

definition parse_algo :: "u8 \<Rightarrow> CryptoError + CryptoAlgo" where
  "parse_algo x =
     (if x = 0x01 then Inl UnknownAlgorithm
      else if x = 0x02 then Inr Aes256Gcm
      else if x = 0x03 then Inr ChaCha20Poly
      else if x = 0x10 then Inr HmacSha256
      else if x = 0x11 then Inr Blake3
      else if x = 0x12 then Inr Sha3_256
      else if x = 0x13 then Inr Sha3_512
      else if x = 0x20 then Inr HkdfSha256
      else if x = 0x30 then Inr Ed25519Sign
      else if x = 0x31 then Inr Ed25519Verify
      else if x = 0x32 then Inr Ed448Sign
      else if x = 0x33 then Inr Ed448Verify
      else if x = 0x40 then Inr X448Dh
      else Inl UnknownAlgorithm)"

lemma write_ok_reply_eq:
  "length d \<le> 168 \<Longrightarrow> write_ok_reply algo d =
     Some (Inr ([algo, 0, 0, 0] @ to_le 2 (of_nat (length d) :: u16) @ replicate 82 0 @ d @
                replicate (168 - length d) 0))"
  by (simp add: write_ok_reply_def crypto_sizes IPC_MAX_PAYLOAD_def drop_Cons')

lemma write_ok_reply_decode:
  assumes "length d \<le> 168" "write_ok_reply algo d = Some (Inr b)"
  shows "length b = 256 \<and> cp_algo (decode_crypto b) = algo \<and> cp_flags (decode_crypto b) = 0 \<and>
     unat (cp_data_len (decode_crypto b)) = length d \<and> take (length d) (cp_data (decode_crypto b)) = d"
  using assms by (auto simp: write_ok_reply_eq decode_crypto_def from_to_le_16 unat_of_nat)

subsection \<open>HMAC and HKDF\<close>

definition hmac_sha256_multi :: "('m, 'd) platform \<Rightarrow> bytes \<Rightarrow> bytes list \<Rightarrow> bytes" where
  "hmac_sha256_multi P key data_chunks =
     (let d = (if SHA256_BLOCK_SIZE < length key then p_sha256 P key else key);
          key_block = d @ replicate (SHA256_BLOCK_SIZE - length d) 0;
          ipad = map (\<lambda>b. 0x36 XOR b) key_block;
          opad = map (\<lambda>b. 0x5C XOR b) key_block;
          inner = p_sha256 P (ipad @ concat data_chunks)
      in p_sha256 P (opad @ inner))"

definition hkdf_extract :: "('m, 'd) platform \<Rightarrow> bytes \<Rightarrow> bytes \<Rightarrow> bytes" where
  "hkdf_extract P salt ikm = hmac_sha256_multi P salt [ikm]"

text \<open>
  The expansion loop: \<open>okm\<close> is the output buffer, filled up to \<open>produced\<close>;
  \<open>t_prev\<close> and \<open>prev_len\<close> are the previous block.
\<close>

function hkdf_loop ::
  "('m, 'd) platform \<Rightarrow> bytes \<Rightarrow> bytes \<Rightarrow> bytes \<Rightarrow> nat \<Rightarrow> u8 \<Rightarrow> nat \<Rightarrow> bytes \<Rightarrow> bytes option" where
  "hkdf_loop P prk info t_prev prev_len counter produced okm =
     (if produced < length okm then
        do {
          let t_curr = hmac_sha256_multi P prk
                (if prev_len = 0 then [info, [counter]] else [take prev_len t_prev, info, [counter]]);
          let tk = min SHA256_OUTPUT_SIZE (length okm - produced);
          d \<leftarrow> slice t_curr 0 tk;
          okm' \<leftarrow> copy_into okm produced (produced + tk) d;
          hkdf_loop P prk info t_curr SHA256_OUTPUT_SIZE (counter + 1) (produced + tk) okm'
        }
      else Some okm)"
  by pat_completeness auto
termination
  by (relation "measure (\<lambda>(P, prk, info, t, pl, c, produced, okm). length okm - produced)")
     (auto simp: SHA256_OUTPUT_SIZE_def dest: copy_into_length)

declare hkdf_loop.simps [simp del]

definition hkdf_expand ::
  "('m, 'd) platform \<Rightarrow> bytes \<Rightarrow> bytes \<Rightarrow> nat \<Rightarrow> (CryptoError + bytes) option" where
  "hkdf_expand P prk info n =
     (if HKDF_MAX_OUTPUT < n then Some (Inl OutputTooLarge)
      else if 255 * SHA256_OUTPUT_SIZE < n then Some (Inl OutputTooLarge)
      else do {
        okm \<leftarrow> hkdf_loop P prk info (replicate 32 0) 0 1 0 (replicate n 0);
        Some (Inr okm)
      })"

text \<open>
  RFC 5869: \<open>T(0)\<close> is empty, \<open>T(i) = HMAC(PRK, T(i-1) | info | i)\<close>, and the output is the
  first \<open>n\<close> bytes of \<open>T(1) | T(2) | ...\<close>
\<close>

fun rfc5869_T :: "('m, 'd) platform \<Rightarrow> bytes \<Rightarrow> bytes \<Rightarrow> nat \<Rightarrow> bytes" where
  "rfc5869_T P prk info 0 = []"
| "rfc5869_T P prk info (Suc i) =
     hmac_sha256_multi P prk [rfc5869_T P prk info i @ info @ [of_nat (Suc i)]]"

definition rfc5869_expand :: "('m, 'd) platform \<Rightarrow> bytes \<Rightarrow> bytes \<Rightarrow> nat \<Rightarrow> bytes" where
  "rfc5869_expand P prk info n = take n (concat (map (\<lambda>i. rfc5869_T P prk info (Suc i)) [0..<n]))"

lemma hmac_chunks: "hmac_sha256_multi P k cs = hmac_sha256_multi P k [concat cs]"
  by (simp add: hmac_sha256_multi_def)

lemma hmac_length: "platform_ok P \<Longrightarrow> length (hmac_sha256_multi P k cs) = 32"
  by (simp add: hmac_sha256_multi_def Let_def platform_digest)

lemma rfc_T_length: "platform_ok P \<Longrightarrow> length (rfc5869_T P prk info (Suc i)) = 32"
  by (simp add: hmac_length)

lemma rfc_blocks_length:
  "platform_ok P \<Longrightarrow> length (concat (map (\<lambda>i. rfc5869_T P prk info (Suc i)) [0..<n])) = 32 * n"
  by (induction n) (simp_all add: hmac_length)

lemma hkdf_loop_rfc:
  assumes "platform_ok P" "produced = min (32 * j) (length okm)"
    and "t_prev = (if j = 0 then replicate 32 0 else rfc5869_T P prk info j)"
    and "prev_len = (if j = 0 then 0 else 32)" "counter = of_nat (Suc j)"
    and "take produced okm = take produced (concat (map (\<lambda>i. rfc5869_T P prk info (Suc i)) [0..<j]))"
  shows "\<exists>m. length okm \<le> 32 * m \<and> hkdf_loop P prk info t_prev prev_len counter produced okm =
          Some (take (length okm) (concat (map (\<lambda>i. rfc5869_T P prk info (Suc i)) [0..<m])))"
  using assms
proof (induction P prk info t_prev prev_len counter produced okm arbitrary: j rule: hkdf_loop.induct)
  case (1 P prk info t_prev prev_len counter produced okm)
  let ?B = "\<lambda>j. concat (map (\<lambda>i. rfc5869_T P prk info (Suc i)) [0..<j])"
  let ?t = "hmac_sha256_multi P prk
    (if prev_len = 0 then [info, [counter]] else [take prev_len t_prev, info, [counter]])"
  let ?tk = "min SHA256_OUTPUT_SIZE (length okm - produced)"
  note pre = "1.prems"
  show ?case
  proof (cases "produced < length okm")
    case False
    then have "produced = length okm" "length okm \<le> 32 * j" using pre(2) by (auto simp: min_def split: if_splits)
    then show ?thesis using False pre(6) by (intro exI [of _ j]) (simp add: hkdf_loop.simps [of P])
  next
    case True
    then have pj: "produced = 32 * j" using pre(2) by (simp add: min_def split: if_splits)
    have t: "?t = rfc5869_T P prk info (Suc j)"
      using pre(3-5) rfc_T_length [OF pre(1), of prk info "j - 1"]
      by (cases j) (simp_all add: hmac_chunks [of P prk "[_, _]"] hmac_chunks [of P prk "[_, _, _]"])
    have lt: "length ?t = 32" by (rule hmac_length [OF pre(1)])
    define okm' where "okm' = take produced okm @ take ?tk ?t @ drop (produced + ?tk) okm"
    have step: "slice ?t 0 ?tk = Some (take ?tk ?t)"
      "copy_into okm produced (produced + ?tk) (take ?tk ?t) = Some okm'"
      using lt True by (simp_all add: okm'_def SHA256_OUTPUT_SIZE_def)
    have len: "length okm' = length okm" using copy_into_length [OF step(2)] .
    have pre': "take (produced + ?tk) okm' = take (produced + ?tk) (?B (Suc j))"
      using pre(6) lt True rfc_blocks_length [OF pre(1), of prk info j]
      by (simp add: okm'_def t pj SHA256_OUTPUT_SIZE_def del: rfc5869_T.simps)
    have "\<exists>m. length okm' \<le> 32 * m \<and> hkdf_loop P prk info ?t SHA256_OUTPUT_SIZE (counter + 1) (produced + ?tk) okm'
        = Some (take (length okm') (?B m))"
      by (rule "1.IH" [OF True refl refl step pre(1), of "Suc j"])
         (use pre(5) pre' t len True pj in \<open>simp_all add: SHA256_OUTPUT_SIZE_def del: rfc5869_T.simps\<close>)
    then show ?thesis
      using True step len by (simp add: hkdf_loop.simps [of P prk info t_prev] Let_def)
  qed
qed

lemma rfc_blocks_prefix:
  "m \<le> n \<Longrightarrow> \<exists>r. concat (map (\<lambda>i. rfc5869_T P prk info (Suc i)) [0..<n]) =
     concat (map (\<lambda>i. rfc5869_T P prk info (Suc i)) [0..<m]) @ r"
  using upt_add_eq_append [of 0 m "n - m"] by auto

lemma rfc_expand_blocks:
  assumes "platform_ok P" "n \<le> 32 * m"
  shows "take n (concat (map (\<lambda>i. rfc5869_T P prk info (Suc i)) [0..<m])) = rfc5869_expand P prk info n"
proof -
  have "n \<le> length (concat (map (\<lambda>i. rfc5869_T P prk info (Suc i)) [0..<min m n]))"
    using assms(2) by (simp add: rfc_blocks_length [OF assms(1)] min_def del: rfc5869_T.simps)
  moreover obtain r1 r2 where
    "concat (map (\<lambda>i. rfc5869_T P prk info (Suc i)) [0..<m]) =
       concat (map (\<lambda>i. rfc5869_T P prk info (Suc i)) [0..<min m n]) @ r1"
    "concat (map (\<lambda>i. rfc5869_T P prk info (Suc i)) [0..<n]) =
       concat (map (\<lambda>i. rfc5869_T P prk info (Suc i)) [0..<min m n]) @ r2"
    using rfc_blocks_prefix [of "min m n" m P prk info] rfc_blocks_prefix [of "min m n" n P prk info]
    by auto
  ultimately show ?thesis by (simp add: rfc5869_expand_def del: rfc5869_T.simps)
qed

lemma hkdf_expand_rfc:
  assumes "platform_ok P" "n \<le> 168"
  shows "hkdf_expand P prk info n = Some (Inr (rfc5869_expand P prk info n))"
proof -
  obtain m where "n \<le> 32 * m" "hkdf_loop P prk info (replicate 32 0) 0 1 0 (replicate n 0) =
      Some (take n (concat (map (\<lambda>i. rfc5869_T P prk info (Suc i)) [0..<m])))"
    using hkdf_loop_rfc [OF assms(1), of 0 0 "replicate n 0" "replicate 32 0" prk info 0 1]
    by (auto simp del: rfc5869_T.simps)
  then show ?thesis
    using assms by (simp add: hkdf_expand_def crypto_sizes rfc_expand_blocks del: rfc5869_T.simps)
qed

lemma rfc_expand_length: "platform_ok P \<Longrightarrow> length (rfc5869_expand P prk info n) = n"
  by (simp add: rfc5869_expand_def rfc_blocks_length del: rfc5869_T.simps)

subsection \<open>AEAD handlers\<close>

definition encrypt_aes256gcm ::
  "('m, 'd) platform \<Rightarrow> CryptoPayload \<Rightarrow> bytes \<Rightarrow> (CryptoError + bytes \<times> bytes) option" where
  "encrypt_aes256gcm P req plaintext =
     (if unat (cp_key_len req) \<noteq> 32 then Some (Inl InvalidKeyLength)
      else if unat (cp_nonce_len req) \<noteq> GCM_NONCE_SIZE then Some (Inl InvalidNonceLength)
      else do {
        key \<leftarrow> slice (cp_key req) 0 32;
        nonce \<leftarrow> slice (cp_nonce req) 0 GCM_NONCE_SIZE;
        if list_all (\<lambda>b. b = 0) nonce then Some (Inl WeakNonce)
        else Some (Inr (p_aes256gcm_encrypt P key nonce [] plaintext))
      })"

definition decrypt_aes256gcm ::
  "('m, 'd) platform \<Rightarrow> CryptoPayload \<Rightarrow> bytes \<Rightarrow> bytes \<Rightarrow> (CryptoError + bytes) option" where
  "decrypt_aes256gcm P req ciphertext tag =
     (if unat (cp_key_len req) \<noteq> 32 then Some (Inl InvalidKeyLength)
      else if unat (cp_nonce_len req) \<noteq> GCM_NONCE_SIZE then Some (Inl InvalidNonceLength)
      else do {
        key \<leftarrow> slice (cp_key req) 0 32;
        nonce \<leftarrow> slice (cp_nonce req) 0 GCM_NONCE_SIZE;
        case p_aes256gcm_decrypt P key nonce [] ciphertext tag of
          None \<Rightarrow> Some (Inl AuthenticationFailed)
        | Some pt \<Rightarrow> Some (Inr pt)
      })"

definition encrypt_chacha20poly ::
  "('m, 'd) platform \<Rightarrow> CryptoPayload \<Rightarrow> bytes \<Rightarrow> (CryptoError + bytes \<times> bytes) option" where
  "encrypt_chacha20poly P req plaintext =
     (if unat (cp_key_len req) \<noteq> 32 then Some (Inl InvalidKeyLength)
      else if unat (cp_nonce_len req) \<noteq> 12 then Some (Inl InvalidNonceLength)
      else do {
        key \<leftarrow> slice (cp_key req) 0 32;
        nonce \<leftarrow> slice (cp_nonce req) 0 12;
        if list_all (\<lambda>b. b = 0) nonce then Some (Inl WeakNonce)
        else case p_chacha_encrypt P key nonce [] plaintext of
          None \<Rightarrow> Some (Inl InvalidDataLength)
        | Some r \<Rightarrow> Some (Inr r)
      })"

definition decrypt_chacha20poly ::
  "('m, 'd) platform \<Rightarrow> CryptoPayload \<Rightarrow> bytes \<Rightarrow> bytes \<Rightarrow> (CryptoError + bytes) option" where
  "decrypt_chacha20poly P req ciphertext tag =
     (if unat (cp_key_len req) \<noteq> 32 then Some (Inl InvalidKeyLength)
      else if unat (cp_nonce_len req) \<noteq> 12 then Some (Inl InvalidNonceLength)
      else do {
        key \<leftarrow> slice (cp_key req) 0 32;
        nonce \<leftarrow> slice (cp_nonce req) 0 12;
        case p_chacha_decrypt P key nonce [] ciphertext tag of
          None \<Rightarrow> Some (Inl AuthenticationFailed)
        | Some pt \<Rightarrow> Some (Inr pt)
      })"

definition handle_encrypt ::
  "('m, 'd) platform \<Rightarrow> CryptoPayload \<Rightarrow> (CryptoError + bytes) option" where
  "handle_encrypt P req =
     (case parse_algo (cp_algo req) of
        Inl e \<Rightarrow> Some (Inl e)
      | Inr algo \<Rightarrow>
          let data_len = unat (cp_data_len req)
          in if CRYPTO_DATA_LEN < data_len then Some (Inl InvalidDataLength)
             else do {
               plaintext \<leftarrow> slice (cp_data req) 0 data_len;
               r \<leftarrow> (case algo of
                       Aes256Gcm \<Rightarrow> encrypt_aes256gcm P req plaintext
                     | ChaCha20Poly \<Rightarrow> encrypt_chacha20poly P req plaintext
                     | _ \<Rightarrow> Some (Inl UnknownAlgorithm));
               case r of
                 Inl e \<Rightarrow> Some (Inl e)
               | Inr (ciphertext, tag) \<Rightarrow>
                   if CRYPTO_DATA_LEN < data_len + GCM_TAG_SIZE then Some (Inl OutputTooLarge)
                   else do {
                     out \<leftarrow> copy_into (replicate CRYPTO_DATA_LEN 0) 0 data_len ciphertext;
                     out \<leftarrow> copy_into out data_len (data_len + GCM_TAG_SIZE) tag;
                     d \<leftarrow> slice out 0 (data_len + GCM_TAG_SIZE);
                     write_ok_reply (cp_algo req) d
                   }
             })"

definition handle_decrypt ::
  "('m, 'd) platform \<Rightarrow> CryptoPayload \<Rightarrow> (CryptoError + bytes) option" where
  "handle_decrypt P req =
     (case parse_algo (cp_algo req) of
        Inl e \<Rightarrow> Some (Inl e)
      | Inr algo \<Rightarrow>
          let data_len = unat (cp_data_len req)
          in if \<not> (GCM_TAG_SIZE \<le> data_len \<and> data_len \<le> CRYPTO_DATA_LEN) then Some (Inl InvalidDataLength)
             else
               let ct_len = data_len - GCM_TAG_SIZE
               in do {
                    tag \<leftarrow> slice (cp_data req) ct_len data_len;
                    ciphertext \<leftarrow> slice (cp_data req) 0 ct_len;
                    r \<leftarrow> (case algo of
                            Aes256Gcm \<Rightarrow> decrypt_aes256gcm P req ciphertext tag
                          | ChaCha20Poly \<Rightarrow> decrypt_chacha20poly P req ciphertext tag
                          | _ \<Rightarrow> Some (Inl UnknownAlgorithm));
                    case r of
                      Inl e \<Rightarrow> Some (Inl e)
                    | Inr pt \<Rightarrow>
                        do {
                          plaintext \<leftarrow> copy_into (replicate CRYPTO_DATA_LEN 0) 0 ct_len pt;
                          d \<leftarrow> slice plaintext 0 ct_len;
                          write_ok_reply (cp_algo req) d
                        }
                  })"

subsection \<open>Hashes and key derivation\<close>

definition handle_hash ::
  "('m, 'd) platform \<Rightarrow> CryptoPayload \<Rightarrow> (CryptoError + bytes) option" where
  "handle_hash P req =
     (case parse_algo (cp_algo req) of
        Inl e \<Rightarrow> Some (Inl e)
      | Inr algo \<Rightarrow>
          let data_len = unat (cp_data_len req)
          in if CRYPTO_DATA_LEN < data_len then Some (Inl InvalidDataLength)
             else do {
               msg \<leftarrow> slice (cp_data req) 0 data_len;
               case algo of
                 HmacSha256 \<Rightarrow>
                   let key_len = unat (cp_key_len req)
                   in if SHA256_BLOCK_SIZE < key_len then Some (Inl InvalidKeyLength)
                      else do {
                        key \<leftarrow> slice (cp_key req) 0 key_len;
                        write_ok_reply (cp_algo req) (hmac_sha256_multi P key [msg])
                      }
               | Blake3 \<Rightarrow>
                   (case p_blake3 P msg of
                      None \<Rightarrow> Some (Inl InvalidRequest)
                    | Some digest \<Rightarrow>
                        do { out \<leftarrow> slice digest 0 32; write_ok_reply (cp_algo req) out })
               | Sha3_256 \<Rightarrow>
                   do { out \<leftarrow> slice (p_sha3_256 P msg) 0 32; write_ok_reply (cp_algo req) out }
               | Sha3_512 \<Rightarrow>
                   do { out \<leftarrow> slice (p_sha3_512 P msg) 0 64; write_ok_reply (cp_algo req) out }
               | _ \<Rightarrow> Some (Inl UnknownAlgorithm)
             })"

definition handle_kdf ::
  "('m, 'd) platform \<Rightarrow> CryptoPayload \<Rightarrow> (CryptoError + bytes) option" where
  "handle_kdf P req =
     (case parse_algo (cp_algo req) of
        Inl e \<Rightarrow> Some (Inl e)
      | Inr algo \<Rightarrow>
          let key_len = unat (cp_key_len req); nonce_len = unat (cp_nonce_len req);
              data_len = unat (cp_data_len req)
          in if algo \<noteq> HkdfSha256 then Some (Inl UnknownAlgorithm)
             else if 32 < key_len then Some (Inl InvalidKeyLength)
             else if 12 < nonce_len then Some (Inl InvalidNonceLength)
             else if \<not> (2 \<le> data_len \<and> data_len \<le> CRYPTO_DATA_LEN) then Some (Inl InvalidDataLength)
             else do {
               b0 \<leftarrow> index_get (cp_data req) 0;
               b1 \<leftarrow> index_get (cp_data req) 1;
               let okm_len = unat (from_le [b0, b1] :: u16);
               if okm_len = 0 \<or> HKDF_MAX_OUTPUT < okm_len then Some (Inl OutputTooLarge)
               else do {
                 info \<leftarrow> slice (cp_data req) 2 data_len;
                 ikm \<leftarrow> slice (cp_key req) 0 key_len;
                 salt \<leftarrow> slice (cp_nonce req) 0 nonce_len;
                 r \<leftarrow> hkdf_expand P (hkdf_extract P salt ikm) info okm_len;
                 case r of Inl e \<Rightarrow> Some (Inl e) | Inr okm \<Rightarrow> write_ok_reply (cp_algo req) okm
               }
             })"

subsection \<open>Signatures and key agreement\<close>

definition handle_sign ::
  "('m, 'd) platform \<Rightarrow> CryptoPayload \<Rightarrow> (CryptoError + bytes) option" where
  "handle_sign P req =
     (case parse_algo (cp_algo req) of
        Inl e \<Rightarrow> Some (Inl e)
      | Inr algo \<Rightarrow>
          let data_len = unat (cp_data_len req)
          in if CRYPTO_DATA_LEN < data_len then Some (Inl InvalidDataLength)
             else case algo of
               Ed25519Sign \<Rightarrow>
                 if unat (cp_key_len req) \<noteq> 32 then Some (Inl InvalidKeyLength)
                 else do {
                   sk \<leftarrow> slice (cp_key req) 0 32;
                   msg \<leftarrow> slice (cp_data req) 0 data_len;
                   write_ok_reply (cp_algo req) (p_ed25519_sign P msg sk)
                 }
             | Ed448Sign \<Rightarrow>
                 if unat (cp_key_len req) \<noteq> 57 then Some (Inl InvalidKeyLength)
                 else do {
                   sk \<leftarrow> slice (cp_key req) 0 57;
                   msg \<leftarrow> slice (cp_data req) 0 data_len;
                   write_ok_reply (cp_algo req) (p_ed448_sign P msg sk)
                 }
             | _ \<Rightarrow> Some (Inl UnknownAlgorithm))"

definition verify_with ::
  "(bytes \<Rightarrow> bytes \<Rightarrow> bytes \<Rightarrow> bool) \<Rightarrow> nat \<Rightarrow> nat \<Rightarrow> CryptoPayload \<Rightarrow> (CryptoError + bytes) option" where
  "verify_with verify pk_size sig_size req =
     (let data_len = unat (cp_data_len req)
      in if unat (cp_key_len req) \<noteq> pk_size then Some (Inl InvalidKeyLength)
         else if data_len < sig_size then Some (Inl InvalidDataLength)
         else if CRYPTO_DATA_LEN < data_len then Some (Inl InvalidDataLength)
         else do {
           pk \<leftarrow> slice (cp_key req) 0 pk_size;
           sig \<leftarrow> slice (cp_data req) 0 sig_size;
           msg \<leftarrow> slice (cp_data req) sig_size data_len;
           if verify msg sig pk then write_ok_reply (cp_algo req) [1]
           else Some (Inl AuthenticationFailed)
         })"

definition handle_verify ::
  "('m, 'd) platform \<Rightarrow> CryptoPayload \<Rightarrow> (CryptoError + bytes) option" where
  "handle_verify P req =
     (case parse_algo (cp_algo req) of
        Inl e \<Rightarrow> Some (Inl e)
      | Inr Ed25519Verify \<Rightarrow> verify_with (p_ed25519_verify P) 32 64 req
      | Inr Ed448Verify \<Rightarrow> verify_with (p_ed448_verify P) 57 114 req
      | Inr _ \<Rightarrow> Some (Inl UnknownAlgorithm))"

definition handle_dh ::
  "('m, 'd) platform \<Rightarrow> CryptoPayload \<Rightarrow> (CryptoError + bytes) option" where
  "handle_dh P req =
     (case parse_algo (cp_algo req) of
        Inl e \<Rightarrow> Some (Inl e)
      | Inr X448Dh \<Rightarrow>
          if unat (cp_key_len req) \<noteq> 56 then Some (Inl InvalidKeyLength)
          else if unat (cp_data_len req) \<noteq> 56 then Some (Inl InvalidDataLength)
          else do {
            sk \<leftarrow> slice (cp_key req) 0 56;
            pk \<leftarrow> slice (cp_data req) 0 56;
            case p_x448_dh P sk pk of
              None \<Rightarrow> Some (Inl AuthenticationFailed)
            | Some shared \<Rightarrow> write_ok_reply (cp_algo req) shared
          }
      | Inr _ \<Rightarrow> Some (Inl UnknownAlgorithm))"

subsection \<open>The dispatcher\<close>

definition crypto_answer ::
  "('m, 'd) platform \<Rightarrow> MessageType \<Rightarrow> CryptoPayload \<Rightarrow> (MessageType \<times> (CryptoError + bytes)) option" where
  "crypto_answer P t req =
     (case t of
        EncryptReq \<Rightarrow> map_option (\<lambda>r. (EncryptResp, r)) (handle_encrypt P req)
      | DecryptReq \<Rightarrow> map_option (\<lambda>r. (DecryptResp, r)) (handle_decrypt P req)
      | HashReq \<Rightarrow> map_option (\<lambda>r. (HashResp, r)) (handle_hash P req)
      | KeyDeriveReq \<Rightarrow> map_option (\<lambda>r. (KeyDeriveResp, r)) (handle_kdf P req)
      | SignReq \<Rightarrow> map_option (\<lambda>r. (SignResp, r)) (handle_sign P req)
      | VerifyReq \<Rightarrow> map_option (\<lambda>r. (VerifyResp, r)) (handle_verify P req)
      | DhReq \<Rightarrow> map_option (\<lambda>r. (DhResp, r)) (handle_dh P req)
      | _ \<Rightarrow> Some (MsgError, Inl InvalidRequest))"

definition crypto_dispatch ::
  "('m, 'd) platform \<Rightarrow> IpcRegistry \<Rightarrow> (IpcRegistry \<times> (IpcError + unit)) option" where
  "crypto_dispatch P reg =
     (case ipc_recv reg EP_CRYPTO of
        (reg1, Inl e) \<Rightarrow> Some (reg1, Inl e)
      | (reg1, Inr msg) \<Rightarrow>
          do {
            (reply_type, result) \<leftarrow>
              (case parse_request msg of
                 Inl e \<Rightarrow> Some (MsgError, Inl e)
               | Inr req \<Rightarrow> crypto_answer P (msg_type msg) req);
            (final_type, final) \<leftarrow>
              (case result of
                 Inr reply \<Rightarrow> do { d \<leftarrow> slice reply 0 256; Some (reply_type, d) }
               | Inl e \<Rightarrow>
                   do { d \<leftarrow> slice (write_error_reply (replicate IPC_MAX_PAYLOAD 0) e) 0 1;
                        Some (MsgError, d) });
            Some (ipc_reply reg1 EP_CRYPTO final_type final)
          })"

subsection \<open>No handler panics\<close>

definition answers :: "(CryptoError + bytes) option \<Rightarrow> bool" where
  "answers x \<longleftrightarrow> (case x of None \<Rightarrow> False | Some (Inl _) \<Rightarrow> True | Some (Inr b) \<Rightarrow> length b = 256)"

lemma answers_error [simp]: "answers (Some (Inl e))"
  by (simp add: answers_def)

lemma answers_reply: "length d \<le> 168 \<Longrightarrow> answers (write_ok_reply a d)"
  by (simp add: answers_def write_ok_reply_eq)

lemma payload_slices:
  "payload_ok req \<Longrightarrow> j \<le> 168 \<Longrightarrow> i \<le> j \<Longrightarrow> slice (cp_data req) i j = Some (take (j - i) (drop i (cp_data req)))"
  "payload_ok req \<Longrightarrow> j \<le> 64 \<Longrightarrow> slice (cp_key req) 0 j = Some (take j (cp_key req))"
  "payload_ok req \<Longrightarrow> j \<le> 12 \<Longrightarrow> slice (cp_nonce req) 0 j = Some (take j (cp_nonce req))"
  by (simp_all add: payload_ok_def)

lemma decode_payload_ok: "message_ok m \<Longrightarrow> payload_ok (decode_crypto (payload m))"
  by (simp add: message_ok_def payload_ok_def decode_crypto_def IPC_MAX_PAYLOAD_def)

lemma answers_encrypt:
  assumes "platform_ok P" "payload_ok req"
  shows "answers (handle_encrypt P req)"
proof -
  have len: "length (cp_data req) = 168" using assms(2) by (simp add: payload_ok_def)
  have "answers (handle_encrypt P req)" if "parse_algo (cp_algo req) = Inr a" for a
    using that assms(2) len
    by (auto simp: handle_encrypt_def encrypt_aes256gcm_def encrypt_chacha20poly_def crypto_sizes
        payload_slices answers_reply Let_def split: CryptoAlgo.splits prod.splits option.splits
        dest!: platform_gcm [OF assms(1)] platform_decrypt(3) [OF assms(1)])
  then show ?thesis by (cases "parse_algo (cp_algo req)") (auto simp: handle_encrypt_def)
qed

lemma answers_decrypt:
  assumes "platform_ok P" "payload_ok req"
  shows "answers (handle_decrypt P req)"
proof -
  have len: "length (cp_data req) = 168" using assms(2) by (simp add: payload_ok_def)
  have "answers (handle_decrypt P req)" if "parse_algo (cp_algo req) = Inr a" for a
    using that assms(2) len
    by (auto simp: handle_decrypt_def decrypt_aes256gcm_def decrypt_chacha20poly_def crypto_sizes
        payload_slices answers_reply Let_def split: CryptoAlgo.splits option.splits
        dest!: platform_decrypt(1,2) [OF assms(1)])
  then show ?thesis by (cases "parse_algo (cp_algo req)") (auto simp: handle_decrypt_def)
qed

lemma answers_hash:
  assumes "platform_ok P" "payload_ok req"
  shows "answers (handle_hash P req)"
proof -
  have "answers (handle_hash P req)" if "parse_algo (cp_algo req) = Inr a" for a
    using that assms platform_digest [OF assms(1)] hmac_length [OF assms(1)]
    by (auto simp: handle_hash_def crypto_sizes payload_slices answers_reply Let_def
        split: CryptoAlgo.splits option.splits dest!: platform_blake3 [OF assms(1)])
  then show ?thesis by (cases "parse_algo (cp_algo req)") (auto simp: handle_hash_def)
qed

lemma answers_kdf:
  assumes "platform_ok P" "payload_ok req"
  shows "answers (handle_kdf P req)"
proof -
  have "length (cp_data req) = 168" using assms(2) by (simp add: payload_ok_def)
  then show ?thesis
    using assms by (auto simp: handle_kdf_def crypto_sizes payload_slices answers_reply
        hkdf_expand_rfc rfc_expand_length Let_def split: sum.splits)
qed

lemma answers_sign:
  assumes "platform_ok P" "payload_ok req"
  shows "answers (handle_sign P req)"
  using assms platform_digest [OF assms(1)]
  by (auto simp: handle_sign_def crypto_sizes payload_slices answers_reply Let_def
      split: sum.splits CryptoAlgo.splits)

lemma answers_verify:
  assumes "payload_ok req"
  shows "answers (handle_verify P req)"
  using assms
  by (auto simp: handle_verify_def verify_with_def crypto_sizes payload_slices answers_reply Let_def
      split: sum.splits CryptoAlgo.splits)

lemma answers_dh:
  assumes "platform_ok P" "payload_ok req"
  shows "answers (handle_dh P req)"
  using assms
  by (auto simp: handle_dh_def payload_slices answers_reply split: sum.splits CryptoAlgo.splits
      option.splits dest!: platform_digest(6) [OF assms(1)])

lemma crypto_answer_total:
  assumes "platform_ok P" "payload_ok req"
  shows "\<exists>t' r. crypto_answer P t req = Some (t', r) \<and> answers (Some r)"
  using answers_encrypt [OF assms] answers_decrypt [OF assms] answers_hash [OF assms]
    answers_kdf [OF assms] answers_sign [OF assms] answers_verify [OF assms(2), of P]
    answers_dh [OF assms]
  by (cases t) (auto simp: crypto_answer_def answers_def split: option.splits)

subsection \<open>Properties\<close>

text \<open>C30: key derivation computes HKDF-SHA256 of RFC 5869: a well-formed request is answered with the
  first \<open>okm_len\<close> bytes of the specified block sequence, keyed by the extracted secret.\<close>

theorem handle_kdf_is_rfc5869:
  assumes "platform_ok P" "payload_ok req" "cp_algo req = 0x20"
    and "unat (cp_key_len req) \<le> 32" "unat (cp_nonce_len req) \<le> 12"
    and "2 \<le> unat (cp_data_len req)" "unat (cp_data_len req) \<le> 168"
    and "okm_len = unat (from_le (take 2 (cp_data req)) :: u16)" "0 < okm_len" "okm_len \<le> 168"
  shows "handle_kdf P req = write_ok_reply 0x20
     (rfc5869_expand P
        (hmac_sha256_multi P (take (unat (cp_nonce_len req)) (cp_nonce req))
           [take (unat (cp_key_len req)) (cp_key req)])
        (take (unat (cp_data_len req) - 2) (drop 2 (cp_data req))) okm_len)"
proof -
  have len: "length (cp_data req) = 168" using assms(2) by (simp add: payload_ok_def)
  then have "take 2 (cp_data req) = [cp_data req ! 0, cp_data req ! 1]"
    by (cases "cp_data req"; cases "tl (cp_data req)") auto
  then show ?thesis
    using assms len
    by (simp add: handle_kdf_def parse_algo_def crypto_sizes payload_slices hkdf_extract_def
        hkdf_expand_rfc Let_def)
qed

definition demo_kdf :: CryptoPayload where
  "demo_kdf =
     \<lparr>cp_algo = 0x20, cp_key_len = 32, cp_nonce_len = 12, cp_flags = 0, cp_data_len = 3,
      cp_key = replicate 64 1, cp_nonce = replicate 12 2, cp_data = 48 # 0 # replicate 166 5\<rparr>"

theorem handle_kdf_is_rfc5869_witness:
  "handle_kdf demo_platform demo_kdf = write_ok_reply 0x20
     (rfc5869_expand demo_platform
        (hmac_sha256_multi demo_platform (replicate 12 2) [replicate 32 1]) [5] 48)"
proof -
  have "payload_ok demo_kdf" by (simp add: demo_kdf_def payload_ok_def)
  from handle_kdf_is_rfc5869 [OF demo_platform_ok this, of 48]
  show ?thesis by (simp add: demo_kdf_def)
qed

text \<open>The AEAD crates decrypt what they encrypted: the documented contract of the two ciphers.\<close>

definition aead_ok :: "('m, 'd) platform \<Rightarrow> bool" where
  "aead_ok P \<longleftrightarrow>
     (\<forall>k n a pt ct t. p_aes256gcm_encrypt P k n a pt = (ct, t) \<longrightarrow>
        p_aes256gcm_decrypt P k n a ct t = Some pt) \<and>
     (\<forall>k n a pt ct t. p_chacha_encrypt P k n a pt = Some (ct, t) \<longrightarrow>
        p_chacha_decrypt P k n a ct t = Some pt)"

lemma aead_gcm:
  "aead_ok P \<Longrightarrow> p_aes256gcm_encrypt P k n a pt = (ct, t) \<Longrightarrow> p_aes256gcm_decrypt P k n a ct t = Some pt"
  by (simp add: aead_ok_def)

lemma aead_chacha:
  "aead_ok P \<Longrightarrow> p_chacha_encrypt P k n a pt = Some (ct, t) \<Longrightarrow> p_chacha_decrypt P k n a ct t = Some pt"
  by (simp add: aead_ok_def)

lemma encrypt_data:
  assumes "platform_ok P" "payload_ok req" "handle_encrypt P req = Some (Inr reply)"
  defines "n \<equiv> unat (cp_data_len req)"
  shows "\<exists>ct t algo. parse_algo (cp_algo req) = Inr algo \<and> length ct = n \<and> length t = 16 \<and> n + 16 \<le> 168 \<and>
     write_ok_reply (cp_algo req) (ct @ t) = Some (Inr reply) \<and>
     unat (cp_key_len req) = 32 \<and> unat (cp_nonce_len req) = 12 \<and>
     (algo = Aes256Gcm \<and> p_aes256gcm_encrypt P (take 32 (cp_key req)) (take 12 (cp_nonce req)) []
         (take n (cp_data req)) = (ct, t) \<or>
      algo = ChaCha20Poly \<and> p_chacha_encrypt P (take 32 (cp_key req)) (take 12 (cp_nonce req)) []
         (take n (cp_data req)) = Some (ct, t))"
proof -
  have len: "length (cp_data req) = 168" using assms(2) by (simp add: payload_ok_def)
  obtain algo where algo: "parse_algo (cp_algo req) = Inr algo"
    using assms(3) by (auto simp: handle_encrypt_def split: sum.splits)
  consider (A) "algo = Aes256Gcm" | (C) "algo = ChaCha20Poly"
    using assms(3) algo by (auto simp: handle_encrypt_def Let_def split: CryptoAlgo.splits
        if_splits Option.bind_splits)
  then show ?thesis
  proof cases
    case A
    obtain ct t where e: "p_aes256gcm_encrypt P (take 32 (cp_key req)) (take 12 (cp_nonce req)) []
        (take n (cp_data req)) = (ct, t)" by fastforce
    then show ?thesis using A assms(2,3) algo len platform_gcm [OF assms(1) e]
      by (auto simp: handle_encrypt_def encrypt_aes256gcm_def crypto_sizes payload_slices Let_def n_def
          split: if_splits)
  next
    case C
    then obtain ct t where e: "p_chacha_encrypt P (take 32 (cp_key req)) (take 12 (cp_nonce req)) []
        (take n (cp_data req)) = Some (ct, t)"
      using assms(2,3) algo by (auto simp: handle_encrypt_def encrypt_chacha20poly_def crypto_sizes
          payload_slices Let_def n_def split: if_splits option.splits)
    then show ?thesis using C assms(2,3) algo len platform_decrypt(3) [OF assms(1) e]
      by (auto simp: handle_encrypt_def encrypt_chacha20poly_def crypto_sizes payload_slices Let_def
          n_def split: if_splits)
  qed
qed

text \<open>C31: sending the data of a successful encryption reply back for decryption, with the same
  algorithm, key and nonce, returns the original plaintext.\<close>

theorem encrypt_decrypt_roundtrip:
  assumes "platform_ok P" "aead_ok P" "payload_ok req" "handle_encrypt P req = Some (Inr reply)"
  shows "\<exists>reply2. handle_decrypt P (req\<lparr>cp_data_len := cp_data_len (decode_crypto reply),
       cp_data := cp_data (decode_crypto reply)\<rparr>) = Some (Inr reply2) \<and>
     cp_data_len (decode_crypto reply2) = cp_data_len req \<and>
     take (unat (cp_data_len req)) (cp_data (decode_crypto reply2)) =
       take (unat (cp_data_len req)) (cp_data req)"
proof -
  define n where "n = unat (cp_data_len req)"
  obtain ct t algo where algo: "parse_algo (cp_algo req) = Inr algo" and sz: "length ct = n" "length t = 16" "n + 16 \<le> 168"
    and w: "write_ok_reply (cp_algo req) (ct @ t) = Some (Inr reply)"
    and kl: "unat (cp_key_len req) = 32" "unat (cp_nonce_len req) = 12"
    and enc: "algo = Aes256Gcm \<and> p_aes256gcm_encrypt P (take 32 (cp_key req)) (take 12 (cp_nonce req)) []
         (take n (cp_data req)) = (ct, t) \<or>
      algo = ChaCha20Poly \<and> p_chacha_encrypt P (take 32 (cp_key req)) (take 12 (cp_nonce req)) []
         (take n (cp_data req)) = Some (ct, t)"
    using encrypt_data [OF assms(1,3,4)] unfolding n_def by blast
  let ?d = "decode_crypto reply" and ?pt = "take n (cp_data req)"
  let ?req = "req\<lparr>cp_data_len := cp_data_len ?d, cp_data := cp_data ?d\<rparr>"
  have d: "unat (cp_data_len ?d) = n + 16" "take (n + 16) (cp_data ?d) = ct @ t" "length (cp_data ?d) = 168"
    using write_ok_reply_decode [OF _ w] sz by (simp_all add: decode_crypto_def)
  have "drop n (take (n + 16) (cp_data ?d)) = t" "take n (take (n + 16) (cp_data ?d)) = ct"
    using d(2) sz by simp_all
  then have ct: "take 16 (drop n (cp_data ?d)) = t" "take n (cp_data ?d) = ct"
    by (simp_all add: drop_take min_def)
  have dec: "algo = Aes256Gcm \<and> p_aes256gcm_decrypt P (take 32 (cp_key req)) (take 12 (cp_nonce req)) [] ct t = Some ?pt \<or>
      algo = ChaCha20Poly \<and> p_chacha_decrypt P (take 32 (cp_key req)) (take 12 (cp_nonce req)) [] ct t = Some ?pt"
    using enc aead_gcm [OF assms(2)] aead_chacha [OF assms(2)] by blast
  have pt: "length ?pt = n" using assms(3) sz(3) by (simp add: payload_ok_def)
  have "handle_decrypt P ?req = write_ok_reply (cp_algo req) ?pt"
    using dec
  proof (elim disjE conjE)
    assume "algo = Aes256Gcm"
      "p_aes256gcm_decrypt P (take 32 (cp_key req)) (take 12 (cp_nonce req)) [] ct t = Some ?pt"
    then show ?thesis using algo kl d(1,3) ct pt sz(3) assms(3)
      by (simp add: handle_decrypt_def decrypt_aes256gcm_def crypto_sizes Let_def payload_slices)
  next
    assume "algo = ChaCha20Poly"
      "p_chacha_decrypt P (take 32 (cp_key req)) (take 12 (cp_nonce req)) [] ct t = Some ?pt"
    then show ?thesis using algo kl d(1,3) ct pt sz(3) assms(3)
      by (simp add: handle_decrypt_def decrypt_chacha20poly_def crypto_sizes Let_def payload_slices)
  qed
  moreover obtain reply2 where r2: "write_ok_reply (cp_algo req) ?pt = Some (Inr reply2)"
    using pt sz(3) by (simp add: write_ok_reply_eq)
  ultimately show ?thesis
    using write_ok_reply_decode [OF _ r2] pt sz(3) by (auto simp: n_def word_unat_eq_iff)
qed

definition demo_encrypt :: CryptoPayload where
  "demo_encrypt =
     \<lparr>cp_algo = 0x02, cp_key_len = 32, cp_nonce_len = 12, cp_flags = 0, cp_data_len = 5,
      cp_key = replicate 64 1, cp_nonce = replicate 12 2, cp_data = replicate 168 9\<rparr>"

lemma demo_encrypt_reply:
  "\<exists>reply. handle_encrypt demo_platform demo_encrypt = Some (Inr reply)"
proof -
  have "handle_encrypt demo_platform demo_encrypt =
      write_ok_reply 2 (replicate 5 9 @ replicate 16 (sum_byte (replicate 32 1)))"
    by (simp add: handle_encrypt_def demo_encrypt_def parse_algo_def encrypt_aes256gcm_def
        crypto_sizes Let_def list_all_iff)
  then show ?thesis by (simp add: write_ok_reply_eq)
qed

theorem encrypt_decrypt_roundtrip_witness:
  "\<exists>reply reply2. handle_encrypt demo_platform demo_encrypt = Some (Inr reply) \<and>
     handle_decrypt demo_platform (demo_encrypt\<lparr>cp_data_len := cp_data_len (decode_crypto reply),
       cp_data := cp_data (decode_crypto reply)\<rparr>) = Some (Inr reply2) \<and>
     take 5 (cp_data (decode_crypto reply2)) = replicate 5 9"
proof -
  obtain reply where r: "handle_encrypt demo_platform demo_encrypt = Some (Inr reply)"
    using demo_encrypt_reply by blast
  have "aead_ok demo_platform" by (simp add: aead_ok_def)
  moreover have "payload_ok demo_encrypt" by (simp add: payload_ok_def demo_encrypt_def)
  moreover have "unat (cp_data_len demo_encrypt) = 5" "take 5 (cp_data demo_encrypt) = replicate 5 9"
    by (simp_all add: demo_encrypt_def)
  ultimately show ?thesis
    using r encrypt_decrypt_roundtrip [OF demo_platform_ok _ _ r] by auto
qed

text \<open>An all-zero nonce is refused by both AEAD algorithms, whatever the rest of the request; so no
  reply ever carries a ciphertext made with it.\<close>

theorem zero_nonce_refused:
  assumes "payload_ok req" "cp_nonce req = replicate 12 0"
  shows "\<exists>e. handle_encrypt P req = Some (Inl e)"
proof -
  have "list_all (\<lambda>b. b = 0) (take 12 (cp_nonce req))" using assms(2) by (simp add: list_all_iff)
  then show ?thesis
    using assms(1)
    by (auto simp: handle_encrypt_def encrypt_aes256gcm_def encrypt_chacha20poly_def crypto_sizes
        payload_slices Let_def split: sum.splits CryptoAlgo.splits)
qed

theorem zero_nonce_refused_witness:
  "\<exists>e. handle_encrypt demo_platform (demo_encrypt\<lparr>cp_nonce := replicate 12 0\<rparr>) = Some (Inl e)"
  by (rule zero_nonce_refused) (simp_all add: payload_ok_def demo_encrypt_def)

end
