(* ===== verification/IpcCall.thy ===== *)
theory IpcCall
  imports SignService CryptoService
begin

text \<open>
  \<open>ipc_call\<close> of \<^verbatim>\<open>src/src/ipc.rs\<close>: build and post the message, run the kernel service
  in the same call, and poll for the reply. Nothing else runs on the single core while it polls,
  so a reply that is not there at the first poll never comes: the loop is a partial function and
  not returning is \<open>None\<close>.
\<close>

partial_function (option) poll_reply ::
  "IpcRegistry \<Rightarrow> EndpointId \<Rightarrow> (IpcRegistry \<times> (IpcError + IpcMessage)) option" where
  [code]: "poll_reply reg i =
     (case find_mut reg i of
        None \<Rightarrow> Some (reg, Inl EndpointNotFound)
      | Some j \<Rightarrow>
          (case take_reply (endpoint_at reg j) of
             (ep, Inr reply) \<Rightarrow> Some (set_endpoint reg j ep, Inr reply)
           | (ep, Inl _) \<Rightarrow> poll_reply (set_endpoint reg j ep) i))"

definition run_kernel_service ::
  "('m, 'd) platform \<Rightarrow> ('m, 'd) service_state \<Rightarrow> EndpointId \<Rightarrow>
     (('m, 'd) service_state \<times> (IpcError + unit)) option" where
  "run_kernel_service P s i =
     (if is_kernel_service i then
        if i = EP_CRYPTO then
          do { (reg, r) \<leftarrow> crypto_dispatch P (ipc s); Some (s\<lparr>ipc := reg\<rparr>, r) }
        else if i = EP_SIGN then sign_dispatch P s
        else Some (s, Inr ())
      else Some (s, Inr ()))"

definition ipc_call ::
  "('m, 'd) platform \<Rightarrow> ('m, 'd) service_state \<Rightarrow> Capability \<Rightarrow> MessageType \<Rightarrow> bytes \<Rightarrow>
     (('m, 'd) service_state \<times> (IpcError + IpcMessage)) option" where
  "ipc_call P s cap t d =
     (case set_payload (message_new t 0) d of
        Inl e \<Rightarrow> Some (s, Inl e)
      | Inr msg \<Rightarrow>
          (case find_mut (ipc s) (endpoint_id cap) of
             None \<Rightarrow> Some (s, Inl EndpointNotFound)
           | Some j \<Rightarrow>
               (case post (endpoint_at (ipc s) j) cap msg of
                  (ep, Inl e) \<Rightarrow> Some (s\<lparr>ipc := set_endpoint (ipc s) j ep\<rparr>, Inl e)
                | (ep, Inr _) \<Rightarrow>
                    do {
                      (s2, r) \<leftarrow> run_kernel_service P (s\<lparr>ipc := set_endpoint (ipc s) j ep\<rparr>)
                                  (endpoint_id cap);
                      case r of
                        Inl e \<Rightarrow> Some (s2, Inl e)
                      | Inr _ \<Rightarrow>
                          do {
                            (reg, rep) \<leftarrow> poll_reply (ipc s2) (endpoint_id cap);
                            Some (s2\<lparr>ipc := reg\<rparr>, rep)
                          }
                    })))"

definition issue_crypto_capability ::
  "('m, 'd) platform \<Rightarrow> ('m, 'd) rng_state \<Rightarrow> (('m, 'd) rng_state \<times> (CapError + Capability)) option" where
  "issue_crypto_capability P g = generate_capability P g EP_CRYPTO CALL"

definition issue_sign_capability ::
  "('m, 'd) platform \<Rightarrow> ('m, 'd) rng_state \<Rightarrow> (('m, 'd) rng_state \<times> (CapError + Capability)) option" where
  "issue_sign_capability P g = generate_capability P g EP_SIGN CALL"

definition issue_system_capability ::
  "('m, 'd) platform \<Rightarrow> ('m, 'd) rng_state \<Rightarrow> (('m, 'd) rng_state \<times> (CapError + Capability)) option" where
  "issue_system_capability P g = generate_capability P g EP_SYSTEM CALL"

subsection \<open>Polling\<close>

lemma set_endpoint_same:
  assumes "find_mut reg i = Some j"
  shows "set_endpoint reg j (endpoint_at reg j) = reg"
proof -
  have "(endpoints reg)[j := Some (endpoint_at reg j)] = endpoints reg"
    using find_mut_Some [OF assms] list_update_id [of "endpoints reg" j] by simp
  then show ?thesis by (simp add: set_endpoint_def)
qed

lemma poll_reply_ready:
  "find_mut reg i = Some j \<Longrightarrow> ep_state (endpoint_at reg j) = ReplyReady m \<Longrightarrow>
     poll_reply reg i = Some (set_endpoint reg j ((endpoint_at reg j)\<lparr>ep_state := EpIdle\<rparr>), Inr m)"
  by (simp add: poll_reply.simps [of reg i] take_reply_def)

lemma take_reply_not_ready: "\<forall>m. ep_state ep \<noteq> ReplyReady m \<Longrightarrow> take_reply ep = (ep, Inl NoMessage)"
  by (cases "ep_state ep") (simp_all add: take_reply_def)

text \<open>A poll that returns found the reply, or no endpoint, when it started.\<close>

lemma poll_reply_returns:
  assumes "poll_reply reg i = Some r"
  shows "find_mut reg i = None \<or> (\<exists>j m. find_mut reg i = Some j \<and> ep_state (endpoint_at reg j) = ReplyReady m)"
proof (rule poll_reply.raw_induct [rotated, OF assms], goal_cases)
  case (1 loop reg i r)
  show ?case
  proof (cases "find_mut reg i")
    case (Some j)
    show ?thesis
    proof (cases "\<exists>m. ep_state (endpoint_at reg j) = ReplyReady m")
      case False
      then have "loop reg i = Some r"
        using 1(2) Some set_endpoint_same [OF Some] take_reply_not_ready [of "endpoint_at reg j"] by simp
      then show ?thesis by (rule 1(1))
    qed (use Some in blast)
  qed simp
qed

subsection \<open>The rendezvous with a kernel service\<close>

text \<open>
  What \<open>ipc_call\<close> relies on: a service, run while its endpoint holds a request, takes the request
  and posts one reply that carries the endpoint's sequence number. \<open>ready\<close> is the condition
  under which the service produces an answer at all, \<open>ok\<close> its invariant.
\<close>

locale kernel_service =
  fixes ep :: EndpointId
    and serve :: "'s \<Rightarrow> ('s \<times> (IpcError + unit)) option"
    and reg :: "'s \<Rightarrow> IpcRegistry"
    and ready :: "'s \<Rightarrow> MessageType \<Rightarrow> bool"
    and ok :: "'s \<Rightarrow> bool"
  assumes serves:
    "ok s \<Longrightarrow> find_mut (reg s) ep = Some j \<Longrightarrow> ep_state (endpoint_at (reg s) j) = PendingReply msg \<Longrightarrow>
     message_ok msg \<Longrightarrow> ready s (msg_type msg) \<Longrightarrow>
     \<exists>s' m. serve s = Some (s', Inr ()) \<and> ok s' \<and> message_ok m \<and>
       msg_sequence m = ep_sequence (endpoint_at (reg s) j) \<and>
       reg s' = set_endpoint (reg s) j ((endpoint_at (reg s) j)\<lparr>ep_state := ReplyReady m\<rparr>)"
begin

lemma rendezvous:
  assumes "find_mut r0 ep = Some j" "post (endpoint_at r0 j) cap msg = (e1, Inr ())"
    and "reg s = set_endpoint r0 j e1" "ok s" "message_ok msg" "ready s (msg_type msg)"
  shows "\<exists>s' m. serve s = Some (s', Inr ()) \<and> ok s' \<and> message_ok m \<and>
     msg_sequence m = ep_sequence (endpoint_at r0 j) + 1 \<and>
     poll_reply (reg s') ep = Some (set_endpoint r0 j (e1\<lparr>ep_state := EpIdle\<rparr>), Inr m)"
proof -
  have e1: "e1 = (endpoint_at r0 j)\<lparr>ep_sequence := ep_sequence (endpoint_at r0 j) + 1,
      ep_state := PendingReply (msg\<lparr>msg_sequence := ep_sequence (endpoint_at r0 j) + 1\<rparr>)\<rparr>"
    using assms(2) by (auto simp: endpoint_ops split: if_splits)
  have id: "ep_id e1 = ep" using find_mut_Some [OF assms(1)] by (simp add: e1)
  note at = find_set_endpoint [OF assms(1) id]
  have "ep_state (endpoint_at (reg s) j) = PendingReply (msg\<lparr>msg_sequence := ep_sequence e1\<rparr>)"
    unfolding assms(3) at(2) by (simp add: e1)
  then obtain s' m where s': "serve s = Some (s', Inr ())" "ok s'" "message_ok m"
    "msg_sequence m = ep_sequence e1" "reg s' = set_endpoint r0 j (e1\<lparr>ep_state := ReplyReady m\<rparr>)"
    using serves [OF assms(4)] assms(3,5,6) at by (fastforce simp: message_ok_def)
  have "find_mut (reg s') ep = Some j" "endpoint_at (reg s') j = e1\<lparr>ep_state := ReplyReady m\<rparr>"
    using find_set_endpoint [OF assms(1), of "e1\<lparr>ep_state := ReplyReady m\<rparr>"] id s'(5) by simp_all
  then have "poll_reply (reg s') ep = Some (set_endpoint r0 j (e1\<lparr>ep_state := EpIdle\<rparr>), Inr m)"
    using poll_reply_ready [of "reg s'" ep j m] s'(5) by simp
  then show ?thesis using s' e1 by auto
qed

end

lemma recv_pending:
  assumes "find_mut reg i = Some j" "ep_state (endpoint_at reg j) = PendingReply msg"
  shows "ipc_recv reg i = (set_endpoint reg j ((endpoint_at reg j)\<lparr>ep_state := EpIdle\<rparr>), Inr msg)"
  using assms by (simp add: ipc_recv_def take_msg_def)

lemma reply_idle:
  assumes "find_mut reg i = Some j" "ep_state (endpoint_at reg j) = EpIdle" "length d \<le> 256"
  shows "\<exists>m. ipc_reply reg i t d =
      (set_endpoint reg j ((endpoint_at reg j)\<lparr>ep_state := ReplyReady m\<rparr>), Inr ()) \<and>
     message_ok m \<and> msg_sequence m = ep_sequence (endpoint_at reg j) \<and> msg_type m = t \<and> payload_bytes m = d"
proof -
  obtain m where m: "set_payload (message_new t (ep_sequence (endpoint_at reg j))) d = Inr m"
    using assms(3) by (simp add: set_payload_def IPC_MAX_PAYLOAD_def)
  then show ?thesis
    using assms(1,2) set_payload_keeps [OF m] set_payload_ok [OF m] set_payload_bytes [OF m]
    by (intro exI [of _ m]) (simp add: ipc_reply_def post_reply_def message_new_def)
qed

lemma recv_then_reply:
  assumes "find_mut reg i = Some j" "ep_state (endpoint_at reg j) = PendingReply msg" "length d \<le> 256"
  shows "\<exists>m. ipc_reply (fst (ipc_recv reg i)) i t d =
      (set_endpoint reg j ((endpoint_at reg j)\<lparr>ep_state := ReplyReady m\<rparr>), Inr ()) \<and>
     message_ok m \<and> msg_sequence m = ep_sequence (endpoint_at reg j)"
proof -
  let ?r = "fst (ipc_recv reg i)"
  have r: "?r = set_endpoint reg j ((endpoint_at reg j)\<lparr>ep_state := EpIdle\<rparr>)"
    by (simp add: recv_pending [OF assms(1,2)])
  have "ep_id ((endpoint_at reg j)\<lparr>ep_state := EpIdle\<rparr>) = i"
    using find_mut_Some [OF assms(1)] by simp
  note at = find_set_endpoint [OF assms(1) this]
  show ?thesis
    using reply_idle [of ?r i j d t] at assms(3) by (auto simp: r)
qed

subsection \<open>The two services\<close>

lemma crypto_serves:
  assumes ok: "platform_ok P" and j: "find_mut reg EP_CRYPTO = Some j"
    and m: "ep_state (endpoint_at reg j) = PendingReply msg" "message_ok msg"
  shows "\<exists>reg' m. crypto_dispatch P reg = Some (reg', Inr ()) \<and> message_ok m \<and>
     msg_sequence m = ep_sequence (endpoint_at reg j) \<and>
     reg' = set_endpoint reg j ((endpoint_at reg j)\<lparr>ep_state := ReplyReady m\<rparr>)"
proof -
  obtain t r where ans: "(case parse_request msg of Inl e \<Rightarrow> Some (MsgError, Inl e)
      | Inr req \<Rightarrow> crypto_answer P (msg_type msg) req) = Some (t, r)" "answers (Some r)"
    using crypto_answer_total [OF ok decode_payload_ok [OF m(2)], of "msg_type msg"]
    by (cases "unat (payload_len msg) < 256") (auto simp: parse_request_def)
  define d where "d = (case r of Inr b \<Rightarrow> b | Inl e \<Rightarrow> [crypto_error_code e])"
  have d: "length d \<le> 256" using ans(2) by (auto simp: d_def answers_def split: sum.splits)
  let ?t = "case r of Inr b \<Rightarrow> t | Inl e \<Rightarrow> MsgError"
  have "crypto_dispatch P reg = Some (ipc_reply (fst (ipc_recv reg EP_CRYPTO)) EP_CRYPTO ?t d)"
    using ans by (auto simp: crypto_dispatch_def recv_pending [OF j m(1)] d_def answers_def
        write_error_reply_def IPC_MAX_PAYLOAD_def replicate_numeral split: sum.splits)
  then show ?thesis using recv_then_reply [OF j m(1) d, of ?t] by auto
qed

lemma sign_serves:
  assumes ok: "platform_ok P" "sign_ok (sign s)" and j: "find_mut (ipc s) EP_SIGN = Some j"
    and m: "ep_state (endpoint_at (ipc s) j) = PendingReply msg" "message_ok msg"
    and rd: "msg_type msg = SignExecReq \<longrightarrow> rand_bytes P (rng s) (replicate 32 0) \<noteq> None"
  shows "\<exists>s' m. sign_dispatch P s = Some (s', Inr ()) \<and> sign_ok (sign s') \<and> message_ok m \<and>
     msg_sequence m = ep_sequence (endpoint_at (ipc s) j) \<and>
     ipc s' = set_endpoint (ipc s) j ((endpoint_at (ipc s) j)\<lparr>ep_state := ReplyReady m\<rparr>)"
proof (cases "parse_req msg")
  case (Inl e)
  let ?d = "write_sign_reply 0 (sign_error_code SignError.InvalidRequest) 0 0 []"
  have "sign_dispatch P s = (let (reg2, r) = ipc_reply (fst (ipc_recv (ipc s) EP_SIGN)) EP_SIGN MsgError ?d
      in Some (s\<lparr>ipc := reg2\<rparr>, r))"
    by (simp add: sign_dispatch_def recv_pending [OF j m(1)] Inl Let_def split: prod.splits)
  then show ?thesis
    using recv_then_reply [OF j m(1), of ?d MsgError] ok(2) by (auto simp: write_sign_reply_length)
next
  case (Inr req)
  let ?reg1 = "fst (ipc_recv (ipc s) EP_SIGN)"
  have "\<exists>s2 a. sign_answer_for P (msg_type msg) req (s\<lparr>ipc := ?reg1\<rparr>) = Some (s2, a)"
    by (rule sign_answer_total) (use ok rd parse_req_data [OF m(2) Inr] in simp_all)
  then obtain s2 a where a: "sign_answer_for P (msg_type msg) req (s\<lparr>ipc := ?reg1\<rparr>) = Some (s2, a)"
    by blast
  have ok2: "sign_ok (sign s2)" "ipc s2 = ?reg1" "length (sa_chunk a) = 240" "unat (sa_data_len a) \<le> 240"
    using sign_answer_ok [OF _ a] ok(2) by simp_all
  let ?d = "write_sign_reply (sp_phase req) (sa_code a) (sa_offset a) (sa_total a)
      (take (unat (sa_data_len a)) (sa_chunk a))"
  have "sign_dispatch P s = (let (reg2, r) = ipc_reply ?reg1 EP_SIGN (sa_type a) ?d
      in Some (s2\<lparr>ipc := reg2\<rparr>, r))"
    using a ok2 by (simp add: sign_dispatch_def recv_pending [OF j m(1)] Inr Let_def)
  then show ?thesis
    using recv_then_reply [OF j m(1), of ?d "sa_type a"] ok2(1) by (auto simp: write_sign_reply_length)
qed

definition crypto_serve ::
  "('m, 'd) platform \<Rightarrow> ('m, 'd) service_state \<Rightarrow> (('m, 'd) service_state \<times> (IpcError + unit)) option" where
  "crypto_serve P s = do { (reg, r) \<leftarrow> crypto_dispatch P (ipc s); Some (s\<lparr>ipc := reg\<rparr>, r) }"

definition service_ok :: "('m, 'd) platform \<Rightarrow> ('m, 'd) service_state \<Rightarrow> bool" where
  "service_ok P s \<longleftrightarrow> platform_ok P \<and> sign_ok (sign s)"

definition sign_ready :: "('m, 'd) platform \<Rightarrow> ('m, 'd) service_state \<Rightarrow> MessageType \<Rightarrow> bool" where
  "sign_ready P s t \<longleftrightarrow> (t = SignExecReq \<longrightarrow> rand_bytes P (rng s) (replicate 32 0) \<noteq> None)"

interpretation crypto_svc: kernel_service EP_CRYPTO "crypto_serve P" ipc "\<lambda>s t. True" "service_ok P"
  by unfold_locales (use crypto_serves in \<open>fastforce simp: service_ok_def crypto_serve_def\<close>)

interpretation sign_svc: kernel_service EP_SIGN "sign_dispatch P" ipc "sign_ready P" "service_ok P"
  by unfold_locales (use sign_serves in \<open>fastforce simp: service_ok_def sign_ready_def\<close>)

lemma post_accepted:
  "is_valid_for cap (ep_id ep) (required_rights ep) \<Longrightarrow> \<forall>m. ep_state ep \<noteq> PendingReply m \<Longrightarrow>
     unat (payload_len msg) \<le> 256 \<Longrightarrow> \<exists>e1. post ep cap msg = (e1, Inr ())"
  by (cases "ep_state ep") (simp_all add: endpoint_ops IPC_MAX_PAYLOAD_def)

subsection \<open>Properties\<close>

text \<open>C5: a call to the signing or the crypto endpoint with a valid capability, a payload that fits and an
  endpoint not already busy always returns a reply; the reply carries the next sequence number, the
  endpoint is idle again afterwards, and the signing session stays well-formed. (For the
  operation that draws randomness, as long as the DRBG delivers.)\<close>

theorem ipc_call_returns:
  assumes "platform_ok P" "sign_ok (sign s)" "endpoint_id cap \<in> {EP_SIGN, EP_CRYPTO}" "length d \<le> 256"
    and "find_mut (ipc s) (endpoint_id cap) = Some j"
    and "is_valid_for cap (endpoint_id cap) (required_rights (endpoint_at (ipc s) j))"
    and "\<forall>m. ep_state (endpoint_at (ipc s) j) \<noteq> PendingReply m"
    and "t = SignExecReq \<longrightarrow> rand_bytes P (rng s) (replicate 32 0) \<noteq> None"
  shows "\<exists>s' m. ipc_call P s cap t d = Some (s', Inr m) \<and> message_ok m \<and> sign_ok (sign s') \<and>
     msg_sequence m = ep_sequence (endpoint_at (ipc s) j) + 1 \<and>
     ep_state (endpoint_at (ipc s') j) = EpIdle"
proof -
  let ?ep = "endpoint_at (ipc s) j" and ?i = "endpoint_id cap"
  obtain msg where msg: "set_payload (message_new t 0) d = Inr msg"
    using assms(4) by (simp add: set_payload_def IPC_MAX_PAYLOAD_def)
  have mok: "message_ok msg" "msg_type msg = t" "unat (payload_len msg) \<le> 256"
    using set_payload_ok [OF msg] set_payload_keeps [OF msg]
    by (simp_all add: message_new_def message_ok_def IPC_MAX_PAYLOAD_def)
  obtain e1 where e1: "post ?ep cap msg = (e1, Inr ())"
    using post_accepted [of cap ?ep msg] assms(6,7) find_mut_Some [OF assms(5)] mok(3) by auto
  have id: "ep_id e1 = ?i" using endpoint_ids(1) [of ?ep cap msg] e1 find_mut_Some [OF assms(5)] by simp
  let ?s1 = "s\<lparr>ipc := set_endpoint (ipc s) j e1\<rparr>"
  have ok: "service_ok P ?s1" "sign_ready P ?s1 (msg_type msg)"
    using assms(1,2,8) mok(2) by (simp_all add: service_ok_def sign_ready_def)
  have "\<exists>s' m. run_kernel_service P ?s1 ?i = Some (s', Inr ()) \<and> service_ok P s' \<and> message_ok m \<and>
      msg_sequence m = ep_sequence ?ep + 1 \<and>
      poll_reply (ipc s') ?i = Some (set_endpoint (ipc s) j (e1\<lparr>ep_state := EpIdle\<rparr>), Inr m)"
  proof (cases "?i = EP_SIGN")
    case True
    then show ?thesis
      using sign_svc.rendezvous [of "ipc s" j cap msg e1 ?s1 P] assms(5) e1 mok(1) ok
      by (simp add: run_kernel_service_def is_kernel_service_def ep_consts)
  next
    case False
    then show ?thesis
      using crypto_svc.rendezvous [of "ipc s" j cap msg e1 ?s1 P] assms(3,5) e1 mok(1) ok(1)
      by (simp add: run_kernel_service_def is_kernel_service_def crypto_serve_def ep_consts)
  qed
  then obtain s2 m where s2: "run_kernel_service P ?s1 ?i = Some (s2, Inr ())" "service_ok P s2" "message_ok m"
      "msg_sequence m = ep_sequence ?ep + 1"
      "poll_reply (ipc s2) ?i = Some (set_endpoint (ipc s) j (e1\<lparr>ep_state := EpIdle\<rparr>), Inr m)" by blast
  then have "ipc_call P s cap t d = Some (s2\<lparr>ipc := set_endpoint (ipc s) j (e1\<lparr>ep_state := EpIdle\<rparr>)\<rparr>, Inr m)"
    using msg assms(5) e1 by (simp add: ipc_call_def)
  then show ?thesis
    using s2 find_set_endpoint(2) [OF assms(5), of "e1\<lparr>ep_state := EpIdle\<rparr>"] id
    by (simp add: service_ok_def)
qed

lemma ipc_init_find:
  "find_mut (ipc_init registry_empty) EP_SYSTEM = Some 0" "find_mut (ipc_init registry_empty) EP_CRYPTO = Some 1"
  "find_mut (ipc_init registry_empty) EP_SIGN = Some 2" "find_mut (ipc_init registry_empty) EP_LUMEN_WIRE = Some 3"
  "endpoint_at (ipc_init registry_empty) 0 = endpoint_new EP_SYSTEM CALL"
  "endpoint_at (ipc_init registry_empty) 1 = endpoint_new EP_CRYPTO CALL"
  "endpoint_at (ipc_init registry_empty) 2 = endpoint_new EP_SIGN CALL"
  "endpoint_at (ipc_init registry_empty) 3 = endpoint_new EP_LUMEN_WIRE CALL"
  by (simp_all add: ipc_init_def register_def registry_empty_def IPC_MAX_ENDPOINTS_def find_mut_def
      endpoint_at_def endpoint_new_def upt_conv_Cons replicate_numeral ep_consts Let_def)

definition demo_services :: "(u64, u64) service_state" where
  "demo_services =
     \<lparr>rng = \<lparr>ent = demo_entropy, cap_drbg = Some 0\<rparr>, ipc = ipc_init registry_empty, sign = sign_init\<rparr>"

theorem ipc_call_returns_witness:
  "\<exists>s' m. ipc_call demo_platform demo_services \<lparr>token = 7, endpoint_id = EP_SIGN, rights = CALL\<rparr>
     SignBeginReq [1, 2, 3] = Some (s', Inr m) \<and> msg_sequence m = 1"
proof -
  let ?c = "\<lparr>token = 7, endpoint_id = EP_SIGN, rights = CALL\<rparr>"
  have "is_valid_for ?c EP_SIGN CALL" by (simp add: is_valid_for_def)
  then show ?thesis
    using ipc_call_returns [OF demo_platform_ok, of demo_services ?c "[1, 2, 3]" 2 SignBeginReq]
    by (auto simp: demo_services_def ipc_init_find endpoint_new_def sign_ok_init)
qed

text \<open>A capability that is not valid for the endpoint it names (zero token, or missing rights) gets
  \<open>CapabilityDenied\<close>, and the call changes nothing: no message, no sequence number, no session.\<close>

theorem ipc_call_denied:
  assumes "find_mut (ipc s) (endpoint_id cap) = Some j" "length d \<le> 256"
    and "\<not> is_valid_for cap (endpoint_id cap) (required_rights (endpoint_at (ipc s) j))"
  shows "ipc_call P s cap t d = Some (s, Inl CapabilityDenied)"
proof -
  obtain msg where "set_payload (message_new t 0) d = Inr msg"
    using assms(2) by (simp add: set_payload_def IPC_MAX_PAYLOAD_def)
  then show ?thesis
    using assms(1,3) find_mut_Some [OF assms(1)] set_endpoint_same [OF assms(1)]
    by (simp add: ipc_call_def post_def)
qed

theorem ipc_call_denied_witness:
  "ipc_call demo_platform demo_services \<lparr>token = 7, endpoint_id = EP_SIGN, rights = SEND\<rparr> SignBeginReq []
     = Some (demo_services, Inl CapabilityDenied)"
proof -
  have "\<not> is_valid_for \<lparr>token = 7, endpoint_id = EP_SIGN, rights = SEND\<rparr> EP_SIGN CALL"
    by (simp add: is_valid_for_def right_consts)
  then show ?thesis
    by (intro ipc_call_denied [where j = 2])
       (simp_all add: demo_services_def ipc_init_find endpoint_new_def)
qed

text \<open>C40: a call to a registered endpoint that no kernel service answers (the system endpoint and the
  lumen wire endpoint) never returns when the capability is valid and the endpoint is free.\<close>

theorem ipc_call_without_service_hangs:
  assumes "find_mut (ipc s) (endpoint_id cap) = Some j" "length d \<le> 256"
    and "is_valid_for cap (endpoint_id cap) (required_rights (endpoint_at (ipc s) j))"
    and "\<forall>m. ep_state (endpoint_at (ipc s) j) \<noteq> PendingReply m"
    and "endpoint_id cap \<notin> {EP_SIGN, EP_CRYPTO}"
  shows "ipc_call P s cap t d = None"
proof -
  let ?ep = "endpoint_at (ipc s) j" and ?i = "endpoint_id cap"
  obtain msg where msg: "set_payload (message_new t 0) d = Inr msg"
    using assms(2) by (simp add: set_payload_def IPC_MAX_PAYLOAD_def)
  have "unat (payload_len msg) \<le> 256"
    using set_payload_ok [OF msg] by (simp add: message_ok_def IPC_MAX_PAYLOAD_def)
  then obtain e1 where e1: "post ?ep cap msg = (e1, Inr ())"
    using post_accepted [of cap ?ep msg] assms(3,4) find_mut_Some [OF assms(1)] by auto
  let ?r = "set_endpoint (ipc s) j e1"
  have "ep_id e1 = ?i" using endpoint_ids(1) [of ?ep cap msg] e1 find_mut_Some [OF assms(1)] by simp
  note at = find_set_endpoint [OF assms(1) this]
  have "\<exists>m. ep_state e1 = PendingReply m" using e1 by (auto simp: endpoint_ops split: if_splits)
  then have "poll_reply ?r ?i = None" using poll_reply_returns [of ?r ?i] at by (cases "poll_reply ?r ?i") auto
  then show ?thesis
    using msg assms(1,5) e1 by (simp add: ipc_call_def run_kernel_service_def)
qed

theorem ipc_call_without_service_hangs_witness:
  "ipc_call demo_platform demo_services \<lparr>token = 7, endpoint_id = EP_SYSTEM, rights = CALL\<rparr> Ping [] = None"
proof -
  have "EP_SYSTEM \<notin> {EP_SIGN, EP_CRYPTO}" by (simp add: ep_consts)
  then show ?thesis
    by (intro ipc_call_without_service_hangs [where j = 0])
       (simp_all add: demo_services_def ipc_init_find endpoint_new_def is_valid_for_def)
qed

end
