(* ===== verification/WireProto.thy ===== *)
theory WireProto
  imports Platform AuditRing
begin

text \<open>
  The Lumen wire format of \<^verbatim>\<open>src/src/bus.rs\<close>: the 16-byte frame header and its codec, the
  command and status catalogues, the two frame builders that fill a response buffer in place, and
  the status frame that serialises the audit ring.
\<close>

subsection \<open>Constants and catalogues\<close>

definition WIRE_FRAME_MAX :: nat where "WIRE_FRAME_MAX = 4096"
definition WIRE_PAYLOAD_MAX :: nat where "WIRE_PAYLOAD_MAX = WIRE_FRAME_MAX - 16"
definition WIRE_MAGIC :: bytes where "WIRE_MAGIC = [0x4C, 0x57, 0x4B, 0x30]"
definition WIRE_VERSION :: u16 where "WIRE_VERSION = 0x0001"
definition WIRE_CMD_RESPONSE_BIT :: u16 where "WIRE_CMD_RESPONSE_BIT = 0x8000"
definition WIRE_ATTEST_LEN :: nat where
  "WIRE_ATTEST_LEN = MLDSA44_PK_LEN + 1 + MLDSA44_SIG_LEN"

lemmas wire_consts =
  WIRE_FRAME_MAX_def WIRE_PAYLOAD_MAX_def WIRE_MAGIC_def WIRE_VERSION_def
  WIRE_CMD_RESPONSE_BIT_def

record WireFrameHeader =
  wh_magic :: bytes
  wh_version :: u16
  wh_cmd :: u16
  wh_req_id :: u32
  wh_payload_len :: u16
  wh_status :: u16

datatype WireCmd = Ping | Blake3Hash | AttestSubmit | Status | Error

fun wire_cmd :: "WireCmd \<Rightarrow> u16" where
  "wire_cmd WireCmd.Ping = 0x0001"
| "wire_cmd WireCmd.Blake3Hash = 0x0010"
| "wire_cmd WireCmd.AttestSubmit = 0x0040"
| "wire_cmd WireCmd.Status = 0x0080"
| "wire_cmd WireCmd.Error = 0xFFFF"

datatype WireStatus = Ok | BadFrame | UnknownCmd | Denied | Internal

fun wire_status :: "WireStatus \<Rightarrow> u16" where
  "wire_status WireStatus.Ok = 0"
| "wire_status WireStatus.BadFrame = 1"
| "wire_status WireStatus.UnknownCmd = 2"
| "wire_status WireStatus.Denied = 3"
| "wire_status WireStatus.Internal = 4"

datatype BusKind = Software | Ring3Process | Usb | Spi | Serial | SmartCard | Network

fun bus_kind_octet :: "BusKind \<Rightarrow> u8" where
  "bus_kind_octet BusKind.Software = 0"
| "bus_kind_octet BusKind.Ring3Process = 1"
| "bus_kind_octet BusKind.Usb = 2"
| "bus_kind_octet BusKind.Spi = 3"
| "bus_kind_octet BusKind.Serial = 4"
| "bus_kind_octet BusKind.SmartCard = 5"
| "bus_kind_octet BusKind.Network = 6"

lemma bus_kind_octet_inject: "bus_kind_octet a = bus_kind_octet b \<longleftrightarrow> a = b"
  by (cases a; cases b) simp_all

subsection \<open>The header codec\<close>

definition parse_header :: "bytes \<Rightarrow> WireFrameHeader" where
  "parse_header bs =
     \<lparr>wh_magic = [bs ! 0, bs ! 1, bs ! 2, bs ! 3],
      wh_version = from_le [bs ! 4, bs ! 5],
      wh_cmd = from_le [bs ! 6, bs ! 7],
      wh_req_id = from_le [bs ! 8, bs ! 9, bs ! 10, bs ! 11],
      wh_payload_len = from_le [bs ! 12, bs ! 13],
      wh_status = from_le [bs ! 14, bs ! 15]\<rparr>"

definition write_header :: "WireFrameHeader \<Rightarrow> bytes \<Rightarrow> bytes option" where
  "write_header h out =
     do {
       out \<leftarrow> copy_into out 0 4 (wh_magic h);
       out \<leftarrow> copy_into out 4 6 (to_le 2 (wh_version h));
       out \<leftarrow> copy_into out 6 8 (to_le 2 (wh_cmd h));
       out \<leftarrow> copy_into out 8 12 (to_le 4 (wh_req_id h));
       out \<leftarrow> copy_into out 12 14 (to_le 2 (wh_payload_len h));
       copy_into out 14 16 (to_le 2 (wh_status h))
     }"

text \<open>The bytes of a header, in wire order.\<close>

definition header_bytes :: "WireFrameHeader \<Rightarrow> bytes" where
  "header_bytes h =
     wh_magic h @ to_le 2 (wh_version h) @ to_le 2 (wh_cmd h) @ to_le 4 (wh_req_id h) @
     to_le 2 (wh_payload_len h) @ to_le 2 (wh_status h)"

lemma length_header_bytes [simp]: "length (wh_magic h) = 4 \<Longrightarrow> length (header_bytes h) = 16"
  by (simp add: header_bytes_def)

lemma write_header_eq:
  "length (wh_magic h) = 4 \<Longrightarrow> length out = 16 \<Longrightarrow> write_header h out = Some (header_bytes h)"
  by (simp add: write_header_def header_bytes_def)

lemma nth_pairs:
  "length bs = n \<Longrightarrow> i + 2 \<le> n \<Longrightarrow> [bs ! i, bs ! Suc i] = take 2 (drop i bs)"
  by (rule nth_equalityI) (auto simp: less_Suc_eq numeral_2_eq_2)

lemma nth_quads:
  "length bs = n \<Longrightarrow> i + 4 \<le> n \<Longrightarrow>
     [bs ! i, bs ! (i + 1), bs ! (i + 2), bs ! (i + 3)] = take 4 (drop i bs)"
  by (rule nth_equalityI) (auto simp: less_Suc_eq numeral_eq_Suc)

lemma parse_header_magic_length [simp]: "length (wh_magic (parse_header bs)) = 4"
  by (simp add: parse_header_def)

lemma parse_header_slices:
  assumes "length bs = 16"
  shows "parse_header bs =
     \<lparr>wh_magic = take 4 bs, wh_version = from_le (take 2 (drop 4 bs)),
      wh_cmd = from_le (take 2 (drop 6 bs)), wh_req_id = from_le (take 4 (drop 8 bs)),
      wh_payload_len = from_le (take 2 (drop 12 bs)), wh_status = from_le (take 2 (drop 14 bs))\<rparr>"
  using nth_quads [OF assms, of 0] nth_quads [OF assms, of 8] nth_pairs [OF assms, of 4]
    nth_pairs [OF assms, of 6] nth_pairs [OF assms, of 12] nth_pairs [OF assms, of 14]
  by (simp add: parse_header_def numeral_2_eq_2)

lemma parse_header_bytes:
  "length (wh_magic h) = 4 \<Longrightarrow> parse_header (header_bytes h) = h"
  by (simp add: parse_header_slices) (simp add: header_bytes_def)

lemma take_drop_join: "take k (drop n xs) @ drop (n + k) xs = drop n xs"
  by (metis add.commute append_take_drop_id drop_drop)

lemma header_bytes_parse: "length bs = 16 \<Longrightarrow> header_bytes (parse_header bs) = bs"
  using take_drop_join [of 4 0 bs] take_drop_join [of 2 4 bs] take_drop_join [of 2 6 bs]
    take_drop_join [of 4 8 bs] take_drop_join [of 2 12 bs]
  by (simp add: parse_header_slices header_bytes_def)

text \<open>The header codec is a bijection between 16-byte strings and headers: writing a header over
  any 16-byte slot and parsing it gives the header back, and parsing any 16 bytes and writing the
  result gives the bytes back.\<close>

theorem wire_header_roundtrip:
  assumes "length (wh_magic h) = 4" "length out = 16" "length bs = 16"
  shows "map_option parse_header (write_header h out) = Some h \<and>
     write_header (parse_header bs) out = Some bs"
  using assms
  by (simp add: write_header_eq parse_header_bytes header_bytes_parse)

theorem wire_header_roundtrip_witness:
  "map_option parse_header (write_header
       \<lparr>wh_magic = WIRE_MAGIC, wh_version = 1, wh_cmd = 0x10, wh_req_id = 0xDEADBEEF,
        wh_payload_len = 300, wh_status = 0\<rparr> (replicate 16 0))
     = Some \<lparr>wh_magic = WIRE_MAGIC, wh_version = 1, wh_cmd = 0x10, wh_req_id = 0xDEADBEEF,
             wh_payload_len = 300, wh_status = 0\<rparr>
   \<and> write_header (parse_header (replicate 16 0xAB)) (replicate 16 0) = Some (replicate 16 0xAB)"
  by (rule wire_header_roundtrip) (simp_all add: WIRE_MAGIC_def)

subsection \<open>Building frames in place\<close>

definition build_response_frame ::
  "u32 \<Rightarrow> WireCmd \<Rightarrow> WireStatus \<Rightarrow> bytes \<Rightarrow> bytes \<Rightarrow> (bytes \<times> nat) option" where
  "build_response_frame req_id cmd status pl out =
     do {
       let payload_len = of_nat (length pl);
       let hdr = \<lparr>wh_magic = WIRE_MAGIC, wh_version = WIRE_VERSION,
                  wh_cmd = wire_cmd cmd OR WIRE_CMD_RESPONSE_BIT, wh_req_id = req_id,
                  wh_payload_len = payload_len, wh_status = wire_status status\<rparr>;
       hdr_bytes \<leftarrow> write_header hdr (replicate 16 0);
       out \<leftarrow> copy_into out 0 16 hdr_bytes;
       out \<leftarrow> copy_into out 16 (16 + length pl) pl;
       Some (out, 16 + length pl)
     }"

definition build_error_frame_inplace ::
  "u32 \<Rightarrow> WireStatus \<Rightarrow> bytes \<Rightarrow> (bytes \<times> nat) option" where
  "build_error_frame_inplace req_id status out =
     do {
       let hdr = \<lparr>wh_magic = WIRE_MAGIC, wh_version = WIRE_VERSION,
                  wh_cmd = wire_cmd WireCmd.Error, wh_req_id = req_id, wh_payload_len = 0,
                  wh_status = wire_status status\<rparr>;
       hdr_bytes \<leftarrow> write_header hdr (replicate 16 0);
       out \<leftarrow> copy_into out 0 16 hdr_bytes;
       Some (out, 16)
     }"

text \<open>
  What a complete frame is: a header of the protocol that answers \<open>req_id\<close> with the given
  command and status words, followed by exactly the announced payload.
\<close>

definition frame_bytes :: "u32 \<Rightarrow> u16 \<Rightarrow> u16 \<Rightarrow> bytes \<Rightarrow> bytes" where
  "frame_bytes req_id cmd status pl =
     header_bytes \<lparr>wh_magic = WIRE_MAGIC, wh_version = WIRE_VERSION, wh_cmd = cmd,
       wh_req_id = req_id, wh_payload_len = of_nat (length pl), wh_status = status\<rparr> @ pl"

lemma length_frame_bytes [simp]: "length (frame_bytes r c s pl) = 16 + length pl"
  by (simp add: frame_bytes_def WIRE_MAGIC_def)

lemma parse_frame:
  "length pl < 2 ^ 16 \<Longrightarrow>
   parse_header (take 16 (frame_bytes r c s pl)) =
     \<lparr>wh_magic = WIRE_MAGIC, wh_version = WIRE_VERSION, wh_cmd = c, wh_req_id = r,
      wh_payload_len = of_nat (length pl), wh_status = s\<rparr>
   \<and> drop 16 (frame_bytes r c s pl) = pl"
  by (simp add: frame_bytes_def WIRE_MAGIC_def parse_header_bytes)

lemma build_response_frame_eq:
  assumes "16 + length pl \<le> length out"
  shows "build_response_frame req_id cmd status pl out =
     Some (frame_bytes req_id (wire_cmd cmd OR WIRE_CMD_RESPONSE_BIT) (wire_status status) pl @
           drop (16 + length pl) out, 16 + length pl)"
  using assms
  by (simp add: build_response_frame_def write_header_eq WIRE_MAGIC_def frame_bytes_def
      add.commute)

lemma build_error_frame_eq:
  assumes "16 \<le> length out"
  shows "build_error_frame_inplace req_id status out =
     Some (frame_bytes req_id 0xFFFF (wire_status status) [] @ drop 16 out, 16)"
  using assms
  by (simp add: build_error_frame_inplace_def write_header_eq WIRE_MAGIC_def frame_bytes_def)

subsection \<open>Commands answered from the frame alone\<close>

definition handle_ping :: "u32 \<Rightarrow> bytes \<Rightarrow> (bytes \<times> nat) option" where
  "handle_ping req_id out = build_response_frame req_id WireCmd.Ping WireStatus.Ok [] out"

text \<open>The serialisation of one audit event: twelve bytes, integers little-endian.\<close>

definition put_event :: "bytes \<Rightarrow> nat \<Rightarrow> enroll_event \<Rightarrow> bytes option" where
  "put_event staging off ev =
     do {
       st \<leftarrow> copy_into staging off (off + 4) (to_le 4 (ev_seq ev));
       st \<leftarrow> index_set st (off + 4) (ev_slot_idx ev);
       st \<leftarrow> index_set st (off + 5) (ev_result ev);
       st \<leftarrow> index_set st (off + 6) (ev_bus_kind ev);
       st \<leftarrow> index_set st (off + 7) (ev_pad ev);
       copy_into st (off + 8) (off + 12) (ev_pk_hash_prefix ev)
     }"

fun put_events :: "nat \<Rightarrow> nat \<Rightarrow> enroll_event list \<Rightarrow> bytes \<Rightarrow> bytes option" where
  "put_events i 0 evs staging = Some staging"
| "put_events i (Suc n) evs staging =
     do {
       ev \<leftarrow> index_get evs i;
       st \<leftarrow> put_event staging (8 + i * 12) ev;
       put_events (i + 1) n evs st
     }"

definition handle_status :: "audit_ring \<Rightarrow> u32 \<Rightarrow> bytes \<Rightarrow> bytes \<Rightarrow> (bytes \<times> nat) option" where
  "handle_status ring req_id pl out =
     (if pl \<noteq> [] then build_error_frame_inplace req_id WireStatus.BadFrame out
      else do {
        let (events_local, written, total) =
              audit_snapshot ring (replicate AUDIT_RING_CAPACITY enroll_event_default);
        let payload_len = 8 + written * 12;
        st \<leftarrow> copy_into (replicate (8 + AUDIT_RING_CAPACITY * 12) 0) 0 2
               (to_le 2 (of_nat written :: u16));
        st \<leftarrow> copy_into st 2 6 (to_le 4 total);
        st \<leftarrow> put_events 0 written events_local st;
        d \<leftarrow> slice st 0 payload_len;
        build_response_frame req_id WireCmd.Status WireStatus.Ok d out
      })"

definition event_bytes :: "enroll_event \<Rightarrow> bytes" where
  "event_bytes ev =
     to_le 4 (ev_seq ev) @ [ev_slot_idx ev, ev_result ev, ev_bus_kind ev, ev_pad ev] @
     ev_pk_hash_prefix ev"

lemma event_bytes_length:
  "length (ev_pk_hash_prefix ev) = 4 \<Longrightarrow> length (event_bytes ev) = 12"
  by (simp add: event_bytes_def)

lemma put_event_split:
  assumes "length (ev_pk_hash_prefix ev) = 4" "length mid = 12"
  shows "put_event (pre @ mid @ post) (length pre) ev = Some (pre @ event_bytes ev @ post)"
proof -
  obtain a0 a1 a2 a3 a4 a5 a6 a7 rest where
    mid: "mid = a0 # a1 # a2 # a3 # a4 # a5 # a6 # a7 # rest" and "length rest = 4"
    using assms(2) by (auto simp: numeral_eq_Suc length_Suc_conv)
  then show ?thesis
    using assms(1)
    by (simp add: put_event_def event_bytes_def list_update_append numeral_eq_Suc)
qed

lemma put_event_eq:
  assumes "length (ev_pk_hash_prefix ev) = 4" "off + 12 \<le> length staging"
  shows "put_event staging off ev =
     Some (take off staging @ event_bytes ev @ drop (off + 12) staging)"
proof -
  have eq: "take off staging @ take 12 (drop off staging) @ drop (off + 12) staging = staging"
    by (simp add: take_drop_join)
  have "put_event (take off staging @ take 12 (drop off staging) @ drop (off + 12) staging) off ev
      = Some (take off staging @ event_bytes ev @ drop (off + 12) staging)"
    using put_event_split [OF assms(1), of "take 12 (drop off staging)" "take off staging"] assms(2)
    by simp
  then show ?thesis unfolding eq .
qed

interpretation event_record: record_writer put_event event_bytes
  "\<lambda>e. length (ev_pk_hash_prefix e) = 4" 12
  by unfold_locales (simp_all add: put_event_eq event_bytes_length)

lemma put_events_run: "put_events i n evs st = event_record.put_run 8 i n evs st"
  by (induction n arbitrary: i st) (simp_all cong: Option.bind_cong)

lemmas put_events_eq = event_record.put_run_eq [where base = 8, folded put_events_run]

lemma audit_snapshot_recent:
  assumes "ring_ok ring"
  shows "\<exists>evs. audit_snapshot ring (replicate AUDIT_RING_CAPACITY enroll_event_default)
       = (evs, length (audit_recent ring), total ring) \<and>
     take (length (audit_recent ring)) evs = audit_recent ring \<and> length evs = 32 \<and>
     length (audit_recent ring) \<le> 32 \<and> (\<forall>e \<in> set evs. length (ev_pk_hash_prefix e) = 4)"
proof -
  obtain evs n t where s:
    "audit_snapshot ring (replicate AUDIT_RING_CAPACITY enroll_event_default) = (evs, n, t)"
    by (metis prod_cases3)
  have t: "t = total ring" and n: "n \<le> 32" and len: "length evs = 32"
    using audit_snapshot_length [OF s] by (simp_all add: AUDIT_RING_CAPACITY_def)
  have "\<forall>e \<in> set evs. length (ev_pk_hash_prefix e) = 4"
    using s assms
    by (auto simp: audit_snapshot_def Let_def ring_ok_def AUDIT_RING_CAPACITY_def
        enroll_event_default_def dest!: in_set_dropD)
  moreover have "audit_recent ring = take n evs" using s by (simp add: audit_recent_def)
  ultimately show ?thesis using s t n len by auto
qed

lemma handle_status_eq:
  assumes "ring_ok ring" "length out = WIRE_FRAME_MAX"
  defines "evs \<equiv> audit_recent ring"
  shows "handle_status ring req_id [] out =
     Some (frame_bytes req_id 0x8080 0
             (to_le 2 (of_nat (length evs) :: u16) @ to_le 4 (total ring) @ [0, 0] @
              concat (map event_bytes evs)) @ drop (24 + 12 * length evs) out,
           24 + 12 * length evs)"
proof -
  obtain loc where
    s: "audit_snapshot ring (replicate AUDIT_RING_CAPACITY enroll_event_default) =
          (loc, length evs, total ring)"
    and loc: "take (length evs) loc = evs" "length loc = 32" "length evs \<le> 32"
      "\<forall>e \<in> set loc. length (ev_pk_hash_prefix e) = 4"
    using audit_snapshot_recent [OF assms(1)] unfolding evs_def by blast
  let ?h = "to_le 2 (of_nat (length evs) :: u16) @ to_le 4 (total ring) @ replicate 386 0"
  have "\<forall>e \<in> set evs. length (ev_pk_hash_prefix e) = 4" using loc(1,4) by (metis in_set_takeD)
  then have clen: "length (concat (map event_bytes evs)) = 12 * length evs"
    by (rule event_record.length_encs)
  have zeros: "take 2 (replicate 386 (0 :: u8)) = [0, 0]" by (simp add: numeral_2_eq_2)
  have "put_events 0 (length evs) loc ?h =
     Some (take 8 ?h @ concat (map event_bytes evs) @ drop (8 + length evs * 12) ?h)"
    using put_events_eq [of loc 0 "length evs" ?h] loc by simp
  moreover have "take 8 ?h =
      to_le 2 (of_nat (length evs) :: u16) @ to_le 4 (total ring) @ [0, 0]"
    using zeros by simp
  ultimately show ?thesis
    using s loc(3) assms(2) clen
    by (simp add: handle_status_def AUDIT_RING_CAPACITY_def build_response_frame_eq
        WIRE_FRAME_MAX_def WIRE_CMD_RESPONSE_BIT_def mult.commute)
qed

lemma ring_ok_fold_push:
  "\<forall>(s, x, k, p) \<in> set as. length p = 4 \<Longrightarrow> ring_ok r \<Longrightarrow> ring_ok (fold audit_push as r)"
  by (induction as arbitrary: r) (auto simp: audit_push_def ring_ok_enqueue)

lemma total_after_push: "total (fold audit_push as r) = total r + of_nat (length as)"
  by (induction as arbitrary: r) (auto simp: audit_push_def)

text \<open>C35: after any sequence of fewer than 2^32 audit events, a Status request is answered with a
  well-formed frame for the same request id whose payload is the number of events shown, the number
  of events ever recorded, and the last 32 events, oldest first, each with its running number.\<close>

theorem status_reports_log:
  assumes "length evs < 2 ^ 32" "\<forall>(s, x, k, p) \<in> set evs. length p = 4"
    and "length out = WIRE_FRAME_MAX"
  shows "handle_status (fold audit_push evs audit_ring_init) req_id [] out =
     (let shown = drop (length evs - 32) (map (\<lambda>(i, a). audit_entry i a) (enumerate 0 evs));
          pl = to_le 2 (of_nat (min (length evs) 32) :: u16) @
               to_le 4 (of_nat (length evs) :: u32) @ [0, 0] @ concat (map event_bytes shown)
      in Some (frame_bytes req_id 0x8080 0 pl @ drop (16 + length pl) out, 16 + length pl))"
proof -
  let ?r = "fold audit_push evs audit_ring_init"
  define shown where
    "shown = drop (length evs - 32) (map (\<lambda>(i, a). audit_entry i a) (enumerate 0 evs))"
  have recent: "audit_recent ?r = shown"
    using aring.recent_run [OF assms(1)]
    by (simp add: shown_def aring.history_def AUDIT_RING_CAPACITY_def)
  have n: "length shown = min (length evs) 32" by (simp add: shown_def)
  have t: "total ?r = of_nat (length evs)"
    by (simp add: total_after_push audit_ring_init_def)
  have ok: "ring_ok ?r" using assms(2) ring_ok_init by (rule ring_ok_fold_push)
  have "\<forall>e \<in> set (audit_recent ?r). length (ev_pk_hash_prefix e) = 4"
    using audit_snapshot_recent [OF ok] by (metis in_set_takeD)
  then have "length (concat (map event_bytes shown)) = 12 * length shown"
    unfolding recent by (rule event_record.length_encs)
  then show ?thesis
    using handle_status_eq [OF ok assms(3), of req_id]
    unfolding recent t shown_def [symmetric] by (simp add: Let_def n)
qed

theorem status_reports_log_witness:
  "handle_status (fold audit_push [(0xFF, 1, 0, [9, 9, 9, 9])] audit_ring_init) 7 [] (replicate 4096 0) =
     Some (frame_bytes 7 0x8080 0
             [1, 0, 1, 0, 0, 0, 0, 0, 0, 0, 0, 0, 0xFF, 1, 0, 0, 9, 9, 9, 9] @ replicate 4060 0, 36)"
  using status_reports_log [of "[(0xFF, 1, 0, [9, 9, 9, 9])]" "replicate 4096 0" 7]
  by (simp add: WIRE_FRAME_MAX_def Let_def event_bytes_def audit_entry_def to_le_def upt_conv_Cons)

end
