(* ===== verification/BusDrivers.thy ===== *)
theory BusDrivers
  imports WireProto Ipc
begin

text \<open>
  The transports behind a hardware security module slot, \<^verbatim>\<open>src/src/bus.rs\<close>: the in-kernel
  software bus in its three roles (64-byte loopback, BLAKE3 hashing, AES-256-GCM sealing with a
  counter nonce), the Ring 3 process bus with its single pending response, and the enum that
  dispatches over them. Opening, closing, reading, polling and erasing are here; writing to a
  Ring 3 bus reaches back into the slot registry and is in theory \<^verbatim>\<open>WireDispatch\<close>.
\<close>

subsection \<open>Data\<close>

definition MAX_BUS_INIT_BLOB :: nat where "MAX_BUS_INIT_BLOB = 32"
definition SW_BUS_BUF :: nat where "SW_BUS_BUF = 64"

datatype BusError =
  NotImplemented | NotOpen | AlreadyOpen | WireNotReady | BadInit | BufferTooSmall | Closed | Internal

record BusReady =
  readable :: bool
  writable :: bool
  closed :: bool

datatype SoftHsmRole = Echo | Blake3 | AesGcm

record SoftHsmAesGcmState =
  aes_key :: bytes
  nonce_counter :: u64

record SoftwareBus =
  ring :: bytes
  write_len :: nat
  read_pos :: nat
  sw_open_state :: bool
  role :: SoftHsmRole
  aes_state :: "SoftHsmAesGcmState option"

definition sw_new :: SoftwareBus where
  "sw_new = \<lparr>ring = replicate SW_BUS_BUF 0, write_len = 0, read_pos = 0, sw_open_state = False,
     role = Echo, aes_state = None\<rparr>"

record Ring3ProcessBus =
  endpoint :: EndpointId
  r3_open_state :: bool
  pending_response :: bytes
  response_len :: u16

definition r3_new :: Ring3ProcessBus where
  "r3_new = \<lparr>endpoint = INVALID, r3_open_state = False,
     pending_response = replicate WIRE_FRAME_MAX 0, response_len = 0\<rparr>"

datatype BusInstance =
    Empty | Software SoftwareBus | Ring3Process Ring3ProcessBus
  | Usb | Spi | Serial | SmartCard | Network

fun bus_new :: "BusKind \<Rightarrow> BusInstance" where
  "bus_new BusKind.Software = BusInstance.Software sw_new"
| "bus_new BusKind.Ring3Process = BusInstance.Ring3Process r3_new"
| "bus_new BusKind.Usb = BusInstance.Usb"
| "bus_new BusKind.Spi = BusInstance.Spi"
| "bus_new BusKind.Serial = BusInstance.Serial"
| "bus_new BusKind.SmartCard = BusInstance.SmartCard"
| "bus_new BusKind.Network = BusInstance.Network"

fun bus_kind :: "BusInstance \<Rightarrow> BusKind" where
  "bus_kind (BusInstance.Software _) = BusKind.Software"
| "bus_kind (BusInstance.Ring3Process _) = BusKind.Ring3Process"
| "bus_kind BusInstance.Empty = BusKind.Software"
| "bus_kind BusInstance.Usb = BusKind.Usb"
| "bus_kind BusInstance.Spi = BusKind.Spi"
| "bus_kind BusInstance.Serial = BusKind.Serial"
| "bus_kind BusInstance.SmartCard = BusKind.SmartCard"
| "bus_kind BusInstance.Network = BusKind.Network"

lemma bus_kind_new [simp]: "bus_kind (bus_new k) = k"
  by (cases k) simp_all

subsection \<open>The software bus\<close>

text \<open>The role octet and the reserved zero bytes of the initialisation blob.\<close>

definition sw_role_of :: "bytes \<Rightarrow> BusError + SoftHsmRole" where
  "sw_role_of init =
     (case init of
        [] \<Rightarrow> Inr Echo
      | b # _ \<Rightarrow> if b = 0 then Inr Echo else if b = 1 then Inr Blake3
                 else if b = 2 then Inr AesGcm else Inl BusError.BadInit)"

definition sw_open ::
  "('m, 'd) platform \<Rightarrow> ('m, 'd) rng_state \<Rightarrow> bytes \<Rightarrow> SoftwareBus \<Rightarrow>
     (('m, 'd) rng_state \<times> SoftwareBus \<times> (BusError + unit)) option" where
  "sw_open P r init b =
     (if sw_open_state b then Some (r, b, Inl BusError.AlreadyOpen)
      else case sw_role_of init of
        Inl e \<Rightarrow> Some (r, b, Inl e)
      | Inr ro \<Rightarrow>
          if list_ex (\<lambda>x. x \<noteq> 0) (drop 1 init) then Some (r, b, Inl BusError.BadInit)
          else do {
            (r1, st) \<leftarrow>
              (if ro = AesGcm then do {
                 (r1, key_bytes, res) \<leftarrow> rand_bytes P r (replicate 32 0);
                 Some (r1, case res of
                    Inl _ \<Rightarrow> Inl BusError.Internal
                  | Inr _ \<Rightarrow> Inr (Some \<lparr>aes_key = key_bytes, nonce_counter = 0\<rparr>)) }
               else Some (r, Inr None));
            case st of
              Inl e \<Rightarrow> Some (r1, b, Inl e)
            | Inr aes \<Rightarrow>
                Some (r1, b\<lparr>aes_state := aes, role := ro, ring := replicate SW_BUS_BUF 0,
                            write_len := 0, read_pos := 0, sw_open_state := True\<rparr>, Inr ())
          })"

definition sw_close :: "SoftwareBus \<Rightarrow> SoftwareBus \<times> (BusError + unit)" where
  "sw_close b =
     (if \<not> sw_open_state b then (b, Inl BusError.NotOpen)
      else (b\<lparr>ring := replicate SW_BUS_BUF 0, write_len := 0, read_pos := 0,
              sw_open_state := False\<rparr>, Inr ()))"

definition sw_read :: "SoftwareBus \<Rightarrow> bytes \<Rightarrow> (SoftwareBus \<times> bytes \<times> (BusError + nat)) option" where
  "sw_read b out =
     (if \<not> sw_open_state b then Some (b, out, Inl BusError.NotOpen)
      else do {
        let available = write_len b - read_pos b;
        let n = min available (length out);
        src \<leftarrow> slice (ring b) (read_pos b) (read_pos b + n);
        out \<leftarrow> copy_into out 0 n src;
        Some (b\<lparr>read_pos := read_pos b + n\<rparr>, out, Inr n)
      })"

definition sw_write_echo :: "bytes \<Rightarrow> SoftwareBus \<Rightarrow> (SoftwareBus \<times> (BusError + nat)) option" where
  "sw_write_echo data b =
     (if SW_BUS_BUF - write_len b < length data then Some (b, Inl BusError.BufferTooSmall)
      else do {
        rg \<leftarrow> copy_into (ring b) (write_len b) (write_len b + length data) data;
        Some (b\<lparr>ring := rg, write_len := write_len b + length data\<rparr>, Inr (length data))
      })"

definition sw_write_blake3 ::
  "('m, 'd) platform \<Rightarrow> bytes \<Rightarrow> SoftwareBus \<Rightarrow> (SoftwareBus \<times> (BusError + nat)) option" where
  "sw_write_blake3 P data b =
     (if SW_BUS_BUF < BLAKE3_OUT_LEN then Some (b, Inl BusError.BufferTooSmall)
      else case p_blake3 P data of
        None \<Rightarrow> Some (b, Inl BusError.Internal)
      | Some digest \<Rightarrow>
          do {
            d \<leftarrow> slice digest 0 BLAKE3_OUT_LEN;
            rg \<leftarrow> copy_into (ring b) 0 BLAKE3_OUT_LEN d;
            Some (b\<lparr>ring := rg, write_len := BLAKE3_OUT_LEN, read_pos := 0\<rparr>, Inr BLAKE3_OUT_LEN)
          })"

definition sw_write_aes ::
  "('m, 'd) platform \<Rightarrow> bytes \<Rightarrow> SoftwareBus \<Rightarrow> (SoftwareBus \<times> (BusError + nat)) option" where
  "sw_write_aes P data b =
     (case aes_state b of
        None \<Rightarrow> Some (b, Inl BusError.Internal)
      | Some st \<Rightarrow>
          if nonce_counter st = - 1 then Some (b, Inl BusError.Internal)
          else
            let total = length data + GCM_NONCE_SIZE + GCM_TAG_SIZE
            in if SW_BUS_BUF < total then Some (b, Inl BusError.BufferTooSmall)
               else do {
                 let st = st\<lparr>nonce_counter := nonce_counter st + 1\<rparr>;
                 nonce \<leftarrow> copy_into (replicate GCM_NONCE_SIZE 0) 0 8 (to_le 8 (nonce_counter st));
                 let (ct, tag) = p_aes256gcm_encrypt P (aes_key st) nonce [] data;
                 rg \<leftarrow> copy_into (ring b) GCM_NONCE_SIZE (GCM_NONCE_SIZE + length data) ct;
                 rg \<leftarrow> copy_into rg 0 GCM_NONCE_SIZE nonce;
                 rg \<leftarrow> copy_into rg (GCM_NONCE_SIZE + length data) total tag;
                 Some (b\<lparr>aes_state := Some st, ring := rg, write_len := total, read_pos := 0\<rparr>,
                       Inr total)
               })"

definition sw_write ::
  "('m, 'd) platform \<Rightarrow> bytes \<Rightarrow> SoftwareBus \<Rightarrow> (SoftwareBus \<times> (BusError + nat)) option" where
  "sw_write P data b =
     (if \<not> sw_open_state b then Some (b, Inl BusError.NotOpen)
      else case role b of
        Echo \<Rightarrow> sw_write_echo data b
      | Blake3 \<Rightarrow> sw_write_blake3 P data b
      | AesGcm \<Rightarrow> sw_write_aes P data b)"

definition sw_poll :: "SoftwareBus \<Rightarrow> BusError + BusReady" where
  "sw_poll b =
     (if \<not> sw_open_state b then Inl BusError.NotOpen
      else Inr \<lparr>readable = read_pos b < write_len b, writable = write_len b < SW_BUS_BUF,
                closed = False\<rparr>)"

definition sw_zeroize :: "SoftwareBus \<Rightarrow> SoftwareBus" where
  "sw_zeroize b =
     b\<lparr>aes_state := None, role := Echo, ring := replicate (length (ring b)) 0, write_len := 0,
       read_pos := 0, sw_open_state := False\<rparr>"

subsection \<open>The Ring 3 process bus\<close>

definition r3_open ::
  "IpcRegistry \<Rightarrow> bytes \<Rightarrow> Ring3ProcessBus \<Rightarrow> Ring3ProcessBus \<times> (BusError + unit)" where
  "r3_open reg init b =
     (if r3_open_state b then (b, Inl BusError.AlreadyOpen)
      else if length init < 2 then (b, Inl BusError.BadInit)
      else
        let ep = from_le [init ! 0, init ! 1]
        in if list_ex (\<lambda>x. x \<noteq> 0) (drop 2 init) then (b, Inl BusError.BadInit)
           else if ep = INVALID then (b, Inl BusError.BadInit)
           else if \<not> endpoint_exists reg ep then (b, Inl BusError.BadInit)
           else (b\<lparr>endpoint := ep, r3_open_state := True\<rparr>, Inr ()))"

definition r3_close :: "Ring3ProcessBus \<Rightarrow> Ring3ProcessBus \<times> (BusError + unit)" where
  "r3_close b =
     (if \<not> r3_open_state b then (b, Inl BusError.NotOpen)
      else (b\<lparr>endpoint := INVALID, r3_open_state := False\<rparr>, Inr ()))"

definition r3_read ::
  "Ring3ProcessBus \<Rightarrow> bytes \<Rightarrow> (Ring3ProcessBus \<times> bytes \<times> (BusError + nat)) option" where
  "r3_read b out =
     (if \<not> r3_open_state b then Some (b, out, Inl BusError.NotOpen)
      else if response_len b = 0 then Some (b, out, Inl BusError.WireNotReady)
      else
        let n = unat (response_len b)
        in if length out < n then Some (b, out, Inl BusError.Internal)
           else do {
             src \<leftarrow> slice (pending_response b) 0 n;
             out \<leftarrow> copy_into out 0 n src;
             Some (b\<lparr>pending_response := replicate (length (pending_response b)) 0,
                     response_len := 0\<rparr>, out, Inr n)
           })"

definition r3_poll :: "Ring3ProcessBus \<Rightarrow> BusError + BusReady" where
  "r3_poll b =
     (if \<not> r3_open_state b then Inl BusError.NotOpen
      else Inr \<lparr>readable = (response_len b \<noteq> 0), writable = (response_len b = 0), closed = False\<rparr>)"

definition r3_zeroize :: "Ring3ProcessBus \<Rightarrow> Ring3ProcessBus" where
  "r3_zeroize b =
     b\<lparr>pending_response := replicate (length (pending_response b)) 0, response_len := 0,
       endpoint := INVALID, r3_open_state := False\<rparr>"

subsection \<open>Dispatch over the variants\<close>

definition bus_open ::
  "('m, 'd) platform \<Rightarrow> ('m, 'd) rng_state \<Rightarrow> IpcRegistry \<Rightarrow> bytes \<Rightarrow> BusInstance \<Rightarrow>
     (('m, 'd) rng_state \<times> BusInstance \<times> (BusError + unit)) option" where
  "bus_open P r reg init b =
     (case b of
        BusInstance.Software s \<Rightarrow>
          do { (r1, s1, res) \<leftarrow> sw_open P r init s; Some (r1, BusInstance.Software s1, res) }
      | BusInstance.Ring3Process q \<Rightarrow>
          (case r3_open reg init q of (q1, res) \<Rightarrow> Some (r, BusInstance.Ring3Process q1, res))
      | BusInstance.Empty \<Rightarrow> Some (r, b, Inl BusError.NotOpen)
      | _ \<Rightarrow> Some (r, b, Inl BusError.NotImplemented))"

definition bus_close :: "BusInstance \<Rightarrow> BusInstance \<times> (BusError + unit)" where
  "bus_close b =
     (case b of
        BusInstance.Software s \<Rightarrow> (case sw_close s of (s1, res) \<Rightarrow> (BusInstance.Software s1, res))
      | BusInstance.Ring3Process q \<Rightarrow>
          (case r3_close q of (q1, res) \<Rightarrow> (BusInstance.Ring3Process q1, res))
      | BusInstance.Empty \<Rightarrow> (b, Inl BusError.NotOpen)
      | _ \<Rightarrow> (b, Inl BusError.NotImplemented))"

definition bus_read ::
  "BusInstance \<Rightarrow> bytes \<Rightarrow> (BusInstance \<times> bytes \<times> (BusError + nat)) option" where
  "bus_read b out =
     (case b of
        BusInstance.Software s \<Rightarrow>
          do { (s1, o1, res) \<leftarrow> sw_read s out; Some (BusInstance.Software s1, o1, res) }
      | BusInstance.Ring3Process q \<Rightarrow>
          do { (q1, o1, res) \<leftarrow> r3_read q out; Some (BusInstance.Ring3Process q1, o1, res) }
      | BusInstance.Empty \<Rightarrow> Some (b, out, Inl BusError.NotOpen)
      | _ \<Rightarrow> Some (b, out, Inl BusError.NotImplemented))"

definition bus_poll :: "BusInstance \<Rightarrow> BusError + BusReady" where
  "bus_poll b =
     (case b of
        BusInstance.Software s \<Rightarrow> sw_poll s
      | BusInstance.Ring3Process q \<Rightarrow> r3_poll q
      | BusInstance.Empty \<Rightarrow> Inl BusError.NotOpen
      | _ \<Rightarrow> Inl BusError.NotImplemented)"

text \<open>Erasing a bus erases the payload of its variant (\<open>sw_zeroize\<close>, \<open>r3_zeroize\<close>) and then
  overwrites the whole value with the empty variant, so that nothing of the payload remains.\<close>

definition bus_zeroize :: "BusInstance \<Rightarrow> BusInstance" where
  "bus_zeroize b = BusInstance.Empty"

subsection \<open>Invariants\<close>

definition sw_ok :: "SoftwareBus \<Rightarrow> bool" where
  "sw_ok b \<longleftrightarrow>
     length (ring b) = SW_BUS_BUF \<and> read_pos b \<le> write_len b \<and> write_len b \<le> SW_BUS_BUF \<and>
     (sw_open_state b \<longrightarrow> (role b = AesGcm \<longleftrightarrow> aes_state b \<noteq> None)) \<and>
     (\<forall>st. aes_state b = Some st \<longrightarrow> length (aes_key st) = 32)"

definition r3_ok :: "Ring3ProcessBus \<Rightarrow> bool" where
  "r3_ok b \<longleftrightarrow> length (pending_response b) = WIRE_FRAME_MAX \<and> unat (response_len b) \<le> WIRE_FRAME_MAX"

definition bus_ok :: "BusInstance \<Rightarrow> bool" where
  "bus_ok b \<longleftrightarrow> (case b of BusInstance.Software s \<Rightarrow> sw_ok s
     | BusInstance.Ring3Process q \<Rightarrow> r3_ok q | _ \<Rightarrow> True)"

lemma bus_ok_simps [simp]:
  "bus_ok (BusInstance.Software s) = sw_ok s" "bus_ok (BusInstance.Ring3Process q) = r3_ok q"
  "bus_ok BusInstance.Empty" "bus_ok BusInstance.Usb" "bus_ok BusInstance.Spi"
  "bus_ok BusInstance.Serial" "bus_ok BusInstance.SmartCard" "bus_ok BusInstance.Network"
  by (simp_all add: bus_ok_def)

lemma bus_ok_new [simp]: "bus_ok (bus_new k)"
  by (cases k) (simp_all add: sw_ok_def sw_new_def r3_ok_def r3_new_def)

lemma sw_open_ok:
  assumes "platform_ok P" "sw_ok b" "sw_open P r init b = Some (r', b', res)"
  shows "sw_ok b'"
proof (cases "rand_bytes P r (replicate 32 0)")
  case None
  then show ?thesis
    using assms(2,3) by (auto simp: sw_open_def sw_ok_def split: if_splits sum.splits)
next
  case (Some x)
  obtain r1 key res1 where x: "x = (r1, key, res1)" by (cases x) auto
  have "length key = 32" using rand_bytes_length [OF assms(1)] Some x by fastforce
  then show ?thesis
    using assms(2,3) Some x by (auto simp: sw_open_def sw_ok_def split: if_splits sum.splits)
qed

lemma sw_close_ok: "sw_ok b \<Longrightarrow> sw_close b = (b', res) \<Longrightarrow> sw_ok b'"
  by (auto simp: sw_close_def sw_ok_def split: if_splits)

lemma sw_read_eq:
  assumes "sw_ok b" "sw_open_state b"
  shows "sw_read b out =
     (let n = min (write_len b - read_pos b) (length out)
      in Some (b\<lparr>read_pos := read_pos b + n\<rparr>,
               take n (drop (read_pos b) (ring b)) @ drop n out, Inr n))"
proof -
  define n where "n = min (write_len b - read_pos b) (length out)"
  have "n \<le> length out" "read_pos b + n \<le> length (ring b)"
    using assms(1) by (auto simp: n_def sw_ok_def)
  then show ?thesis using assms(2) by (simp add: sw_read_def Let_def n_def [symmetric])
qed

lemma sw_read_ok:
  assumes "sw_ok b"
  shows "\<exists>b' out' res. sw_read b out = Some (b', out', res) \<and> sw_ok b' \<and> length out' = length out"
proof (cases "sw_open_state b")
  case True
  then show ?thesis using assms by (auto simp: sw_read_eq Let_def) (auto simp: sw_ok_def)
qed (simp add: sw_read_def assms)

lemma sw_write_echo_ok:
  assumes "sw_ok b"
  shows "\<exists>b' res. sw_write_echo data b = Some (b', res) \<and> sw_ok b'"
  using assms by (auto simp: sw_write_echo_def sw_ok_def)

lemma sw_write_blake3_ok:
  assumes "sw_ok b" "platform_ok P"
  shows "\<exists>b' res. sw_write_blake3 P data b = Some (b', res) \<and> sw_ok b'"
  using assms platform_blake3 [OF assms(2), of data]
  by (auto simp: sw_write_blake3_def sw_ok_def crate_sizes SW_BUS_BUF_def split: option.splits)

lemma sw_write_aes_eq:
  assumes "sw_ok b" "platform_ok P" "aes_state b = Some st" "nonce_counter st \<noteq> - 1"
    and "length data + 28 \<le> 64"
  shows "sw_write_aes P data b =
     (let st1 = st\<lparr>nonce_counter := nonce_counter st + 1\<rparr>;
          nonce = to_le 8 (nonce_counter st1) @ replicate 4 0;
          (ct, tag) = p_aes256gcm_encrypt P (aes_key st) nonce [] data
      in Some (b\<lparr>aes_state := Some st1, ring := nonce @ ct @ tag @ drop (length data + 28) (ring b),
                 write_len := length data + 28, read_pos := 0\<rparr>, Inr (length data + 28)))"
proof -
  let ?n = "to_le 8 (nonce_counter st + 1) @ replicate 4 (0 :: u8)"
  obtain ct tag where e: "p_aes256gcm_encrypt P (aes_key st) ?n [] data = (ct, tag)"
    by (cases "p_aes256gcm_encrypt P (aes_key st) ?n [] data")
  have "length ct = length data" "length tag = 16" using platform_gcm [OF assms(2) e] by auto
  moreover have "length (ring b) = 64" using assms(1) by (simp add: sw_ok_def SW_BUS_BUF_def)
  ultimately show ?thesis
    using assms(3-5) e
    by (simp add: sw_write_aes_def Let_def crate_sizes SW_BUS_BUF_def add.commute)
qed

lemma sw_write_aes_ok:
  assumes "sw_ok b" "platform_ok P" "sw_open_state b" "role b = AesGcm"
  shows "\<exists>b' res. sw_write_aes P data b = Some (b', res) \<and> sw_ok b'"
proof -
  obtain st where st: "aes_state b = Some st" using assms by (auto simp: sw_ok_def)
  show ?thesis
  proof (cases "nonce_counter st = - 1 \<or> 64 < length data + 28")
    case True
    then show ?thesis using assms st
      by (auto simp: sw_write_aes_def Let_def crate_sizes SW_BUS_BUF_def)
  next
    case False
    then show ?thesis
      using assms st sw_write_aes_eq [of b P st data]
        platform_gcm [OF assms(2), of "aes_key st" _ "[]" data]
      by (auto simp: Let_def sw_ok_def SW_BUS_BUF_def split: prod.splits)
  qed
qed

lemma sw_write_ok:
  assumes "sw_ok b" "platform_ok P"
  shows "\<exists>b' res. sw_write P data b = Some (b', res) \<and> sw_ok b'"
  using sw_write_echo_ok [OF assms(1)] sw_write_blake3_ok [OF assms] sw_write_aes_ok [OF assms] assms
  by (cases "role b") (auto simp: sw_write_def)

lemma r3_ops_ok:
  "r3_ok b \<Longrightarrow> r3_ok (fst (r3_open reg init b))"
  "r3_ok b \<Longrightarrow> r3_ok (fst (r3_close b))"
  by (simp_all add: r3_open_def r3_close_def r3_ok_def Let_def)

lemma r3_read_ok:
  assumes "r3_ok b"
  shows "\<exists>b' out' res. r3_read b out = Some (b', out', res) \<and> r3_ok b' \<and> length out' = length out"
  using assms by (auto simp: r3_read_def r3_ok_def Let_def)

lemma bus_open_ok:
  assumes "platform_ok P" "bus_ok b" "bus_open P r reg init b = Some (r', b', res)"
  shows "bus_ok b'"
  using assms sw_open_ok [OF assms(1)] r3_ops_ok(1) [of _ reg init]
  by (auto simp: bus_open_def split: BusInstance.splits Option.bind_splits prod.splits) (metis fst_conv)

lemma bus_read_ok:
  assumes "bus_ok b"
  shows "\<exists>b' out' res. bus_read b out = Some (b', out', res) \<and> bus_ok b' \<and> length out' = length out"
proof (cases b)
  case (Software s)
  then show ?thesis using sw_read_ok [of s out] assms by (auto simp: bus_read_def)
next
  case (Ring3Process q)
  then show ?thesis using r3_read_ok [of q out] assms by (auto simp: bus_read_def)
qed (simp_all add: bus_read_def)

subsection \<open>A pipe with a lifetime budget\<close>

text \<open>
  The contract of the loopback role: bytes come out in the order in which they went in, none lost
  and none twice; what can be put over the whole life of the pipe is bounded by its room, since
  reading does not give room back.
\<close>

datatype pipe_op = PutOp bytes | GetOp nat

locale byte_pipe =
  fixes inv :: "'s \<Rightarrow> bool"
    and queue :: "'s \<Rightarrow> bytes"
    and room :: "'s \<Rightarrow> nat"
    and put :: "bytes \<Rightarrow> 's \<Rightarrow> 's option"
    and get :: "nat \<Rightarrow> 's \<Rightarrow> 's \<times> bytes"
  assumes put_fits: "inv s \<Longrightarrow> length d \<le> room s \<Longrightarrow>
      \<exists>s'. put d s = Some s' \<and> inv s' \<and> queue s' = queue s @ d \<and> room s' = room s - length d"
    and put_full: "inv s \<Longrightarrow> room s < length d \<Longrightarrow> put d s = None"
    and get_takes: "inv s \<Longrightarrow> get n s = (s', bs) \<Longrightarrow>
      inv s' \<and> bs = take n (queue s) \<and> queue s' = drop n (queue s) \<and> room s' = room s"
begin

fun pipe_run :: "pipe_op list \<Rightarrow> 's \<Rightarrow> 's \<times> bytes \<times> bytes" where
  "pipe_run [] s = (s, [], [])"
| "pipe_run (PutOp d # ops) s =
     (case put d s of
        None \<Rightarrow> pipe_run ops s
      | Some s1 \<Rightarrow> (case pipe_run ops s1 of (s2, acc, del) \<Rightarrow> (s2, d @ acc, del)))"
| "pipe_run (GetOp n # ops) s =
     (case get n s of (s1, bs) \<Rightarrow>
        (case pipe_run ops s1 of (s2, acc, del) \<Rightarrow> (s2, acc, bs @ del)))"

lemma pipe_fifo:
  "inv s \<Longrightarrow> pipe_run ops s = (s', acc, del) \<Longrightarrow>
     inv s' \<and> queue s @ acc = del @ queue s' \<and> length acc + room s' = room s"
proof (induction ops s arbitrary: s' acc del rule: pipe_run.induct)
  case (2 d ops s)
  show ?case
  proof (cases "length d \<le> room s")
    case True
    then obtain s1 where s1: "put d s = Some s1" "inv s1" "queue s1 = queue s @ d"
      "room s1 = room s - length d" using put_fits 2(3) by blast
    obtain acc1 where "pipe_run ops s1 = (s', acc1, del)" "acc = d @ acc1"
      using 2(4) s1(1) by (auto split: prod.splits)
    then show ?thesis using 2(2) [OF s1(1,2)] s1 True by auto
  next
    case False
    then show ?thesis using put_full [of s d] 2 by simp
  qed
next
  case (3 n ops s)
  obtain s1 bs where g: "get n s = (s1, bs)" by (cases "get n s")
  then obtain del1 where "pipe_run ops s1 = (s', acc, del1)" "del = bs @ del1"
    using 3(3) by (auto split: prod.splits)
  moreover note get_takes [OF 3(2) g]
  ultimately show ?case using 3(1) [OF g [symmetric]]
    by auto (metis append.assoc append_take_drop_id)
qed simp

end

text \<open>The loopback bus provides the contract.\<close>

definition echo_inv :: "SoftwareBus \<Rightarrow> bool" where
  "echo_inv b \<longleftrightarrow> sw_ok b \<and> sw_open_state b \<and> role b = Echo"

definition echo_queue :: "SoftwareBus \<Rightarrow> bytes" where
  "echo_queue b = take (write_len b - read_pos b) (drop (read_pos b) (ring b))"

definition echo_room :: "SoftwareBus \<Rightarrow> nat" where
  "echo_room b = SW_BUS_BUF - write_len b"

definition echo_put :: "bytes \<Rightarrow> SoftwareBus \<Rightarrow> SoftwareBus option" where
  "echo_put d b = (case sw_write_echo d b of Some (b1, Inr _) \<Rightarrow> Some b1 | _ \<Rightarrow> None)"

definition echo_get :: "nat \<Rightarrow> SoftwareBus \<Rightarrow> SoftwareBus \<times> bytes" where
  "echo_get n b =
     (case sw_read b (replicate n 0) of Some (b1, out, Inr k) \<Rightarrow> (b1, take k out) | _ \<Rightarrow> (b, []))"

lemma echo_role_write: "echo_inv b \<Longrightarrow> sw_write P d b = sw_write_echo d b"
  by (simp add: echo_inv_def sw_write_def)

lemma echo_write_eq:
  assumes "echo_inv b"
  shows "sw_write_echo d b =
     (if length d \<le> echo_room b
      then Some (b\<lparr>ring := take (write_len b) (ring b) @ d @ drop (write_len b + length d) (ring b),
                   write_len := write_len b + length d\<rparr>, Inr (length d))
      else Some (b, Inl BusError.BufferTooSmall))"
  using assms
  by (auto simp: echo_inv_def sw_ok_def sw_write_echo_def echo_room_def)

lemma echo_put_fits:
  assumes "echo_inv b" "length d \<le> echo_room b"
  shows "\<exists>b'. echo_put d b = Some b' \<and> echo_inv b' \<and> echo_queue b' = echo_queue b @ d \<and>
           echo_room b' = echo_room b - length d"
  using assms
  by (auto simp: echo_put_def echo_write_eq) 
     (auto simp: echo_inv_def sw_ok_def echo_room_def echo_queue_def drop_take)

lemma echo_get_takes:
  assumes "echo_inv b" "echo_get n b = (b', bs)"
  shows "echo_inv b' \<and> bs = take n (echo_queue b) \<and> echo_queue b' = drop n (echo_queue b) \<and>
         echo_room b' = echo_room b"
  using assms
  by (auto simp: echo_get_def echo_inv_def sw_read_eq Let_def)
     (auto simp: sw_ok_def echo_room_def echo_queue_def min_def drop_take add.commute)

interpretation echo: byte_pipe echo_inv echo_queue echo_room echo_put echo_get
  using echo_put_fits echo_get_takes
  by unfold_locales (auto simp: echo_put_def echo_write_eq)

text \<open>A session of writes and reads on a bus: what was accepted, and what was delivered.\<close>

fun sw_session ::
  "('m, 'd) platform \<Rightarrow> pipe_op list \<Rightarrow> SoftwareBus \<Rightarrow> (SoftwareBus \<times> bytes \<times> bytes) option" where
  "sw_session P [] b = Some (b, [], [])"
| "sw_session P (PutOp d # ops) b =
     do {
       (b1, r) \<leftarrow> sw_write P d b;
       (b2, acc, del) \<leftarrow> sw_session P ops b1;
       Some (b2, (case r of Inr _ \<Rightarrow> d | Inl _ \<Rightarrow> []) @ acc, del)
     }"
| "sw_session P (GetOp n # ops) b =
     do {
       (b1, out, r) \<leftarrow> sw_read b (replicate n 0);
       (b2, acc, del) \<leftarrow> sw_session P ops b1;
       Some (b2, acc, (case r of Inr k \<Rightarrow> take k out | Inl _ \<Rightarrow> []) @ del)
     }"

lemma echo_get_eq:
  "echo_inv b \<Longrightarrow> \<exists>b1 out k. sw_read b (replicate n 0) = Some (b1, out, Inr k) \<and>
     echo_get n b = (b1, take k out)"
  by (auto simp: echo_get_def echo_inv_def sw_read_eq Let_def)

lemma sw_session_pipe:
  "echo_inv b \<Longrightarrow> sw_session P ops b = Some (echo.pipe_run ops b)"
proof (induction ops arbitrary: b)
  case (Cons oper ops)
  show ?case
  proof (cases oper)
    case (PutOp d)
    show ?thesis
    proof (cases "length d \<le> echo_room b")
      case True
      obtain b1 where b1: "echo_put d b = Some b1" "echo_inv b1"
        using echo_put_fits [OF Cons.prems True] by blast
      moreover have "sw_write P d b = Some (b1, Inr (length d))"
        using b1(1) True Cons.prems by (simp add: echo_put_def echo_write_eq echo_role_write)
      ultimately show ?thesis using PutOp Cons.IH [OF b1(2)] by (auto split: prod.splits)
    next
      case False
      then have "echo_put d b = None" "sw_write P d b = Some (b, Inl BusError.BufferTooSmall)"
        using Cons.prems by (simp_all add: echo_put_def echo_write_eq echo_role_write)
      then show ?thesis using PutOp Cons by (auto split: prod.splits)
    qed
  next
    case (GetOp n)
    obtain b1 out k where g: "sw_read b (replicate n 0) = Some (b1, out, Inr k)"
      "echo_get n b = (b1, take k out)" using echo_get_eq [OF Cons.prems] by blast
    then show ?thesis using GetOp Cons.IH [of b1] echo_get_takes [OF Cons.prems g(2)]
      by (auto split: prod.splits)
  qed
qed simp

text \<open>On a freshly opened loopback bus no session of writes and reads panics, what is delivered is
  a prefix of what was accepted, the undelivered rest is what the bus still holds, and over its
  life the bus accepts at most 64 bytes.\<close>

theorem echo_bus_is_fifo:
  assumes "sw_open P r init b0 = Some (r', b, Inr ())" "sw_role_of init = Inr Echo"
    and "sw_ok b0" "platform_ok P"
  shows "\<exists>b' acc del. sw_session P ops b = Some (b', acc, del) \<and> acc = del @ echo_queue b' \<and>
           length acc \<le> SW_BUS_BUF"
proof -
  have "echo_inv b" "write_len b = 0"
    using assms sw_open_ok [OF assms(4,3,1)]
    by (auto simp: sw_open_def echo_inv_def split: if_splits)
  moreover obtain b' acc del where run: "echo.pipe_run ops b = (b', acc, del)"
    by (metis prod_cases3)
  ultimately show ?thesis
    using echo.pipe_fifo [OF _ run] sw_session_pipe [of b P ops]
    by (auto simp: echo_queue_def echo_room_def)
qed

theorem echo_bus_is_fifo_witness:
  "\<exists>b. sw_open demo_platform \<lparr>ent = demo_entropy, cap_drbg = None\<rparr> [] sw_new
         = Some (\<lparr>ent = demo_entropy, cap_drbg = None\<rparr>, b, Inr ()) \<and>
     (\<exists>b' acc del. sw_session demo_platform [PutOp [1, 2, 3], GetOp 2, PutOp [4], GetOp 9] b
         = Some (b', acc, del) \<and> acc = del @ echo_queue b' \<and> length acc \<le> SW_BUS_BUF)"
proof -
  let ?r = "\<lparr>ent = demo_entropy, cap_drbg = None\<rparr>"
  let ?b = "sw_new\<lparr>sw_open_state := True\<rparr>"
  have o: "sw_open demo_platform ?r [] sw_new = Some (?r, ?b, Inr ())"
    by (simp add: sw_open_def sw_role_of_def sw_new_def)
  have "sw_ok sw_new" by (simp add: sw_ok_def sw_new_def)
  then show ?thesis
    using o echo_bus_is_fifo [OF o _ _ demo_platform_ok,
        of "[PutOp [1, 2, 3], GetOp 2, PutOp [4], GetOp 9]"] by (auto simp only: sw_role_of_def list.case)
qed

subsection \<open>The sealing role\<close>

text \<open>
  The frames a run of writes seals: for each accepted write the bytes it leaves in the ring,
  nonce, ciphertext and tag.
\<close>

fun seal_run :: "('m, 'd) platform \<Rightarrow> bytes list \<Rightarrow> SoftwareBus \<Rightarrow> bytes list option" where
  "seal_run P [] b = Some []"
| "seal_run P (d # ds) b =
     do {
       (b1, r) \<leftarrow> sw_write P d b;
       fs \<leftarrow> seal_run P ds b1;
       Some (case r of Inr n \<Rightarrow> take n (ring b1) # fs | Inl _ \<Rightarrow> fs)
     }"

definition seal_inv :: "SoftwareBus \<Rightarrow> SoftHsmAesGcmState \<Rightarrow> bool" where
  "seal_inv b st \<longleftrightarrow> sw_ok b \<and> sw_open_state b \<and> role b = AesGcm \<and> aes_state b = Some st"

lemma seal_step:
  assumes "seal_inv b st" "platform_ok P"
  shows "(\<exists>e. sw_write P d b = Some (b, Inl e)) \<or>
     (\<exists>b1 n f. sw_write P d b = Some (b1, Inr n) \<and>
        seal_inv b1 (st\<lparr>nonce_counter := nonce_counter st + 1\<rparr>) \<and>
        unat (nonce_counter st + 1) = Suc (unat (nonce_counter st)) \<and>
        take n (ring b1) = to_le 8 (nonce_counter st + 1) @ replicate 4 0 @ f)"
proof (cases "nonce_counter st = - 1 \<or> 64 < length d + 28")
  case True
  then show ?thesis using assms(1)
    by (auto simp: seal_inv_def sw_write_def sw_write_aes_def Let_def crate_sizes SW_BUS_BUF_def)
next
  case False
  let ?n = "to_le 8 (nonce_counter st + 1) @ replicate 4 (0 :: u8)"
  obtain ct tag where e: "p_aes256gcm_encrypt P (aes_key st) ?n [] d = (ct, tag)"
    by (cases "p_aes256gcm_encrypt P (aes_key st) ?n [] d")
  have len: "length ct = length d" "length tag = 16" using platform_gcm [OF assms(2) e] by auto
  obtain b1 r where w: "sw_write P d b = Some (b1, r)" "sw_ok b1"
    using sw_write_ok [of b P d] assms by (auto simp: seal_inv_def)
  have eq: "sw_write P d b =
     Some (b\<lparr>aes_state := Some (st\<lparr>nonce_counter := nonce_counter st + 1\<rparr>),
             ring := ?n @ ct @ tag @ drop (length d + 28) (ring b),
             write_len := length d + 28, read_pos := 0\<rparr>, Inr (length d + 28))"
    using assms False sw_write_aes_eq [of b P st d] e
    by (simp add: seal_inv_def sw_write_def Let_def not_less)
  show ?thesis
    using eq w assms(1) False len unat_succ_no_wrap [of "nonce_counter st"]
    by (auto simp: seal_inv_def)
qed

lemma seal_run_nonces:
  assumes "seal_inv b st" "platform_ok P"
  shows "\<exists>fs. seal_run P ds b = Some fs \<and> distinct (map (take 12) fs) \<and>
     (\<forall>f \<in> set fs. \<exists>c :: u64. unat (nonce_counter st) < unat c \<and>
        take 12 f = to_le 8 c @ replicate 4 0)"
  using assms(1)
proof (induction ds arbitrary: b st)
  case (Cons d ds)
  from seal_step [OF Cons.prems assms(2), of d] show ?case
  proof (elim disjE exE conjE)
    fix e assume "sw_write P d b = Some (b, Inl e)"
    then show ?thesis using Cons by auto
  next
    let ?st = "st\<lparr>nonce_counter := nonce_counter st + 1\<rparr>"
    fix b1 n f
    assume w: "sw_write P d b = Some (b1, Inr n)" "seal_inv b1 ?st"
      and c: "unat (nonce_counter st + 1) = Suc (unat (nonce_counter st))"
      and f: "take n (ring b1) = to_le 8 (nonce_counter st + 1) @ replicate 4 0 @ f"
    obtain fs where fs: "seal_run P ds b1 = Some fs" "distinct (map (take 12) fs)"
      and later: "\<forall>g \<in> set fs. \<exists>c' :: u64. Suc (unat (nonce_counter st)) < unat c' \<and>
          take 12 g = to_le 8 c' @ replicate 4 0"
      using Cons.IH [OF w(2)] c by auto
    let ?f = "take n (ring b1)"
    have t: "take 12 ?f = to_le 8 (nonce_counter st + 1) @ replicate 4 0" by (simp only: f) simp
    have "take 12 ?f \<notin> set (map (take 12) fs)"
    proof
      assume "take 12 ?f \<in> set (map (take 12) fs)"
      then obtain c' :: u64 where "Suc (unat (nonce_counter st)) < unat c'"
        "to_le 8 (nonce_counter st + 1) = to_le 8 c'" using later t by auto
      then show False using c to_le_inject_64 [of "nonce_counter st + 1" c'] by simp
    qed
    moreover have "\<forall>g \<in> set (?f # fs). \<exists>c' :: u64. unat (nonce_counter st) < unat c' \<and>
        take 12 g = to_le 8 c' @ replicate 4 0"
      using later t c by (metis Suc_lessD lessI set_ConsD)
    ultimately show ?thesis using w fs by auto
  qed
qed simp



end
