(* ===== verification/Attest.thy ===== *)
theory Attest
  imports WireProto Capability
begin

text \<open>
  The attestation verifier of \<^verbatim>\<open>src/src/hsm_attest.rs\<close>: the trust root and the boot challenge
  set up once at boot, the check of an ML-DSA-44 attestation over the device key, the transport and
  the challenge, and the key fingerprint that goes into the audit log. The embedded trust root
  (the bytes of \<^verbatim>\<open>keys/trust_root.pk44\<close>) is the argument \<open>pk_const\<close>.
\<close>

definition ATTEST_BUF_MAX :: nat where "ATTEST_BUF_MAX = 4096"

datatype AttestError = AttestFailed

record attest_state =
  active_trust_root_pk :: bytes
  boot_challenge :: bytes
  attest_buf :: bytes

definition attest_init :: attest_state where
  "attest_init = \<lparr>active_trust_root_pk = replicate MLDSA44_PK_LEN 0,
     boot_challenge = replicate 32 0, attest_buf = replicate ATTEST_BUF_MAX 0\<rparr>"

text \<open>The bytes of \<open>ISO-K0-ENROLL-V1\<close>, the domain separator of the signature.\<close>

definition ENROLL_CTX :: bytes where
  "ENROLL_CTX = map (of_nat \<circ> of_char) ''ISO-K0-ENROLL-V1''"

definition verify_attest ::
  "('m, 'd) platform \<Rightarrow> attest_state \<Rightarrow> bytes \<Rightarrow> BusKind \<Rightarrow> bytes \<Rightarrow> (AttestError + unit) option" where
  "verify_attest P at hsm_pk bus_kind sig =
     do {
       pre \<leftarrow> copy_into (replicate (MLDSA44_PK_LEN + 1 + 32) 0) 0 MLDSA44_PK_LEN hsm_pk;
       pre \<leftarrow> index_set pre MLDSA44_PK_LEN (bus_kind_octet bus_kind);
       pre \<leftarrow> copy_into pre (MLDSA44_PK_LEN + 1) (MLDSA44_PK_LEN + 1 + 32) (boot_challenge at);
       case p_blake3 P pre of
         None \<Rightarrow> Some (Inl AttestFailed)
       | Some d \<Rightarrow>
           do {
             digest \<leftarrow> slice d 0 32;
             Some (case p_mldsa44_verify P (active_trust_root_pk at) digest sig ENROLL_CTX of
                     Some True \<Rightarrow> Inr ()
                   | Some False \<Rightarrow> Inl AttestFailed
                   | None \<Rightarrow> Inl AttestFailed)
           }
     }"

definition pk_hash_prefix :: "('m, 'd) platform \<Rightarrow> bytes \<Rightarrow> bytes option" where
  "pk_hash_prefix P pk =
     (case p_blake3 P pk of None \<Rightarrow> Some [0, 0, 0, 0] | Some d \<Rightarrow> slice d 0 4)"

text \<open>
  Boot. \<open>keystore\<close> is \<open>None\<close> in a build without \<open>k0_trust_root_keystore\<close>; with it,
  the content of the trust root slot of the keystore. A failing DRBG stops the boot.
\<close>

fun fill_challenge ::
  "('m, 'd) platform \<Rightarrow> nat \<Rightarrow> nat \<Rightarrow> ('m, 'd) rng_state \<Rightarrow> bytes \<Rightarrow> (('m, 'd) rng_state \<times> bytes) option"
where
  "fill_challenge P i 0 r challenge = Some (r, challenge)"
| "fill_challenge P i (Suc n) r challenge =
     do {
       (r1, t) \<leftarrow> gen_token_u64 P r;
       case t of
         Inl _ \<Rightarrow> None
       | Inr tok \<Rightarrow>
           do {
             c \<leftarrow> copy_into challenge (i * 8) ((i + 1) * 8) (to_be 8 tok);
             fill_challenge P (i + 1) n r1 c
           }
     }"

definition rng_audit :: "u8 \<Rightarrow> u8 \<Rightarrow> u8 \<Rightarrow> bytes \<Rightarrow> ('m, 'd) rng_state \<Rightarrow> ('m, 'd) rng_state" where
  "rng_audit slot res kind pre r =
     r\<lparr>ent := (ent r)\<lparr>audit := audit_enqueue slot res kind pre (audit (ent r))\<rparr>\<rparr>"

definition init_trust_root ::
  "('m, 'd) platform \<Rightarrow> bytes \<Rightarrow> bytes option option \<Rightarrow> ('m, 'd) rng_state \<Rightarrow> attest_state \<Rightarrow>
     (('m, 'd) rng_state \<times> attest_state) option" where
  "init_trust_root P pk_const keystore r at =
     do {
       let (r1, pk_src) =
             (case keystore of
                None \<Rightarrow> (r, pk_const)
              | Some (Some pk) \<Rightarrow> (r, pk)
              | Some None \<Rightarrow> (rng_audit 0xFE 8 0 [0, 0, 0, 0] r, pk_const));
       pk \<leftarrow> copy_into (active_trust_root_pk at) 0 (length (active_trust_root_pk at)) pk_src;
       (r2, challenge) \<leftarrow> fill_challenge P 0 4 r1 (replicate 32 0);
       bc \<leftarrow> copy_into (boot_challenge at) 0 (length (boot_challenge at)) challenge;
       Some (r2, at\<lparr>active_trust_root_pk := pk, boot_challenge := bc\<rparr>)
     }"

subsection \<open>What an accepted attestation is\<close>

definition attest_ok :: "attest_state \<Rightarrow> bool" where
  "attest_ok at \<longleftrightarrow> length (active_trust_root_pk at) = MLDSA44_PK_LEN \<and>
     length (boot_challenge at) = 32 \<and> length (attest_buf at) = ATTEST_BUF_MAX"

text \<open>
  The message an attestation signs, and the statement that a signature on it is accepted under the
  trust root.
\<close>

definition attest_message :: "attest_state \<Rightarrow> bytes \<Rightarrow> BusKind \<Rightarrow> bytes" where
  "attest_message at pk kind = pk @ [bus_kind_octet kind] @ boot_challenge at"

definition attested :: "('m, 'd) platform \<Rightarrow> attest_state \<Rightarrow> bytes \<Rightarrow> BusKind \<Rightarrow> bytes \<Rightarrow> bool" where
  "attested P at pk kind sig \<longleftrightarrow>
     (\<exists>d. p_blake3 P (attest_message at pk kind) = Some d \<and>
          p_mldsa44_verify P (active_trust_root_pk at) d sig ENROLL_CTX = Some True)"

lemma attest_message_inject:
  "length pk = length pk' \<Longrightarrow>
   attest_message at pk kind = attest_message at' pk' kind' \<longleftrightarrow>
     pk = pk' \<and> kind = kind' \<and> boot_challenge at = boot_challenge at'"
  by (auto simp: attest_message_def bus_kind_octet_inject)

lemma verify_attest_eq:
  assumes "attest_ok at" "platform_ok P" "length pk = MLDSA44_PK_LEN"
  shows "verify_attest P at pk kind sig =
     Some (if attested P at pk kind sig then Inr () else Inl AttestFailed)"
proof -
  have "list_update (pk @ replicate 33 0) MLDSA44_PK_LEN (bus_kind_octet kind)
      = pk @ bus_kind_octet kind # replicate 32 0"
    using assms(3) by (simp add: list_update_append replicate_numeral)
  then have "verify_attest P at pk kind sig =
     (case p_blake3 P (attest_message at pk kind) of
        None \<Rightarrow> Some (Inl AttestFailed)
      | Some d \<Rightarrow> do { digest \<leftarrow> slice d 0 32;
          Some (case p_mldsa44_verify P (active_trust_root_pk at) digest sig ENROLL_CTX of
                  Some True \<Rightarrow> Inr () | Some False \<Rightarrow> Inl AttestFailed | None \<Rightarrow> Inl AttestFailed) })"
    using assms
    by (simp add: verify_attest_def attest_message_def attest_ok_def MLDSA44_PK_LEN_def)
  then show ?thesis
    using platform_blake3 [OF assms(2), of "attest_message at pk kind"]
    by (auto simp: attested_def split: option.splits bool.splits)
qed

lemma pk_hash_prefix_total:
  assumes "platform_ok P"
  shows "\<exists>pre. pk_hash_prefix P pk = Some pre \<and> length pre = 4"
  using platform_blake3 [OF assms, of pk] by (auto simp: pk_hash_prefix_def split: option.splits)

end
