(* ===== verification/SyscallAbi.thy ===== *)
theory SyscallAbi
  imports Prelude
begin

text \<open>
  The architecture-neutral system call surface of \<^verbatim>\<open>src/src/arch/common/syscall.rs\<close>: call
  numbers, error codes and their register encoding, the register snapshot, the user address
  check, and the copies between user memory and kernel buffers that the handlers perform inside
  their \<open>stac\<close>/\<open>clac\<close> windows. The address check looks at the number only. What lies at a user
  address is up to the page tables of the process: nothing, a read-only page, a writable page, or the
  kernel's own system call stack, which \<^verbatim>\<open>map_boot_stack_identity\<close> of
  \<^verbatim>\<open>src/src/process.rs\<close> maps at its low physical address into every process.
\<close>

subsection \<open>Call numbers and errors\<close>

datatype SyscallNum =
    Exit | Write | IpcCall | IpcRecv | IpcReply | GetRandom | CapRequest
  | HsmAttach | HsmDetach | HsmEnumerate | HsmWrite | HsmRelay | HsmRead
  | AttestFixtureExport | NetworkCapTake | AuditCapTake | HsmStatus

fun syscall_num :: "SyscallNum \<Rightarrow> u64" where
  "syscall_num Exit = 0"
| "syscall_num Write = 1"
| "syscall_num IpcCall = 2"
| "syscall_num IpcRecv = 3"
| "syscall_num IpcReply = 4"
| "syscall_num GetRandom = 5"
| "syscall_num CapRequest = 6"
| "syscall_num HsmAttach = 7"
| "syscall_num HsmDetach = 8"
| "syscall_num HsmEnumerate = 9"
| "syscall_num HsmWrite = 10"
| "syscall_num HsmRelay = 11"
| "syscall_num HsmRead = 12"
| "syscall_num AttestFixtureExport = 13"
| "syscall_num NetworkCapTake = 14"
| "syscall_num AuditCapTake = 15"
| "syscall_num HsmStatus = 16"

datatype SyscallError = Unknown | BadArg | BadAddress | Denied | NoMessage | Internal

fun as_rax :: "SyscallError \<Rightarrow> u64" where
  "as_rax Unknown = - 1"
| "as_rax BadArg = - 2"
| "as_rax BadAddress = - 3"
| "as_rax Denied = - 4"
| "as_rax NoMessage = - 5"
| "as_rax Internal = - 6"

lemma as_rax_inject: "as_rax a = as_rax b \<longleftrightarrow> a = b"
  by (cases a; cases b) simp_all

lemma as_rax_not_count: "n < 2 ^ 32 \<Longrightarrow> as_rax e \<noteq> of_nat n"
proof
  assume n: "n < (2::nat) ^ 32" and eq: "as_rax e = of_nat n"
  have "unat (as_rax e) = n" using n by (simp add: eq unat_of_nat)
  moreover have "2 ^ 32 \<le> unat (as_rax e)" by (cases e) (simp_all add: unsigned_minus_1_eq_mask mask_eq_exp_minus_1)
  ultimately show False using n by simp
qed

subsection \<open>The register snapshot\<close>

record SyscallContext =
  ctx_pc :: u64
  ctx_flags :: u64
  ctx_num :: u64
  arg0 :: u64
  arg1 :: u64
  arg2 :: u64
  arg3 :: u64
  arg4 :: u64
  arg5 :: u64

subsection \<open>User addresses and user memory\<close>

definition USER_MIN :: u64 where "USER_MIN = 0x1000"
definition USER_MAX :: u64 where "USER_MAX = 0x0000800000000000"

definition is_user_address :: "u64 \<Rightarrow> bool" where
  "is_user_address va \<longleftrightarrow> USER_MIN \<le> va \<and> va < USER_MAX"

text \<open>The two-ended check every handler makes on a pointer and a length.\<close>

definition user_range_ok :: "u64 \<Rightarrow> u64 \<Rightarrow> bool" where
  "user_range_ok p len \<longleftrightarrow> is_user_address p \<and> is_user_address (sat_add p len)"

text \<open>
  The kernel copies with plain loads and stores. A load from an address that is not mapped, or a store to
  one that is not writable, is a page fault, and the page fault handler of
  \<^verbatim>\<open>src/src/arch/x86_64/idt.rs\<close> halts the machine: the copy does not return (\<open>None\<close>). A store to the
  kernel's stack succeeds; \<open>stack_hit\<close> records that it happened. From then on the kernel's frames
  hold bytes of the caller, and what it does next is no longer determined by its code.
\<close>

datatype user_page = NotMapped | ReadOnly | ReadWrite | KernelStack

record umem =
  ubyte :: "u64 \<Rightarrow> u8"
  upage :: "u64 \<Rightarrow> user_page"
  stack_hit :: bool

definition user_bytes :: "umem \<Rightarrow> u64 \<Rightarrow> nat \<Rightarrow> bytes" where
  "user_bytes m p n = map (\<lambda>i. ubyte m (p + of_nat i)) [0..<n]"

definition user_readable :: "umem \<Rightarrow> u64 \<Rightarrow> nat \<Rightarrow> bool" where
  "user_readable m p n = list_all (\<lambda>i. upage m (p + of_nat i) \<noteq> NotMapped) [0..<n]"

definition user_writable :: "umem \<Rightarrow> u64 \<Rightarrow> nat \<Rightarrow> bool" where
  "user_writable m p n = list_all (\<lambda>i. upage m (p + of_nat i) = ReadWrite \<or> upage m (p + of_nat i) = KernelStack) [0..<n]"

definition on_stack :: "umem \<Rightarrow> u64 \<Rightarrow> nat \<Rightarrow> bool" where
  "on_stack m p n = list_ex (\<lambda>i. upage m (p + of_nat i) = KernelStack) [0..<n]"

fun poke_bytes :: "(u64 \<Rightarrow> u8) \<Rightarrow> u64 \<Rightarrow> bytes \<Rightarrow> u64 \<Rightarrow> u8" where
  "poke_bytes m p [] = m"
| "poke_bytes m p (b # bs) = poke_bytes (m(p := b)) (p + 1) bs"

definition user_store :: "umem \<Rightarrow> u64 \<Rightarrow> bytes \<Rightarrow> umem" where
  "user_store m p bs = m\<lparr>ubyte := poke_bytes (ubyte m) p bs, stack_hit := stack_hit m \<or> on_stack m p (length bs)\<rparr>"

definition copy_from_user :: "umem \<Rightarrow> u64 \<Rightarrow> nat \<Rightarrow> bytes option" where
  "copy_from_user m p n = (if user_readable m p n then Some (user_bytes m p n) else None)"

definition copy_to_user :: "umem \<Rightarrow> u64 \<Rightarrow> bytes \<Rightarrow> umem option" where
  "copy_to_user m p bs = (if user_writable m p (length bs) then Some (user_store m p bs) else None)"

lemma user_bytes_length [simp]: "length (user_bytes m p n) = n"
  by (simp add: user_bytes_def)

lemma user_store_fields [simp]:
  "ubyte (user_store m p bs) = poke_bytes (ubyte m) p bs" "upage (user_store m p bs) = upage m"
  "stack_hit (user_store m p bs) \<longleftrightarrow> stack_hit m \<or> on_stack m p (length bs)"
  by (simp_all add: user_store_def)

lemma copy_from_user_Some: "copy_from_user m p n = Some bs \<longleftrightarrow> user_readable m p n \<and> bs = user_bytes m p n"
  by (auto simp: copy_from_user_def)

lemma copy_to_user_Some: "copy_to_user m p bs = Some m' \<longleftrightarrow> user_writable m p (length bs) \<and> m' = user_store m p bs"
  by (auto simp: copy_to_user_def)

lemma user_range_bounds:
  assumes "user_range_ok p len"
  shows "unat USER_MIN \<le> unat p \<and> unat p + unat len < unat USER_MAX"
proof -
  have "unat (sat_add p len) < 2 ^ 47" and "0x1000 \<le> unat p"
    using assms
    by (auto simp: user_range_ok_def is_user_address_def USER_MIN_def USER_MAX_def
        word_le_nat_alt word_less_nat_alt)
  then show ?thesis by (simp add: unat_sat_add USER_MIN_def USER_MAX_def)
qed

text \<open>An access that passed the two-ended check touches user addresses only.\<close>

lemma user_range_inside:
  assumes ok: "user_range_ok p len" and i: "i < unat len"
  shows "is_user_address (p + of_nat i)"
proof -
  have b: "0x1000 \<le> unat p" "unat p + unat len < 2 ^ 47"
    using user_range_bounds [OF ok] by (simp_all add: USER_MIN_def USER_MAX_def)
  then have "unat (p + of_nat i) = unat p + i"
    using i by (simp add: unat_word_ariths unat_of_nat)
  then show ?thesis
    using b i by (simp add: is_user_address_def USER_MIN_def USER_MAX_def word_le_nat_alt
        word_less_nat_alt)
qed

lemma poke_bytes_other:
  "(\<And>i. i < length bs \<Longrightarrow> a \<noteq> p + of_nat i) \<Longrightarrow> poke_bytes m p bs a = m a"
proof (induction bs arbitrary: m p)
  case Nil
  then show ?case by simp
next
  case (Cons b bs)
  have "a \<noteq> p" using Cons.prems [of 0] by simp
  moreover have "a \<noteq> p + 1 + of_nat i" if "i < length bs" for i
    using Cons.prems [of "Suc i"] that by (simp add: add.assoc)
  ultimately show ?case using Cons.IH [of "p + 1"] by simp
qed

lemma poke_bytes_at:
  "length bs \<le> 2 ^ 64 \<Longrightarrow> i < length bs \<Longrightarrow> poke_bytes m p bs (p + of_nat i) = bs ! i"
proof (induction bs arbitrary: m p i)
  case Nil
  then show ?case by simp
next
  case (Cons b bs)
  show ?case
  proof (cases i)
    case 0
    have "p \<noteq> p + 1 + of_nat j" if "j < length bs" for j
    proof
      assume "p = p + 1 + of_nat j"
      then have "(of_nat (Suc j) :: u64) = 0" by (simp add: add.assoc)
      then show False using that Cons.prems by (simp only: of_nat_eq_0_iff word_of_nat_eq_0_iff) (auto dest: dvd_imp_le)
    qed
    then show ?thesis using 0 poke_bytes_other [of bs p "p + 1"] by simp
  next
    case (Suc j)
    have "poke_bytes (m(p := b)) (p + 1) bs (p + 1 + of_nat j) = bs ! j"
      using Cons.IH [of j] Cons.prems Suc by simp
    then show ?thesis using Suc by (simp add: add.assoc)
  qed
qed

lemma user_store_at: "length bs \<le> 2 ^ 64 \<Longrightarrow> user_bytes (user_store m p bs) p (length bs) = bs"
  by (rule nth_equalityI) (simp_all add: user_bytes_def poke_bytes_at)

text \<open>
  The frame of a checked copy to user memory: an address outside the user half keeps its byte.
\<close>

lemma user_store_kernel_safe:
  assumes "user_range_ok p len" "length bs \<le> unat len" "\<not> is_user_address a"
  shows "ubyte (user_store m p bs) a = ubyte m a"
proof -
  have "a \<noteq> p + of_nat i" if "i < length bs" for i
    using assms user_range_inside [of p len i] that by auto
  then show ?thesis by (simp add: poke_bytes_other)
qed

lemma list_all_upt_add: "list_all Q [0..<a + b] \<longleftrightarrow> list_all Q [0..<a] \<and> list_all (\<lambda>i. Q (a + i)) [0..<b]"
proof -
  have "[0..<a + b] = [0..<a] @ map (\<lambda>i. a + i) [0..<b]" by (induction b) simp_all
  then show ?thesis by (simp add: list.pred_map comp_def)
qed

lemma user_access_append:
  "user_readable m p (a + b) \<longleftrightarrow> user_readable m p a \<and> user_readable m (p + of_nat a) b"
  "user_writable m p (a + b) \<longleftrightarrow> user_writable m p a \<and> user_writable m (p + of_nat a) b"
  by (simp_all add: user_readable_def user_writable_def list_all_upt_add add.assoc)

lemma user_bytes_append: "user_bytes m p (a + b) = user_bytes m p a @ user_bytes m (p + of_nat a) b"
proof -
  have "[0..<a + b] = [0..<a] @ map (\<lambda>i. a + i) [0..<b]" by (induction b) simp_all
  then show ?thesis by (simp add: user_bytes_def add.assoc)
qed

lemma poke_bytes_append: "poke_bytes m p (xs @ ys) = poke_bytes (poke_bytes m p xs) (p + of_nat (length xs)) ys"
  by (induction xs arbitrary: m p) (simp_all add: add.assoc)

lemma on_stack_append: "on_stack m p (a + b) \<longleftrightarrow> on_stack m p a \<or> on_stack m (p + of_nat a) b"
proof -
  have n: "on_stack m p n \<longleftrightarrow> \<not> list_all (\<lambda>i. upage m (p + of_nat i) \<noteq> KernelStack) [0..<n]" for p n
    by (auto simp: on_stack_def list_all_iff list_ex_iff)
  show ?thesis unfolding n list_all_upt_add by (simp add: add.assoc)
qed

lemma user_store_append: "user_store m p (xs @ ys) = user_store (user_store m p xs) (p + of_nat (length xs)) ys"
proof -
  have "on_stack (m\<lparr>ubyte := f, stack_hit := h\<rparr>) q n = on_stack m q n" for f h q n by (simp add: on_stack_def)
  then show ?thesis by (simp add: user_store_def poke_bytes_append on_stack_append disj_assoc)
qed

lemma user_access_cong:
  "upage m' = upage m \<Longrightarrow> user_readable m' p n = user_readable m p n"
  "upage m' = upage m \<Longrightarrow> user_writable m' p n = user_writable m p n"
  by (simp_all add: user_readable_def user_writable_def)

text \<open>
  What a system call may do to memory: nothing outside the user half, nothing to the mapping, and the
  kernel stack is written only if it is mapped at a user address.
\<close>

definition umem_frame :: "umem \<Rightarrow> umem \<Rightarrow> bool" where
  "umem_frame m m' \<longleftrightarrow> upage m' = upage m \<and> (\<forall>a. \<not> is_user_address a \<longrightarrow> ubyte m' a = ubyte m a) \<and>
     (stack_hit m \<longrightarrow> stack_hit m') \<and>
     (stack_hit m' \<longrightarrow> stack_hit m \<or> (\<exists>a. is_user_address a \<and> upage m a = KernelStack))"

lemma umem_frame_refl [simp]: "umem_frame m m"
  by (simp add: umem_frame_def)

lemma umem_frame_trans: "umem_frame a b \<Longrightarrow> umem_frame b c \<Longrightarrow> umem_frame a c"
  unfolding umem_frame_def by (elim conjE, intro conjI) auto

lemma umem_frame_store:
  assumes "user_range_ok p len" "length bs \<le> unat len"
  shows "umem_frame m (user_store m p bs)"
proof -
  have "\<exists>a. is_user_address a \<and> upage m a = KernelStack" if hit: "on_stack m p (length bs)"
  proof -
    obtain i where i: "i < length bs" "upage m (p + of_nat i) = KernelStack"
      using hit by (auto simp: on_stack_def list_ex_iff)
    then have "is_user_address (p + of_nat i)" using assms(2) by (intro user_range_inside [OF assms(1)]) simp
    then show ?thesis using i(2) by blast
  qed
  then show ?thesis using user_store_kernel_safe [OF assms] by (auto simp: umem_frame_def simp del: user_store_fields(1))
qed

lemma user_writable_readable: "user_writable m p n \<Longrightarrow> user_readable m p n"
  by (auto simp: user_writable_def user_readable_def list_all_iff)

lemma user_access_mono:
  "user_readable m p n \<Longrightarrow> n' \<le> n \<Longrightarrow> user_readable m p n'" "user_writable m p n \<Longrightarrow> n' \<le> n \<Longrightarrow> user_writable m p n'"
  by (auto simp: user_readable_def user_writable_def list_all_iff)

end
