(* ===== verification/HsmRegistry.thy ===== *)
theory HsmRegistry
  imports BusDrivers Attest SyscallAbi SignService
begin

text \<open>
  The slot registry of \<^verbatim>\<open>src/src/hsm_registry.rs\<close>: capabilities for hardware security modules and
  their 16-byte layout, the eight slots with their state machine, attaching behind the attestation
  gate, authentication, detaching, and the listing of attached slots. The record \<open>kernel\<close>
  collects the statics that the HSM system calls read and write, with the services of theory
  \<^verbatim>\<open>SignService\<close> (DRBG, entropy and audit ring, IPC endpoints, signing session), user memory and the bytes that
  user programs have printed.
\<close>

subsection \<open>Capabilities and slots\<close>

definition HSM_MAX_SLOTS :: nat where "HSM_MAX_SLOTS = 8"
definition CHAN_MAX :: nat where "CHAN_MAX = 4096"

type_synonym HsmRights = u16
type_synonym HsmSlotIdx = u8

definition HSM_NONE :: HsmRights where "HSM_NONE = 0"
definition USE :: HsmRights where "USE = push_bit 0 1"
definition ENUMERATE :: HsmRights where "ENUMERATE = push_bit 1 1"
definition REVOKE :: HsmRights where "REVOKE = push_bit 2 1"
definition RELAY_SRC :: HsmRights where "RELAY_SRC = push_bit 3 1"
definition RELAY_DST :: HsmRights where "RELAY_DST = push_bit 4 1"
definition SLOT_INVALID :: HsmSlotIdx where "SLOT_INVALID = 0xFF"

lemmas hsm_rights = HSM_NONE_def USE_def ENUMERATE_def REVOKE_def RELAY_SRC_def RELAY_DST_def

datatype HsmSlotState = Empty | Attached | Detaching

fun slot_state_octet :: "HsmSlotState \<Rightarrow> u8" where
  "slot_state_octet HsmSlotState.Empty = 0"
| "slot_state_octet Attached = 1"
| "slot_state_octet Detaching = 2"

datatype HsmCapError =
    InvalidToken | InvalidSlot | RightsMissing | Full | NotAttached | Busy | TokenGen | BadInit
  | AttestFailed

record HsmCapability =
  hcap_token :: u64
  hcap_slot :: HsmSlotIdx
  hcap_pad0 :: u8
  hcap_rights :: HsmRights
  hcap_pad :: u8
  hcap_pad1 :: bytes

definition hcap_invalid :: HsmCapability where
  "hcap_invalid = \<lparr>hcap_token = 0, hcap_slot = SLOT_INVALID, hcap_pad0 = 0, hcap_rights = HSM_NONE,
     hcap_pad = 0, hcap_pad1 = [0, 0, 0]\<rparr>"

definition hcap_is_valid_for :: "HsmCapability \<Rightarrow> HsmSlotIdx \<Rightarrow> HsmRights \<Rightarrow> bool" where
  "hcap_is_valid_for c slot required \<longleftrightarrow>
     hcap_token c \<noteq> 0 \<and> hcap_slot c = slot \<and> hcap_rights c AND required = required"

definition hcap_ct_token_eq :: "HsmCapability \<Rightarrow> HsmCapability \<Rightarrow> bool" where
  "hcap_ct_token_eq c d \<longleftrightarrow> hcap_token c = hcap_token d"

definition hcap_zeroize :: "HsmCapability \<Rightarrow> HsmCapability" where
  "hcap_zeroize c = c\<lparr>hcap_token := 0, hcap_rights := HSM_NONE, hcap_slot := SLOT_INVALID,
     hcap_pad0 := 0, hcap_pad := 0, hcap_pad1 := [0, 0, 0]\<rparr>"

text \<open>The layout of the C representation: the sixteen bytes copied to and from user memory.\<close>

definition encode_hcap :: "HsmCapability \<Rightarrow> bytes" where
  "encode_hcap c =
     to_le 8 (hcap_token c) @ [hcap_slot c, hcap_pad0 c] @ to_le 2 (hcap_rights c) @ [hcap_pad c] @
     hcap_pad1 c"

definition decode_hcap :: "bytes \<Rightarrow> HsmCapability" where
  "decode_hcap bs =
     \<lparr>hcap_token = from_le (take 8 bs), hcap_slot = bs ! 8, hcap_pad0 = bs ! 9,
      hcap_rights = from_le (take 2 (drop 10 bs)), hcap_pad = bs ! 12,
      hcap_pad1 = take 3 (drop 13 bs)\<rparr>"

lemma length_encode_hcap [simp]: "length (hcap_pad1 c) = 3 \<Longrightarrow> length (encode_hcap c) = 16"
  by (simp add: encode_hcap_def)

lemma decode_encode_hcap [simp]: "length (hcap_pad1 c) = 3 \<Longrightarrow> decode_hcap (encode_hcap c) = c"
  by (simp add: decode_hcap_def encode_hcap_def nth_append)

record HsmSlot =
  slot_state :: HsmSlotState
  slot_token :: u64
  slot_rights :: HsmRights
  slot_bus :: BusInstance
  slot_verify_code :: u8
  slot_pk_prefix :: bytes

definition slot_new :: HsmSlot where
  "slot_new = \<lparr>slot_state = HsmSlotState.Empty, slot_token = 0, slot_rights = HSM_NONE,
     slot_bus = BusInstance.Empty, slot_verify_code = 0, slot_pk_prefix = [0, 0, 0, 0]\<rparr>"

definition slot_zeroize :: "HsmSlot \<Rightarrow> HsmSlot" where
  "slot_zeroize s = s\<lparr>slot_token := 0, slot_bus := bus_zeroize (slot_bus s), slot_rights := HSM_NONE,
     slot_verify_code := 0, slot_pk_prefix := [0, 0, 0, 0], slot_state := HsmSlotState.Empty\<rparr>"

lemma slot_zeroize_new [simp]: "slot_zeroize s = slot_new"
  by (simp add: slot_zeroize_def slot_new_def bus_zeroize_def)

subsection \<open>The kernel state of the HSM calls\<close>

datatype NetCapState = Provisioned | Taken

record ('m, 'd) kernel =
  services :: "('m, 'd) service_state"
  registry :: "HsmSlot list"
  relay_buf :: bytes
  attest :: attest_state
  audit_read_cap :: HsmCapability
  audit_cap_state :: NetCapState
  network_attach_cap :: HsmCapability
  network_cap_state :: NetCapState
  umem :: umem
  console :: bytes

abbreviation krng :: "('m, 'd) kernel \<Rightarrow> ('m, 'd) rng_state" where
  "krng k \<equiv> rng (services k)"

abbreviation kaudit :: "('m, 'd) kernel \<Rightarrow> audit_ring" where
  "kaudit k \<equiv> audit (ent (krng k))"

definition set_rng :: "('m, 'd) rng_state \<Rightarrow> ('m, 'd) kernel \<Rightarrow> ('m, 'd) kernel" where
  "set_rng r k = k\<lparr>services := (services k)\<lparr>rng := r\<rparr>\<rparr>"

definition k_audit_enqueue :: "u8 \<Rightarrow> u8 \<Rightarrow> u8 \<Rightarrow> bytes \<Rightarrow> ('m, 'd) kernel \<Rightarrow> ('m, 'd) kernel" where
  "k_audit_enqueue slot res kind pre k = set_rng (rng_audit slot res kind pre (krng k)) k"

lemma set_rng_fields [simp]:
  "krng (set_rng r k) = r" "registry (set_rng r k) = registry k"
  "relay_buf (set_rng r k) = relay_buf k" "attest (set_rng r k) = attest k"
  "audit_read_cap (set_rng r k) = audit_read_cap k" "audit_cap_state (set_rng r k) = audit_cap_state k"
  "network_attach_cap (set_rng r k) = network_attach_cap k"
  "network_cap_state (set_rng r k) = network_cap_state k" "umem (set_rng r k) = umem k"
  "console (set_rng r k) = console k"
  "ipc (services (set_rng r k)) = ipc (services k)" "sign (services (set_rng r k)) = sign (services k)"
  by (simp_all add: set_rng_def)

lemma k_audit_fields [simp]:
  "registry (k_audit_enqueue s x c p k) = registry k"
  "relay_buf (k_audit_enqueue s x c p k) = relay_buf k"
  "attest (k_audit_enqueue s x c p k) = attest k"
  "audit_read_cap (k_audit_enqueue s x c p k) = audit_read_cap k"
  "audit_cap_state (k_audit_enqueue s x c p k) = audit_cap_state k"
  "network_attach_cap (k_audit_enqueue s x c p k) = network_attach_cap k"
  "network_cap_state (k_audit_enqueue s x c p k) = network_cap_state k"
  "umem (k_audit_enqueue s x c p k) = umem k" "console (k_audit_enqueue s x c p k) = console k"
  "ipc (services (k_audit_enqueue s x c p k)) = ipc (services k)"
  "sign (services (k_audit_enqueue s x c p k)) = sign (services k)"
  "kaudit (k_audit_enqueue s x c p k) = audit_enqueue s x c p (kaudit k)"
  by (simp_all add: k_audit_enqueue_def rng_audit_def)

subsection \<open>Queries\<close>

definition registry_new :: "HsmSlot list" where
  "registry_new = replicate HSM_MAX_SLOTS slot_new"

definition attached_count :: "HsmSlot list \<Rightarrow> nat" where
  "attached_count ss = length (filter (\<lambda>s. slot_state s = Attached) (take HSM_MAX_SLOTS ss))"

definition slot_is_empty :: "HsmSlot list \<Rightarrow> HsmSlotIdx \<Rightarrow> bool" where
  "slot_is_empty ss idx \<longleftrightarrow>
     unat idx < HSM_MAX_SLOTS \<and> slot_state (ss ! unat idx) = HsmSlotState.Empty"

definition slot_bus_mut :: "HsmSlot list \<Rightarrow> nat \<Rightarrow> BusInstance option" where
  "slot_bus_mut ss idx = (if HSM_MAX_SLOTS \<le> idx then None else Some (slot_bus (ss ! idx)))"

definition set_slot_bus :: "nat \<Rightarrow> BusInstance \<Rightarrow> HsmSlot list \<Rightarrow> HsmSlot list" where
  "set_slot_bus idx b ss = ss[idx := (ss ! idx)\<lparr>slot_bus := b\<rparr>]"

text \<open>
  Authentication compares the presented capability with what the slot stores; an out-of-range index
  is compared with slot 0 and rejected at the end.
\<close>

definition authenticate :: "HsmSlot list \<Rightarrow> HsmCapability \<Rightarrow> HsmRights \<Rightarrow> bool" where
  "authenticate ss cap required =
     (let idx = unat (hcap_slot cap);
          in_range = (idx < HSM_MAX_SLOTS);
          safe_idx = (if in_range then idx else 0);
          slot = ss ! safe_idx;
          state_ok = (slot_state_octet (slot_state slot) = slot_state_octet Attached);
          cap_in_slot = \<lparr>hcap_token = slot_token slot, hcap_slot = of_nat safe_idx, hcap_pad0 = 0,
             hcap_rights = slot_rights slot, hcap_pad = 0, hcap_pad1 = [0, 0, 0]\<rparr>;
          token_eq = hcap_ct_token_eq cap cap_in_slot;
          stored_rights_ok = (slot_rights slot AND required = required);
          cap_rights_ok = (hcap_rights cap AND required = required);
          token_nonzero = (hcap_token cap \<noteq> 0)
      in (token_nonzero \<and> state_ok \<and> token_eq \<and> stored_rights_ok \<and> cap_rights_ok) \<and> in_range)"

lemma slot_state_octet_attached [simp]: "slot_state_octet s = 1 \<longleftrightarrow> s = Attached"
  by (cases s) simp_all

lemma authenticate_iff:
  "authenticate ss cap r \<longleftrightarrow>
     unat (hcap_slot cap) < HSM_MAX_SLOTS \<and> hcap_token cap \<noteq> 0 \<and>
     slot_state (ss ! unat (hcap_slot cap)) = Attached \<and>
     slot_token (ss ! unat (hcap_slot cap)) = hcap_token cap \<and>
     slot_rights (ss ! unat (hcap_slot cap)) AND r = r \<and> hcap_rights cap AND r = r"
  by (auto simp: authenticate_def Let_def hcap_ct_token_eq_def)

subsection \<open>Attaching\<close>

text \<open>The attestation gate: no payload skips it (the in-kernel entry point).\<close>

definition attach_gate ::
  "('m, 'd) platform \<Rightarrow> attest_state \<Rightarrow> BusKind \<Rightarrow> bytes option \<Rightarrow> (HsmCapError + bytes option) option"
where
  "attach_gate P at kind attest_payload =
     (case attest_payload of
        None \<Rightarrow> Some (Inr None)
      | Some pl \<Rightarrow>
          if length pl \<noteq> MLDSA44_PK_LEN + MLDSA44_SIG_LEN then Some (Inl HsmCapError.AttestFailed)
          else do {
            let pk = take MLDSA44_PK_LEN pl;
            let sig = take MLDSA44_SIG_LEN (drop MLDSA44_PK_LEN pl);
            v \<leftarrow> verify_attest P at pk kind sig;
            case v of
              Inl _ \<Rightarrow> Some (Inl HsmCapError.AttestFailed)
            | Inr _ \<Rightarrow> do { pre \<leftarrow> pk_hash_prefix P pk; Some (Inr (Some pre)) }
          })"

definition commit_slot ::
  "BusInstance \<Rightarrow> u64 \<Rightarrow> HsmRights \<Rightarrow> bytes option \<Rightarrow> HsmSlot \<Rightarrow> HsmSlot" where
  "commit_slot b tok rts gate_prefix s =
     (let s1 = s\<lparr>slot_bus := b, slot_token := tok, slot_rights := rts\<rparr>;
          s2 = (case gate_prefix of
                  Some prefix \<Rightarrow> s1\<lparr>slot_verify_code := 0, slot_pk_prefix := prefix\<rparr>
                | None \<Rightarrow> s1)
      in s2\<lparr>slot_state := Attached\<rparr>)"

definition attach ::
  "('m, 'd) platform \<Rightarrow> BusKind \<Rightarrow> bytes \<Rightarrow> bytes option \<Rightarrow> HsmRights \<Rightarrow> ('m, 'd) kernel \<Rightarrow>
     (('m, 'd) kernel \<times> (HsmCapError + HsmCapability)) option" where
  "attach P kind init_blob attest_payload rts k =
     do {
       gate \<leftarrow> attach_gate P (attest k) kind attest_payload;
       case gate of
         Inl e \<Rightarrow> Some (k, Inl e)
       | Inr gate_prefix \<Rightarrow>
           (case List.find (\<lambda>i. slot_state (registry k ! i) = HsmSlotState.Empty)
                   [0..<length (registry k)] of
              None \<Rightarrow> Some (k, Inl HsmCapError.Full)
            | Some i \<Rightarrow>
                do {
                  (r1, t) \<leftarrow> gen_token_u64 P (krng k);
                  let k1 = set_rng r1 k;
                  case t of
                    Inl _ \<Rightarrow> Some (k1, Inl HsmCapError.TokenGen)
                  | Inr tok \<Rightarrow>
                      do {
                        (r2, b, res) \<leftarrow>
                          bus_open P (krng k1) (ipc (services k1)) init_blob (bus_new kind);
                        let k2 = set_rng r2 k1;
                        case res of
                          Inl _ \<Rightarrow> Some (k2, Inl HsmCapError.BadInit)
                        | Inr _ \<Rightarrow>
                            Some (k2\<lparr>registry :=
                                (registry k2)[i := commit_slot b tok rts gate_prefix (registry k2 ! i)]\<rparr>,
                              Inr \<lparr>hcap_token = tok, hcap_slot = of_nat i, hcap_pad0 = 0,
                                   hcap_rights = rts, hcap_pad = 0, hcap_pad1 = [0, 0, 0]\<rparr>)
                      }
                })
     }"

definition attach_kernel_side ::
  "('m, 'd) platform \<Rightarrow> BusKind \<Rightarrow> bytes \<Rightarrow> HsmRights \<Rightarrow> ('m, 'd) kernel \<Rightarrow>
     (('m, 'd) kernel \<times> (HsmCapError + HsmCapability)) option" where
  "attach_kernel_side P kind init_blob rts k = attach P kind init_blob None rts k"

definition attach_kernel_side_with_attest ::
  "('m, 'd) platform \<Rightarrow> BusKind \<Rightarrow> bytes \<Rightarrow> bytes \<Rightarrow> HsmRights \<Rightarrow> ('m, 'd) kernel \<Rightarrow>
     (('m, 'd) kernel \<times> (HsmCapError + HsmCapability)) option" where
  "attach_kernel_side_with_attest P kind init_blob attest_payload rts k =
     attach P kind init_blob (Some attest_payload) rts k"

subsection \<open>Detaching and listing\<close>

definition detach ::
  "HsmCapability \<Rightarrow> HsmRights \<Rightarrow> HsmSlot list \<Rightarrow> HsmSlot list \<times> (HsmCapError + unit)" where
  "detach cap required ss =
     (let idx = unat (hcap_slot cap)
      in if \<not> authenticate ss cap required then
           (ss, Inl (if HSM_MAX_SLOTS \<le> idx then HsmCapError.InvalidSlot
                     else case slot_state (ss ! idx) of
                       Detaching \<Rightarrow> HsmCapError.Busy
                     | HsmSlotState.Empty \<Rightarrow> HsmCapError.NotAttached
                     | Attached \<Rightarrow> HsmCapError.InvalidToken))
         else
           let s1 = (ss ! idx)\<lparr>slot_state := Detaching\<rparr>;
               s2 = s1\<lparr>slot_bus := fst (bus_close (slot_bus s1))\<rparr>
           in (ss[idx := slot_zeroize s2], Inr ()))"

record HsmSlotInfo =
  info_slot :: u8
  info_state :: u8
  info_reserved :: bytes

definition slot_info_empty :: HsmSlotInfo where
  "slot_info_empty = \<lparr>info_slot = 0xFF, info_state = 0, info_reserved = [0, 0, 0, 0, 0, 0]\<rparr>"

definition encode_info :: "HsmSlotInfo \<Rightarrow> bytes" where
  "encode_info i = [info_slot i, info_state i] @ info_reserved i"

definition slot_info :: "nat \<Rightarrow> HsmSlot \<Rightarrow> HsmSlotInfo" where
  "slot_info i s =
     \<lparr>info_slot = of_nat i, info_state = slot_state_octet (slot_state s),
      info_reserved = [bus_kind_octet (bus_kind (slot_bus s)), slot_verify_code s] @ slot_pk_prefix s\<rparr>"

text \<open>The loop of \<open>enumerate\<close>: it stops at the slot index that reaches the size of the output.\<close>

fun enumerate_loop ::
  "nat \<Rightarrow> nat \<Rightarrow> HsmSlot list \<Rightarrow> HsmSlotInfo list \<Rightarrow> nat \<Rightarrow> (HsmSlotInfo list \<times> nat) option" where
  "enumerate_loop cap i [] out written = Some (out, written)"
| "enumerate_loop cap i (s # ss) out written =
     (if cap \<le> i then Some (out, written)
      else if slot_state s = Attached then do {
        out1 \<leftarrow> index_set out written (slot_info i s);
        enumerate_loop cap (i + 1) ss out1 (written + 1)
      } else enumerate_loop cap (i + 1) ss out written)"

definition enumerate_slots ::
  "HsmSlot list \<Rightarrow> HsmSlotInfo list \<Rightarrow> (HsmSlotInfo list \<times> nat) option" where
  "enumerate_slots ss out = enumerate_loop (min (length out) HSM_MAX_SLOTS) 0 ss out 0"

subsection \<open>Staging buffers\<close>

text \<open>
  The wrappers that erase a staging buffer before and after its use. The closure gets the erased
  buffer in the state.
\<close>

definition with_relay_buf ::
  "(('m, 'd) kernel \<Rightarrow> (('m, 'd) kernel \<times> 'a) option) \<Rightarrow> ('m, 'd) kernel \<Rightarrow> (('m, 'd) kernel \<times> 'a) option"
where
  "with_relay_buf f k =
     do {
       (k1, r) \<leftarrow> f (k\<lparr>relay_buf := replicate (length (relay_buf k)) 0\<rparr>);
       Some (k1\<lparr>relay_buf := replicate (length (relay_buf k1)) 0\<rparr>, r)
     }"

definition with_attest_buf ::
  "(('m, 'd) kernel \<Rightarrow> (('m, 'd) kernel \<times> 'a) option) \<Rightarrow> ('m, 'd) kernel \<Rightarrow> (('m, 'd) kernel \<times> 'a) option"
where
  "with_attest_buf f k =
     do {
       (k1, r) \<leftarrow> f (k\<lparr>attest := (attest k)\<lparr>attest_buf := replicate (length (attest_buf (attest k))) 0\<rparr>\<rparr>);
       Some (k1\<lparr>attest := (attest k1)\<lparr>attest_buf := replicate (length (attest_buf (attest k1))) 0\<rparr>\<rparr>, r)
     }"

subsection \<open>Invariants\<close>

text \<open>
  Every slot holds a well-formed bus; an empty slot is exactly a fresh slot, so nothing of an
  earlier attachment is left in it; an attached slot has a non-zero token and an open bus.
\<close>

definition bus_is_open :: "BusInstance \<Rightarrow> bool" where
  "bus_is_open b \<longleftrightarrow> (case b of BusInstance.Software s \<Rightarrow> sw_open_state s
     | BusInstance.Ring3Process q \<Rightarrow> r3_open_state q | _ \<Rightarrow> False)"

definition slot_ok :: "HsmSlot \<Rightarrow> bool" where
  "slot_ok s \<longleftrightarrow> bus_ok (slot_bus s) \<and> length (slot_pk_prefix s) = 4 \<and>
     (case slot_state s of
        HsmSlotState.Empty \<Rightarrow> s = slot_new
      | Attached \<Rightarrow> slot_token s \<noteq> 0 \<and> bus_is_open (slot_bus s)
      | Detaching \<Rightarrow> False)"

definition registry_ok :: "HsmSlot list \<Rightarrow> bool" where
  "registry_ok ss \<longleftrightarrow> length ss = HSM_MAX_SLOTS \<and> list_all slot_ok ss"

definition kernel_ok :: "('m, 'd) kernel \<Rightarrow> bool" where
  "kernel_ok k \<longleftrightarrow> registry_ok (registry k) \<and> attest_ok (attest k) \<and> ring_ok (kaudit k) \<and>
     relay_buf k = replicate CHAN_MAX 0 \<and> attest_buf (attest k) = replicate ATTEST_BUF_MAX 0 \<and>
     length (hcap_pad1 (audit_read_cap k)) = 3 \<and> length (hcap_pad1 (network_attach_cap k)) = 3"

lemma registry_ok_new: "registry_ok registry_new"
  by (simp add: registry_ok_def registry_new_def slot_ok_def slot_new_def list_all_iff)

lemma registry_okD:
  "registry_ok ss \<Longrightarrow> i < HSM_MAX_SLOTS \<Longrightarrow> slot_ok (ss ! i)" "registry_ok ss \<Longrightarrow> length ss = HSM_MAX_SLOTS"
  by (simp_all add: registry_ok_def list_all_length)

lemma registry_ok_update:
  "registry_ok ss \<Longrightarrow> slot_ok s \<Longrightarrow> registry_ok (ss[i := s])"
  unfolding registry_ok_def list_all_iff
  by (metis insertE length_list_update set_update_subset_insert subsetD)

lemma attach_gate_eq:
  assumes "platform_ok P" "attest_ok at"
  shows "\<exists>pre. length pre = 4 \<and> attach_gate P at kind pl = Some
     (case pl of None \<Rightarrow> Inr None
      | Some p \<Rightarrow>
          if length p = MLDSA44_PK_LEN + MLDSA44_SIG_LEN \<and>
             attested P at (take MLDSA44_PK_LEN p) kind (drop MLDSA44_PK_LEN p)
          then Inr (Some pre) else Inl HsmCapError.AttestFailed)"
proof (cases pl)
  case (Some p)
  show ?thesis
  proof (cases "length p = MLDSA44_PK_LEN + MLDSA44_SIG_LEN")
    case True
    then have l: "length (take MLDSA44_PK_LEN p) = MLDSA44_PK_LEN" by simp
    obtain pre where "pk_hash_prefix P (take MLDSA44_PK_LEN p) = Some pre" "length pre = 4"
      using pk_hash_prefix_total [OF assms(1)] by blast
    then show ?thesis
      by (intro exI [of _ pre]) (simp add: attach_gate_def Some True Let_def verify_attest_eq [OF assms(2,1) l])
  qed (auto simp: attach_gate_def Some intro: exI [of _ "[0, 0, 0, 0]"])
qed (auto simp: attach_gate_def intro: exI [of _ "[0, 0, 0, 0]"])

lemma bus_open_open:
  "bus_open P r reg init b = Some (r', b', Inr ()) \<Longrightarrow> bus_is_open b' \<and> bus_kind b' = bus_kind b"
  by (auto simp: bus_open_def bus_is_open_def sw_open_def r3_open_def Let_def
      split: BusInstance.splits Option.bind_splits if_splits sum.splits prod.splits)

lemma bus_open_frame:
  "bus_open P r reg init b = Some (r', b', res) \<Longrightarrow> ent_frame (ent r) (ent r')"
  by (auto simp: bus_open_def sw_open_def dest!: rand_bytes_frame
      split: BusInstance.splits Option.bind_splits if_splits sum.splits prod.splits)

lemma set_rng_same [simp]: "set_rng (krng k) k = k"
  by (simp add: set_rng_def)

lemma set_rng_twice [simp]: "set_rng r (set_rng s k) = set_rng r k"
  by (simp add: set_rng_def)

text \<open>
  What a call of \<open>attach\<close> does to the state: only the DRBG moves, and only a success writes a slot,
  the first empty one.
\<close>

definition first_empty :: "HsmSlot list \<Rightarrow> nat \<Rightarrow> bool" where
  "first_empty ss i \<longleftrightarrow> i < length ss \<and> slot_state (ss ! i) = HsmSlotState.Empty \<and>
     (\<forall>j < i. slot_state (ss ! j) \<noteq> HsmSlotState.Empty)"

lemma find_first_empty:
  "List.find (\<lambda>i. slot_state (ss ! i) = HsmSlotState.Empty) [0..<length ss] = Some i \<Longrightarrow>
     first_empty ss i"
  by (auto simp: first_empty_def find_Some_iff)

lemma attach_error:
  assumes "attach P kind init pl rts k = Some (k', Inl e)"
  shows "\<exists>r'. k' = set_rng r' k \<and> ent_frame (ent (krng k)) (ent r')"
proof -
  have "\<exists>r'. k = set_rng r' k \<and> ent_frame (ent (krng k)) (ent r')"
    by (rule exI [of _ "krng k"]) simp
  with assms show ?thesis
    by (auto simp: attach_def Let_def dest!: gen_token_u64_frame bus_open_frame
      split: Option.bind_splits sum.splits option.splits prod.splits
      intro: ent_frame_trans)
qed

lemma attach_success:
  assumes "platform_ok P" "attach P kind init pl rts k = Some (k', Inr cap)"
  shows "\<exists>r' i b pre. k' = (set_rng r' k)\<lparr>registry := (registry k)
           [i := commit_slot b (hcap_token cap) rts pre (registry k ! i)]\<rparr> \<and>
      ent_frame (ent (krng k)) (ent r') \<and> first_empty (registry k) i \<and>
      attach_gate P (attest k) kind pl = Some (Inr pre) \<and>
      bus_ok b \<and> bus_is_open b \<and> bus_kind b = kind \<and> hcap_token cap \<noteq> 0 \<and>
      cap = \<lparr>hcap_token = hcap_token cap, hcap_slot = of_nat i, hcap_pad0 = 0, hcap_rights = rts,
              hcap_pad = 0, hcap_pad1 = [0, 0, 0]\<rparr>"
proof -
  from assms(2) obtain pre i r1 tok r2 b where
    g: "attach_gate P (attest k) kind pl = Some (Inr pre)" and
    i: "first_empty (registry k) i" and
    t: "gen_token_u64 P (krng k) = Some (r1, Inr tok)" and
    o: "bus_open P r1 (ipc (services k)) init (bus_new kind) = Some (r2, b, Inr ())" and
    k': "k' = (set_rng r2 k)\<lparr>registry := (registry k)[i := commit_slot b tok rts pre (registry k ! i)]\<rparr>"
      "cap = \<lparr>hcap_token = tok, hcap_slot = of_nat i, hcap_pad0 = 0, hcap_rights = rts,
              hcap_pad = 0, hcap_pad1 = [0, 0, 0]\<rparr>"
    by (auto simp: attach_def Let_def dest!: find_first_empty
        split: Option.bind_splits sum.splits option.splits prod.splits)
  show ?thesis
    using k' g i bus_open_open [OF o] ent_frame_trans [OF gen_token_u64_frame [OF t] bus_open_frame [OF o]]
      t bus_open_ok [OF assms(1) bus_ok_new o]
    by (intro exI [of _ r2] exI [of _ i] exI [of _ b] exI [of _ pre]) (auto simp: gen_token_u64_nonzero)
qed

lemma commit_slot_fields [simp]:
  "slot_state (commit_slot b t r pre s) = Attached" "slot_token (commit_slot b t r pre s) = t"
  "slot_rights (commit_slot b t r pre s) = r" "slot_bus (commit_slot b t r pre s) = b"
  "slot_pk_prefix (commit_slot b t r pre s) = (case pre of None \<Rightarrow> slot_pk_prefix s | Some p \<Rightarrow> p)"
  by (simp_all add: commit_slot_def Let_def split: option.splits)

lemma first_empty_slot:
  assumes "registry_ok ss" "first_empty ss i"
  shows "i < HSM_MAX_SLOTS" "ss ! i = slot_new"
  using assms registry_okD(1) [of ss i] registry_okD(2) [of ss]
  by (auto simp: first_empty_def slot_ok_def)

lemma attach_ok:
  assumes "platform_ok P" "kernel_ok k" "attach P kind init pl rts k = Some (k', res)"
  shows "kernel_ok k'"
proof (cases res)
  case (Inl e)
  then show ?thesis
    using attach_error [of P kind init pl rts k k' e] assms by (auto simp: kernel_ok_def ent_frame_def)
next
  case (Inr cap)
  obtain r' i b pre where
    k': "k' = (set_rng r' k)\<lparr>registry := (registry k)
           [i := commit_slot b (hcap_token cap) rts pre (registry k ! i)]\<rparr>"
      "ent_frame (ent (krng k)) (ent r')" and i: "first_empty (registry k) i" and
    g: "attach_gate P (attest k) kind pl = Some (Inr pre)" and
    b: "bus_is_open b" "hcap_token cap \<noteq> 0" "bus_ok b"
    using attach_success [OF assms(1) assms(3) [unfolded Inr]] by blast
  have "attest_ok (attest k)" "registry_ok (registry k)" using assms(2) by (simp_all add: kernel_ok_def)
  then have "\<forall>p. pre = Some p \<longrightarrow> length p = 4" "registry k ! i = slot_new"
    using attach_gate_eq [OF assms(1), of "attest k" kind pl] g first_empty_slot(2) [OF _ i]
    by (auto split: option.splits if_splits)
  with b have "slot_ok (commit_slot b (hcap_token cap) rts pre (registry k ! i))"
    by (auto simp: slot_ok_def slot_new_def split: option.splits)
  then show ?thesis
    using assms(2) k' by (auto simp: kernel_ok_def ent_frame_def intro: registry_ok_update)
qed

lemma detach_eq:
  "detach cap rq ss =
     (if authenticate ss cap rq then (ss[unat (hcap_slot cap) := slot_new], Inr ())
      else (ss, Inl (if HSM_MAX_SLOTS \<le> unat (hcap_slot cap) then HsmCapError.InvalidSlot
                     else case slot_state (ss ! unat (hcap_slot cap)) of
                       Detaching \<Rightarrow> HsmCapError.Busy
                     | HsmSlotState.Empty \<Rightarrow> HsmCapError.NotAttached
                     | Attached \<Rightarrow> HsmCapError.InvalidToken)))"
  by (simp add: detach_def Let_def)

lemma slot_ok_new: "slot_ok slot_new"
  using registry_okD(1) [OF registry_ok_new, of 0] by (simp add: registry_new_def HSM_MAX_SLOTS_def)

lemma detach_ok: "registry_ok ss \<Longrightarrow> registry_ok (fst (detach cap rq ss))"
  by (simp add: detach_eq registry_ok_update slot_ok_new)

definition attached_infos :: "nat \<Rightarrow> HsmSlot list \<Rightarrow> HsmSlotInfo list" where
  "attached_infos i ss =
     map (\<lambda>(j, s). slot_info j s) (filter (\<lambda>(j, s). slot_state s = Attached) (enumerate i ss))"

lemma enumerate_loop_eq:
  assumes "w \<le> i" "cap \<le> length out"
  shows "enumerate_loop cap i ss out w =
    (let infos = attached_infos i (take (cap - i) ss)
     in Some (take w out @ infos @ drop (w + length infos) out, w + length infos))"
  using assms
proof (induction ss arbitrary: i out w)
  case Nil
  then show ?case by (simp add: attached_infos_def)
next
  case (Cons s ss)
  show ?case
  proof (cases "cap \<le> i")
    case False
    then have t: "take (cap - i) (s # ss) = s # take (cap - Suc i) ss" by (simp add: take_Cons')
    have "take (Suc w) (out[w := x]) = take w out @ [x]" for x
      using Cons.prems False by (simp add: take_Suc_conv_app_nth)
    then show ?thesis
      using Cons False by (auto simp: t Let_def attached_infos_def)
  qed (simp add: attached_infos_def)
qed

lemma enumerate_slots_eq:
  "enumerate_slots ss out =
    (let infos = attached_infos 0 (take (min (length out) HSM_MAX_SLOTS) ss)
     in Some (infos @ drop (length infos) out, length infos))"
  using enumerate_loop_eq [of 0 0 "min (length out) HSM_MAX_SLOTS" out ss]
  by (simp add: enumerate_slots_def)

lemma length_attached_infos: "length (attached_infos i ss) \<le> length ss"
  using length_filter_le [of _ "enumerate i ss"] by (simp add: attached_infos_def)

subsection \<open>What the registry guarantees\<close>

text \<open>A call of \<open>attach\<close> keeps the kernel invariant. When it fails, no slot changes. When it
  succeeds, the presented device key was attested under the trust root for this transport and this
  boot's challenge, only the first empty slot changed, its bus is open and of the requested kind,
  and the returned capability is accepted by \<open>authenticate\<close> for exactly the rights it was issued
  with.\<close>

lemma attach_secure:
  assumes "platform_ok P" "kernel_ok k"
    and "attach P kind init (Some pl) rts k = Some (k', res)"
  shows "kernel_ok k' \<and>
    (case res of
       Inl e \<Rightarrow> registry k' = registry k
     | Inr cap \<Rightarrow>
         attested P (attest k) (take MLDSA44_PK_LEN pl) kind (drop MLDSA44_PK_LEN pl) \<and>
         first_empty (registry k) (unat (hcap_slot cap)) \<and>
         (\<exists>s. registry k' = (registry k)[unat (hcap_slot cap) := s] \<and>
              bus_kind (slot_bus s) = kind \<and> bus_is_open (slot_bus s)) \<and>
         (\<forall>rq. authenticate (registry k') cap rq \<longleftrightarrow> rts AND rq = rq))"
proof (cases res)
  case (Inl e)
  then show ?thesis
    using attach_ok [OF assms] attach_error [of P kind init "Some pl" rts k k' e] assms(3) by auto
next
  case (Inr cap)
  have ok: "attest_ok (attest k)" "registry_ok (registry k)" using assms(2) by (simp_all add: kernel_ok_def)
  obtain r' i b pre where
    k': "k' = (set_rng r' k)\<lparr>registry := (registry k)
           [i := commit_slot b (hcap_token cap) rts pre (registry k ! i)]\<rparr>" and
    i: "first_empty (registry k) i" and
    g: "attach_gate P (attest k) kind (Some pl) = Some (Inr pre)" and
    b: "bus_is_open b" "bus_kind b = kind" "hcap_token cap \<noteq> 0" and
    cap: "cap = \<lparr>hcap_token = hcap_token cap, hcap_slot = of_nat i, hcap_pad0 = 0, hcap_rights = rts,
              hcap_pad = 0, hcap_pad1 = [0, 0, 0]\<rparr>"
    using attach_success [OF assms(1) assms(3) [unfolded Inr]] by blast
  have i8: "i < 8" using first_empty_slot(1) [OF ok(2) i] by (simp add: HSM_MAX_SLOTS_def)
  have "hcap_slot cap = of_nat i" "hcap_rights cap = rts" by (subst cap, simp)+
  then have f: "unat (hcap_slot cap) = i" "hcap_rights cap = rts" using i8 by (simp_all add: unat_of_nat)
  have "attested P (attest k) (take MLDSA44_PK_LEN pl) kind (drop MLDSA44_PK_LEN pl)"
    using attach_gate_eq [OF assms(1) ok(1), of kind "Some pl"] g by (auto split: if_splits)
  then show ?thesis
    using attach_ok [OF assms] i8 i b f Inr registry_okD(2) [OF ok(2)]
    by (auto simp: k' authenticate_iff HSM_MAX_SLOTS_def)
qed

text \<open>A kernel after boot with no slot in use.\<close>

definition demo_kernel :: "(u64, u64) kernel" where
  "demo_kernel =
     \<lparr>services = \<lparr>rng = \<lparr>ent = demo_entropy, cap_drbg = Some 0\<rparr>, ipc = registry_empty, sign = sign_init\<rparr>,
      registry = registry_new, relay_buf = replicate CHAN_MAX 0, attest = attest_init,
      audit_read_cap = hcap_invalid, audit_cap_state = Provisioned,
      network_attach_cap = hcap_invalid, network_cap_state = Provisioned, umem = \<lparr>ubyte = \<lambda>_. 7, upage = \<lambda>_. ReadWrite, stack_hit = False\<rparr>, console = []\<rparr>"

lemma demo_kernel_ok: "kernel_ok demo_kernel"
  by (simp add: kernel_ok_def demo_kernel_def registry_ok_new attest_ok_def attest_init_def
      demo_entropy_def ring_ok_init hcap_invalid_def)

definition demo_payload :: bytes where
  "demo_payload = replicate (MLDSA44_PK_LEN + MLDSA44_SIG_LEN) 7"

lemma demo_gate: "attach_gate demo_platform attest_init kind (Some demo_payload) \<in> range (Some \<circ> Inr)"
proof -
  have "attest_ok attest_init" by (simp add: attest_ok_def attest_init_def)
  moreover have "attested demo_platform attest_init (replicate MLDSA44_PK_LEN 7) kind (replicate MLDSA44_SIG_LEN 7)"
    by (simp add: attested_def MLDSA44_SIG_LEN_def)
  ultimately show ?thesis
    using attach_gate_eq [OF demo_platform_ok, of attest_init kind "Some demo_payload"]
    by (auto simp: demo_payload_def)
qed

lemma demo_token:
  "gen_token_u64 demo_platform \<lparr>ent = demo_entropy, cap_drbg = Some 0\<rparr> =
     Some (\<lparr>ent = demo_entropy, cap_drbg = Some 1\<rparr>, Inr 0x0101010101010101)"
  by (simp add: gen_token_u64_def gen_token_loop.simps [of demo_platform 0] from_be_def replicate_numeral)

lemma demo_attach:
  "\<exists>k' cap. attach demo_platform BusKind.Software [] (Some demo_payload) rts demo_kernel
     = Some (k', Inr cap)"
proof -
  obtain pre where "attach_gate demo_platform attest_init BusKind.Software (Some demo_payload) = Some (Inr pre)"
    using demo_gate [of BusKind.Software] by auto
  then show ?thesis
    by (simp add: attach_def demo_kernel_def demo_token registry_new_def HSM_MAX_SLOTS_def
        slot_new_def upt_conv_Cons bus_open_def sw_open_def sw_new_def sw_role_of_def Let_def set_rng_def)
qed

text \<open>C10: \<open>detach\<close> keeps the registry invariant. With a capability that authenticates for the
  required right it succeeds, puts back a fresh slot with nothing of the old attachment in it,
  leaves every other slot alone, and from then on the capability authenticates for no right.
  Otherwise nothing changes and the call fails.\<close>

theorem detach_revokes:
  assumes "registry_ok ss"
  shows "registry_ok (fst (detach cap rq ss)) \<and>
    (if authenticate ss cap rq
     then detach cap rq ss = (ss[unat (hcap_slot cap) := slot_new], Inr ()) \<and>
          attached_count ss = Suc (attached_count (fst (detach cap rq ss))) \<and>
          (\<forall>rq'. \<not> authenticate (fst (detach cap rq ss)) cap rq')
     else \<exists>e. detach cap rq ss = (ss, Inl e))"
proof (cases "authenticate ss cap rq")
  case True
  then have "unat (hcap_slot cap) < length ss" "slot_state (ss ! unat (hcap_slot cap)) = Attached"
    using registry_okD(2) [OF assms] by (simp_all add: authenticate_iff)
  then show ?thesis
    using True detach_ok [OF assms, of cap rq] registry_okD(2) [OF assms]
      length_filter_update [of "unat (hcap_slot cap)" ss "\<lambda>s. slot_state s = Attached" slot_new]
    by (simp add: detach_eq attached_count_def authenticate_iff slot_new_def)
qed (simp add: detach_eq assms)

definition demo_registry :: "HsmSlot list" where
  "demo_registry = registry_new[0 := slot_new\<lparr>slot_state := Attached, slot_token := 5,
     slot_rights := USE OR ENUMERATE OR REVOKE OR RELAY_SRC,
     slot_bus := BusInstance.Software (sw_new\<lparr>sw_open_state := True\<rparr>)\<rparr>]"

definition demo_cap :: HsmCapability where
  "demo_cap = \<lparr>hcap_token = 5, hcap_slot = 0, hcap_pad0 = 0, hcap_rights = USE OR ENUMERATE OR REVOKE OR RELAY_SRC,
     hcap_pad = 0, hcap_pad1 = [0, 0, 0]\<rparr>"

lemma demo_registry_ok: "registry_ok demo_registry"
  unfolding demo_registry_def
  by (rule registry_ok_update [OF registry_ok_new])
     (simp add: slot_ok_def slot_new_def sw_ok_def sw_new_def bus_is_open_def)

lemma demo_authenticate: "authenticate demo_registry demo_cap REVOKE" "authenticate demo_registry demo_cap USE"
  by (simp_all add: authenticate_iff demo_registry_def demo_cap_def registry_new_def HSM_MAX_SLOTS_def hsm_rights)

lemma demo_cap_slot: "unat (hcap_slot demo_cap) = 0"
  by (simp add: demo_cap_def)

theorem detach_revokes_witness:
  "detach demo_cap REVOKE demo_registry = (demo_registry[0 := slot_new], Inr ()) \<and>
   \<not> authenticate (demo_registry[0 := slot_new]) demo_cap USE"
  using detach_revokes [OF demo_registry_ok, of demo_cap REVOKE] demo_authenticate(1)
  by (auto simp: demo_cap_slot)

end
