(* ===== verification/WireDispatch.thy ===== *)
theory WireDispatch
  imports HsmRegistry
begin

text \<open>
  Writing to a slot: the dispatcher behind \<open>bus.write\<close> of \<^verbatim>\<open>src/src/bus.rs\<close>. A software
  bus is written directly; a frame written to a Ring 3 bus is parsed, checked, and its command
  (ping, hash through another slot, re-attestation, audit status) executed, which leaves one
  response frame pending in the bus. The hash command authenticates a capability inside the frame
  and writes to the slot it names, which may again be a Ring 3 slot; the nested data is always
  shorter, so the recursion ends.

  The pending response of the bus that is being written is the buffer \<open>out\<close> of the command
  handlers. It is read from and stored to the slot in the kernel state, so that a nested write to
  the same slot acts on the same bytes.
\<close>

subsection \<open>Definitions\<close>

definition slot_pending :: "nat \<Rightarrow> ('m, 'd) kernel \<Rightarrow> bytes" where
  "slot_pending me k =
     (case slot_bus (registry k ! me) of BusInstance.Ring3Process q \<Rightarrow> pending_response q | _ \<Rightarrow> [])"

definition set_bus :: "nat \<Rightarrow> BusInstance \<Rightarrow> ('m, 'd) kernel \<Rightarrow> ('m, 'd) kernel" where
  "set_bus i b k = k\<lparr>registry := set_slot_bus i b (registry k)\<rparr>"

text \<open>Run a frame builder on the pending response of slot \<open>me\<close>.\<close>

definition put_response ::
  "nat \<Rightarrow> (bytes \<Rightarrow> (bytes \<times> nat) option) \<Rightarrow> ('m, 'd) kernel \<Rightarrow> (('m, 'd) kernel \<times> nat) option" where
  "put_response me build k =
     (case slot_bus (registry k ! me) of
        BusInstance.Ring3Process q \<Rightarrow>
          do {
            (out, n) \<leftarrow> build (pending_response q);
            Some (set_bus me (BusInstance.Ring3Process (q\<lparr>pending_response := out\<rparr>)) k, n)
          }
      | _ \<Rightarrow> None)"

type_synonym ('m, 'd) slot_writer =
  "nat \<Rightarrow> bytes \<Rightarrow> ('m, 'd) kernel \<Rightarrow> (('m, 'd) kernel \<times> (BusError + nat)) option"

text \<open>The inner write and read of the hash command; the digest buffer starts as zeros.\<close>

definition blake3_exchange ::
  "('m, 'd) slot_writer \<Rightarrow> nat \<Rightarrow> bytes \<Rightarrow> ('m, 'd) kernel \<Rightarrow> (('m, 'd) kernel \<times> bytes \<times> bool) option" where
  "blake3_exchange W slot_idx input k =
     (case slot_bus_mut (registry k) slot_idx of
        None \<Rightarrow> Some (k, replicate 32 0, False)
      | Some _ \<Rightarrow>
          do {
            (k1, w) \<leftarrow> W slot_idx input k;
            case w of
              Inl _ \<Rightarrow> Some (k1, replicate 32 0, False)
            | Inr _ \<Rightarrow>
                do {
                  (b, digest, res) \<leftarrow> bus_read (slot_bus (registry k1 ! slot_idx)) (replicate 32 0);
                  Some (set_bus slot_idx b k1, digest, res = Inr 32)
                }
          })"

definition handle_blake3 ::
  "('m, 'd) slot_writer \<Rightarrow> nat \<Rightarrow> u32 \<Rightarrow> bytes \<Rightarrow> ('m, 'd) kernel \<Rightarrow> (('m, 'd) kernel \<times> nat) option" where
  "handle_blake3 W me req_id pl k =
     (if length pl < 16 then put_response me (build_error_frame_inplace req_id WireStatus.BadFrame) k
      else
        let cap = decode_hcap (take 16 pl)
        in if \<not> authenticate (registry k) cap USE
           then put_response me (build_error_frame_inplace req_id WireStatus.Denied) k
           else do {
             (k1, digest, ok) \<leftarrow> blake3_exchange W (unat (hcap_slot cap)) (drop 16 pl) k;
             if \<not> ok then put_response me (build_error_frame_inplace req_id WireStatus.Internal) k1
             else put_response me (build_response_frame req_id WireCmd.Blake3Hash WireStatus.Ok digest) k1
           })"

definition handle_attest_submit ::
  "('m, 'd) platform \<Rightarrow> nat \<Rightarrow> u32 \<Rightarrow> bytes \<Rightarrow> ('m, 'd) kernel \<Rightarrow> (('m, 'd) kernel \<times> nat) option" where
  "handle_attest_submit P me req_id pl k =
     (if length pl \<noteq> WIRE_ATTEST_LEN
      then put_response me (build_error_frame_inplace req_id WireStatus.BadFrame) k
      else
        let pk = take MLDSA44_PK_LEN pl;
            bus_octet = pl ! MLDSA44_PK_LEN;
            sig = drop (MLDSA44_PK_LEN + 1) pl
        in case (if bus_octet = 0 then Some BusKind.Software
                 else if bus_octet = 1 then Some BusKind.Ring3Process else None) of
             None \<Rightarrow> put_response me (build_error_frame_inplace req_id WireStatus.BadFrame) k
           | Some kind \<Rightarrow>
               do {
                 result \<leftarrow> verify_attest P (attest k) pk kind sig;
                 prefix \<leftarrow> pk_hash_prefix P pk;
                 case result of
                   Inr _ \<Rightarrow>
                     put_response me (build_response_frame req_id WireCmd.AttestSubmit WireStatus.Ok [])
                       (k_audit_enqueue 0xFE 5 bus_octet prefix k)
                 | Inl _ \<Rightarrow>
                     put_response me (build_error_frame_inplace req_id WireStatus.Denied)
                       (k_audit_enqueue 0xFE 6 bus_octet prefix k)
               })"

definition frame_acceptable :: "WireFrameHeader \<Rightarrow> bytes \<Rightarrow> bool" where
  "frame_acceptable hdr data =
     (let magic_ok = (from_le (wh_magic hdr) = (from_le WIRE_MAGIC :: u32));
          version_ok = (wh_version hdr = WIRE_VERSION);
          len_ok = (unat (wh_payload_len hdr) + 16 \<le> length data \<and>
                    unat (wh_payload_len hdr) \<le> WIRE_PAYLOAD_MAX);
          cmd_is_request = (wh_cmd hdr AND WIRE_CMD_RESPONSE_BIT = 0 \<and>
                            wh_cmd hdr \<noteq> wire_cmd WireCmd.Error)
      in magic_ok \<and> version_ok \<and> len_ok \<and> cmd_is_request)"

definition r3_dispatch ::
  "('m, 'd) platform \<Rightarrow> ('m, 'd) slot_writer \<Rightarrow> nat \<Rightarrow> WireFrameHeader \<Rightarrow> bytes \<Rightarrow> ('m, 'd) kernel \<Rightarrow>
     (('m, 'd) kernel \<times> nat) option" where
  "r3_dispatch P W me hdr pl k =
     (if wh_cmd hdr = wire_cmd WireCmd.Ping then put_response me (handle_ping (wh_req_id hdr)) k
      else if wh_cmd hdr = wire_cmd WireCmd.Blake3Hash then handle_blake3 W me (wh_req_id hdr) pl k
      else if wh_cmd hdr = wire_cmd WireCmd.AttestSubmit
      then handle_attest_submit P me (wh_req_id hdr) pl k
      else if wh_cmd hdr = wire_cmd WireCmd.Status
      then put_response me (handle_status (kaudit k) (wh_req_id hdr) pl) k
      else put_response me (build_error_frame_inplace (wh_req_id hdr) WireStatus.UnknownCmd) k)"

definition set_response_len :: "nat \<Rightarrow> nat \<Rightarrow> ('m, 'd) kernel \<Rightarrow> ('m, 'd) kernel" where
  "set_response_len me n k =
     (case slot_bus (registry k ! me) of
        BusInstance.Ring3Process q \<Rightarrow>
          set_bus me (BusInstance.Ring3Process (q\<lparr>response_len := of_nat n\<rparr>)) k
      | _ \<Rightarrow> k)"

definition r3_write ::
  "('m, 'd) platform \<Rightarrow> ('m, 'd) slot_writer \<Rightarrow> nat \<Rightarrow> Ring3ProcessBus \<Rightarrow> bytes \<Rightarrow> ('m, 'd) kernel \<Rightarrow>
     (('m, 'd) kernel \<times> (BusError + nat)) option" where
  "r3_write P W me q data k =
     (if \<not> r3_open_state q then Some (k, Inl BusError.NotOpen)
      else if length data < 16 \<or> WIRE_FRAME_MAX < length data then Some (k, Inl BusError.Internal)
      else if response_len q \<noteq> 0 then Some (k, Inl BusError.Internal)
      else
        let hdr = parse_header (take 16 data)
        in if \<not> frame_acceptable hdr data then Some (k, Inl BusError.Internal)
           else do {
             pl \<leftarrow> slice data 16 (16 + unat (wh_payload_len hdr));
             (k1, n) \<leftarrow> r3_dispatch P W me hdr pl k;
             Some (set_response_len me n k1, Inr (length data))
           })"

text \<open>
  \<open>bus.write\<close> on the bus of a slot. The recursive call goes through the nested write of the hash
  command; the congruence rules say that it is only made on shorter data.
\<close>

lemma blake3_exchange_cong [fundef_cong]:
  assumes "slot_idx = slot_idx'" "input = input'" "k = k'"
    and "\<And>j. W j input' k' = W' j input' k'"
  shows "blake3_exchange W slot_idx input k = blake3_exchange W' slot_idx' input' k'"
  using assms by (simp add: blake3_exchange_def split: option.splits)

lemma handle_blake3_cong [fundef_cong]:
  assumes "me = me'" "req_id = req_id'" "pl = pl'" "k = k'"
    and "\<And>j d. 16 \<le> length pl' \<Longrightarrow> length d + 16 = length pl' \<Longrightarrow> W j d k' = W' j d k'"
  shows "handle_blake3 W me req_id pl k = handle_blake3 W' me' req_id' pl' k'"
  using assms by (simp add: handle_blake3_def Let_def cong: blake3_exchange_cong)

lemma r3_write_cong [fundef_cong]:
  assumes "P = P'" "me = me'" "q = q'" "data = data'" "k = k'"
    and "\<And>j d. length d < length data' \<Longrightarrow> W j d k' = W' j d k'"
  shows "r3_write P W me q data k = r3_write P' W' me' q' data' k'"
proof -
  have "r3_dispatch P W me hdr pl k = r3_dispatch P W' me hdr pl k" if "length pl < length data" for hdr pl
    using assms that by (auto simp: r3_dispatch_def intro!: handle_blake3_cong)
  then show ?thesis
    using assms by (auto simp: r3_write_def Let_def slice_def intro!: Option.bind_cong split: if_splits)
qed

function slot_write ::
  "('m, 'd) platform \<Rightarrow> nat \<Rightarrow> bytes \<Rightarrow> ('m, 'd) kernel \<Rightarrow> (('m, 'd) kernel \<times> (BusError + nat)) option"
where
  "slot_write P me data k =
     (case slot_bus (registry k ! me) of
        BusInstance.Software s \<Rightarrow>
          do { (s1, res) \<leftarrow> sw_write P data s; Some (set_bus me (BusInstance.Software s1) k, res) }
      | BusInstance.Ring3Process q \<Rightarrow> r3_write P (\<lambda>j d k. slot_write P j d k) me q data k
      | BusInstance.Empty \<Rightarrow> Some (k, Inl BusError.NotOpen)
      | _ \<Rightarrow> Some (k, Inl BusError.NotImplemented))"
  by pat_completeness auto
termination
  by (relation "measure (\<lambda>(P, me, data, k). length data)") simp_all

declare slot_write.simps [simp del]

subsection \<open>Frames and totality\<close>

text \<open>
  What a write to a slot may change: buses, each keeping its kind and staying open or closed, and
  the audit ring. Every other part of the kernel state stays.
\<close>

definition bus_inv :: "('m, 'd) kernel \<Rightarrow> bool" where
  "bus_inv k \<longleftrightarrow> registry_ok (registry k) \<and> attest_ok (attest k) \<and> ring_ok (kaudit k)"

definition bus_same :: "BusInstance \<Rightarrow> BusInstance \<Rightarrow> bool" where
  "bus_same b b' \<longleftrightarrow> bus_kind b' = bus_kind b \<and> (b' = BusInstance.Empty \<longleftrightarrow> b = BusInstance.Empty) \<and>
     bus_is_open b' = bus_is_open b \<and> (bus_ok b \<longrightarrow> bus_ok b')"

definition slot_frame :: "HsmSlot \<Rightarrow> HsmSlot \<Rightarrow> bool" where
  "slot_frame s s' \<longleftrightarrow> s'\<lparr>slot_bus := BusInstance.Empty\<rparr> = s\<lparr>slot_bus := BusInstance.Empty\<rparr> \<and>
     bus_same (slot_bus s) (slot_bus s')"

text \<open>The state without the registry and the audit ring.\<close>

definition k_rest :: "('m, 'd) kernel \<Rightarrow> ('m, 'd) kernel" where
  "k_rest k = (set_rng ((krng k)\<lparr>ent := (ent (krng k))\<lparr>audit := audit_ring_init\<rparr>\<rparr>) k)\<lparr>registry := []\<rparr>"

definition bus_frame :: "('m, 'd) kernel \<Rightarrow> ('m, 'd) kernel \<Rightarrow> bool" where
  "bus_frame k k' \<longleftrightarrow> list_all2 slot_frame (registry k) (registry k') \<and> k_rest k' = k_rest k \<and>
     (ring_ok (kaudit k) \<longrightarrow> ring_ok (kaudit k'))"

lemma bus_same_refl [simp]: "bus_same b b"
  by (simp add: bus_same_def)

lemma slot_frame_refl [simp]: "slot_frame s s"
  by (simp add: slot_frame_def)

lemma slot_frame_trans: "slot_frame a b \<Longrightarrow> slot_frame b c \<Longrightarrow> slot_frame a c"
  by (simp add: slot_frame_def bus_same_def)

lemma slot_frameD:
  assumes "slot_frame s s'"
  shows "slot_state s' = slot_state s" "slot_token s' = slot_token s" "slot_rights s' = slot_rights s"
    "slot_pk_prefix s' = slot_pk_prefix s" "slot_verify_code s' = slot_verify_code s"
    "bus_same (slot_bus s) (slot_bus s')"
proof -
  have e: "s'\<lparr>slot_bus := BusInstance.Empty\<rparr> = s\<lparr>slot_bus := BusInstance.Empty\<rparr>"
    using assms by (simp add: slot_frame_def)
  show "slot_state s' = slot_state s" "slot_token s' = slot_token s" "slot_rights s' = slot_rights s"
    "slot_pk_prefix s' = slot_pk_prefix s" "slot_verify_code s' = slot_verify_code s"
    using arg_cong [OF e, of slot_state] arg_cong [OF e, of slot_token] arg_cong [OF e, of slot_rights]
      arg_cong [OF e, of slot_pk_prefix] arg_cong [OF e, of slot_verify_code] by simp_all
qed (use assms in \<open>simp add: slot_frame_def\<close>)

lemma slot_frame_ok:
  assumes f: "slot_frame s s'" and ok: "slot_ok s"
  shows "slot_ok s'"
proof (cases "slot_state s")
  case Empty
  then have "s = slot_new" using ok by (simp add: slot_ok_def)
  moreover have "slot_bus s' = BusInstance.Empty"
    using slot_frameD(6) [OF f] \<open>s = slot_new\<close> by (simp add: bus_same_def slot_new_def)
  ultimately have "s' = slot_new"
    using slot_frameD(1-5) [OF f] by (simp add: slot_new_def)
  then show ?thesis by (simp add: slot_ok_new)
qed (use slot_frameD [OF f] ok in \<open>simp_all add: slot_ok_def bus_same_def\<close>)

lemma bus_frame_refl [simp]: "bus_frame k k"
  by (simp add: bus_frame_def list_all2_refl)

lemma bus_frame_trans: "bus_frame a b \<Longrightarrow> bus_frame b c \<Longrightarrow> bus_frame a c"
  using list_all2_trans [of slot_frame slot_frame slot_frame, OF slot_frame_trans]
  by (auto simp: bus_frame_def)

lemma k_rest_fields:
  assumes "k_rest k' = k_rest k"
  shows "relay_buf k' = relay_buf k" "attest k' = attest k" "umem k' = umem k"
    "audit_read_cap k' = audit_read_cap k" "audit_cap_state k' = audit_cap_state k"
    "network_attach_cap k' = network_attach_cap k" "network_cap_state k' = network_cap_state k"
    "ipc (services k') = ipc (services k)" "sign (services k') = sign (services k)"
    "cap_drbg (krng k') = cap_drbg (krng k)"
  using arg_cong [OF assms, of relay_buf] arg_cong [OF assms, of attest] arg_cong [OF assms, of umem]
    arg_cong [OF assms, of audit_read_cap] arg_cong [OF assms, of audit_cap_state]
    arg_cong [OF assms, of network_attach_cap] arg_cong [OF assms, of network_cap_state]
    arg_cong [OF assms, of "\<lambda>k. ipc (services k)"] arg_cong [OF assms, of "\<lambda>k. sign (services k)"]
    arg_cong [OF assms, of "\<lambda>k. cap_drbg (krng k)"]
  by (simp_all add: k_rest_def set_rng_def)

lemma bus_frame_inv:
  assumes "bus_frame k k'" "bus_inv k"
  shows "bus_inv k'"
proof -
  have l: "list_all2 slot_frame (registry k) (registry k')" and "attest k' = attest k"
    using assms(1) k_rest_fields(2) by (auto simp: bus_frame_def)
  moreover have "registry_ok (registry k')"
    using l assms(2) slot_frame_ok
    by (auto simp: bus_inv_def registry_ok_def list_all2_conv_all_nth list_all_length)
  ultimately show ?thesis using assms by (simp add: bus_inv_def bus_frame_def)
qed

lemma bus_frame_slot:
  "bus_frame k k' \<Longrightarrow> i < length (registry k) \<Longrightarrow> slot_frame (registry k ! i) (registry k' ! i)"
  by (simp add: bus_frame_def list_all2_conv_all_nth)

lemma bus_frame_authenticate:
  assumes "bus_frame k k'" "registry_ok (registry k)"
  shows "authenticate (registry k') cap rq = authenticate (registry k) cap rq"
  using slot_frameD [OF bus_frame_slot [OF assms(1), of "unat (hcap_slot cap)"]] registry_okD(2) [OF assms(2)]
  by (auto simp: authenticate_iff)

lemma set_bus_fields [simp]:
  "registry (set_bus i b k) = (registry k)[i := (registry k ! i)\<lparr>slot_bus := b\<rparr>]"
  "k_rest (set_bus i b k) = k_rest k" "kaudit (set_bus i b k) = kaudit k" "attest (set_bus i b k) = attest k"
  by (simp_all add: set_bus_def set_slot_bus_def k_rest_def set_rng_def)

lemma bus_frame_set_bus: "bus_same (slot_bus (registry k ! i)) b \<Longrightarrow> bus_frame k (set_bus i b k)"
  by (cases "i < length (registry k)")
     (auto simp: bus_frame_def list_all2_conv_all_nth nth_list_update slot_frame_def)

lemma bus_frame_audit: "length p = 4 \<Longrightarrow> bus_frame k (k_audit_enqueue s x c p k)"
  by (simp add: bus_frame_def list_all2_refl ring_ok_enqueue)
     (simp add: k_rest_def k_audit_enqueue_def rng_audit_def set_rng_def)

subsection \<open>Every request gets one response\<close>

text \<open>A frame builder that always writes a frame for this request, to this command or an error.\<close>

definition frame_for :: "u16 \<Rightarrow> u32 \<Rightarrow> (bytes \<Rightarrow> (bytes \<times> nat) option) \<Rightarrow> bool" where
  "frame_for cmd req build \<longleftrightarrow> (\<forall>out. length out = WIRE_FRAME_MAX \<longrightarrow>
     (\<exists>c st pl. build out = Some (frame_bytes req c st pl @ drop (16 + length pl) out, 16 + length pl) \<and>
        16 + length pl \<le> WIRE_FRAME_MAX \<and> (c = 0xFFFF \<or> c = cmd OR WIRE_CMD_RESPONSE_BIT)))"

lemma frame_for_error: "frame_for cmd req (build_error_frame_inplace req st)"
  unfolding frame_for_def
proof (intro allI impI)
  fix out :: bytes
  assume "length out = WIRE_FRAME_MAX"
  then show "\<exists>c st' pl. build_error_frame_inplace req st out =
      Some (frame_bytes req c st' pl @ drop (16 + length pl) out, 16 + length pl) \<and>
      16 + length pl \<le> WIRE_FRAME_MAX \<and> (c = 0xFFFF \<or> c = cmd OR WIRE_CMD_RESPONSE_BIT)"
    by (intro exI [of _ "0xFFFF"] exI [of _ "wire_status st"] exI [of _ "[]"])
       (simp add: build_error_frame_eq WIRE_FRAME_MAX_def)
qed

lemma frame_for_response:
  assumes "16 + length pl \<le> WIRE_FRAME_MAX"
  shows "frame_for (wire_cmd cmd) req (build_response_frame req cmd st pl)"
  using assms build_response_frame_eq [of pl _ req cmd st] by (auto simp: frame_for_def)

lemma frame_for_ping: "frame_for (wire_cmd WireCmd.Ping) req (handle_ping req)"
  using frame_for_response [of "[]" WireCmd.Ping req WireStatus.Ok]
  by (simp add: handle_ping_def [abs_def] WIRE_FRAME_MAX_def)

lemma frame_for_status:
  assumes "ring_ok rg"
  shows "frame_for (wire_cmd WireCmd.Status) req (handle_status rg req pl)"
proof (cases pl)
  case Nil
  have l: "length (audit_recent rg) \<le> 32" "length (concat (map event_bytes (audit_recent rg))) = 12 * length (audit_recent rg)"
    using audit_snapshot_recent [OF assms] by (auto dest!: in_set_takeD intro!: event_record.length_encs) (metis in_set_takeD)
  show ?thesis
    unfolding frame_for_def
  proof (intro allI impI)
    fix out :: bytes
    assume "length out = WIRE_FRAME_MAX"
    then show "\<exists>c st pl'. handle_status rg req pl out =
        Some (frame_bytes req c st pl' @ drop (16 + length pl') out, 16 + length pl') \<and>
        16 + length pl' \<le> WIRE_FRAME_MAX \<and>
        (c = 0xFFFF \<or> c = wire_cmd WireCmd.Status OR WIRE_CMD_RESPONSE_BIT)"
      using l handle_status_eq [OF assms, of out req] Nil
      by (intro exI [of _ "0x8080"] exI [of _ 0] exI [of _ "to_le 2 (of_nat (length (audit_recent rg)) :: u16) @
            to_le 4 (total rg) @ [0, 0] @ concat (map event_bytes (audit_recent rg))"])
         (simp add: wire_consts)
  qed
next
  case (Cons a list)
  then show ?thesis
    using frame_for_error by (simp add: handle_status_def [abs_def])
qed

text \<open>A response frame of \<open>n\<close> bytes for request \<open>req\<close> stands in slot \<open>me\<close>.\<close>

definition responded :: "nat \<Rightarrow> u16 \<Rightarrow> u32 \<Rightarrow> nat \<Rightarrow> ('m, 'd) kernel \<Rightarrow> bool" where
  "responded me cmd req n k \<longleftrightarrow>
     (\<exists>q c st pl. slot_bus (registry k ! me) = BusInstance.Ring3Process q \<and>
        take n (pending_response q) = frame_bytes req c st pl \<and> n = 16 + length pl \<and>
        n \<le> WIRE_FRAME_MAX \<and> (c = 0xFFFF \<or> c = cmd OR WIRE_CMD_RESPONSE_BIT))"

lemma put_response_frame_for:
  assumes "bus_inv k" "me < HSM_MAX_SLOTS" "bus_kind (slot_bus (registry k ! me)) = BusKind.Ring3Process"
    and "frame_for cmd req build"
  shows "\<exists>k' n. put_response me build k = Some (k', n) \<and> bus_frame k k' \<and> responded me cmd req n k'"
proof -
  obtain q where q: "slot_bus (registry k ! me) = BusInstance.Ring3Process q"
    using assms(3) by (cases "slot_bus (registry k ! me)") simp_all
  have len: "me < length (registry k)" "slot_ok (registry k ! me)"
    using assms(1,2) registry_okD by (auto simp: bus_inv_def)
  then have l: "length (pending_response q) = WIRE_FRAME_MAX" "r3_ok q" using q by (auto simp: slot_ok_def r3_ok_def)
  obtain c st pl where b: "build (pending_response q) =
      Some (frame_bytes req c st pl @ drop (16 + length pl) (pending_response q), 16 + length pl)"
      "16 + length pl \<le> WIRE_FRAME_MAX" "c = 0xFFFF \<or> c = cmd OR WIRE_CMD_RESPONSE_BIT"
    using assms(4) l(1) unfolding frame_for_def by blast
  let ?q = "q\<lparr>pending_response := frame_bytes req c st pl @ drop (16 + length pl) (pending_response q)\<rparr>"
  have "bus_same (slot_bus (registry k ! me)) (BusInstance.Ring3Process ?q)"
    using q l b(2) by (simp add: bus_same_def bus_is_open_def r3_ok_def)
  then show ?thesis
    using b q len bus_frame_set_bus [of k me "BusInstance.Ring3Process ?q"]
    by (auto simp: put_response_def responded_def)
qed

lemma bus_read_same:
  assumes "bus_ok b" "bus_read b out = Some (b', out', res)"
  shows "bus_same b b' \<and> length out' = length out"
proof -
  have "bus_ok b' \<and> length out' = length out" using bus_read_ok [OF assms(1), of out] assms(2) by auto
  moreover have "bus_kind b' = bus_kind b \<and> (b' = BusInstance.Empty \<longleftrightarrow> b = BusInstance.Empty) \<and>
      bus_is_open b' = bus_is_open b"
    using assms(2)
    by (cases b) (auto simp: bus_read_def sw_read_def r3_read_def bus_is_open_def Let_def
        split: Option.bind_splits if_splits prod.splits)
  ultimately show ?thesis by (simp add: bus_same_def)
qed

definition writes_ok :: "('m, 'd) slot_writer \<Rightarrow> nat \<Rightarrow> ('m, 'd) kernel \<Rightarrow> bool" where
  "writes_ok W n k \<longleftrightarrow> (\<forall>j d. j < HSM_MAX_SLOTS \<longrightarrow> length d < n \<longrightarrow>
     (\<exists>k1 w. W j d k = Some (k1, w) \<and> bus_frame k k1))"

lemma bus_inv_slot:
  assumes "bus_inv k" "j < HSM_MAX_SLOTS"
  shows "bus_ok (slot_bus (registry k ! j))" "j < length (registry k)"
  using assms registry_okD by (auto simp: bus_inv_def slot_ok_def)

lemma blake3_exchange_ok:
  assumes "bus_inv k" "j < HSM_MAX_SLOTS" "writes_ok W n k" "length input < n"
  shows "\<exists>k' digest ok. blake3_exchange W j input k = Some (k', digest, ok) \<and> bus_frame k k' \<and>
     length digest = 32"
proof -
  obtain k1 w where w: "W j input k = Some (k1, w)" "bus_frame k k1"
    using assms unfolding writes_ok_def by blast
  have "bus_ok (slot_bus (registry k1 ! j))"
    using bus_inv_slot(1) [OF bus_frame_inv [OF w(2) assms(1)] assms(2)] .
  then obtain b digest res where
    r: "bus_read (slot_bus (registry k1 ! j)) (replicate 32 0) = Some (b, digest, res)" "length digest = 32"
       "bus_same (slot_bus (registry k1 ! j)) b"
    using bus_read_ok [of _ "replicate 32 0"] bus_read_same by (metis length_replicate)
  show ?thesis
  proof (cases w)
    case (Inl e)
    then show ?thesis using w assms(2) by (auto simp: blake3_exchange_def slot_bus_mut_def)
  next
    case (Inr m)
    then show ?thesis
      using w r assms(2) bus_frame_trans [OF w(2) bus_frame_set_bus [OF r(3)]]
      by (simp add: blake3_exchange_def slot_bus_mut_def)
  qed
qed

lemma bus_frame_kind:
  "bus_frame k k' \<Longrightarrow> bus_inv k \<Longrightarrow> j < HSM_MAX_SLOTS \<Longrightarrow>
     bus_kind (slot_bus (registry k' ! j)) = bus_kind (slot_bus (registry k ! j))"
  using slot_frameD(6) [OF bus_frame_slot [of k k' j]] bus_inv_slot(2) [of k j] by (simp add: bus_same_def)

text \<open>A put response after a step of the same kind of frame.\<close>

lemma put_response_after:
  assumes "bus_inv k" "me < HSM_MAX_SLOTS" "bus_kind (slot_bus (registry k ! me)) = BusKind.Ring3Process"
    and "bus_frame k k1" "frame_for cmd req build"
  shows "\<exists>k' n. put_response me build k1 = Some (k', n) \<and> bus_frame k k' \<and> responded me cmd req n k'"
  using put_response_frame_for [OF bus_frame_inv [OF assms(4,1)] assms(2) _ assms(5)]
    bus_frame_kind [OF assms(4,1,2)] assms(3) bus_frame_trans [OF assms(4)] by auto

lemma handle_blake3_ok:
  assumes "bus_inv k" "me < HSM_MAX_SLOTS" "bus_kind (slot_bus (registry k ! me)) = BusKind.Ring3Process"
    and "writes_ok W (length pl) k"
  shows "\<exists>k' n. handle_blake3 W me req pl k = Some (k', n) \<and> bus_frame k k' \<and>
     responded me (wire_cmd WireCmd.Blake3Hash) req n k'"
proof (cases "length pl < 16 \<or> \<not> authenticate (registry k) (decode_hcap (take 16 pl)) USE")
  case True
  then show ?thesis
    using put_response_frame_for [OF assms(1-3) frame_for_error] by (auto simp: handle_blake3_def Let_def)
next
  case False
  then have "unat (hcap_slot (decode_hcap (take 16 pl))) < HSM_MAX_SLOTS" "length (drop 16 pl) < length pl"
    by (auto simp: authenticate_iff)
  then obtain k1 digest ok where
    x: "blake3_exchange W (unat (hcap_slot (decode_hcap (take 16 pl)))) (drop 16 pl) k = Some (k1, digest, ok)"
      "bus_frame k k1" "length digest = 32"
    using blake3_exchange_ok [OF assms(1) _ assms(4)] by blast
  show ?thesis
    using False x put_response_after [OF assms(1-3) x(2) frame_for_error]
      put_response_after [OF assms(1-3) x(2) frame_for_response [of digest WireCmd.Blake3Hash req WireStatus.Ok]]
    by (simp add: handle_blake3_def Let_def WIRE_FRAME_MAX_def)
qed

lemma handle_attest_submit_ok:
  assumes "platform_ok P" "bus_inv k" "me < HSM_MAX_SLOTS"
    and "bus_kind (slot_bus (registry k ! me)) = BusKind.Ring3Process"
  shows "\<exists>k' n. handle_attest_submit P me req pl k = Some (k', n) \<and> bus_frame k k' \<and>
     responded me (wire_cmd WireCmd.AttestSubmit) req n k'"
proof -
  obtain prefix where p: "pk_hash_prefix P (take MLDSA44_PK_LEN pl) = Some prefix" "length prefix = 4"
    using pk_hash_prefix_total [OF assms(1)] by blast
  have v: "verify_attest P (attest k) (take MLDSA44_PK_LEN pl) kind sig =
      Some (if attested P (attest k) (take MLDSA44_PK_LEN pl) kind sig then Inr () else Inl AttestError.AttestFailed)"
    if "length pl = WIRE_ATTEST_LEN" for kind sig
    using that assms(1,2) by (simp add: verify_attest_eq bus_inv_def WIRE_ATTEST_LEN_def)
  note e = put_response_frame_for [OF assms(2-4) frame_for_error]
  have a: "\<exists>k' n. put_response me build (k_audit_enqueue s x c prefix k) = Some (k', n) \<and> bus_frame k k' \<and>
      responded me cmd req n k'" if "frame_for cmd req build" for s x c cmd build
    by (rule put_response_after [OF assms(2-4) bus_frame_audit [OF p(2)] that])
  have "frame_for (wire_cmd WireCmd.AttestSubmit) req (build_response_frame req WireCmd.AttestSubmit WireStatus.Ok [])"
    by (rule frame_for_response) (simp add: WIRE_FRAME_MAX_def)
  then show ?thesis
    using p v e a [OF frame_for_error] a
    by (simp add: handle_attest_submit_def Let_def del: wire_cmd.simps)
qed

lemma r3_dispatch_ok:
  assumes "platform_ok P" "bus_inv k" "me < HSM_MAX_SLOTS"
    and "bus_kind (slot_bus (registry k ! me)) = BusKind.Ring3Process" "writes_ok W (length pl) k"
  shows "\<exists>k' n. r3_dispatch P W me hdr pl k = Some (k', n) \<and> bus_frame k k' \<and>
     responded me (wh_cmd hdr) (wh_req_id hdr) n k'"
proof -
  have "ring_ok (kaudit k)" using assms(2) by (simp add: bus_inv_def)
  note p = put_response_frame_for [OF assms(2-4)]
  show ?thesis
    using handle_blake3_ok [OF assms(2-5)] handle_attest_submit_ok [OF assms(1-4)]
      p [OF frame_for_ping] p [OF frame_for_status [OF \<open>ring_ok (kaudit k)\<close>]] p [OF frame_for_error]
    unfolding r3_dispatch_def by (simp del: wire_cmd.simps split: if_split)
qed

lemma set_response_len_ok:
  assumes "bus_inv k" "me < HSM_MAX_SLOTS" "slot_bus (registry k ! me) = BusInstance.Ring3Process q"
    and "n \<le> WIRE_FRAME_MAX"
  shows "bus_frame k (set_response_len me n k) \<and>
     slot_bus (registry (set_response_len me n k) ! me) = BusInstance.Ring3Process (q\<lparr>response_len := of_nat n\<rparr>)"
proof -
  have "bus_same (slot_bus (registry k ! me)) (BusInstance.Ring3Process (q\<lparr>response_len := of_nat n\<rparr>))"
    using assms(3,4) by (simp add: bus_same_def bus_is_open_def r3_ok_def WIRE_FRAME_MAX_def unat_of_nat)
  from bus_frame_set_bus [OF this] show ?thesis
    using assms(3) bus_inv_slot(2) [OF assms(1,2)] by (simp add: set_response_len_def)
qed

definition r3_accepts :: "Ring3ProcessBus \<Rightarrow> bytes \<Rightarrow> bool" where
  "r3_accepts q data \<longleftrightarrow> 16 \<le> length data \<and> length data \<le> WIRE_FRAME_MAX \<and> response_len q = 0 \<and>
     frame_acceptable (parse_header (take 16 data)) data"

lemma r3_write_ok:
  assumes "platform_ok P" "bus_inv k" "me < HSM_MAX_SLOTS"
    and q: "slot_bus (registry k ! me) = BusInstance.Ring3Process q" "r3_open_state q"
    and "writes_ok W (length data) k"
  shows "if r3_accepts q data
    then \<exists>k' q' n. r3_write P W me q data k = Some (k', Inr (length data)) \<and> bus_frame k k' \<and>
       slot_bus (registry k' ! me) = BusInstance.Ring3Process q' \<and> response_len q' = of_nat n \<and>
       responded me (wh_cmd (parse_header (take 16 data))) (wh_req_id (parse_header (take 16 data))) n k'
    else r3_write P W me q data k = Some (k, Inl BusError.Internal)"
proof (cases "r3_accepts q data")
  case True
  let ?hdr = "parse_header (take 16 data)"
  let ?pl = "take (unat (wh_payload_len ?hdr)) (drop 16 data)"
  have "writes_ok W (length ?pl) k" using assms(6) by (auto simp: writes_ok_def)
  with r3_dispatch_ok [OF assms(1-3)] q obtain k1 n where
    d: "r3_dispatch P W me ?hdr ?pl k = Some (k1, n)" "bus_frame k k1"
       "responded me (wh_cmd ?hdr) (wh_req_id ?hdr) n k1"
    by fastforce
  then obtain q1 where q1: "slot_bus (registry k1 ! me) = BusInstance.Ring3Process q1" "n \<le> WIRE_FRAME_MAX"
    by (auto simp: responded_def)
  note len = set_response_len_ok [OF bus_frame_inv [OF d(2) assms(2)] assms(3) q1]
  have "slice data 16 (16 + unat (wh_payload_len ?hdr)) = Some ?pl"
    using True by (simp add: r3_accepts_def frame_acceptable_def slice_def)
  then have "r3_write P W me q data k = Some (set_response_len me n k1, Inr (length data))"
    using True q d(1) by (simp add: r3_write_def r3_accepts_def Let_def)
  moreover have "responded me (wh_cmd ?hdr) (wh_req_id ?hdr) n (set_response_len me n k1)"
    using d(3) len q1 by (auto simp: responded_def)
  ultimately show ?thesis using True len bus_frame_trans [OF d(2)] by auto
qed (use q(2) in \<open>auto simp: r3_write_def r3_accepts_def Let_def\<close>)

lemma slot_write_ok:
  assumes "platform_ok P" "bus_inv k" "me < HSM_MAX_SLOTS"
  shows "\<exists>k' res. slot_write P me data k = Some (k', res) \<and> bus_frame k k'"
  using assms
proof (induction P me data k rule: slot_write.induct)
  case (1 P me data k)
  show ?case
  proof (cases "slot_bus (registry k ! me)")
    case (Software s)
    then obtain s1 res where w: "sw_write P data s = Some (s1, res)" "sw_ok s1"
      using sw_write_ok [OF _ 1(2), of s data] bus_inv_slot(1) [OF 1(3,4)] by auto
    have "sw_open_state s1 = sw_open_state s"
      using w(1) by (auto simp: sw_write_def sw_write_echo_def sw_write_blake3_def sw_write_aes_def Let_def
          split: if_splits SoftHsmRole.splits option.splits Option.bind_splits prod.splits)
    then have "bus_same (slot_bus (registry k ! me)) (BusInstance.Software s1)"
      using w(2) Software by (simp add: bus_same_def bus_is_open_def)
    then show ?thesis
      using w Software bus_frame_set_bus [of k me "BusInstance.Software s1"]
      by (simp add: slot_write.simps [of P me data k])
  next
    case (Ring3Process q)
    have "writes_ok (slot_write P) (length data) k"
      using 1 Ring3Process by (simp add: writes_ok_def)
    then show ?thesis
      using r3_write_ok [OF 1(2-4) Ring3Process _ \<open>writes_ok _ _ _\<close>] Ring3Process
      by (cases "r3_open_state q")
         (auto simp: slot_write.simps [of P me data k] r3_write_def split: if_splits)
  qed (simp_all add: slot_write.simps [of P me data k])
qed

subsection \<open>The request and response protocol\<close>

lemma pending_read:
  assumes "r3_ok q" "r3_open_state q" "response_len q = of_nat n" "0 < n" "n \<le> WIRE_FRAME_MAX"
  shows "bus_read (BusInstance.Ring3Process q) (replicate WIRE_FRAME_MAX 0) =
    Some (BusInstance.Ring3Process (q\<lparr>pending_response := replicate WIRE_FRAME_MAX 0, response_len := 0\<rparr>),
          take n (pending_response q) @ replicate (WIRE_FRAME_MAX - n) 0, Inr n)"
proof -
  have u: "unat (of_nat n :: u16) = n" using assms(5) by (simp add: WIRE_FRAME_MAX_def unat_of_nat)
  then have "(of_nat n :: u16) \<noteq> 0" using assms(4) by (metis less_irrefl unat_0)
  then show ?thesis
    using assms u by (simp add: bus_read_def r3_read_def r3_ok_def Let_def)
qed

text \<open>C7: a Ring 3 slot handles one request at a time. A frame is accepted when it is well-formed and
  no response is pending; then exactly one response frame for the same request identifier stands in
  the slot, a read with a large enough buffer returns it and erases it, and only buses and the audit
  log changed. Any other frame is refused and changes nothing, in particular not a response that is
  still to be fetched.\<close>

theorem wire_request_answered:
  assumes "platform_ok P" "bus_inv k" "me < HSM_MAX_SLOTS"
    and "slot_bus (registry k ! me) = BusInstance.Ring3Process q" "r3_open_state q"
  shows "if r3_accepts q data
    then \<exists>k' q' c st pl. slot_write P me data k = Some (k', Inr (length data)) \<and> bus_frame k k' \<and>
       bus_read (slot_bus (registry k' ! me)) (replicate WIRE_FRAME_MAX 0) =
         Some (BusInstance.Ring3Process q',
               frame_bytes (wh_req_id (parse_header (take 16 data))) c st pl @
                 replicate (WIRE_FRAME_MAX - 16 - length pl) 0,
               Inr (16 + length pl)) \<and>
       response_len q' = 0 \<and> pending_response q' = replicate WIRE_FRAME_MAX 0 \<and>
       (c = 0xFFFF \<or> c = wh_cmd (parse_header (take 16 data)) OR WIRE_CMD_RESPONSE_BIT)
    else slot_write P me data k = Some (k, Inl BusError.Internal)"
proof -
  have "writes_ok (slot_write P) (length data) k" using slot_write_ok [OF assms(1,2)] by (simp add: writes_ok_def)
  note w = r3_write_ok [OF assms this]
  have s: "slot_write P me data k = r3_write P (slot_write P) me q data k"
    using assms(4) by (simp add: slot_write.simps [of P me data k])
  show ?thesis
  proof (cases "r3_accepts q data")
    case True
    with w obtain k' q' n where
      k': "slot_write P me data k = Some (k', Inr (length data))" "bus_frame k k'"
        "slot_bus (registry k' ! me) = BusInstance.Ring3Process q'" "response_len q' = of_nat n"
        "responded me (wh_cmd (parse_header (take 16 data))) (wh_req_id (parse_header (take 16 data))) n k'"
      unfolding s by auto
    then obtain c st pl where
      r: "take n (pending_response q') = frame_bytes (wh_req_id (parse_header (take 16 data))) c st pl"
        "n = 16 + length pl" "n \<le> WIRE_FRAME_MAX"
        "c = 0xFFFF \<or> c = wh_cmd (parse_header (take 16 data)) OR WIRE_CMD_RESPONSE_BIT"
      by (auto simp: responded_def)
    have "r3_ok q'"
      using bus_inv_slot(1) [OF bus_frame_inv [OF k'(2) assms(2)] assms(3)] k'(3) by simp
    moreover have "r3_open_state q'"
      using slot_frameD(6) [OF bus_frame_slot [OF k'(2) bus_inv_slot(2) [OF assms(2,3)]]] assms(4,5) k'(3)
      by (simp add: bus_same_def bus_is_open_def)
    ultimately show ?thesis
      using True k'(1-3) r pending_read [OF _ _ k'(4), simplified] by fastforce
  qed (use w s in simp)
qed

text \<open>A well-formed request frame reaches its command handler with its payload.\<close>

lemma slot_write_request:
  assumes "slot_bus (registry k ! me) = BusInstance.Ring3Process q" "r3_open_state q" "response_len q = 0"
    and "length pl \<le> WIRE_PAYLOAD_MAX" "cmd AND WIRE_CMD_RESPONSE_BIT = 0" "cmd \<noteq> 0xFFFF"
  shows "slot_write P me (frame_bytes req cmd st pl) k =
    do { (k1, n) \<leftarrow> r3_dispatch P (slot_write P) me
           \<lparr>wh_magic = WIRE_MAGIC, wh_version = WIRE_VERSION, wh_cmd = cmd, wh_req_id = req,
            wh_payload_len = of_nat (length pl), wh_status = st\<rparr> pl k;
         Some (set_response_len me n k1, Inr (16 + length pl)) }"
proof -
  have u: "unat (of_nat (length pl) :: u16) = length pl" and l: "length pl < 2 ^ 16"
    using assms(4) by (simp_all add: wire_consts unat_of_nat)
  have "slice (frame_bytes req cmd st pl) 16 (16 + length pl) = Some pl"
    using parse_frame [OF l, of req cmd st] by simp
  then show ?thesis
    using assms parse_frame [OF l, of req cmd st] u
    by (simp add: slot_write.simps [of P me _ k] r3_write_def frame_acceptable_def Let_def wire_consts)
qed

lemma sw_blake3_exchange:
  assumes "sw_ok s" "sw_open_state s" "role s = Blake3" "platform_ok P" "p_blake3 P input = Some d"
  shows "\<exists>s1 s2. sw_write P input s = Some (s1, Inr 32) \<and> sw_read s1 (replicate 32 0) = Some (s2, d, Inr 32)"
  using assms platform_blake3 [OF assms(4,5)]
  by (simp add: sw_write_def sw_write_blake3_def sw_read_def sw_ok_def crate_sizes SW_BUS_BUF_def Let_def)

lemma blake3_exchange_hashes:
  assumes "bus_inv k" "platform_ok P" "j < HSM_MAX_SLOTS" "p_blake3 P input = Some d"
    and "slot_bus (registry k ! j) = BusInstance.Software s" "role s = Blake3" "sw_open_state s"
  shows "\<exists>b. blake3_exchange (slot_write P) j input k = Some (set_bus j b k, d, True) \<and>
    bus_kind b = BusKind.Software"
proof -
  have "sw_ok s" using bus_inv_slot(1) [OF assms(1,3)] assms(5) by simp
  then obtain s1 s2 where "sw_write P input s = Some (s1, Inr 32)"
      "sw_read s1 (replicate 32 0) = Some (s2, d, Inr 32)"
    using sw_blake3_exchange [OF _ assms(7,6,2,4)] by blast
  then show ?thesis
    using assms(3,5) bus_inv_slot(2) [OF assms(1,3)]
    by (intro exI [of _ "BusInstance.Software s2"])
       (simp add: blake3_exchange_def slot_bus_mut_def slot_write.simps [of P j input k] bus_read_def
         set_bus_def set_slot_bus_def)
qed

lemma blake3_dispatch:
  assumes "platform_ok P" "bus_inv k" "me < HSM_MAX_SLOTS"
    and "slot_bus (registry k ! me) = BusInstance.Ring3Process q"
    and "length (hcap_pad1 cap) = 3" "p_blake3 P input = Some d"
    and "slot_bus (registry k ! unat (hcap_slot cap)) = BusInstance.Software s" "role s = Blake3"
      "sw_open_state s" and "wh_cmd hdr = 0x10"
  defines "fr \<equiv> (if authenticate (registry k) cap USE then frame_bytes (wh_req_id hdr) 0x8010 0 d
     else frame_bytes (wh_req_id hdr) 0xFFFF 3 [])"
  shows "\<exists>k1. r3_dispatch P (slot_write P) me hdr (encode_hcap cap @ input) k = Some (k1, length fr) \<and>
      length (registry k1) = length (registry k) \<and> slot_bus (registry k1 ! me) =
        BusInstance.Ring3Process (q\<lparr>pending_response := fr @ drop (length fr) (pending_response q)\<rparr>)"
proof -
  have me: "me < length (registry k)" "length (pending_response q) = WIRE_FRAME_MAX"
    using bus_inv_slot [OF assms(2,3)] assms(4) by (simp_all add: r3_ok_def)
  have d: "length d = 32" by (rule platform_blake3 [OF assms(1,6)])
  have ne: "me \<noteq> unat (hcap_slot cap)" using assms(4,7) by auto
  show ?thesis
  proof (cases "authenticate (registry k) cap USE")
    case True
    then have "unat (hcap_slot cap) < HSM_MAX_SLOTS" by (simp add: authenticate_iff)
    then obtain b where x: "blake3_exchange (slot_write P) (unat (hcap_slot cap)) input k =
        Some (set_bus (unat (hcap_slot cap)) b k, d, True)"
      using blake3_exchange_hashes [OF assms(2,1) _ assms(6-9)] by blast
    show ?thesis
      using True x assms(4,5,10) me d ne
      by (simp add: fr_def r3_dispatch_def handle_blake3_def put_response_def build_response_frame_eq
          wire_consts)
  next
    case False
    then show ?thesis
      using assms(4,5,10) me
      by (simp add: fr_def r3_dispatch_def handle_blake3_def put_response_def build_error_frame_eq
          wire_consts)
  qed
qed

text \<open>The hash command. A capability in the frame that authenticates for use of a slot in the
  BLAKE3 role yields a response with the digest of the data that follows it; a capability that does
  not authenticate yields the error frame with status Denied. The response stands in the slot the
  request was written to.\<close>

theorem wire_blake3_digest:
  assumes "platform_ok P" "bus_inv k" "me < HSM_MAX_SLOTS"
    and "slot_bus (registry k ! me) = BusInstance.Ring3Process q" "r3_open_state q" "response_len q = 0"
    and "length (hcap_pad1 cap) = 3" "length input \<le> WIRE_PAYLOAD_MAX - 16" "p_blake3 P input = Some d"
    and "slot_bus (registry k ! unat (hcap_slot cap)) = BusInstance.Software s" "role s = Blake3"
      "sw_open_state s"
  shows "\<exists>k' q' fr. slot_write P me (frame_bytes req 0x10 st (encode_hcap cap @ input)) k =
       Some (k', Inr (32 + length input)) \<and>
     slot_bus (registry k' ! me) = BusInstance.Ring3Process q' \<and>
     fr = (if authenticate (registry k) cap USE then frame_bytes req 0x8010 0 d
           else frame_bytes req 0xFFFF 3 []) \<and>
     unat (response_len q') = length fr \<and> take (length fr) (pending_response q') = fr"
proof -
  let ?pl = "encode_hcap cap @ input"
  let ?hdr = "\<lparr>wh_magic = WIRE_MAGIC, wh_version = WIRE_VERSION, wh_cmd = 0x10, wh_req_id = req,
            wh_payload_len = of_nat (length ?pl), wh_status = st\<rparr>"
  define fr where "fr = (if authenticate (registry k) cap USE then frame_bytes req 0x8010 0 d
     else frame_bytes req 0xFFFF 3 [])"
  obtain k1 where k1: "r3_dispatch P (slot_write P) me ?hdr ?pl k = Some (k1, length fr)"
      "length (registry k1) = length (registry k)"
      "slot_bus (registry k1 ! me) =
        BusInstance.Ring3Process (q\<lparr>pending_response := fr @ drop (length fr) (pending_response q)\<rparr>)"
    using blake3_dispatch [OF assms(1-4,7,9-12), of ?hdr] by (auto simp: fr_def)
  moreover have "slot_write P me (frame_bytes req 0x10 st ?pl) k =
    do { (k1, n) \<leftarrow> r3_dispatch P (slot_write P) me ?hdr ?pl k;
         Some (set_response_len me n k1, Inr (16 + length ?pl)) }"
    using assms(7,8) by (intro slot_write_request [OF assms(4-6)]) (simp_all add: wire_consts)
  moreover have "unat (of_nat (length fr) :: u16) = length fr"
    using platform_blake3 [OF assms(1,9)] by (simp add: fr_def unat_of_nat)
  ultimately show ?thesis
    using assms(7) bus_inv_slot(2) [OF assms(2,3)] unfolding fr_def [symmetric]
    by (simp add: set_response_len_def)
qed

subsection \<open>A kernel with a Ring 3 slot and a hashing slot\<close>

definition demo_r3 :: Ring3ProcessBus where
  "demo_r3 = r3_new\<lparr>r3_open_state := True, endpoint := 1\<rparr>"

definition demo_hash_bus :: SoftwareBus where
  "demo_hash_bus = sw_new\<lparr>sw_open_state := True, role := Blake3\<rparr>"

definition demo_wire_kernel :: "(u64, u64) kernel" where
  "demo_wire_kernel = demo_kernel\<lparr>registry := registry_new
     [0 := slot_new\<lparr>slot_state := Attached, slot_token := 5, slot_rights := USE OR ENUMERATE OR REVOKE OR RELAY_SRC,
                      slot_bus := BusInstance.Software demo_hash_bus\<rparr>,
      1 := slot_new\<lparr>slot_state := Attached, slot_token := 6, slot_rights := USE OR RELAY_DST,
                      slot_bus := BusInstance.Ring3Process demo_r3\<rparr>]\<rparr>"

lemma demo_wire_ok: "kernel_ok demo_wire_kernel" "bus_inv demo_wire_kernel"
proof -
  have "registry_ok (registry demo_wire_kernel)"
    unfolding demo_wire_kernel_def
    by (simp, intro registry_ok_update registry_ok_new)
       (simp_all add: slot_ok_def slot_new_def sw_ok_def sw_new_def r3_ok_def r3_new_def demo_r3_def
         demo_hash_bus_def bus_is_open_def)
  then show "kernel_ok demo_wire_kernel" "bus_inv demo_wire_kernel"
    using demo_kernel_ok by (simp_all add: kernel_ok_def bus_inv_def demo_wire_kernel_def)
qed

lemma demo_wire_slots:
  "slot_bus (registry demo_wire_kernel ! 1) = BusInstance.Ring3Process demo_r3"
  "slot_bus (registry demo_wire_kernel ! 0) = BusInstance.Software demo_hash_bus"
  "r3_open_state demo_r3" "response_len demo_r3 = 0" "role demo_hash_bus = Blake3"
  "sw_open_state demo_hash_bus" "(1 :: nat) < HSM_MAX_SLOTS"
  "authenticate (registry demo_wire_kernel) demo_cap USE"
  by (simp_all add: demo_wire_kernel_def registry_new_def HSM_MAX_SLOTS_def demo_r3_def r3_new_def
      demo_hash_bus_def authenticate_iff demo_cap_def hsm_rights)

theorem wire_request_answered_witness:
  "\<exists>k'. slot_write demo_platform 1 (frame_bytes 77 0x01 0 []) demo_wire_kernel = Some (k', Inr 16) \<and>
    bus_frame demo_wire_kernel k'"
proof -
  have "r3_accepts demo_r3 (frame_bytes 77 0x01 0 [])"
    using demo_wire_slots(4) parse_frame [of "[]" 77 1 0]
    by (simp add: r3_accepts_def frame_acceptable_def wire_consts)
  then show ?thesis
    using wire_request_answered [OF demo_platform_ok demo_wire_ok(2) demo_wire_slots(7,1,3),
        of "frame_bytes 77 0x01 0 []"] by auto
qed

theorem wire_blake3_digest_witness:
  "\<exists>k'. slot_write demo_platform 1 (frame_bytes 9 0x10 0 (encode_hcap demo_cap @ [1, 2, 3])) demo_wire_kernel
     = Some (k', Inr 35) \<and>
   (\<exists>q'. slot_bus (registry k' ! 1) = BusInstance.Ring3Process q' \<and>
     take 48 (pending_response q') = frame_bytes 9 0x8010 0 (replicate 32 6))"
  using wire_blake3_digest [OF demo_platform_ok demo_wire_ok(2) demo_wire_slots(7,1,3,4), of demo_cap
      "[1, 2, 3]" "replicate 32 6" demo_hash_bus 9 0] demo_wire_slots(2,5,6,8) demo_cap_slot
  by (auto simp: demo_cap_def wire_consts sum_byte_def)

end
