(* ===== verification/HsmSyscalls.thy ===== *)
theory HsmSyscalls
  imports WireDispatch
begin

text \<open>
  The six system call handlers of \<^verbatim>\<open>src/src/hsm_registry.rs\<close>: attach, detach, enumerate, write,
  relay and read. Each takes the register snapshot and the kernel state, checks lengths and user
  pointers, copies between user memory and kernel buffers, authenticates the presented capability
  against the registry and acts on the slot; the result is the value of the return register. The
  argument \<open>tls_external\<close> is the build feature of that name. The stack buffers of the handlers are
  values of the definitions; they are gone when the handler returns.
\<close>

subsection \<open>Attach\<close>

text \<open>The first phase of attach: the transport from its register, with the network gate.\<close>

definition attach_bus_kind ::
  "bool \<Rightarrow> u64 \<Rightarrow> ('m, 'd) kernel \<Rightarrow> ('m, 'd) kernel \<times> (SyscallError + BusKind)" where
  "attach_bus_kind tls_external raw k =
     (if raw = 0 then (k, Inr BusKind.Software)
      else if raw = 1 then (k, Inr BusKind.Ring3Process)
      else if raw = 6 then
        (if tls_external then
           (if network_cap_state k \<noteq> Taken
            then (k_audit_enqueue 0xFF 2 6 [0, 0, 0, 0] k, Inl SyscallError.Denied)
            else (k, Inr BusKind.Network))
         else (k_audit_enqueue 0xFF 2 6 [0, 0, 0, 0] k, Inl SyscallError.Denied))
      else (k, Inl SyscallError.BadArg))"

definition ATTEST_EXACT :: u64 where
  "ATTEST_EXACT = of_nat (MLDSA44_PK_LEN + MLDSA44_SIG_LEN)"

definition HCAP_SIZE :: u64 where "HCAP_SIZE = 16"

definition attach_args_ok :: "SyscallContext \<Rightarrow> SyscallError + unit" where
  "attach_args_ok ctx =
     (let init_ptr = arg1 ctx; init_len = arg2 ctx; out_ptr = arg4 ctx;
          attest_ptr = arg3 ctx; attest_len = arg5 ctx
      in if of_nat MAX_BUS_INIT_BLOB < init_len then Inl SyscallError.BadArg
         else if attest_len \<noteq> ATTEST_EXACT then Inl SyscallError.BadArg
         else if 0 < init_len \<and> \<not> user_range_ok init_ptr init_len then Inl SyscallError.BadAddress
         else if \<not> user_range_ok out_ptr HCAP_SIZE then Inl SyscallError.BadAddress
         else if \<not> user_range_ok attest_ptr attest_len then Inl SyscallError.BadAddress
         else Inr ())"

definition ATTACH_RIGHTS :: HsmRights where
  "ATTACH_RIGHTS = USE OR ENUMERATE OR REVOKE OR RELAY_SRC OR RELAY_DST"

text \<open>The closure run with the attestation buffer: copy, fingerprint, attach.\<close>

definition attach_attested ::
  "('m, 'd) platform \<Rightarrow> BusKind \<Rightarrow> bytes \<Rightarrow> u64 \<Rightarrow> u64 \<Rightarrow> ('m, 'd) kernel \<Rightarrow>
     (('m, 'd) kernel \<times> (HsmCapError + HsmCapability) \<times> bytes) option" where
  "attach_attested P kind init_slice attest_ptr attest_len k =
     do {
       let n = unat attest_len;
       payload \<leftarrow> copy_from_user (umem k) attest_ptr n;
       abuf \<leftarrow> copy_into (attest_buf (attest k)) 0 n payload;
       let k1 = k\<lparr>attest := (attest k)\<lparr>attest_buf := abuf\<rparr>\<rparr>;
       payload_slice \<leftarrow> slice abuf 0 n;
       prefix \<leftarrow> pk_hash_prefix P (take MLDSA44_PK_LEN payload_slice);
       (k2, result) \<leftarrow> attach P kind init_slice (Some payload_slice) ATTACH_RIGHTS k1;
       Some (k2, result, prefix)
     }"

text \<open>The last phases of attach: the audit record, the error codes, and the capability to user memory.\<close>

definition attach_reply ::
  "BusKind \<Rightarrow> u64 \<Rightarrow> bytes \<Rightarrow> ('m, 'd) kernel \<Rightarrow> HsmCapError + HsmCapability \<Rightarrow>
     (('m, 'd) kernel \<times> u64) option" where
  "attach_reply kind out_ptr pk_prefix k attach_result =
     (case attach_result of
        Inr cap \<Rightarrow>
          do {
            let k1 = k_audit_enqueue (hcap_slot cap) 0 (bus_kind_octet kind) pk_prefix k;
            m \<leftarrow> copy_to_user (umem k1) out_ptr (encode_hcap cap);
            Some (k1\<lparr>umem := m\<rparr>, 0)
          }
      | Inl e \<Rightarrow>
          if e = HsmCapError.AttestFailed
          then Some (k_audit_enqueue 0xFF 1 (bus_kind_octet kind) pk_prefix k, as_rax SyscallError.Denied)
          else if e = HsmCapError.Full \<or> e = HsmCapError.BadInit then Some (k, as_rax SyscallError.BadArg)
          else Some (k, as_rax SyscallError.Internal))"

definition handle_attach ::
  "('m, 'd) platform \<Rightarrow> bool \<Rightarrow> SyscallContext \<Rightarrow> ('m, 'd) kernel \<Rightarrow> (('m, 'd) kernel \<times> u64) option" where
  "handle_attach P tls_external ctx k0 =
     (case attach_bus_kind tls_external (arg0 ctx) k0 of
        (k, Inl e) \<Rightarrow> Some (k, as_rax e)
      | (k, Inr kind) \<Rightarrow>
          (case attach_args_ok ctx of
             Inl e \<Rightarrow> Some (k, as_rax e)
           | Inr _ \<Rightarrow>
               do {
                 let n = unat (arg2 ctx);
                 init_kbuf \<leftarrow>
                   (if 0 < arg2 ctx
                    then do { blob \<leftarrow> copy_from_user (umem k) (arg1 ctx) n; copy_into (replicate MAX_BUS_INIT_BLOB 0) 0 n blob }
                    else Some (replicate MAX_BUS_INIT_BLOB 0));
                 init_slice \<leftarrow> slice init_kbuf 0 n;
                 (k1, attach_result, pk_prefix) \<leftarrow>
                   with_attest_buf (attach_attested P kind init_slice (arg3 ctx) (arg5 ctx)) k;
                 attach_reply kind (arg4 ctx) pk_prefix k1 attach_result
               }))"

subsection \<open>Detach and enumerate\<close>

definition user_hcap :: "umem \<Rightarrow> u64 \<Rightarrow> HsmCapability option" where
  "user_hcap m p = do { bs \<leftarrow> copy_from_user m p 16; Some (decode_hcap bs) }"

definition handle_detach ::
  "SyscallContext \<Rightarrow> ('m, 'd) kernel \<Rightarrow> (('m, 'd) kernel \<times> u64) option" where
  "handle_detach ctx k =
     (if arg2 ctx \<noteq> HCAP_SIZE then Some (k, as_rax SyscallError.BadArg)
      else if \<not> user_range_ok (arg0 ctx) (arg2 ctx) then Some (k, as_rax SyscallError.BadAddress)
      else do {
        cap \<leftarrow> user_hcap (umem k) (arg0 ctx);
        case detach cap REVOKE (registry k) of
          (ss, Inr _) \<Rightarrow> Some (k\<lparr>registry := ss\<rparr>, 0)
        | (ss, Inl e) \<Rightarrow>
            Some (k\<lparr>registry := ss\<rparr>,
              if e \<in> {HsmCapError.InvalidToken, HsmCapError.InvalidSlot, HsmCapError.NotAttached,
                      HsmCapError.Busy, HsmCapError.RightsMissing}
              then as_rax SyscallError.Denied else as_rax SyscallError.Internal)
      })"

definition handle_enumerate ::
  "SyscallContext \<Rightarrow> ('m, 'd) kernel \<Rightarrow> (('m, 'd) kernel \<times> u64) option" where
  "handle_enumerate ctx k =
     (if \<not> user_range_ok (arg0 ctx) HCAP_SIZE then Some (k, as_rax SyscallError.BadAddress)
      else do {
        cap \<leftarrow> user_hcap (umem k) (arg0 ctx);
        if \<not> authenticate (registry k) cap ENUMERATE then Some (k, as_rax SyscallError.Denied)
           else if of_nat HSM_MAX_SLOTS < arg2 ctx then Some (k, as_rax SyscallError.BadArg)
           else if \<not> user_range_ok (arg1 ctx) (sat_mul (arg2 ctx) 8)
           then Some (k, as_rax SyscallError.BadAddress)
           else do {
             let info_buf = replicate HSM_MAX_SLOTS slot_info_empty;
             let cap_elems = min (unat (arg2 ctx)) HSM_MAX_SLOTS;
             (out, n) \<leftarrow> enumerate_slots (registry k) (take cap_elems info_buf);
             let written = take (n * 8) (concat (map encode_info (out @ drop cap_elems info_buf)));
             m \<leftarrow> copy_to_user (umem k) (arg1 ctx) written;
             Some (k\<lparr>umem := m\<rparr>, of_nat n)
           }
      })"

subsection \<open>Write, relay and read\<close>

text \<open>The closure of a write run with the relay buffer: copy from user memory, then write the slot.\<close>

definition write_transfer ::
  "('m, 'd) platform \<Rightarrow> u64 \<Rightarrow> nat \<Rightarrow> nat \<Rightarrow> ('m, 'd) kernel \<Rightarrow>
     (('m, 'd) kernel \<times> (SyscallError + unit)) option" where
  "write_transfer P data_ptr data_len slot_idx k =
     do {
       user_data \<leftarrow> copy_from_user (umem k) data_ptr data_len;
       buf \<leftarrow> copy_into (relay_buf k) 0 data_len user_data;
       let k = k\<lparr>relay_buf := buf\<rparr>;
       data \<leftarrow> slice buf 0 data_len;
       case slot_bus_mut (registry k) slot_idx of
         Some _ \<Rightarrow>
           do {
             (k2, w) \<leftarrow> slot_write P slot_idx data k;
             Some (k2, case w of Inr _ \<Rightarrow> Inr () | Inl _ \<Rightarrow> Inl SyscallError.Internal)
           }
       | None \<Rightarrow> Some (k, Inl SyscallError.Internal)
     }"

definition handle_write ::
  "('m, 'd) platform \<Rightarrow> SyscallContext \<Rightarrow> ('m, 'd) kernel \<Rightarrow> (('m, 'd) kernel \<times> u64) option" where
  "handle_write P ctx k =
     (let data_len = unat (arg2 ctx)
      in if \<not> (data_len < CHAN_MAX + 1 \<and> data_len \<noteq> 0) then Some (k, as_rax SyscallError.BadArg)
         else if \<not> user_range_ok (arg0 ctx) HCAP_SIZE then Some (k, as_rax SyscallError.BadAddress)
         else if \<not> user_range_ok (arg1 ctx) (arg2 ctx) then Some (k, as_rax SyscallError.BadAddress)
         else do {
           cap \<leftarrow> user_hcap (umem k) (arg0 ctx);
           if \<not> authenticate (registry k) cap USE then Some (k, as_rax SyscallError.Denied)
              else do {
                let slot_idx = unat (hcap_slot cap);
                (k1, res) \<leftarrow> with_relay_buf (write_transfer P (arg1 ctx) data_len slot_idx) k;
                Some (k1, case res of Inr _ \<Rightarrow> 0 | Inl _ \<Rightarrow> as_rax SyscallError.Internal)
              }
         })"

text \<open>The transfer inside a relay: a read of the source slot into the relay buffer, then a write of
  the destination slot; a short read or write is an error.\<close>

definition relay_transfer ::
  "('m, 'd) platform \<Rightarrow> nat \<Rightarrow> nat \<Rightarrow> nat \<Rightarrow> ('m, 'd) kernel \<Rightarrow>
     (('m, 'd) kernel \<times> (SyscallError + unit)) option" where
  "relay_transfer P src_slot dst_slot byte_len k =
     (case slot_bus_mut (registry k) src_slot of
        None \<Rightarrow> Some (k, Inl SyscallError.Internal)
      | Some src \<Rightarrow>
          do {
            win \<leftarrow> slice (relay_buf k) 0 byte_len;
            (src', out, r) \<leftarrow> bus_read src win;
            let k1 = (set_bus src_slot src' k)\<lparr>relay_buf := out @ drop byte_len (relay_buf k)\<rparr>;
            case r of
              Inl _ \<Rightarrow> Some (k1, Inl SyscallError.Internal)
            | Inr n \<Rightarrow>
                if n \<noteq> byte_len then Some (k1, Inl SyscallError.Internal)
                else
                  (case slot_bus_mut (registry k1) dst_slot of
                     None \<Rightarrow> Some (k1, Inl SyscallError.Internal)
                   | Some _ \<Rightarrow>
                       do {
                         data \<leftarrow> slice (relay_buf k1) 0 byte_len;
                         (k2, w) \<leftarrow> slot_write P dst_slot data k1;
                         Some (k2, case w of
                            Inl _ \<Rightarrow> Inl SyscallError.Internal
                          | Inr m \<Rightarrow> if m \<noteq> byte_len then Inl SyscallError.Internal else Inr ())
                       })
          })"

definition handle_relay ::
  "('m, 'd) platform \<Rightarrow> SyscallContext \<Rightarrow> ('m, 'd) kernel \<Rightarrow> (('m, 'd) kernel \<times> u64) option" where
  "handle_relay P ctx k =
     (let byte_len = unat (arg2 ctx)
      in if \<not> (byte_len < CHAN_MAX + 1 \<and> byte_len \<noteq> 0) then Some (k, as_rax SyscallError.BadArg)
         else if \<not> user_range_ok (arg0 ctx) HCAP_SIZE then Some (k, as_rax SyscallError.BadAddress)
         else if \<not> user_range_ok (arg1 ctx) HCAP_SIZE then Some (k, as_rax SyscallError.BadAddress)
         else do {
           src_cap \<leftarrow> user_hcap (umem k) (arg0 ctx);
           dst_cap \<leftarrow> user_hcap (umem k) (arg1 ctx);
           let src_ok = authenticate (registry k) src_cap RELAY_SRC;
           let dst_ok = authenticate (registry k) dst_cap RELAY_DST;
           if \<not> (src_ok \<and> dst_ok) then Some (k, as_rax SyscallError.Denied)
              else do {
                (k1, res) \<leftarrow> with_relay_buf
                  (relay_transfer P (unat (hcap_slot src_cap)) (unat (hcap_slot dst_cap)) byte_len) k;
                Some (k1, case res of Inr _ \<Rightarrow> 0 | Inl _ \<Rightarrow> as_rax SyscallError.Internal)
              }
         })"

definition handle_read ::
  "SyscallContext \<Rightarrow> ('m, 'd) kernel \<Rightarrow> (('m, 'd) kernel \<times> u64) option" where
  "handle_read ctx k =
     (let out_len = unat (arg2 ctx)
      in if \<not> (out_len < WIRE_FRAME_MAX + 1 \<and> 15 < out_len) then Some (k, as_rax SyscallError.BadArg)
         else if \<not> user_range_ok (arg0 ctx) HCAP_SIZE then Some (k, as_rax SyscallError.BadAddress)
         else if \<not> user_range_ok (arg1 ctx) (arg2 ctx) then Some (k, as_rax SyscallError.BadAddress)
         else do {
           cap \<leftarrow> user_hcap (umem k) (arg0 ctx);
           if \<not> authenticate (registry k) cap USE then Some (k, as_rax SyscallError.Denied)
              else do {
                let slot_idx = unat (hcap_slot cap);
                win \<leftarrow> slice (replicate WIRE_FRAME_MAX 0) 0 out_len;
                (k1, staging, res) \<leftarrow>
                  (case slot_bus_mut (registry k) slot_idx of
                     Some b \<Rightarrow> do { (b', out, r) \<leftarrow> bus_read b win; Some (set_bus slot_idx b' k, out, r) }
                   | None \<Rightarrow> Some (k, win, Inl BusError.Internal));
                case res of
                  Inl _ \<Rightarrow> Some (k1, as_rax SyscallError.Internal)
                | Inr n \<Rightarrow>
                    do {
                      out \<leftarrow> slice (staging @ replicate (WIRE_FRAME_MAX - out_len) 0) 0 n;
                      m \<leftarrow> copy_to_user (umem k1) (arg1 ctx) out;
                      Some (k1\<lparr>umem := m\<rparr>, of_nat n)
                    }
              }
         })"

subsection \<open>Every handler keeps the kernel invariant and kernel memory\<close>

text \<open>
  The effect of a call on the parts that no HSM call may touch: memory outside the user half, the
  mapping of the user half, the boot capabilities, the IPC endpoints, the signing session and the trust root.
\<close>

definition sys_safe :: "('m, 'd) kernel \<Rightarrow> ('m, 'd) kernel \<Rightarrow> bool" where
  "sys_safe k k' \<longleftrightarrow> kernel_ok k' \<and> umem_frame (umem k) (umem k') \<and>
     audit_read_cap k' = audit_read_cap k \<and> audit_cap_state k' = audit_cap_state k \<and>
     network_attach_cap k' = network_attach_cap k \<and> network_cap_state k' = network_cap_state k \<and>
     ipc (services k') = ipc (services k) \<and> sign (services k') = sign (services k) \<and>
     active_trust_root_pk (attest k') = active_trust_root_pk (attest k) \<and>
     boot_challenge (attest k') = boot_challenge (attest k)"

text \<open>
  The authority that the registry has handed out: for every attached slot its token, its rights and
  its transport.
\<close>

type_synonym authority = "nat \<rightharpoonup> u64 \<times> HsmRights \<times> BusKind"

definition grants :: "HsmSlot list \<Rightarrow> authority" where
  "grants ss i =
     (if i < HSM_MAX_SLOTS \<and> slot_state (ss ! i) = Attached
      then Some (slot_token (ss ! i), slot_rights (ss ! i), bus_kind (slot_bus (ss ! i))) else None)"

definition sys_keep :: "('m, 'd) kernel \<Rightarrow> ('m, 'd) kernel \<Rightarrow> bool" where
  "sys_keep k k' \<longleftrightarrow> sys_safe k k' \<and> grants (registry k') = grants (registry k)"

lemma sys_safe_refl [simp]: "kernel_ok k \<Longrightarrow> sys_safe k k"
  by (simp add: sys_safe_def)

lemma sys_keep_refl [simp]: "kernel_ok k \<Longrightarrow> sys_keep k k"
  by (simp add: sys_keep_def)

lemma sys_safe_trans: "sys_safe a b \<Longrightarrow> sys_safe b c \<Longrightarrow> sys_safe a c"
  using umem_frame_trans by (auto simp: sys_safe_def)

lemma bus_frame_grants:
  assumes "bus_frame k k'" "registry_ok (registry k)"
  shows "grants (registry k') = grants (registry k)"
  using slot_frameD [OF bus_frame_slot [OF assms(1)]] registry_okD(2) [OF assms(2)]
  by (auto simp: grants_def bus_same_def fun_eq_iff)

lemma kernel_ok_iff:
  "kernel_ok k \<longleftrightarrow> bus_inv k \<and> relay_buf k = replicate CHAN_MAX 0 \<and>
     attest_buf (attest k) = replicate ATTEST_BUF_MAX 0 \<and>
     length (hcap_pad1 (audit_read_cap k)) = 3 \<and> length (hcap_pad1 (network_attach_cap k)) = 3"
  by (auto simp: kernel_ok_def bus_inv_def)

lemma bus_inv_relay [simp]: "bus_inv (k\<lparr>relay_buf := b\<rparr>) = bus_inv k"
  by (simp add: bus_inv_def)

lemma k_rest_relay [simp]: "k_rest (k\<lparr>relay_buf := b\<rparr>) = (k_rest k)\<lparr>relay_buf := b\<rparr>"
  by (simp add: k_rest_def set_rng_def)

lemma bus_frame_relay: "bus_frame k k' \<Longrightarrow> bus_frame (k\<lparr>relay_buf := b\<rparr>) (k'\<lparr>relay_buf := b\<rparr>)"
  by (simp add: bus_frame_def)

lemma relay_frame_keep:
  assumes "kernel_ok k" "bus_frame (k\<lparr>relay_buf := buf\<rparr>) k'" "length buf = CHAN_MAX"
  shows "sys_keep k (k'\<lparr>relay_buf := replicate (length (relay_buf k')) 0\<rparr>)"
proof -
  have r: "k_rest k' = k_rest (k\<lparr>relay_buf := buf\<rparr>)" using assms(2) by (simp add: bus_frame_def)
  have "bus_inv k'" using bus_frame_inv [OF assms(2)] assms(1) by (simp add: kernel_ok_iff)
  then show ?thesis
    using assms(1,3) k_rest_fields [OF r] bus_frame_grants [OF assms(2)]
    by (simp add: sys_keep_def sys_safe_def kernel_ok_iff bus_inv_def)
qed

lemma frame_keep:
  assumes "kernel_ok k" "bus_frame k k'"
  shows "sys_keep k k'"
proof -
  have r: "k_rest k' = k_rest k" using assms(2) by (simp add: bus_frame_def)
  have "bus_inv k'" using bus_frame_inv [OF assms(2)] assms(1) by (simp add: kernel_ok_iff)
  then show ?thesis
    using assms(1) k_rest_fields [OF r] bus_frame_grants [OF assms(2)]
    by (simp add: sys_keep_def sys_safe_def kernel_ok_iff bus_inv_def)
qed

lemma with_relay_buf_ok:
  assumes "kernel_ok k" "f k = Some (k1, r)"
  shows "with_relay_buf f k = Some (k1\<lparr>relay_buf := replicate (length (relay_buf k1)) 0\<rparr>, r)"
proof -
  have "k\<lparr>relay_buf := replicate (length (relay_buf k)) 0\<rparr> = k" using assms(1) by (simp add: kernel_ok_def)
  then show ?thesis using assms(2) by (simp add: with_relay_buf_def)
qed

lemma user_write_keep:
  assumes "sys_keep k k1" "user_range_ok p len" "length bs \<le> unat len"
  shows "sys_keep k (k1\<lparr>umem := user_store (umem k1) p bs\<rparr>)"
  using assms umem_frame_store [OF assms(2,3)] umem_frame_trans
  by (auto simp: sys_keep_def sys_safe_def kernel_ok_def)

text \<open>
  A call either returns, in a state that satisfies \<open>R\<close>, or it does not return, which cannot happen when
  the user memory that it accesses is mapped (\<open>mapped\<close>).
\<close>

definition settles :: "bool \<Rightarrow> ('k \<Rightarrow> bool) \<Rightarrow> ('k \<times> u64) option \<Rightarrow> bool" where
  "settles mapped R res = (case res of None \<Rightarrow> \<not> mapped | Some (k', r) \<Rightarrow> R k')"

lemma settles_simps [simp]: "settles mapped R None \<longleftrightarrow> \<not> mapped" "settles mapped R (Some (k', r)) \<longleftrightarrow> R k'"
  by (simp_all add: settles_def)

definition hcap_at :: "umem \<Rightarrow> u64 \<Rightarrow> HsmCapability" where
  "hcap_at m p = decode_hcap (user_bytes m p 16)"

lemma user_hcap_eq: "user_hcap m p = (if user_readable m p 16 then Some (hcap_at m p) else None)"
  by (simp add: user_hcap_def hcap_at_def copy_from_user_def)

lemma registry_safe:
  "kernel_ok k \<Longrightarrow> registry_ok ss \<Longrightarrow> sys_safe k (k\<lparr>registry := ss\<rparr>)"
  by (simp add: sys_safe_def kernel_ok_def)

lemma handle_enumerate_keep:
  assumes "kernel_ok k"
  shows "settles (user_readable (umem k) (arg0 ctx) 16 \<and> user_writable (umem k) (arg1 ctx) (min (unat (arg2 ctx)) 8 * 8))
     (sys_keep k) (handle_enumerate ctx k)"
proof (cases "of_nat HSM_MAX_SLOTS < arg2 ctx \<or> \<not> user_range_ok (arg1 ctx) (sat_mul (arg2 ctx) 8)")
  case True
  then show ?thesis using assms by (auto simp: handle_enumerate_def user_hcap_eq Let_def)
next
  case False
  define n where "n = unat (arg2 ctx)"
  have n: "n \<le> 8" "unat (sat_mul (arg2 ctx) 8) = n * 8"
    using False by (simp_all add: n_def HSM_MAX_SLOTS_def word_less_nat_alt sat_mul_def unat_word_ariths)
  let ?i = "attached_infos 0 (take n (registry k))"
  let ?w = "take (length ?i * 8) (concat (map encode_info
      (?i @ drop (length ?i) (replicate n slot_info_empty) @ drop n (replicate HSM_MAX_SLOTS slot_info_empty))))"
  have "length ?i \<le> n" using length_attached_infos [of 0 "take n (registry k)"] by simp
  then have l: "length ?w \<le> n * 8" by simp
  have "handle_enumerate ctx k =
     (if \<not> user_range_ok (arg0 ctx) HCAP_SIZE then Some (k, as_rax SyscallError.BadAddress)
      else if \<not> user_readable (umem k) (arg0 ctx) 16 then None
      else if \<not> authenticate (registry k) (hcap_at (umem k) (arg0 ctx)) ENUMERATE then Some (k, as_rax SyscallError.Denied)
      else if user_writable (umem k) (arg1 ctx) (length ?w)
      then Some (k\<lparr>umem := user_store (umem k) (arg1 ctx) ?w\<rparr>, of_nat (length ?i)) else None)"
    using False n(1) by (simp add: handle_enumerate_def enumerate_slots_eq user_hcap_eq copy_to_user_def Let_def
        n_def [symmetric] HSM_MAX_SLOTS_def min_absorb1 del: map_append concat_append map_replicate)
  then obtain w m where l: "length w \<le> n * 8" and e: "handle_enumerate ctx k =
     (if \<not> user_range_ok (arg0 ctx) HCAP_SIZE then Some (k, as_rax SyscallError.BadAddress)
      else if \<not> user_readable (umem k) (arg0 ctx) 16 then None
      else if \<not> authenticate (registry k) (hcap_at (umem k) (arg0 ctx)) ENUMERATE then Some (k, as_rax SyscallError.Denied)
      else if user_writable (umem k) (arg1 ctx) (length w)
      then Some (k\<lparr>umem := user_store (umem k) (arg1 ctx) w\<rparr>, of_nat m) else None)"
    using l by blast
  have "sys_keep k (k\<lparr>umem := user_store (umem k) (arg1 ctx) w\<rparr>)"
    using user_write_keep [OF sys_keep_refl [OF assms], of "arg1 ctx" "sat_mul (arg2 ctx) 8" w] False l n(2) by simp
  moreover have "user_writable (umem k) (arg1 ctx) (length w)" if "user_writable (umem k) (arg1 ctx) (n * 8)"
    using user_access_mono(2) [OF that l] .
  ultimately show ?thesis
    using assms n(1) unfolding e by (auto simp: n_def [symmetric] min_absorb1)
qed

lemma auth_slot: "authenticate ss cap rq \<Longrightarrow> unat (hcap_slot cap) < HSM_MAX_SLOTS"
  by (simp add: authenticate_iff)

lemma relay_bind:
  assumes "kernel_ok k" "f k = Some (k1, r)" "bus_frame (k\<lparr>relay_buf := buf\<rparr>) k1" "length buf = CHAN_MAX"
  shows "\<exists>k'. with_relay_buf f k = Some (k', r) \<and> sys_keep k k' \<and> registry k' = registry k1 \<and> umem k' = umem k"
  using with_relay_buf_ok [where f = f, OF assms(1,2)] relay_frame_keep [OF assms(1,3,4)]
    k_rest_fields(3) [of k1 "k\<lparr>relay_buf := buf\<rparr>"] assms(3)
  by (auto simp: bus_frame_def)

lemma write_transfer_ok:
  assumes "platform_ok P" "kernel_ok k" "n \<le> CHAN_MAX" "i < HSM_MAX_SLOTS" "user_readable (umem k) p n"
  shows "\<exists>k1 w buf. write_transfer P p n i k = Some (k1, case w of Inr _ \<Rightarrow> Inr () | Inl _ \<Rightarrow> Inl SyscallError.Internal) \<and>
    length buf = CHAN_MAX \<and> bus_frame (k\<lparr>relay_buf := buf\<rparr>) k1 \<and>
    slot_write P i (user_bytes (umem k) p n) (k\<lparr>relay_buf := buf\<rparr>) = Some (k1, w)"
proof -
  let ?d = "user_bytes (umem k) p n"
  let ?buf = "?d @ replicate (CHAN_MAX - n) 0"
  have "bus_inv (k\<lparr>relay_buf := ?buf\<rparr>)" using assms(2) by (simp add: kernel_ok_iff)
  then obtain k1 w where w: "slot_write P i ?d (k\<lparr>relay_buf := ?buf\<rparr>) = Some (k1, w)"
      "bus_frame (k\<lparr>relay_buf := ?buf\<rparr>) k1"
    using slot_write_ok [OF assms(1) _ assms(4)] by blast
  have "relay_buf k = replicate CHAN_MAX 0" using assms(2) by (simp add: kernel_ok_def)
  then have "write_transfer P p n i k = Some (k1, case w of Inr _ \<Rightarrow> Inr () | Inl _ \<Rightarrow> Inl SyscallError.Internal)"
    using assms(3-5) w(1) by (simp add: write_transfer_def copy_from_user_def slot_bus_mut_def)
  then show ?thesis using w assms(3) by (intro exI [of _ k1] exI [of _ w] exI [of _ ?buf]) simp
qed

lemma with_relay_buf_none:
  assumes "kernel_ok k" "f k = None"
  shows "with_relay_buf f k = None"
proof -
  have "k\<lparr>relay_buf := replicate (length (relay_buf k)) 0\<rparr> = k" using assms(1) by (simp add: kernel_ok_def)
  then show ?thesis using assms(2) by (simp add: with_relay_buf_def)
qed

lemma handle_write_keep:
  assumes "platform_ok P" "kernel_ok k"
  shows "settles (user_readable (umem k) (arg0 ctx) 16 \<and> user_readable (umem k) (arg1 ctx) (min (unat (arg2 ctx)) CHAN_MAX))
     (sys_keep k) (handle_write P ctx k)"
proof (cases "unat (arg2 ctx) \<le> CHAN_MAX \<and> authenticate (registry k) (hcap_at (umem k) (arg0 ctx)) USE")
  case True
  let ?n = "unat (arg2 ctx)"
  let ?f = "write_transfer P (arg1 ctx) ?n (unat (hcap_slot (hcap_at (umem k) (arg0 ctx))))"
  have e: "handle_write P ctx k =
     (if ?n = 0 then Some (k, as_rax SyscallError.BadArg)
      else if \<not> user_range_ok (arg0 ctx) HCAP_SIZE then Some (k, as_rax SyscallError.BadAddress)
      else if \<not> user_range_ok (arg1 ctx) (arg2 ctx) then Some (k, as_rax SyscallError.BadAddress)
      else if \<not> user_readable (umem k) (arg0 ctx) 16 then None
      else do { (k1, res) \<leftarrow> with_relay_buf ?f k; Some (k1, case res of Inr _ \<Rightarrow> 0 | Inl _ \<Rightarrow> as_rax SyscallError.Internal) })"
    using True by (simp add: handle_write_def user_hcap_eq Let_def)
  have n: "min ?n CHAN_MAX = ?n" using True by simp
  show ?thesis
  proof (cases "user_readable (umem k) (arg1 ctx) ?n")
    case readable: True
    obtain k1 buf and w :: "BusError + nat" where
        w: "?f k = Some (k1, case w of Inr _ \<Rightarrow> Inr () | Inl _ \<Rightarrow> Inl SyscallError.Internal)"
        "length buf = CHAN_MAX" "bus_frame (k\<lparr>relay_buf := buf\<rparr>) k1"
      using write_transfer_ok [OF assms conjunct1 [OF True] auth_slot [OF conjunct2 [OF True]] readable] by blast
    obtain k' where "with_relay_buf ?f k = Some (k', case w of Inr _ \<Rightarrow> Inr () | Inl _ \<Rightarrow> Inl SyscallError.Internal)"
        "sys_keep k k'"
      using relay_bind [where f = ?f, OF assms(2) w(1,3,2)] by blast
    then show ?thesis using assms(2) unfolding e n by simp
  next
    case False
    then have "?f k = None" by (simp add: write_transfer_def copy_from_user_def)
    then have "with_relay_buf ?f k = None" by (rule with_relay_buf_none [OF assms(2)])
    then show ?thesis using False assms(2) unfolding e n by simp
  qed
qed (use assms(2) in \<open>auto simp: handle_write_def user_hcap_eq Let_def\<close>)

lemma relay_transfer_ok:
  assumes "platform_ok P" "kernel_ok k" "n \<le> CHAN_MAX" "i < HSM_MAX_SLOTS" "j < HSM_MAX_SLOTS"
  shows "\<exists>k1 r buf. relay_transfer P i j n k = Some (k1, r) \<and> length buf = CHAN_MAX \<and>
    bus_frame (k\<lparr>relay_buf := buf\<rparr>) k1"
proof -
  have inv: "bus_inv k" "relay_buf k = replicate CHAN_MAX 0" using assms(2) by (simp_all add: kernel_ok_iff)
  note b = bus_inv_slot(1) [OF inv(1) assms(4)]
  obtain src' out r where r: "bus_read (slot_bus (registry k ! i)) (replicate n 0) = Some (src', out, r)"
      "length out = n"
    using bus_read_ok [OF b, of "replicate n 0"] by auto
  let ?buf = "out @ replicate (CHAN_MAX - n) 0"
  let ?k1 = "(set_bus i src' k)\<lparr>relay_buf := ?buf\<rparr>"
  have f: "bus_frame (k\<lparr>relay_buf := ?buf\<rparr>) ?k1" "length ?buf = CHAN_MAX"
    using bus_frame_relay [OF bus_frame_set_bus] bus_read_same [OF b r(1)] r(2) assms(3) by auto
  then have "bus_inv ?k1" using bus_frame_inv [OF f(1)] inv(1) by simp
  then obtain k2 w where w: "slot_write P j out ?k1 = Some (k2, w)" "bus_frame ?k1 k2"
    using slot_write_ok [OF assms(1) _ assms(5)] by blast
  have x: "relay_transfer P i j n k = (case r of Inl _ \<Rightarrow> Some (?k1, Inl SyscallError.Internal)
     | Inr m \<Rightarrow> if m \<noteq> n then Some (?k1, Inl SyscallError.Internal)
         else Some (k2, case w of Inl _ \<Rightarrow> Inl SyscallError.Internal
           | Inr m \<Rightarrow> if m \<noteq> n then Inl SyscallError.Internal else Inr ()))"
    using assms(3-5) inv(2) r w(1) by (simp add: relay_transfer_def slot_bus_mut_def split: sum.splits)
  have "\<exists>k1 r'. relay_transfer P i j n k = Some (k1, r') \<and> bus_frame (k\<lparr>relay_buf := ?buf\<rparr>) k1"
    using f(1) bus_frame_trans [OF f(1) w(2)] unfolding x by (cases r) auto
  then show ?thesis using f(2) by blast
qed

lemma handle_relay_keep:
  assumes "platform_ok P" "kernel_ok k"
  shows "settles (user_readable (umem k) (arg0 ctx) 16 \<and> user_readable (umem k) (arg1 ctx) 16)
     (sys_keep k) (handle_relay P ctx k)"
proof (cases "unat (arg2 ctx) \<le> CHAN_MAX \<and> authenticate (registry k) (hcap_at (umem k) (arg0 ctx)) RELAY_SRC
    \<and> authenticate (registry k) (hcap_at (umem k) (arg1 ctx)) RELAY_DST")
  case True
  let ?f = "relay_transfer P (unat (hcap_slot (hcap_at (umem k) (arg0 ctx))))
      (unat (hcap_slot (hcap_at (umem k) (arg1 ctx)))) (unat (arg2 ctx))"
  obtain k1 r buf where w: "?f k = Some (k1, r)" "length buf = CHAN_MAX" "bus_frame (k\<lparr>relay_buf := buf\<rparr>) k1"
    using relay_transfer_ok [OF assms conjunct1 [OF True] auth_slot auth_slot] True by blast
  show ?thesis
    using relay_bind [where f = ?f, OF assms(2) w(1,3,2)] assms(2) by (auto simp: handle_relay_def user_hcap_eq Let_def)
qed (use assms(2) in \<open>auto simp: handle_relay_def user_hcap_eq Let_def\<close>)

lemma handle_read_keep:
  assumes "kernel_ok k"
  shows "settles (user_readable (umem k) (arg0 ctx) 16 \<and> user_writable (umem k) (arg1 ctx) (min (unat (arg2 ctx)) WIRE_FRAME_MAX))
     (sys_keep k) (handle_read ctx k)"
proof (cases "unat (arg2 ctx) \<le> WIRE_FRAME_MAX \<and> user_range_ok (arg1 ctx) (arg2 ctx) \<and>
    authenticate (registry k) (hcap_at (umem k) (arg0 ctx)) USE")
  case True
  define i n where "i = unat (hcap_slot (hcap_at (umem k) (arg0 ctx)))" and "n = unat (arg2 ctx)"
  have inv: "bus_inv k" using assms by (simp add: kernel_ok_iff)
  have i: "i < HSM_MAX_SLOTS" using True by (auto simp: i_def intro: auth_slot)
  note b = bus_inv_slot(1) [OF inv i]
  obtain b' out r where r: "bus_read (slot_bus (registry k ! i)) (replicate n 0) = Some (b', out, r)"
      "length out = n"
    using bus_read_ok [OF b, of "replicate n 0"] by auto
  have s: "sys_keep k (set_bus i b' k)"
    using frame_keep [OF assms bus_frame_set_bus] bus_read_same [OF b r(1)] by blast
  have m: "m \<le> n" if "r = Inr m" for m
    using r(1) that by (auto simp: bus_read_def sw_read_def r3_read_def Let_def
        split: BusInstance.splits Option.bind_splits if_splits prod.splits)
  have u: "sys_keep k ((set_bus i b' k)\<lparr>umem := user_store (umem (set_bus i b' k)) (arg1 ctx) (take m out)\<rparr>)" for m
    by (rule user_write_keep [OF s, of "arg1 ctx" "arg2 ctx"]) (use True r(2) in \<open>simp_all add: n_def\<close>)
  have v: "user_writable (umem (set_bus i b' k)) (arg1 ctx) m" if "user_writable (umem k) (arg1 ctx) n" "m \<le> n" for m
    using user_access_mono(2) [OF that] by (simp add: set_bus_def)
  have "min n WIRE_FRAME_MAX = n" using True by (simp add: n_def)
  then show ?thesis
    using assms True r s m u v i
    by (auto simp: handle_read_def user_hcap_eq copy_to_user_def Let_def i_def [symmetric] n_def [symmetric]
        slot_bus_mut_def min_def split: sum.splits if_splits)
qed (use assms in \<open>auto simp: handle_read_def user_hcap_eq Let_def\<close>)

subsection \<open>The authority machine\<close>

text \<open>
  What the HSM calls may do to the authority of the registry: nothing, grant a fresh slot with the
  fixed rights of an attached module, or revoke a slot whose rights allow it.
\<close>

inductive authority_step :: "authority \<Rightarrow> authority \<Rightarrow> bool" where
  keep: "authority_step g g"
| grant: "i < HSM_MAX_SLOTS \<Longrightarrow> g i = None \<Longrightarrow> t \<noteq> 0 \<Longrightarrow>
     authority_step g (g(i \<mapsto> (t, ATTACH_RIGHTS, kind)))"
| revoke: "g i = Some (t, r, kind) \<Longrightarrow> r AND REVOKE = REVOKE \<Longrightarrow> authority_step g (g(i := None))"

lemma handle_detach_refines:
  assumes "kernel_ok k"
  shows "settles (user_readable (umem k) (arg0 ctx) 16)
     (\<lambda>k'. sys_safe k k' \<and> authority_step (grants (registry k)) (grants (registry k'))) (handle_detach ctx k)"
proof -
  let ?cap = "hcap_at (umem k) (arg0 ctx)"
  let ?i = "unat (hcap_slot ?cap)"
  have ok: "registry_ok (registry k)" using assms by (simp add: kernel_ok_def)
  have s: "sys_safe k (k\<lparr>registry := (registry k)[?i := slot_new]\<rparr>)"
    using registry_safe [OF assms registry_ok_update [OF ok slot_ok_new]] .
  have g: "authority_step (grants (registry k)) (grants ((registry k)[?i := slot_new]))"
    if a: "authenticate (registry k) ?cap REVOKE"
  proof -
    have "grants ((registry k)[?i := slot_new]) = (grants (registry k))(?i := None)"
      using a registry_okD(2) [OF ok] by (auto simp: grants_def slot_new_def nth_list_update fun_eq_iff)
    then show ?thesis
      using a authority_step.revoke [of "grants (registry k)" ?i] by (auto simp: authenticate_iff grants_def)
  qed
  show ?thesis
    using assms s g by (auto simp: handle_detach_def user_hcap_eq Let_def detach_eq intro: authority_step.keep)
qed

lemma attach_refines:
  assumes "platform_ok P" "kernel_ok k" "attach P kind init pl ATTACH_RIGHTS k = Some (k', res)"
  shows "authority_step (grants (registry k)) (grants (registry k'))"
proof (cases res)
  case (Inl e)
  then show ?thesis using attach_error [of P kind init pl _ k k' e] assms(3) authority_step.keep by fastforce
next
  case (Inr cap)
  have ok: "registry_ok (registry k)" using assms(2) by (simp add: kernel_ok_def)
  obtain r' i b pre where
    k': "k' = (set_rng r' k)\<lparr>registry := (registry k)
           [i := commit_slot b (hcap_token cap) ATTACH_RIGHTS pre (registry k ! i)]\<rparr>" and
    i: "first_empty (registry k) i" and t: "hcap_token cap \<noteq> 0"
    using attach_success [OF assms(1) assms(3) [unfolded Inr]] by blast
  have "i < HSM_MAX_SLOTS" "grants (registry k) i = None"
    using first_empty_slot [OF ok i] by (simp_all add: grants_def slot_new_def)
  moreover have "grants (registry k') = (grants (registry k))(i \<mapsto> (hcap_token cap, ATTACH_RIGHTS, bus_kind b))"
    using registry_okD(2) [OF ok] \<open>i < HSM_MAX_SLOTS\<close> by (auto simp: k' grants_def nth_list_update)
  ultimately show ?thesis using authority_step.grant t by simp
qed

lemma audit_safe: "kernel_ok k \<Longrightarrow> length p = 4 \<Longrightarrow> sys_keep k (k_audit_enqueue s x c p k)"
  using frame_keep [OF _ bus_frame_audit] by blast

text \<open>Attaching does not read the staging buffer of the attestation: running it with the buffer
  filled, and erasing the buffer afterwards, is running it on the original state.\<close>

definition set_abuf :: "bytes \<Rightarrow> ('m, 'd) kernel \<Rightarrow> ('m, 'd) kernel" where
  "set_abuf b k = k\<lparr>attest := (attest k)\<lparr>attest_buf := b\<rparr>\<rparr>"

lemma verify_attest_buf [simp]: "verify_attest P (at\<lparr>attest_buf := b\<rparr>) pk kind sig = verify_attest P at pk kind sig"
  by (simp add: verify_attest_def cong: option.case_cong)

lemma attach_gate_buf [simp]: "attach_gate P (at\<lparr>attest_buf := b\<rparr>) kind pl = attach_gate P at kind pl"
  by (cases pl) (simp_all add: attach_gate_def)

lemma set_abuf_fields [simp]:
  "registry (set_abuf b k) = registry k" "services (set_abuf b k) = services k"
  "attest (set_abuf b k) = (attest k)\<lparr>attest_buf := b\<rparr>"
  "set_rng r (set_abuf b k) = set_abuf b (set_rng r k)" "umem (set_abuf b k) = umem k"
  "(set_abuf b k)\<lparr>registry := ss\<rparr> = set_abuf b (k\<lparr>registry := ss\<rparr>)"
  "set_abuf c (set_abuf b k) = set_abuf c k"
  by (simp_all add: set_abuf_def set_rng_def)

lemma attach_buf:
  "attach P kind init pl rts (set_abuf b k) =
     map_option (\<lambda>(k', r). (set_abuf b k', r)) (attach P kind init pl rts k)"
  by (auto simp: attach_def Let_def split: Option.bind_split option.split sum.split)

lemma attach_attest_same: "platform_ok P \<Longrightarrow> attach P kind init pl rts k = Some (k', res) \<Longrightarrow> attest k' = attest k"
  using attach_error [of P kind init pl rts k k'] attach_success [of P kind init pl rts k k']
  by (cases res) fastforce+

lemma attach_attested_eq:
  fixes p len :: u64
  assumes "platform_ok P" "kernel_ok k" "unat len \<le> ATTEST_BUF_MAX" "user_readable (umem k) p (unat len)"
  defines "pl \<equiv> user_bytes (umem k) p (unat len)"
  shows "with_attest_buf (attach_attested P kind init p len) k =
     do { prefix \<leftarrow> pk_hash_prefix P (take MLDSA44_PK_LEN pl);
          (k', res) \<leftarrow> attach P kind init (Some pl) ATTACH_RIGHTS k;
          Some (k', res, prefix) }"
proof -
  define z where "z = replicate ATTEST_BUF_MAX (0 :: u8)"
  have k: "attest_buf (attest k) = z" "set_abuf z k = k" "length z = ATTEST_BUF_MAX"
    using assms(2) by (simp_all add: kernel_ok_def set_abuf_def z_def)
  have k': "set_abuf z k' = k'" if "attach P kind init (Some pl) ATTACH_RIGHTS k = Some (k', res)" for k' res
    using attach_attest_same [OF assms(1) that] k(1) by (simp add: set_abuf_def)
  have e: "attach_attested P kind init p len k =
     do { prefix \<leftarrow> pk_hash_prefix P (take MLDSA44_PK_LEN pl);
          (k', res) \<leftarrow> attach P kind init (Some pl) ATTACH_RIGHTS k;
          Some (set_abuf (pl @ drop (unat len) z) k', res, prefix) }"
    using assms(3,4) k attach_buf [of P kind init "Some pl" ATTACH_RIGHTS "pl @ drop (unat len) z" k]
    by (cases "attach P kind init (Some pl) ATTACH_RIGHTS k")
       (auto simp: attach_attested_def copy_from_user_def pl_def set_abuf_def [symmetric] Let_def)
  have w: "with_attest_buf f k = map_option (\<lambda>(k1, r). (set_abuf z k1, r)) (f k)"
    if "\<And>k1 r. f k = Some (k1, r) \<Longrightarrow> length (attest_buf (attest k1)) = ATTEST_BUF_MAX"
    for f :: "_ \<Rightarrow> (_ \<times> (HsmCapError + HsmCapability) \<times> bytes) option"
    using k that unfolding with_attest_buf_def set_abuf_def [symmetric]
    by (cases "f k") (auto simp: z_def)
  show ?thesis
    using k(3) k' assms(3) e w [of "attach_attested P kind init p len"]
    by (cases "pk_hash_prefix P (take MLDSA44_PK_LEN pl)"; cases "attach P kind init (Some pl) ATTACH_RIGHTS k")
       (auto simp: pl_def)
qed

lemma attach_args:
  assumes "attach_args_ok ctx = Inr ()"
  shows "unat (arg2 ctx) \<le> 32" "unat (arg5 ctx) = 3732" "user_range_ok (arg4 ctx) HCAP_SIZE"
  using assms
  by (auto simp: attach_args_ok_def Let_def ATTEST_EXACT_def MAX_BUS_INIT_BLOB_def crate_sizes
      word_less_nat_alt split: if_splits)

text \<open>
  A call of attach whose arguments pass the checks, in terms of the registry operation. Without the
  initialisation data and the attestation mapped it does not return.
\<close>

lemma with_attest_buf_none:
  assumes "kernel_ok k" "f k = None"
  shows "with_attest_buf f k = None"
proof -
  have "k\<lparr>attest := (attest k)\<lparr>attest_buf := replicate (length (attest_buf (attest k))) 0\<rparr>\<rparr> = k"
    using assms(1) by (simp add: kernel_ok_def)
  then show ?thesis using assms(2) by (simp add: with_attest_buf_def)
qed

lemma handle_attach_eq:
  assumes "platform_ok P" "kernel_ok k" "attach_bus_kind tls (arg0 ctx) k = (k, Inr kind)"
    and a: "attach_args_ok ctx = Inr ()"
  defines "pl \<equiv> user_bytes (umem k) (arg3 ctx) 3732"
    and "init \<equiv> user_bytes (umem k) (arg1 ctx) (unat (arg2 ctx))"
    and "rd \<equiv> user_readable (umem k) (arg1 ctx) (unat (arg2 ctx)) \<and> user_readable (umem k) (arg3 ctx) 3732"
  shows "\<exists>prefix. length prefix = 4 \<and> handle_attach P tls ctx k =
    (if rd then do { (k1, res) \<leftarrow> attach P kind init (Some pl) ATTACH_RIGHTS k; attach_reply kind (arg4 ctx) prefix k1 res }
     else None)"
proof -
  obtain prefix where p: "pk_hash_prefix P (take MLDSA44_PK_LEN pl) = Some prefix" "length prefix = 4"
    using pk_hash_prefix_total [OF assms(1)] by blast
  have n: "unat (arg5 ctx) = 3732" using attach_args(2) [OF a] .
  let ?w = "with_attest_buf (attach_attested P kind init (arg3 ctx) (arg5 ctx)) k"
  have s: "?w = do { (k', res) \<leftarrow> attach P kind init (Some pl) ATTACH_RIGHTS k; Some (k', res, prefix) }"
    if "user_readable (umem k) (arg3 ctx) 3732"
    using attach_attested_eq [OF assms(1,2), of "arg5 ctx" "arg3 ctx" kind init] that n p
    by (simp add: pl_def ATTEST_BUF_MAX_def)
  have s0: "?w = None" if "\<not> user_readable (umem k) (arg3 ctx) 3732"
    using that n by (intro with_attest_buf_none assms(2)) (simp add: attach_attested_def copy_from_user_def)
  have i: "(if 0 < arg2 ctx
      then do { blob \<leftarrow> copy_from_user (umem k) (arg1 ctx) (unat (arg2 ctx));
                copy_into (replicate MAX_BUS_INIT_BLOB 0) 0 (unat (arg2 ctx)) blob }
      else Some (replicate MAX_BUS_INIT_BLOB 0)) =
     (if user_readable (umem k) (arg1 ctx) (unat (arg2 ctx)) then Some (init @ replicate (32 - unat (arg2 ctx)) 0) else None)"
    using attach_args(1) [OF a]
    by (cases "arg2 ctx = 0")
       (auto simp: init_def MAX_BUS_INIT_BLOB_def word_neq_0_conv copy_from_user_def user_bytes_def user_readable_def)
  have j: "slice (init @ replicate (32 - unat (arg2 ctx)) 0) 0 (unat (arg2 ctx)) = Some init"
    by (simp add: init_def)
  have "handle_attach P tls ctx k =
      (if user_readable (umem k) (arg1 ctx) (unat (arg2 ctx))
       then do { (k1, res, prefix) \<leftarrow> ?w; attach_reply kind (arg4 ctx) prefix k1 res } else None)"
    unfolding handle_attach_def assms(3) a prod.case sum.case Let_def i by (simp add: j)
  then have "handle_attach P tls ctx k = (if rd then do { (k1, res) \<leftarrow> attach P kind init (Some pl) ATTACH_RIGHTS k;
      attach_reply kind (arg4 ctx) prefix k1 res } else None)"
    using s s0 unfolding rd_def
    by (cases "attach P kind init (Some pl) ATTACH_RIGHTS k"; cases "user_readable (umem k) (arg3 ctx) 3732") auto
  then show ?thesis using p(2) by blast
qed

lemma handle_attach_returned:
  assumes "platform_ok P" "kernel_ok k" "attach_bus_kind tls (arg0 ctx) k = (k, Inr kind)" "attach_args_ok ctx = Inr ()"
    and ret: "handle_attach P tls ctx k = Some (k', r)"
  obtains prefix k1 res where "length prefix = 4" "attach P kind (user_bytes (umem k) (arg1 ctx) (unat (arg2 ctx)))
      (Some (user_bytes (umem k) (arg3 ctx) 3732)) ATTACH_RIGHTS k = Some (k1, res)"
    "attach_reply kind (arg4 ctx) prefix k1 res = Some (k', r)"
proof -
  obtain prefix where p: "length prefix = 4" and "handle_attach P tls ctx k =
    (if user_readable (umem k) (arg1 ctx) (unat (arg2 ctx)) \<and> user_readable (umem k) (arg3 ctx) 3732
     then do { (k1, res) \<leftarrow> attach P kind (user_bytes (umem k) (arg1 ctx) (unat (arg2 ctx)))
       (Some (user_bytes (umem k) (arg3 ctx) 3732)) ATTACH_RIGHTS k; attach_reply kind (arg4 ctx) prefix k1 res }
     else None)"
    using handle_attach_eq [OF assms(1-4)] by blast
  from this(2) [unfolded ret, symmetric] show thesis using that p by (auto simp: bind_eq_Some_conv split: if_splits)
qed

lemma attach_bus_kind_cases:
  "(\<exists>e. attach_bus_kind tls raw k = (k, Inl e)) \<or>
   attach_bus_kind tls raw k = (k_audit_enqueue 0xFF 2 6 [0, 0, 0, 0] k, Inl SyscallError.Denied) \<or>
   (\<exists>kind. attach_bus_kind tls raw k = (k, Inr kind))"
  by (simp add: attach_bus_kind_def)

lemma attach_safe:
  assumes "platform_ok P" "kernel_ok k" "attach P kind init pl rts k = Some (k', res)"
  shows "sys_safe k k' \<and> (\<forall>cap. res = Inr cap \<longrightarrow> length (hcap_pad1 cap) = 3)"
proof (cases res)
  case (Inl e)
  then show ?thesis
    using attach_error [of P kind init pl rts k k' e] attach_ok [OF assms] assms(3) by (auto simp: sys_safe_def)
next
  case (Inr cap)
  then have "length (hcap_pad1 cap) = 3" "\<exists>r' ss. k' = (set_rng r' k)\<lparr>registry := ss\<rparr>"
    using attach_success [OF assms(1), of kind init pl rts k k' cap] assms(3) by (metis HsmCapability.select_convs(6) length_Cons list.size(3) numeral_3_eq_3, blast)
  then show ?thesis
    using attach_ok [OF assms] Inr by (auto simp: sys_safe_def)
qed

lemma attach_reply_keep:
  assumes "kernel_ok k" "length prefix = 4" "user_range_ok p HCAP_SIZE"
    and "\<forall>cap. res = Inr cap \<longrightarrow> length (hcap_pad1 cap) = 3"
    and "attach_reply kind p prefix k res = Some (k', r)"
  shows "sys_keep k k'"
  using assms user_write_keep [OF audit_safe [OF assms(1,2)] assms(3)] audit_safe [OF assms(1,2)]
  by (cases res) (auto simp: attach_reply_def copy_to_user_def Let_def HCAP_SIZE_def split: if_splits)

lemma handle_attach_refines:
  assumes "platform_ok P" "kernel_ok k" "handle_attach P tls ctx k = Some (k', r)"
  shows "sys_safe k k' \<and> authority_step (grants (registry k)) (grants (registry k'))"
proof -
  consider (fail) e where "attach_bus_kind tls (arg0 ctx) k = (k, Inl e)"
    | (network) "attach_bus_kind tls (arg0 ctx) k =
        (k_audit_enqueue 0xFF 2 6 [0, 0, 0, 0] k, Inl SyscallError.Denied)"
    | (go) kind where "attach_bus_kind tls (arg0 ctx) k = (k, Inr kind)" "attach_args_ok ctx = Inr ()"
    | (args) kind e where "attach_bus_kind tls (arg0 ctx) k = (k, Inr kind)" "attach_args_ok ctx = Inl e"
    using attach_bus_kind_cases [of tls "arg0 ctx" k] by (cases "attach_args_ok ctx") auto
  then show ?thesis
  proof cases
    case network
    then show ?thesis
      using assms(2,3) audit_safe [OF assms(2)] by (auto simp: handle_attach_def sys_keep_def authority_step.keep)
  next
    case (go kind)
    obtain prefix k1 res where p: "length prefix = 4" and
      t: "attach P kind (user_bytes (umem k) (arg1 ctx) (unat (arg2 ctx)))
          (Some (user_bytes (umem k) (arg3 ctx) 3732)) ATTACH_RIGHTS k = Some (k1, res)"
      and x: "attach_reply kind (arg4 ctx) prefix k1 res = Some (k', r)"
      by (rule handle_attach_returned [OF assms(1,2) go assms(3)])
    note s = attach_safe [OF assms(1,2) t]
    then have "sys_keep k1 k'"
      using attach_reply_keep [OF _ p attach_args(3) [OF go(2)] _ x] by (simp add: sys_safe_def)
    then show ?thesis
      using s attach_refines [OF assms(1,2) t] sys_safe_trans [of k k1 k'] by (simp add: sys_keep_def)
  qed (use assms(2,3) in \<open>simp_all add: handle_attach_def authority_step.keep\<close>)
qed

subsection \<open>What the calls do\<close>

lemma as_rax_nonzero [simp]: "as_rax e \<noteq> 0"
  by (cases e) simp_all

lemma attach_bus_kind_ok: "attach_bus_kind tls raw k = (k1, Inr kind) \<Longrightarrow> k1 = k"
  by (auto simp: attach_bus_kind_def split: if_splits)

lemma attach_call_success:
  assumes "platform_ok P" "kernel_ok k" "handle_attach P tls ctx k = Some (k', 0)"
  obtains kind prefix k1 cap where "attach_bus_kind tls (arg0 ctx) k = (k, Inr kind)"
    "attach P kind (user_bytes (umem k) (arg1 ctx) (unat (arg2 ctx)))
       (Some (user_bytes (umem k) (arg3 ctx) 3732)) ATTACH_RIGHTS k = Some (k1, Inr cap)"
    "length prefix = 4" "attach_reply kind (arg4 ctx) prefix k1 (Inr cap) = Some (k', 0)"
proof -
  obtain k0 kind where "attach_bus_kind tls (arg0 ctx) k = (k0, Inr kind)" "attach_args_ok ctx = Inr ()"
    using assms(3) by (auto simp: handle_attach_def split: prod.splits sum.splits)
  then have g: "attach_bus_kind tls (arg0 ctx) k = (k, Inr kind)" "attach_args_ok ctx = Inr ()"
    using attach_bus_kind_ok by auto
  obtain prefix k1 res where p: "length prefix = 4" and
    t: "attach P kind (user_bytes (umem k) (arg1 ctx) (unat (arg2 ctx)))
        (Some (user_bytes (umem k) (arg3 ctx) 3732)) ATTACH_RIGHTS k = Some (k1, res)"
    and x: "attach_reply kind (arg4 ctx) prefix k1 res = Some (k', 0)"
    by (rule handle_attach_returned [OF assms(1,2) g assms(3)])
  obtain cap where "res = Inr cap"
    using x by (cases res) (auto simp: attach_reply_def split: if_splits)
  then show thesis using that g(1) t p x by blast
qed

text \<open>C3: when the attach call returns success, the sixteen bytes at the caller's output pointer are a
  capability that authenticates for exactly the five rights of an attached module and their subsets;
  the attestation that the caller passed was valid for the requested transport under the trust root
  and this boot's challenge; and the newest event of the audit log is the success of that slot.\<close>

theorem attach_call_grants:
  assumes "platform_ok P" "kernel_ok k" "handle_attach P tls ctx k = Some (k', 0)"
  shows "\<exists>kind prefix older. attach_bus_kind tls (arg0 ctx) k = (k, Inr kind) \<and>
     (let cap = hcap_at (umem k') (arg4 ctx);
          pl = user_bytes (umem k) (arg3 ctx) (MLDSA44_PK_LEN + MLDSA44_SIG_LEN)
      in (\<forall>rq. authenticate (registry k') cap rq \<longleftrightarrow> ATTACH_RIGHTS AND rq = rq) \<and>
         attested P (attest k) (take MLDSA44_PK_LEN pl) kind (drop MLDSA44_PK_LEN pl) \<and>
         ring_ok older \<and> kaudit k' = audit_enqueue (hcap_slot cap) 0 (bus_kind_octet kind) prefix older)"
proof -
  obtain kind prefix k1 cap where g: "attach_bus_kind tls (arg0 ctx) k = (k, Inr kind)" and
    t: "attach P kind (user_bytes (umem k) (arg1 ctx) (unat (arg2 ctx)))
       (Some (user_bytes (umem k) (arg3 ctx) 3732)) ATTACH_RIGHTS k = Some (k1, Inr cap)" and
    x: "attach_reply kind (arg4 ctx) prefix k1 (Inr cap) = Some (k', 0)"
    by (rule attach_call_success [OF assms])
  have l: "length (hcap_pad1 cap) = 3" using attach_safe [OF assms(1,2) t] by simp
  have c: "hcap_at (umem k') (arg4 ctx) = cap"
    using x l user_store_at [of "encode_hcap cap" "umem k1" "arg4 ctx"]
    by (auto simp: attach_reply_def hcap_at_def copy_to_user_def Let_def split: if_splits)
  have "registry k' = registry k1" "kaudit k' = audit_enqueue (hcap_slot cap) 0 (bus_kind_octet kind) prefix (kaudit k1)"
    using x by (auto simp: attach_reply_def copy_to_user_def Let_def split: if_splits)
  moreover have "ring_ok (kaudit k1)" using attach_ok [OF assms(1,2) t] by (simp add: kernel_ok_def)
  ultimately show ?thesis
    using attach_secure [OF assms(1,2) t] g c by (auto simp: Let_def crate_sizes)
qed

definition demo_attach_ctx :: SyscallContext where
  "demo_attach_ctx = \<lparr>ctx_pc = 0, ctx_flags = 0, ctx_num = 7, arg0 = 0, arg1 = 0, arg2 = 0, arg3 = 0x2000,
     arg4 = 0x1000, arg5 = 3732\<rparr>"

lemma demo_umem:
  "user_bytes (umem demo_kernel) p n = replicate n 7" "user_readable (umem demo_kernel) p n" "user_writable (umem demo_kernel) p n"
  by (simp_all add: demo_kernel_def user_bytes_def user_readable_def user_writable_def list_all_iff map_replicate_const)

theorem attach_call_grants_witness:
  "\<exists>k'. handle_attach demo_platform False demo_attach_ctx demo_kernel = Some (k', 0) \<and>
     authenticate (registry k') (hcap_at (umem k') 0x1000) USE"
proof -
  have d: "user_bytes (umem demo_kernel) 0x2000 3732 = demo_payload"
    by (simp add: demo_umem demo_payload_def crate_sizes)
  have a: "attach_args_ok demo_attach_ctx = Inr ()"
    by (simp add: attach_args_ok_def demo_attach_ctx_def ATTEST_EXACT_def crate_sizes user_range_ok_def
        is_user_address_def USER_MIN_def USER_MAX_def sat_add_def HCAP_SIZE_def)
  obtain k1 cap where t: "attach demo_platform BusKind.Software [] (Some demo_payload) ATTACH_RIGHTS demo_kernel
      = Some (k1, Inr cap)"
    using demo_attach by blast
  have "upage (umem k1) = upage (umem demo_kernel)"
    using attach_safe [OF demo_platform_ok demo_kernel_ok t] by (simp add: sys_safe_def umem_frame_def)
  then have w: "user_writable (umem k1) p n" for p n
    using demo_umem(3) user_access_cong(2) by blast
  have "attach_bus_kind False (arg0 demo_attach_ctx) demo_kernel = (demo_kernel, Inr BusKind.Software)"
    "user_bytes (umem demo_kernel) (arg1 demo_attach_ctx) (unat (arg2 demo_attach_ctx)) = []"
    by (simp_all add: demo_attach_ctx_def attach_bus_kind_def user_bytes_def)
  then obtain prefix where "handle_attach demo_platform False demo_attach_ctx demo_kernel =
      attach_reply BusKind.Software (arg4 demo_attach_ctx) prefix k1 (Inr cap)"
    using handle_attach_eq [OF demo_platform_ok demo_kernel_ok _ a, of False BusKind.Software] d t
    by (auto simp: demo_umem(2)) (auto simp: demo_attach_ctx_def)
  then obtain k' where k': "handle_attach demo_platform False demo_attach_ctx demo_kernel = Some (k', 0)"
    using w by (simp add: attach_reply_def copy_to_user_def Let_def)
  have "\<forall>rq. authenticate (registry k') (hcap_at (umem k') (arg4 demo_attach_ctx)) rq \<longleftrightarrow> ATTACH_RIGHTS AND rq = rq"
    using attach_call_grants [OF demo_platform_ok demo_kernel_ok k'] unfolding Let_def by blast
  moreover have "ATTACH_RIGHTS AND USE = USE" "arg4 demo_attach_ctx = 0x1000"
    by (simp_all add: ATTACH_RIGHTS_def hsm_rights demo_attach_ctx_def)
  ultimately show ?thesis using k' by metis
qed

text \<open>C2: a capability that does not authenticate is inert. Writing, reading, enumerating, detaching
  and relaying with it return an error code, and nothing in the kernel or in user memory changes. The one
  exception is a capability pointer to memory that is not mapped: the copy faults, and the call does not
  return.\<close>

theorem forged_capability_inert:
  "(\<not> authenticate (registry k) (hcap_at (umem k) (arg0 ctx)) USE \<longrightarrow>
      (case handle_write P ctx k of Some (k', r) \<Rightarrow> k' = k \<and> (\<exists>e. r = as_rax e) | None \<Rightarrow> \<not> user_readable (umem k) (arg0 ctx) 16) \<and>
      (case handle_read ctx k of Some (k', r) \<Rightarrow> k' = k \<and> (\<exists>e. r = as_rax e) | None \<Rightarrow> \<not> user_readable (umem k) (arg0 ctx) 16)) \<and>
   (\<not> authenticate (registry k) (hcap_at (umem k) (arg0 ctx)) ENUMERATE \<longrightarrow>
      (case handle_enumerate ctx k of Some (k', r) \<Rightarrow> k' = k \<and> (\<exists>e. r = as_rax e) | None \<Rightarrow> \<not> user_readable (umem k) (arg0 ctx) 16)) \<and>
   (\<not> authenticate (registry k) (hcap_at (umem k) (arg0 ctx)) REVOKE \<longrightarrow>
      (case handle_detach ctx k of Some (k', r) \<Rightarrow> k' = k \<and> (\<exists>e. r = as_rax e) | None \<Rightarrow> \<not> user_readable (umem k) (arg0 ctx) 16)) \<and>
   (\<not> (authenticate (registry k) (hcap_at (umem k) (arg0 ctx)) RELAY_SRC \<and>
       authenticate (registry k) (hcap_at (umem k) (arg1 ctx)) RELAY_DST) \<longrightarrow>
      (case handle_relay P ctx k of Some (k', r) \<Rightarrow> k' = k \<and> (\<exists>e. r = as_rax e)
       | None \<Rightarrow> \<not> user_readable (umem k) (arg0 ctx) 16 \<or> \<not> user_readable (umem k) (arg1 ctx) 16))"
proof (intro conjI impI)
  let ?inert = "\<lambda>res mapped. case res of Some (k', r) \<Rightarrow> k' = k \<and> (\<exists>e. r = as_rax e) | None \<Rightarrow> \<not> mapped"
  show "?inert (handle_write P ctx k) (user_readable (umem k) (arg0 ctx) 16)"
    if "\<not> authenticate (registry k) (hcap_at (umem k) (arg0 ctx)) USE"
    using that by (auto simp del: as_rax.simps simp: handle_write_def user_hcap_eq Let_def)
  show "?inert (handle_read ctx k) (user_readable (umem k) (arg0 ctx) 16)"
    if "\<not> authenticate (registry k) (hcap_at (umem k) (arg0 ctx)) USE"
    using that by (auto simp del: as_rax.simps simp: handle_read_def user_hcap_eq Let_def)
  show "?inert (handle_enumerate ctx k) (user_readable (umem k) (arg0 ctx) 16)"
    if "\<not> authenticate (registry k) (hcap_at (umem k) (arg0 ctx)) ENUMERATE"
    using that by (auto simp del: as_rax.simps simp: handle_enumerate_def user_hcap_eq Let_def)
  show "?inert (handle_detach ctx k) (user_readable (umem k) (arg0 ctx) 16)"
    if "\<not> authenticate (registry k) (hcap_at (umem k) (arg0 ctx)) REVOKE"
    using that by (auto simp del: as_rax.simps simp: handle_detach_def user_hcap_eq detach_eq Let_def split: HsmSlotState.splits)
  show "case handle_relay P ctx k of Some (k', r) \<Rightarrow> k' = k \<and> (\<exists>e. r = as_rax e)
       | None \<Rightarrow> \<not> user_readable (umem k) (arg0 ctx) 16 \<or> \<not> user_readable (umem k) (arg1 ctx) 16"
    if "\<not> (authenticate (registry k) (hcap_at (umem k) (arg0 ctx)) RELAY_SRC \<and>
       authenticate (registry k) (hcap_at (umem k) (arg1 ctx)) RELAY_DST)"
    using that by (auto simp del: as_rax.simps simp: handle_relay_def user_hcap_eq Let_def)
qed

theorem forged_capability_inert_witness:
  "\<exists>e. handle_write demo_platform demo_attach_ctx demo_kernel = Some (demo_kernel, as_rax e)"
proof -
  have "\<not> authenticate (registry demo_kernel) (hcap_at (umem demo_kernel) (arg0 demo_attach_ctx)) USE"
    by (auto simp: authenticate_iff demo_kernel_def registry_new_def slot_new_def)
  then show ?thesis
    using forged_capability_inert [of demo_kernel demo_attach_ctx demo_platform]
    by (auto simp: demo_umem(2) simp del: as_rax.simps split: option.splits)
qed

lemma slot_write_echo:
  assumes "slot_bus (registry k ! i) = BusInstance.Software s" "echo_inv s" "length d \<le> echo_room s"
  shows "\<exists>s'. slot_write P i d k = Some (set_bus i (BusInstance.Software s') k, Inr (length d)) \<and>
     echo_inv s' \<and> echo_queue s' = echo_queue s @ d \<and> echo_room s' = echo_room s - length d"
proof -
  obtain s' where s': "echo_put d s = Some s'" "echo_inv s'" "echo_queue s' = echo_queue s @ d"
      "echo_room s' = echo_room s - length d"
    using echo_put_fits [OF assms(2,3)] by blast
  then have "sw_write P d s = Some (s', Inr (length d))"
    using assms(2,3) by (simp add: echo_put_def echo_role_write echo_write_eq)
  then show ?thesis
    using assms(1) s'(2-4) by (intro exI [of _ s']) (simp add: slot_write.simps [of P i d k])
qed

lemma bus_read_echo:
  assumes "echo_inv s"
  shows "\<exists>s'. bus_read (BusInstance.Software s) (replicate n 0) =
      Some (BusInstance.Software s', take n (echo_queue s) @ replicate (n - length (echo_queue s)) 0,
            Inr (min (length (echo_queue s)) n)) \<and>
     echo_inv s' \<and> echo_queue s' = drop n (echo_queue s) \<and> echo_room s' = echo_room s"
proof -
  define m where "m = min (length (echo_queue s)) n"
  let ?s = "s\<lparr>read_pos := read_pos s + m\<rparr>"
  have ok: "sw_ok s" "sw_open_state s" using assms by (simp_all add: echo_inv_def)
  have l: "length (echo_queue s) = write_len s - read_pos s"
    using ok(1) by (auto simp: sw_ok_def echo_queue_def)
  then have q: "take m (drop (read_pos s) (ring s)) = take n (echo_queue s)"
    by (simp add: echo_queue_def m_def min.commute)
  have r: "sw_read s (replicate n 0) =
      Some (?s, take n (echo_queue s) @ replicate (n - length (echo_queue s)) 0, Inr m)"
    using l q by (simp add: sw_read_eq [OF ok] Let_def m_def min_def)
  then have "echo_get n s = (?s, take n (echo_queue s))" by (simp add: echo_get_def m_def min_def)
  from echo_get_takes [OF assms this] r show ?thesis
    by (intro exI [of _ ?s]) (simp add: bus_read_def m_def)
qed

lemma set_bus_relay: "relay_buf k = z \<Longrightarrow> (set_bus i b (k\<lparr>relay_buf := y\<rparr>))\<lparr>relay_buf := z\<rparr> = set_bus i b k"
  by (auto simp: set_bus_def)

lemma handle_write_echo:
  assumes "kernel_ok k" "user_range_ok (arg0 ctx) HCAP_SIZE" "user_range_ok (arg1 ctx) (arg2 ctx)"
    and "authenticate (registry k) (hcap_at (umem k) (arg0 ctx)) USE"
    and "slot_bus (registry k ! unat (hcap_slot (hcap_at (umem k) (arg0 ctx)))) = BusInstance.Software s"
    and "echo_inv s" "0 < unat (arg2 ctx)" "unat (arg2 ctx) \<le> echo_room s"
    and mapped: "user_readable (umem k) (arg0 ctx) 16" "user_readable (umem k) (arg1 ctx) (unat (arg2 ctx))"
  shows "\<exists>s'. handle_write P ctx k =
      Some (set_bus (unat (hcap_slot (hcap_at (umem k) (arg0 ctx)))) (BusInstance.Software s') k, 0) \<and>
    echo_inv s' \<and> echo_queue s' = echo_queue s @ user_bytes (umem k) (arg1 ctx) (unat (arg2 ctx))"
proof -
  let ?i = "unat (hcap_slot (hcap_at (umem k) (arg0 ctx)))"
  define n where "n = unat (arg2 ctx)"
  let ?d = "user_bytes (umem k) (arg1 ctx) n"
  let ?buf = "?d @ replicate (CHAN_MAX - n) 0"
  have n: "n \<le> CHAN_MAX" "0 < n" using assms(7,8) by (auto simp: echo_room_def SW_BUS_BUF_def CHAN_MAX_def n_def)
  have z: "relay_buf k = replicate CHAN_MAX 0" using assms(1) by (simp add: kernel_ok_def)
  obtain s' where s': "slot_write P ?i ?d (k\<lparr>relay_buf := ?buf\<rparr>) =
      Some (set_bus ?i (BusInstance.Software s') (k\<lparr>relay_buf := ?buf\<rparr>), Inr n)"
      "echo_inv s'" "echo_queue s' = echo_queue s @ ?d"
    using slot_write_echo [of "k\<lparr>relay_buf := ?buf\<rparr>" ?i s ?d P] assms(5,6,8) by (auto simp: n_def)
  then have "write_transfer P (arg1 ctx) n ?i k =
      Some (set_bus ?i (BusInstance.Software s') (k\<lparr>relay_buf := ?buf\<rparr>), Inr ())"
    using n z auth_slot [OF assms(4)] mapped(2)
    by (simp add: write_transfer_def copy_from_user_def slot_bus_mut_def n_def [symmetric])
  from with_relay_buf_ok [where f = "write_transfer P (arg1 ctx) n ?i", OF assms(1) this]
  have "with_relay_buf (write_transfer P (arg1 ctx) n ?i) k = Some (set_bus ?i (BusInstance.Software s') k, Inr ())"
    using n set_bus_relay [OF z] by (simp add: set_bus_def)
  then show ?thesis
    using assms(2-4) mapped(1) n s'(2,3) by (auto simp: handle_write_def user_hcap_eq Let_def n_def)
qed

text \<open>C13: what a program writes to an idle loopback slot, it reads back: after a write of \<open>n\<close> bytes
  (16 to 64, as the read call accepts), a read of \<open>n\<close> bytes through the same capability returns
  \<open>n\<close> and leaves in the output buffer exactly the bytes that stood in the input buffer, when the
  capability and the buffers lie in mapped pages.\<close>

theorem hsm_write_read_roundtrip:
  assumes "platform_ok P" "kernel_ok k" "user_range_ok (arg0 w) HCAP_SIZE"
    and "user_range_ok (arg1 w) (arg2 w)" "user_range_ok (arg1 r) (arg2 r)"
    and "authenticate (registry k) (hcap_at (umem k) (arg0 w)) USE"
    and "slot_bus (registry k ! unat (hcap_slot (hcap_at (umem k) (arg0 w)))) = BusInstance.Software s"
    and "echo_inv s" "echo_queue s = []" "16 \<le> unat (arg2 w)" "unat (arg2 w) \<le> echo_room s"
    and "arg0 r = arg0 w" "arg2 r = arg2 w"
    and "user_readable (umem k) (arg0 w) 16" "user_readable (umem k) (arg1 w) (unat (arg2 w))"
    and "user_writable (umem k) (arg1 r) (unat (arg2 r))"
  shows "\<exists>k1 k2. handle_write P w k = Some (k1, 0) \<and> handle_read r k1 = Some (k2, arg2 w) \<and>
     user_bytes (umem k2) (arg1 r) (unat (arg2 w)) = user_bytes (umem k) (arg1 w) (unat (arg2 w))"
proof -
  let ?i = "unat (hcap_slot (hcap_at (umem k) (arg0 w)))"
  let ?d = "user_bytes (umem k) (arg1 w) (unat (arg2 w))"
  obtain s' where w: "handle_write P w k = Some (set_bus ?i (BusInstance.Software s') k, 0)"
      "echo_inv s'" "echo_queue s' = ?d"
    using handle_write_echo [OF assms(2-4,6-8) _ assms(11,14,15), of P] assms(9,10) by auto
  let ?k1 = "set_bus ?i (BusInstance.Software s') k"
  have inv: "bus_inv k" using assms(2) by (simp add: kernel_ok_iff)
  have i: "?i < HSM_MAX_SLOTS" "?i < length (registry k)"
    using auth_slot [OF assms(6)] bus_inv_slot(2) [OF inv] by auto
  have n: "unat (arg2 w) \<le> WIRE_FRAME_MAX"
    using assms(11) by (simp add: echo_room_def SW_BUS_BUF_def WIRE_FRAME_MAX_def)
  obtain s2 where r: "bus_read (BusInstance.Software s') (replicate (unat (arg2 w)) 0) =
      Some (BusInstance.Software s2, ?d, Inr (unat (arg2 w)))"
    using bus_read_echo [OF w(2), of "unat (arg2 w)"] w(3) by auto
  have "authenticate (registry ?k1) (hcap_at (umem ?k1) (arg0 w)) USE" "umem ?k1 = umem k"
    using assms(6) i by (auto simp: authenticate_iff set_bus_def set_slot_bus_def nth_list_update)
  then have "handle_read r ?k1 = Some ((set_bus ?i (BusInstance.Software s2) ?k1)\<lparr>umem :=
      user_store (umem k) (arg1 r) ?d\<rparr>, arg2 w)"
    using assms(3,5,10,12-14,16) n r i
    by (simp add: handle_read_def user_hcap_eq copy_to_user_def Let_def slot_bus_mut_def) (simp add: set_bus_def)
  then show ?thesis
    using w(1) user_store_at [of ?d "umem k" "arg1 r"] n by (simp add: WIRE_FRAME_MAX_def)
qed

text \<open>A kernel with two loopback slots, the first with three bytes queued, and their capabilities in
  user memory.\<close>

definition demo_src_bus :: SoftwareBus where
  "demo_src_bus = sw_new\<lparr>sw_open_state := True, ring := [1, 2, 3] @ replicate 61 0, write_len := 3\<rparr>"

definition demo_dst_bus :: SoftwareBus where
  "demo_dst_bus = sw_new\<lparr>sw_open_state := True\<rparr>"

definition demo_dst_cap :: HsmCapability where
  "demo_dst_cap = demo_cap\<lparr>hcap_token := 6, hcap_slot := 1, hcap_rights := USE OR RELAY_DST\<rparr>"

definition demo_relay_kernel :: "(u64, u64) kernel" where
  "demo_relay_kernel = demo_kernel\<lparr>registry := registry_new
     [0 := slot_new\<lparr>slot_state := Attached, slot_token := 5, slot_rights := USE OR ENUMERATE OR REVOKE OR RELAY_SRC,
                      slot_bus := BusInstance.Software demo_src_bus\<rparr>,
      1 := slot_new\<lparr>slot_state := Attached, slot_token := 6, slot_rights := USE OR RELAY_DST,
                      slot_bus := BusInstance.Software demo_dst_bus\<rparr>],
     umem := user_store (umem demo_kernel) 0x1000 (encode_hcap demo_cap @ encode_hcap demo_dst_cap)\<rparr>"

lemma demo_relay_ok: "kernel_ok demo_relay_kernel"
proof -
  have "registry_ok (registry demo_relay_kernel)"
    unfolding demo_relay_kernel_def
    by (simp, intro registry_ok_update registry_ok_new)
       (simp_all add: slot_ok_def slot_new_def sw_ok_def sw_new_def demo_src_bus_def demo_dst_bus_def
         bus_is_open_def SW_BUS_BUF_def)
  then show ?thesis
    using demo_kernel_ok by (simp add: kernel_ok_def demo_relay_kernel_def)
qed

lemma demo_relay_mapped: "user_readable (umem demo_relay_kernel) p n" "user_writable (umem demo_relay_kernel) p n"
  using demo_umem(2,3) [of p n] by (simp_all add: demo_relay_kernel_def user_readable_def user_writable_def)

lemma demo_relay_caps:
  "hcap_at (umem demo_relay_kernel) 0x1000 = demo_cap"
  "hcap_at (umem demo_relay_kernel) 0x1010 = demo_dst_cap"
proof -
  let ?bs = "encode_hcap demo_cap @ encode_hcap demo_dst_cap"
  let ?m = "user_store (umem demo_kernel) 0x1000 ?bs"
  have l: "length (encode_hcap demo_cap) = 16" "length (encode_hcap demo_dst_cap) = 16"
    by (simp_all add: demo_cap_def demo_dst_cap_def)
  have "user_bytes ?m 0x1000 16 = encode_hcap demo_cap"
    by (rule nth_equalityI) (simp_all add: l user_bytes_def poke_bytes_at nth_append)
  moreover have "user_bytes ?m 0x1010 16 = encode_hcap demo_dst_cap"
  proof (rule nth_equalityI)
    fix i
    assume "i < length (user_bytes ?m 0x1010 16)"
    then have i: "i < 16" by simp
    have "ubyte ?m (0x1000 + of_nat (16 + i)) = ?bs ! (16 + i)"
      unfolding user_store_fields by (rule poke_bytes_at) (use i in \<open>simp_all add: l\<close>)
    then show "user_bytes ?m 0x1010 16 ! i = encode_hcap demo_dst_cap ! i"
      using i by (simp add: user_bytes_def nth_append l)
  qed (simp add: l)
  ultimately show "hcap_at (umem demo_relay_kernel) 0x1000 = demo_cap"
    "hcap_at (umem demo_relay_kernel) 0x1010 = demo_dst_cap"
    by (simp_all add: hcap_at_def demo_relay_kernel_def demo_cap_def demo_dst_cap_def)
qed

lemma demo_relay_slots:
  "authenticate (registry demo_relay_kernel) demo_cap USE"
  "authenticate (registry demo_relay_kernel) demo_cap RELAY_SRC"
  "authenticate (registry demo_relay_kernel) demo_dst_cap USE"
  "authenticate (registry demo_relay_kernel) demo_dst_cap RELAY_DST"
  "slot_bus (registry demo_relay_kernel ! 0) = BusInstance.Software demo_src_bus"
  "slot_bus (registry demo_relay_kernel ! 1) = BusInstance.Software demo_dst_bus"
  "unat (hcap_slot demo_dst_cap) = 1" "echo_inv demo_src_bus" "echo_inv demo_dst_bus"
  "echo_queue demo_src_bus = [1, 2, 3]" "echo_queue demo_dst_bus = []" "echo_room demo_dst_bus = 64"
  by (simp_all add: authenticate_iff demo_relay_kernel_def registry_new_def HSM_MAX_SLOTS_def hsm_rights
      demo_cap_def demo_dst_cap_def echo_inv_def sw_ok_def demo_src_bus_def demo_dst_bus_def sw_new_def
      SW_BUS_BUF_def echo_queue_def echo_room_def)

lemma demo_range: "a \<in> {0x1000, 0x1010, 0x3000, 0x4000} \<Longrightarrow> n \<le> 64 \<Longrightarrow> user_range_ok a n"
  by (auto simp: user_range_ok_def is_user_address_def USER_MIN_def USER_MAX_def sat_add_def
      word_le_nat_alt word_less_nat_alt unat_word_ariths)

definition demo_ctx :: "u64 \<Rightarrow> u64 \<Rightarrow> u64 \<Rightarrow> SyscallContext" where
  "demo_ctx a b c = \<lparr>ctx_pc = 0, ctx_flags = 0, ctx_num = 0, arg0 = a, arg1 = b, arg2 = c, arg3 = 0,
     arg4 = 0, arg5 = 0\<rparr>"

theorem hsm_write_read_roundtrip_witness:
  "\<exists>k1 k2. handle_write demo_platform (demo_ctx 0x1010 0x3000 20) demo_relay_kernel = Some (k1, 0) \<and>
     handle_read (demo_ctx 0x1010 0x4000 20) k1 = Some (k2, 20) \<and>
     user_bytes (umem k2) 0x4000 20 = user_bytes (umem demo_relay_kernel) 0x3000 20"
  using hsm_write_read_roundtrip [OF demo_platform_ok demo_relay_ok, of "demo_ctx 0x1010 0x3000 20"
      "demo_ctx 0x1010 0x4000 20" demo_dst_bus] demo_relay_slots demo_relay_caps demo_relay_mapped demo_range
  by (simp add: demo_ctx_def HCAP_SIZE_def)

lemma set_bus_same:
  assumes "slot_bus (registry k ! i) = b"
  shows "set_bus i b k = k"
proof -
  have "(registry k ! i)\<lparr>slot_bus := b\<rparr> = registry k ! i" using assms by auto
  then show ?thesis by (simp add: set_bus_def set_slot_bus_def)
qed

lemma relay_transfer_echo:
  assumes "kernel_ok k" "i < HSM_MAX_SLOTS" "j < HSM_MAX_SLOTS" "i \<noteq> j" "n \<le> CHAN_MAX"
    and "slot_bus (registry k ! i) = BusInstance.Software s" "echo_inv s"
    and "slot_bus (registry k ! j) = BusInstance.Software d" "echo_inv d"
  shows "\<exists>s' buf. echo_queue s' = drop n (echo_queue s) \<and> length buf = CHAN_MAX \<and>
    (if n \<le> length (echo_queue s) \<and> n \<le> echo_room d
     then \<exists>d'. echo_queue d' = echo_queue d @ take n (echo_queue s) \<and> relay_transfer P i j n k =
       Some ((set_bus j (BusInstance.Software d') (set_bus i (BusInstance.Software s') k))\<lparr>relay_buf := buf\<rparr>, Inr ())
     else relay_transfer P i j n k =
       Some ((set_bus i (BusInstance.Software s') k)\<lparr>relay_buf := buf\<rparr>, Inl SyscallError.Internal))"
proof -
  let ?q = "echo_queue s"
  obtain s' where s': "bus_read (BusInstance.Software s) (replicate n 0) =
      Some (BusInstance.Software s', take n ?q @ replicate (n - length ?q) 0, Inr (min (length ?q) n))"
      "echo_queue s' = drop n ?q"
    using bus_read_echo [OF assms(7)] by blast
  let ?buf = "take n ?q @ replicate (n - length ?q) 0 @ replicate (CHAN_MAX - n) 0"
  let ?k1 = "(set_bus i (BusInstance.Software s') k)\<lparr>relay_buf := ?buf\<rparr>"
  have z: "relay_buf k = replicate CHAN_MAX 0" using assms(1) by (simp add: kernel_ok_def)
  have d: "slot_bus (registry ?k1 ! j) = BusInstance.Software d" using assms(4,8) by simp
  have x: "relay_transfer P i j n k =
      (if n \<le> length ?q
       then do { (k2, w) \<leftarrow> slot_write P j (take n ?q) ?k1;
                 Some (k2, case w of Inl _ \<Rightarrow> Inl SyscallError.Internal
                   | Inr m \<Rightarrow> if m \<noteq> n then Inl SyscallError.Internal else Inr ()) }
       else Some (?k1, Inl SyscallError.Internal))"
    using assms(2-6) z s'(1) by (auto simp: relay_transfer_def slot_bus_mut_def min_def Let_def)
  show ?thesis
  proof (cases "n \<le> length ?q \<and> n \<le> echo_room d")
    case True
    obtain d' where "slot_write P j (take n ?q) ?k1 = Some (set_bus j (BusInstance.Software d') ?k1, Inr n)"
        "echo_queue d' = echo_queue d @ take n ?q"
      using slot_write_echo [OF d assms(9), of "take n ?q" P] True by auto
    then show ?thesis using True x s'(2) assms(5)
      by (intro exI [of _ s'] exI [of _ ?buf]) (auto simp: set_bus_def intro!: exI [of _ d'])
  next
    case False
    have "slot_write P j (take n ?q) ?k1 = Some (?k1, Inl BusError.BufferTooSmall)" if "n \<le> length ?q"
      using that False d assms(9) set_bus_same [OF d]
      by (simp add: slot_write.simps [of P j] echo_role_write echo_write_eq del: set_bus_fields)
    then show ?thesis using False x s'(2) assms(5)
      by (intro exI [of _ s'] exI [of _ ?buf]) auto
  qed
qed

text \<open>C12: a relay between two loopback slots. When the source holds at least \<open>n\<close> bytes and the
  destination has room for them, the call moves exactly the first \<open>n\<close> bytes, in order, and touches
  nothing else: no user memory and no other slot. Otherwise it reports an internal error and the
  destination is unchanged, but the bytes read from the source are gone.\<close>

theorem relay_moves_bytes:
  assumes "kernel_ok k" "user_range_ok (arg0 ctx) HCAP_SIZE" "user_range_ok (arg1 ctx) HCAP_SIZE"
    and "authenticate (registry k) src RELAY_SRC" "src = hcap_at (umem k) (arg0 ctx)"
    and "authenticate (registry k) dst RELAY_DST" "dst = hcap_at (umem k) (arg1 ctx)"
    and "hcap_slot src \<noteq> hcap_slot dst" "n = unat (arg2 ctx)" "0 < n" "n \<le> CHAN_MAX"
    and "slot_bus (registry k ! unat (hcap_slot src)) = BusInstance.Software s" "echo_inv s"
    and "slot_bus (registry k ! unat (hcap_slot dst)) = BusInstance.Software d" "echo_inv d"
    and mapped: "user_readable (umem k) (arg0 ctx) 16" "user_readable (umem k) (arg1 ctx) 16"
  shows "\<exists>s'. echo_queue s' = drop n (echo_queue s) \<and>
    (if n \<le> length (echo_queue s) \<and> n \<le> echo_room d
     then \<exists>d'. echo_queue d' = echo_queue d @ take n (echo_queue s) \<and> handle_relay P ctx k =
       Some (set_bus (unat (hcap_slot dst)) (BusInstance.Software d')
               (set_bus (unat (hcap_slot src)) (BusInstance.Software s') k), 0)
     else handle_relay P ctx k =
       Some (set_bus (unat (hcap_slot src)) (BusInstance.Software s') k, as_rax SyscallError.Internal))"
proof -
  let ?f = "relay_transfer P (unat (hcap_slot src)) (unat (hcap_slot dst)) n"
  have ne: "unat (hcap_slot src) \<noteq> unat (hcap_slot dst)" using assms(8) by (simp add: word_unat_eq_iff)
  have z: "k\<lparr>relay_buf := replicate CHAN_MAX 0\<rparr> = k" using assms(1) by (simp add: kernel_ok_def)
  have h: "handle_relay P ctx k = map_option (\<lambda>(k1, res).
      (k1, case res of Inr _ \<Rightarrow> 0 | Inl _ \<Rightarrow> as_rax SyscallError.Internal)) (with_relay_buf ?f k)"
    using assms(2-7,9-11) mapped by (cases "with_relay_buf ?f k") (auto simp: handle_relay_def user_hcap_eq Let_def)
  note w = with_relay_buf_ok [where f = ?f, OF assms(1)]
  from relay_transfer_echo [OF assms(1) auth_slot [OF assms(4)] auth_slot [OF assms(6)] ne assms(11-15), of P]
  obtain s' buf where s': "echo_queue s' = drop n (echo_queue s)" "length buf = CHAN_MAX" and
    t: "if n \<le> length (echo_queue s) \<and> n \<le> echo_room d
     then \<exists>d'. echo_queue d' = echo_queue d @ take n (echo_queue s) \<and> ?f k =
       Some ((set_bus (unat (hcap_slot dst)) (BusInstance.Software d')
          (set_bus (unat (hcap_slot src)) (BusInstance.Software s') k))\<lparr>relay_buf := buf\<rparr>, Inr ())
     else ?f k = Some ((set_bus (unat (hcap_slot src)) (BusInstance.Software s') k)\<lparr>relay_buf := buf\<rparr>,
         Inl SyscallError.Internal)"
    by blast
  have sb: "(set_bus i b k)\<lparr>relay_buf := replicate CHAN_MAX 0\<rparr> = set_bus i b k"
    "(set_bus j c (set_bus i b k))\<lparr>relay_buf := replicate CHAN_MAX 0\<rparr> = set_bus j c (set_bus i b k)" for i j b c
    using assms(1) by (simp_all add: set_bus_def kernel_ok_def)
  show ?thesis
  proof (cases "n \<le> length (echo_queue s) \<and> n \<le> echo_room d")
    case True
    then obtain d' where d': "echo_queue d' = echo_queue d @ take n (echo_queue s)" "?f k =
       Some ((set_bus (unat (hcap_slot dst)) (BusInstance.Software d')
          (set_bus (unat (hcap_slot src)) (BusInstance.Software s') k))\<lparr>relay_buf := buf\<rparr>, Inr ())"
      using t by auto
    then have "handle_relay P ctx k = Some (set_bus (unat (hcap_slot dst)) (BusInstance.Software d')
        (set_bus (unat (hcap_slot src)) (BusInstance.Software s') k), 0)"
      using s'(2) w [OF d'(2)] sb h by simp
    then show ?thesis using True s'(1) d'(1) by auto
  next
    case False
    then have f: "?f k = Some ((set_bus (unat (hcap_slot src)) (BusInstance.Software s') k)\<lparr>relay_buf := buf\<rparr>,
         Inl SyscallError.Internal)" using t by auto
    show ?thesis using False s' w [OF f] sb h by (intro exI [of _ s']) simp
  qed
qed

theorem relay_moves_bytes_witness:
  "\<exists>s' d'. handle_relay demo_platform (demo_ctx 0x1000 0x1010 2) demo_relay_kernel =
       Some (set_bus 1 (BusInstance.Software d') (set_bus 0 (BusInstance.Software s') demo_relay_kernel), 0) \<and>
     echo_queue s' = [3] \<and> echo_queue d' = [1, 2]"
proof -
  have a: "arg0 (demo_ctx 0x1000 0x1010 2) = 0x1000" "arg1 (demo_ctx 0x1000 0x1010 2) = 0x1010"
    "unat (arg2 (demo_ctx 0x1000 0x1010 2)) = 2" by (simp_all add: demo_ctx_def)
  have r: "user_range_ok 0x1000 HCAP_SIZE" "user_range_ok 0x1010 HCAP_SIZE"
    by (simp_all add: demo_range HCAP_SIZE_def)
  have "hcap_slot demo_cap \<noteq> hcap_slot demo_dst_cap" "(2 :: nat) \<le> CHAN_MAX"
    by (simp_all add: demo_cap_def demo_dst_cap_def CHAN_MAX_def)
  then show ?thesis
    using relay_moves_bytes [OF demo_relay_ok, of "demo_ctx 0x1000 0x1010 2" demo_cap demo_dst_cap 2
      demo_src_bus demo_dst_bus demo_platform] demo_relay_slots demo_relay_caps demo_relay_mapped demo_cap_slot a r
    by (simp del: One_nat_def) metis
qed

lemma length_encode_info [simp]: "length (info_reserved i) = 6 \<Longrightarrow> length (encode_info i) = 8"
  by (simp add: encode_info_def)

lemma length_infos:
  assumes "list_all slot_ok ss"
  shows "length (concat (map encode_info (attached_infos i ss))) = 8 * length (attached_infos i ss)"
  using assms
  by (induction ss arbitrary: i) (auto simp: attached_infos_def slot_info_def slot_ok_def)

text \<open>C38: enumeration with room for \<open>count\<close> entries writes to user memory, in slot order, one
  eight-byte entry for every attached slot whose index is below \<open>count\<close>, and returns their number, when
  the capability and the memory for the entries are mapped.\<close>

theorem enumerate_lists_attached:
  assumes "kernel_ok k" "user_range_ok (arg0 ctx) HCAP_SIZE"
    and "authenticate (registry k) (hcap_at (umem k) (arg0 ctx)) ENUMERATE"
    and "unat (arg2 ctx) \<le> HSM_MAX_SLOTS" "user_range_ok (arg1 ctx) (arg2 ctx * 8)"
    and "infos = attached_infos 0 (take (unat (arg2 ctx)) (registry k))"
    and mapped: "user_readable (umem k) (arg0 ctx) 16" "user_writable (umem k) (arg1 ctx) (8 * length infos)"
  shows "\<exists>k'. handle_enumerate ctx k = Some (k', of_nat (length infos)) \<and>
     registry k' = registry k \<and>
     user_bytes (umem k') (arg1 ctx) (8 * length infos) = concat (map encode_info infos)"
proof -
  define n where "n = unat (arg2 ctx)"
  have ok: "length (registry k) = 8" "list_all slot_ok (registry k)"
    using assms(1) by (simp_all add: kernel_ok_def registry_ok_def HSM_MAX_SLOTS_def)
  have n: "n \<le> 8" "sat_mul (arg2 ctx) 8 = arg2 ctx * 8" "\<not> of_nat HSM_MAX_SLOTS < arg2 ctx"
    using assms(4) by (simp_all add: n_def HSM_MAX_SLOTS_def sat_mul_def word_less_nat_alt)
  have "list_all slot_ok (take n (registry k))" using ok(2) by (auto simp: list_all_iff dest: in_set_takeD)
  from length_infos [OF this, of 0]
  have l: "length (concat (map encode_info infos)) = 8 * length infos" by (simp add: assms(6) n_def)
  have le: "length infos \<le> 8"
    using length_attached_infos [of 0 "take n (registry k)"] n(1) by (simp add: assms(6) n_def)
  have "handle_enumerate ctx k =
      Some (k\<lparr>umem := user_store (umem k) (arg1 ctx) (concat (map encode_info infos))\<rparr>, of_nat (length infos))"
    using assms(2,3,5,6) mapped n l
    by (simp add: handle_enumerate_def enumerate_slots_eq user_hcap_eq copy_to_user_def Let_def HSM_MAX_SLOTS_def n_def [symmetric]
        min_absorb1 mult.commute)
  then show ?thesis
    using user_store_at [of "concat (map encode_info infos)" "umem k" "arg1 ctx"] l le by simp
qed

theorem enumerate_lists_attached_witness:
  "\<exists>k'. handle_enumerate (demo_ctx 0x1000 0x3000 2) demo_relay_kernel = Some (k', 2) \<and>
     user_bytes (umem k') 0x3000 16 = [0, 1, 0, 0, 0, 0, 0, 0, 1, 1, 0, 0, 0, 0, 0, 0]"
proof -
  let ?c = "demo_ctx 0x1000 0x3000 2"
  let ?i = "attached_infos 0 (take 2 (registry demo_relay_kernel))"
  have a: "arg0 ?c = 0x1000" "arg1 ?c = 0x3000" "arg2 ?c = 2" by (simp_all add: demo_ctx_def)
  have i: "concat (map encode_info ?i) = [0, 1, 0, 0, 0, 0, 0, 0, 1, 1, 0, 0, 0, 0, 0, 0]" "length ?i = 2"
    by (simp_all add: attached_infos_def demo_relay_kernel_def registry_new_def HSM_MAX_SLOTS_def
        replicate_numeral slot_info_def encode_info_def slot_new_def)
  have "authenticate (registry demo_relay_kernel) demo_cap ENUMERATE"
    by (simp add: authenticate_iff demo_relay_kernel_def registry_new_def HSM_MAX_SLOTS_def hsm_rights demo_cap_def)
  then show ?thesis
    using enumerate_lists_attached [OF demo_relay_ok, of ?c ?i] demo_relay_caps(1) demo_relay_mapped demo_range i
    by (simp add: a HCAP_SIZE_def HSM_MAX_SLOTS_def) blast
qed

end
