(* ===== verification/AirGap.thy ===== *)
theory AirGap
  imports HsmSyscalls
begin

text \<open>
  The air gap surface of \<^verbatim>\<open>src/src/air_gap.rs\<close>: the two boot capabilities (network attach, audit
  read) with their one-shot hand-out calls, the self check at the end of the boot, and the status
  call that returns slots and audit log in one block of 456 bytes.
\<close>

definition GAP_STATUS_HEADER_LEN :: nat where "GAP_STATUS_HEADER_LEN = 8"
definition GAP_STATUS_ENTRIES_LEN :: nat where "GAP_STATUS_ENTRIES_LEN = 64"
definition GAP_STATUS_AUDIT_LEN :: nat where "GAP_STATUS_AUDIT_LEN = 384"
definition GAP_STATUS_LEN :: nat where "GAP_STATUS_LEN = 456"

lemmas gap_consts =
  GAP_STATUS_HEADER_LEN_def GAP_STATUS_ENTRIES_LEN_def GAP_STATUS_AUDIT_LEN_def GAP_STATUS_LEN_def

subsection \<open>Boot\<close>

text \<open>A failed token generation leaves token 0, which the self check rejects.\<close>

definition gen_token_or_zero ::
  "('m, 'd) platform \<Rightarrow> ('m, 'd) kernel \<Rightarrow> (('m, 'd) kernel \<times> u64) option" where
  "gen_token_or_zero P k =
     do {
       (r, t) \<leftarrow> gen_token_u64 P (krng k);
       Some (set_rng r k, case t of Inl _ \<Rightarrow> 0 | Inr tok \<Rightarrow> tok)
     }"

definition init_audit_read_cap :: "('m, 'd) platform \<Rightarrow> ('m, 'd) kernel \<Rightarrow> ('m, 'd) kernel option" where
  "init_audit_read_cap P k =
     do {
       (k1, t0) \<leftarrow> gen_token_or_zero P k;
       (k2, _) \<leftarrow> gen_token_or_zero P k1;
       Some (k2\<lparr>audit_read_cap := (audit_read_cap k2)\<lparr>hcap_token := t0\<rparr>\<rparr>)
     }"

definition init_network_cap :: "('m, 'd) platform \<Rightarrow> ('m, 'd) kernel \<Rightarrow> ('m, 'd) kernel option" where
  "init_network_cap P k =
     do {
       (k1, t0) \<leftarrow> gen_token_or_zero P k;
       (k2, _) \<leftarrow> gen_token_or_zero P k1;
       Some (k2\<lparr>network_attach_cap := (network_attach_cap k2)\<lparr>hcap_token := t0\<rparr>\<rparr>)
     }"

text \<open>The self check stops the boot (\<open>None\<close>) when a capability that the build needs has no token.\<close>

definition gap_self_check :: "bool \<Rightarrow> ('m, 'd) kernel \<Rightarrow> ('m, 'd) kernel option" where
  "gap_self_check tls_external k =
     (if tls_external \<and> hcap_token (network_attach_cap k) = 0 then None
      else if hcap_token (audit_read_cap k) = 0 then None
      else Some k)"

subsection \<open>One-shot capabilities\<close>

definition take_network_cap ::
  "SyscallContext \<Rightarrow> ('m, 'd) kernel \<Rightarrow> (('m, 'd) kernel \<times> u64) option" where
  "take_network_cap ctx k =
     (if \<not> user_range_ok (arg0 ctx) HCAP_SIZE then Some (k, as_rax SyscallError.Denied)
      else if network_cap_state k \<noteq> Provisioned
      then Some (k_audit_enqueue 0xFE 2 (bus_kind_octet BusKind.Network) [0, 0, 0, 0] k, as_rax SyscallError.Denied)
      else do {
        let staging_cap = network_attach_cap k;
        m \<leftarrow> copy_to_user (umem k) (arg0 ctx) (encode_hcap staging_cap);
        let k2 = k\<lparr>umem := m, network_cap_state := Taken\<rparr>;
        Some (k_audit_enqueue 0xFE 3 (bus_kind_octet BusKind.Network) [0, 0, 0, 0] k2, 0)
      })"

definition take_audit_read_cap ::
  "SyscallContext \<Rightarrow> ('m, 'd) kernel \<Rightarrow> (('m, 'd) kernel \<times> u64) option" where
  "take_audit_read_cap ctx k =
     (if \<not> user_range_ok (arg0 ctx) HCAP_SIZE then Some (k, as_rax SyscallError.Denied)
      else if audit_cap_state k \<noteq> Provisioned
      then Some (k_audit_enqueue 0xFD 2 (bus_kind_octet BusKind.Software) [0, 0, 0, 0] k, as_rax SyscallError.Denied)
      else do {
        let staging_cap = audit_read_cap k;
        m \<leftarrow> copy_to_user (umem k) (arg0 ctx) (encode_hcap staging_cap);
        let k2 = k\<lparr>umem := m, audit_cap_state := Taken\<rparr>;
        Some (k_audit_enqueue 0xFD 3 (bus_kind_octet BusKind.Software) [0, 0, 0, 0] k2, 0)
      })"

subsection \<open>The status block\<close>

definition put_entry :: "bytes \<Rightarrow> nat \<Rightarrow> HsmSlotInfo \<Rightarrow> bytes option" where
  "put_entry staging off info =
     do {
       let info_bytes = encode_info info;
       b0 \<leftarrow> index_get info_bytes 0;
       st \<leftarrow> index_set staging off b0;
       b2 \<leftarrow> index_get info_bytes 2;
       st \<leftarrow> index_set st (off + 1) b2;
       b3 \<leftarrow> index_get info_bytes 3;
       st \<leftarrow> index_set st (off + 2) b3;
       st \<leftarrow> index_set st (off + 3) 0;
       pk \<leftarrow> slice info_bytes 4 8;
       copy_into st (off + 4) (off + 8) pk
     }"

fun put_entries :: "nat \<Rightarrow> nat \<Rightarrow> HsmSlotInfo list \<Rightarrow> bytes \<Rightarrow> bytes option" where
  "put_entries i 0 infos staging = Some staging"
| "put_entries i (Suc n) infos staging =
     do {
       info \<leftarrow> index_get infos i;
       st \<leftarrow> put_entry staging (GAP_STATUS_HEADER_LEN + i * 8) info;
       put_entries (i + 1) n infos st
     }"

fun put_status_events :: "nat \<Rightarrow> nat \<Rightarrow> enroll_event list \<Rightarrow> bytes \<Rightarrow> bytes option" where
  "put_status_events i 0 evs staging = Some staging"
| "put_status_events i (Suc n) evs staging =
     do {
       ev \<leftarrow> index_get evs i;
       st \<leftarrow> put_event staging (GAP_STATUS_HEADER_LEN + GAP_STATUS_ENTRIES_LEN + i * 12) ev;
       put_status_events (i + 1) n evs st
     }"

definition status_block :: "('m, 'd) kernel \<Rightarrow> bytes option" where
  "status_block k =
     do {
       let staging = replicate GAP_STATUS_LEN 0;
       (slot_infos, slot_count) \<leftarrow> enumerate_slots (registry k) (replicate 8 slot_info_empty);
       st \<leftarrow> put_entries 0 8 slot_infos staging;
       let (events_local, audit_written, audit_total) =
             audit_snapshot (kaudit k) (replicate AUDIT_RING_CAPACITY enroll_event_default);
       st \<leftarrow> copy_into st 0 2 (to_le 2 (of_nat slot_count :: u16));
       st \<leftarrow> copy_into st 2 4 (to_le 2 (of_nat audit_written :: u16));
       st \<leftarrow> copy_into st 4 8 (to_le 4 audit_total);
       put_status_events 0 audit_written events_local st
     }"

definition handle_hsm_status ::
  "SyscallContext \<Rightarrow> ('m, 'd) kernel \<Rightarrow> (('m, 'd) kernel \<times> u64) option" where
  "handle_hsm_status ctx k =
     (if arg1 ctx < of_nat GAP_STATUS_LEN then Some (k, as_rax SyscallError.Denied)
      else if hcap_token (audit_read_cap k) \<noteq> arg2 ctx
      then Some (k_audit_enqueue 0xFF 2 (bus_kind_octet BusKind.Software) [0, 0, 0, 0] k,
                 as_rax SyscallError.Denied)
      else if \<not> user_range_ok (arg0 ctx) (arg1 ctx) then Some (k, as_rax SyscallError.BadAddress)
      else do {
        staging \<leftarrow> status_block k;
        m \<leftarrow> copy_to_user (umem k) (arg0 ctx) staging;
        Some (k\<lparr>umem := m\<rparr>, 0)
      })"

subsection \<open>The block has the documented layout\<close>

definition entry_bytes :: "HsmSlotInfo \<Rightarrow> bytes" where
  "entry_bytes i = [info_slot i, info_reserved i ! 0, info_reserved i ! 1, 0] @ drop 2 (info_reserved i)"

lemma length_entry_bytes: "length (info_reserved i) = 6 \<Longrightarrow> length (entry_bytes i) = 8"
  by (simp add: entry_bytes_def)

lemma put_entry_eq:
  assumes "length (info_reserved info) = 6" "off + 8 \<le> length staging"
  shows "put_entry staging off info =
     Some (take off staging @ entry_bytes info @ drop (off + 8) staging)"
proof -
  obtain r0 r1 r2 r3 r4 r5 where r: "info_reserved info = [r0, r1, r2, r3, r4, r5]"
    using assms(1) by (auto simp: numeral_eq_Suc length_Suc_conv)
  have "\<exists>a0 a1 a2 a3. take 8 (drop off staging) = a0 # a1 # a2 # a3 # take 4 (drop (off + 4) staging)"
    using assms(2)
    by (intro exI [of _ "staging ! off"] exI [of _ "staging ! (off + 1)"] exI [of _ "staging ! (off + 2)"]
        exI [of _ "staging ! (off + 3)"]) (simp add: list_eq_iff_nth_eq nth_Cons' less_Suc_eq numeral_eq_Suc)
  then obtain a0 a1 a2 a3 where m: "take 8 (drop off staging) = a0 # a1 # a2 # a3 # take 4 (drop (off + 4) staging)"
    by blast
  have s: "staging = take off staging @ (a0 # a1 # a2 # a3 # take 4 (drop (off + 4) staging)) @ drop (off + 8) staging"
    unfolding m [symmetric] by (simp add: take_drop_join)
  have l: "length (take off staging) = off" "length (take 4 (drop (off + 4) staging)) = 4" using assms(2) by simp_all
  have "put_entry (pre @ (a0 # a1 # a2 # a3 # rest) @ post) (length pre) info =
      Some (pre @ entry_bytes info @ post)" if "length rest = 4" for pre rest post
    using that by (simp add: put_entry_def encode_info_def r entry_bytes_def list_update_append slice_def copy_into_def)
  from this [OF l(2), of "take off staging" "drop (off + 8) staging"] show ?thesis
    using s l(1) by simp
qed

interpretation entry_record: record_writer put_entry entry_bytes "\<lambda>i. length (info_reserved i) = 6" 8
  by unfold_locales (simp_all add: put_entry_eq length_entry_bytes)

lemma put_entries_run: "put_entries i n infos st = entry_record.put_run 8 i n infos st"
  by (induction n arbitrary: i st) (simp_all add: GAP_STATUS_HEADER_LEN_def cong: Option.bind_cong)

lemma put_status_events_run: "put_status_events i n evs st = event_record.put_run 72 i n evs st"
  by (induction n arbitrary: i st) (simp_all add: gap_consts cong: Option.bind_cong)

text \<open>The documented block: counters, eight slot entries, the audit events, zeros.\<close>

definition status_bytes :: "('m, 'd) kernel \<Rightarrow> bytes" where
  "status_bytes k =
     (let infos = attached_infos 0 (registry k);
          evs = audit_recent (kaudit k)
      in to_le 2 (of_nat (length infos) :: u16) @ to_le 2 (of_nat (length evs) :: u16) @
         to_le 4 (total (kaudit k)) @
         concat (map entry_bytes (infos @ replicate (8 - length infos) slot_info_empty)) @
         concat (map event_bytes evs) @ replicate (384 - 12 * length evs) 0)"

lemma slot_infos_wf:
  assumes "registry_ok ss"
  shows "\<forall>i \<in> set (attached_infos 0 ss). length (info_reserved i) = 6"
  using assms
  by (auto simp: attached_infos_def registry_ok_def list_all_iff slot_ok_def slot_info_def in_set_enumerate_eq
      dest!: nth_mem)

lemma status_block_eq:
  assumes "kernel_ok k"
  shows "status_block k = Some (status_bytes k) \<and> length (status_bytes k) = GAP_STATUS_LEN"
proof -
  have ok: "registry_ok (registry k)" "ring_ok (kaudit k)" using assms by (simp_all add: kernel_ok_def)
  define infos where "infos = attached_infos 0 (registry k)"
  define evs where "evs = audit_recent (kaudit k)"
  let ?all = "infos @ replicate (8 - length infos) slot_info_empty"
  have li: "length infos \<le> 8" and la: "length ?all = 8"
    using length_attached_infos [of 0 "registry k"] registry_okD(2) [OF ok(1)]
    by (simp_all add: infos_def HSM_MAX_SLOTS_def)
  have wf: "\<forall>i \<in> set ?all. length (info_reserved i) = 6"
    using slot_infos_wf [OF ok(1)] by (auto simp: infos_def slot_info_empty_def)
  have e: "enumerate_slots (registry k) (replicate 8 slot_info_empty) = Some (?all, length infos)"
    using registry_okD(2) [OF ok(1)] li by (simp add: enumerate_slots_eq infos_def Let_def HSM_MAX_SLOTS_def)
  obtain loc where
    s: "audit_snapshot (kaudit k) (replicate AUDIT_RING_CAPACITY enroll_event_default) =
          (loc, length evs, total (kaudit k))"
    and loc: "take (length evs) loc = evs" "length loc = 32" "length evs \<le> 32"
      "\<forall>e \<in> set loc. length (ev_pk_hash_prefix e) = 4"
    using audit_snapshot_recent [OF ok(2)] unfolding evs_def by blast
  let ?E = "concat (map entry_bytes ?all)" and ?V = "concat (map event_bytes evs)"
  let ?h = "to_le 2 (of_nat (length infos) :: u16) @ to_le 2 (of_nat (length evs) :: u16) @ to_le 4 (total (kaudit k))"
  have lE: "length ?E = 64" using entry_record.length_encs [OF wf] la by simp
  have lV: "length ?V = 12 * length evs"
    using loc(1,4) by (intro event_record.length_encs) (metis in_set_takeD)
  have p1: "put_entries 0 8 ?all (replicate 456 0) = Some (replicate 8 0 @ ?E @ replicate 384 0)"
    using entry_record.put_run_eq [OF wf, of 0 8 8 "replicate 456 0"] la by (simp add: put_entries_run)
  have p2: "put_status_events 0 (length evs) loc (?h @ ?E @ replicate 384 0) =
      Some (?h @ ?E @ ?V @ replicate (384 - 12 * length evs) 0)"
    using event_record.put_run_eq [OF loc(4), of 0 "length evs" 72 "?h @ ?E @ replicate 384 0"] loc(1-3) lE
    by (simp add: put_status_events_run mult.commute)
  have "status_block k = Some (status_bytes k)"
    using e s p1 p2 lE by (simp add: status_block_def gap_consts Let_def status_bytes_def infos_def evs_def)
  then show ?thesis
    using lE lV loc(3) by (simp add: status_bytes_def infos_def evs_def Let_def gap_consts)
qed

text \<open>The status call with a large enough buffer in writable pages. With the audit token it writes the documented 456
  bytes at the output pointer and changes nothing else in the kernel, not even the audit log. With any
  other token it is denied, writes nothing, and records one denial.\<close>

theorem status_call_reports:
  assumes "kernel_ok k" "GAP_STATUS_LEN \<le> unat (arg1 ctx)" "user_range_ok (arg0 ctx) (arg1 ctx)"
    and "user_writable (umem k) (arg0 ctx) GAP_STATUS_LEN"
  shows "if arg2 ctx = hcap_token (audit_read_cap k)
    then \<exists>m. handle_hsm_status ctx k = Some (k\<lparr>umem := m\<rparr>, 0) \<and>
       user_bytes m (arg0 ctx) GAP_STATUS_LEN = status_bytes k \<and>
       (\<forall>a. \<not> is_user_address a \<longrightarrow> ubyte m a = ubyte (umem k) a)
    else handle_hsm_status ctx k =
       Some (k_audit_enqueue 0xFF 2 0 [0, 0, 0, 0] k, as_rax SyscallError.Denied)"
proof -
  have l: "\<not> arg1 ctx < of_nat GAP_STATUS_LEN"
    using assms(2) by (simp add: gap_consts word_less_nat_alt)
  note b = status_block_eq [OF assms(1)]
  have "user_bytes (user_store (umem k) (arg0 ctx) (status_bytes k)) (arg0 ctx) GAP_STATUS_LEN = status_bytes k"
    using user_store_at [of "status_bytes k" "umem k" "arg0 ctx"] b by (simp add: gap_consts)
  moreover have "\<forall>a. \<not> is_user_address a \<longrightarrow> ubyte (user_store (umem k) (arg0 ctx) (status_bytes k)) a = ubyte (umem k) a"
    using user_store_kernel_safe [OF assms(3)] b assms(2) by simp
  ultimately show ?thesis
    using l b assms(3,4) by (auto simp: handle_hsm_status_def copy_to_user_def)
qed

theorem status_call_reports_witness:
  "\<exists>m. handle_hsm_status (demo_ctx 0x3000 456 0) demo_kernel = Some (demo_kernel\<lparr>umem := m\<rparr>, 0) \<and>
     take 8 (user_bytes m 0x3000 456) = replicate 8 0"
proof -
  have a: "arg0 (demo_ctx 0x3000 456 0) = 0x3000" "arg1 (demo_ctx 0x3000 456 0) = 456"
    "arg2 (demo_ctx 0x3000 456 0) = hcap_token (audit_read_cap demo_kernel)"
    by (simp_all add: demo_ctx_def demo_kernel_def hcap_invalid_def)
  have r: "user_range_ok 0x3000 456"
    by (simp add: user_range_ok_def is_user_address_def USER_MIN_def USER_MAX_def sat_add_def)
  have "take 8 (status_bytes demo_kernel) = replicate 8 0"
    by (simp add: status_bytes_def Let_def demo_kernel_def demo_entropy_def audit_ring_init_def
        attached_infos_def registry_new_def slot_new_def audit_recent_def audit_snapshot_def to_le_def
        upt_conv_Cons replicate_numeral HSM_MAX_SLOTS_def)
  then show ?thesis
    using status_call_reports [OF demo_kernel_ok, of "demo_ctx 0x3000 456 0"] r
    unfolding a by (auto simp: gap_consts demo_umem)
qed

lemma handle_hsm_status_keep:
  assumes "kernel_ok k"
  shows "settles (user_writable (umem k) (arg0 ctx) GAP_STATUS_LEN) (sys_keep k) (handle_hsm_status ctx k)"
proof -
  note b = status_block_eq [OF assms]
  have "sys_keep k (k\<lparr>umem := user_store (umem k) (arg0 ctx) (status_bytes k)\<rparr>)"
    if "user_range_ok (arg0 ctx) (arg1 ctx)" "\<not> arg1 ctx < of_nat GAP_STATUS_LEN"
    using user_write_keep [OF sys_keep_refl [OF assms] that(1)] b that(2)
    by (simp add: gap_consts word_less_nat_alt)
  then show ?thesis
    using b assms audit_safe [OF assms] by (auto simp: handle_hsm_status_def copy_to_user_def)
qed

text \<open>A hand-out call succeeds exactly when the capability was not yet handed out and the pointer is
  good; it then moves the state on, for good. It returns when the pointer is to writable memory.\<close>

lemma take_audit_cap_result:
  assumes "kernel_ok k" "take_audit_read_cap ctx k = Some (k', r)"
  shows "kernel_ok k' \<and> (r = 0 \<longleftrightarrow> audit_cap_state k = Provisioned \<and> user_range_ok (arg0 ctx) HCAP_SIZE) \<and>
     audit_cap_state k' = (if r = 0 then Taken else audit_cap_state k)"
  using assms
  by (auto simp: take_audit_read_cap_def copy_to_user_def Let_def kernel_ok_def ring_ok_enqueue split: if_splits)

lemma take_network_cap_result:
  assumes "kernel_ok k" "take_network_cap ctx k = Some (k', r)"
  shows "kernel_ok k' \<and> (r = 0 \<longleftrightarrow> network_cap_state k = Provisioned \<and> user_range_ok (arg0 ctx) HCAP_SIZE) \<and>
     network_cap_state k' = (if r = 0 then Taken else network_cap_state k)"
  using assms
  by (auto simp: take_network_cap_def copy_to_user_def Let_def kernel_ok_def ring_ok_enqueue split: if_splits)

lemma take_caps_return:
  assumes "kernel_ok k" "user_writable (umem k) (arg0 ctx) 16"
  shows "take_audit_read_cap ctx k \<noteq> None" "take_network_cap ctx k \<noteq> None"
  using assms
  by (auto simp: take_audit_read_cap_def take_network_cap_def copy_to_user_def Let_def kernel_ok_def split: if_splits)

end
