(* ===== verification/SyscallDispatch.thy ===== *)
theory SyscallDispatch
  imports AirGap
begin

text \<open>
  The system call dispatcher of \<^verbatim>\<open>src/src/arch/x86_64/syscall.rs\<close> with the calls it implements
  itself (exit, write, getrandom), and what holds of every state that user programs can reach
  through it. The record \<open>build_config\<close> collects the build features that select match arms; the
  arm of the \<open>smoke\<close> feature, a test build, is left out. A call of exit does not return, nor does a call
  that copies from or to user memory that is not mapped.
\<close>

subsection \<open>Console output and random bytes\<close>

record build_config =
  tls_external :: bool
  debug_assertions :: bool

definition SYS_WRITE_MAX :: u64 where "SYS_WRITE_MAX = 8 * 1024"
definition GETRANDOM_MAX :: u64 where "GETRANDOM_MAX = 4096"

text \<open>The copy loop of write, in chunks of the 256-byte stack buffer.\<close>

function sys_write_loop :: "bool \<Rightarrow> umem \<Rightarrow> u64 \<Rightarrow> nat \<Rightarrow> bytes \<Rightarrow> bytes option" where
  "sys_write_loop debug m src remaining printed =
     (if remaining = 0 then Some printed
      else do {
        let chunk = min remaining 256;
        stack_buf \<leftarrow> copy_from_user m src chunk;
        sys_write_loop debug m (src + of_nat chunk) (remaining - chunk) (if debug then printed @ stack_buf else printed)
      })"
  by pat_completeness auto
termination
  by (relation "measure (\<lambda>(debug, m, src, remaining, printed). remaining)") auto

declare sys_write_loop.simps [simp del]

definition sys_write ::
  "build_config \<Rightarrow> u64 \<Rightarrow> u64 \<Rightarrow> u64 \<Rightarrow> ('m, 'd) kernel \<Rightarrow> (('m, 'd) kernel \<times> u64) option" where
  "sys_write cfg fd buf_ptr len k =
     (if fd \<noteq> 2 then Some (k, as_rax SyscallError.BadArg)
      else if SYS_WRITE_MAX < len then Some (k, as_rax SyscallError.BadArg)
      else if \<not> user_range_ok buf_ptr len then Some (k, as_rax SyscallError.BadAddress)
      else do {
        out \<leftarrow> sys_write_loop (debug_assertions cfg) (umem k) buf_ptr (unat len) (console k);
        Some (k\<lparr>console := out\<rparr>, len)
      })"

function getrandom_loop ::
  "('m, 'd) platform \<Rightarrow> u64 \<Rightarrow> nat \<Rightarrow> bytes \<Rightarrow> umem \<Rightarrow> ('m, 'd) rng_state \<Rightarrow>
     (('m, 'd) rng_state \<times> umem \<times> bool) option" where
  "getrandom_loop P dst remaining tmp m r =
     (if remaining = 0 then Some (r, m, True)
      else do {
        let chunk = min remaining 256;
        win \<leftarrow> slice tmp 0 chunk;
        (r1, bs, res) \<leftarrow> rand_bytes P r win;
        let tmp1 = bs @ drop chunk tmp;
        case res of
          Inl _ \<Rightarrow> Some (r1, m, False)
        | Inr _ \<Rightarrow>
            do {
              out \<leftarrow> slice tmp1 0 chunk;
              m1 \<leftarrow> copy_to_user m dst out;
              getrandom_loop P (dst + of_nat chunk) (remaining - chunk) tmp1 m1 r1
            }
      })"
  by pat_completeness auto
termination
  by (relation "measure (\<lambda>(P, dst, remaining, tmp, m, r). remaining)") auto

declare getrandom_loop.simps [simp del]

definition sys_getrandom ::
  "('m, 'd) platform \<Rightarrow> u64 \<Rightarrow> u64 \<Rightarrow> ('m, 'd) kernel \<Rightarrow> (('m, 'd) kernel \<times> u64) option" where
  "sys_getrandom P buf_ptr len k =
     (if len = 0 \<or> GETRANDOM_MAX < len then Some (k, as_rax SyscallError.BadArg)
      else if \<not> user_range_ok buf_ptr len then Some (k, as_rax SyscallError.BadAddress)
      else do {
        (r, m, ok) \<leftarrow> getrandom_loop P buf_ptr (unat len) (replicate 256 0) (umem k) (krng k);
        Some ((set_rng r k)\<lparr>umem := m\<rparr>, if ok then len else as_rax SyscallError.Internal)
      })"

subsection \<open>The dispatcher\<close>

definition sys_exit :: "u64 \<Rightarrow> 'a option" where
  "sys_exit status = None"

definition dispatch_call ::
  "('m, 'd) platform \<Rightarrow> build_config \<Rightarrow> SyscallContext \<Rightarrow> ('m, 'd) kernel \<Rightarrow> (('m, 'd) kernel \<times> u64) option" where
  "dispatch_call P cfg ctx k =
     (let x = ctx_num ctx
      in if x = syscall_num Exit then sys_exit (arg0 ctx)
         else if x = syscall_num Write then sys_write cfg (arg0 ctx) (arg1 ctx) (arg2 ctx) k
         else if x = syscall_num GetRandom then sys_getrandom P (arg0 ctx) (arg1 ctx) k
         else if x = syscall_num HsmAttach then handle_attach P (tls_external cfg) ctx k
         else if x = syscall_num HsmDetach then handle_detach ctx k
         else if x = syscall_num HsmEnumerate then handle_enumerate ctx k
         else if x = syscall_num HsmWrite then handle_write P ctx k
         else if x = syscall_num HsmRelay then handle_relay P ctx k
         else if x = syscall_num HsmRead then handle_read ctx k
         else if tls_external cfg \<and> x = syscall_num NetworkCapTake then take_network_cap ctx k
         else if x = syscall_num AuditCapTake then take_audit_read_cap ctx k
         else if x = syscall_num HsmStatus then handle_hsm_status ctx k
         else Some (k, as_rax SyscallError.Unknown))"

definition dispatch ::
  "('m, 'd) platform \<Rightarrow> build_config \<Rightarrow> SyscallContext \<Rightarrow> ('m, 'd) kernel \<Rightarrow>
     (('m, 'd) kernel \<times> SyscallContext) option" where
  "dispatch P cfg ctx k =
     do { (k1, result) \<leftarrow> dispatch_call P cfg ctx k; Some (k1, ctx\<lparr>ctx_num := result\<rparr>) }"

subsection \<open>The chunked loops\<close>

lemma sys_write_loop_eq:
  "sys_write_loop debug m src n printed =
     (if user_readable m src n then Some (if debug then printed @ user_bytes m src n else printed) else None)"
proof (induction debug m src n printed rule: sys_write_loop.induct)
  case (1 debug m src n printed)
  let ?c = "min n 256"
  show ?case
  proof (cases "n = 0")
    case False
    have "user_bytes m src n = user_bytes m src ?c @ user_bytes m (src + of_nat ?c) (n - ?c)"
      "user_readable m src n \<longleftrightarrow> user_readable m src ?c \<and> user_readable m (src + of_nat ?c) (n - ?c)"
      using user_bytes_append [of m src ?c "n - ?c"] user_access_append(1) [of m src ?c "n - ?c"] by simp_all
    then show ?thesis
      using False 1 [OF False refl, of "user_bytes m src ?c"]
      by (cases "user_readable m src ?c") (auto simp: sys_write_loop.simps [of debug m src n] copy_from_user_def Let_def)
  qed (simp add: sys_write_loop.simps [of _ m src 0] user_bytes_def user_readable_def)
qed

text \<open>The write call on standard error prints, in a debug build, exactly the bytes of the caller's
  buffer, however long (it copies them in pieces of 256), and nothing in a release build; it returns
  the length and changes nothing else. Every other descriptor, a length above 8 KiB and a range that
  leaves user memory are refused without effect. With a byte of the buffer not mapped it does not return.\<close>

theorem sys_write_prints:
  "sys_write cfg fd p len k =
     (if fd = 2 \<and> unat len \<le> 8192
      then if user_range_ok p len
           then if user_readable (umem k) p (unat len)
                then Some (k\<lparr>console := console k @
                       (if debug_assertions cfg then user_bytes (umem k) p (unat len) else [])\<rparr>, len)
                else None
           else Some (k, as_rax SyscallError.BadAddress)
      else Some (k, as_rax SyscallError.BadArg))"
  by (auto simp: sys_write_def sys_write_loop_eq SYS_WRITE_MAX_def word_less_nat_alt)

text \<open>A sequence of successful draws from the kernel's generator.\<close>

inductive draws :: "('m, 'd) platform \<Rightarrow> ('m, 'd) rng_state \<Rightarrow> bytes list \<Rightarrow> ('m, 'd) rng_state \<Rightarrow> bool"
  for P :: "('m, 'd) platform" where
  none: "draws P r [] r"
| more: "rand_bytes P r buf = Some (r1, bs, Inr ()) \<Longrightarrow> draws P r1 bss r2 \<Longrightarrow> draws P r (bs # bss) r2"

text \<open>How a run of draws ended: well, or with a draw that failed.\<close>

definition drew :: "('m, 'd) platform \<Rightarrow> ('m, 'd) rng_state \<Rightarrow> bytes list \<Rightarrow> bool \<Rightarrow> ('m, 'd) rng_state \<Rightarrow> bool" where
  "drew P r bss ok r' \<longleftrightarrow> (if ok then draws P r bss r'
     else \<exists>r1 buf bs e. draws P r bss r1 \<and> rand_bytes P r1 buf = Some (r', bs, Inl e))"

lemma drew_more: "rand_bytes P r buf = Some (r1, bs, Inr ()) \<Longrightarrow> drew P r1 bss ok r' \<Longrightarrow> drew P r (bs # bss) ok r'"
  by (auto simp: drew_def intro: draws.more split: if_splits)

lemma getrandom_loop_spec:
  assumes "platform_ok P" "length tmp = 256" "getrandom_loop P dst n tmp m r = Some (r', m', ok)"
  shows "ent_frame (ent r) (ent r') \<and> (\<exists>bss. length (concat bss) \<le> n \<and> m' = user_store m dst (concat bss) \<and>
     drew P r bss ok r' \<and> (ok \<longrightarrow> length (concat bss) = n))"
  using assms
proof (induction P dst n tmp m r rule: getrandom_loop.induct)
  case (1 P dst n tmp m r)
  have nil: "user_store m dst [] = m" by (simp add: user_store_def on_stack_def)
  show ?case
  proof (cases "n = 0")
    case True
    then show ?thesis
      using 1(4) draws.none [of P r] nil
      by (auto simp: getrandom_loop.simps [of P dst 0] drew_def intro!: exI [of _ "[]"])
  next
    case False
    let ?c = "min n 256"
    have w: "slice tmp 0 ?c = Some (take ?c tmp)" using 1(3) by simp
    obtain r1 bs res where b: "rand_bytes P r (take ?c tmp) = Some (r1, bs, res)"
      using 1(4) False w by (auto simp: getrandom_loop.simps [of P dst n] Let_def split: Option.bind_splits)
    have l: "length bs = ?c" using rand_bytes_length [OF 1(2) b] 1(3) by simp
    note f = rand_bytes_frame [OF b]
    show ?thesis
    proof (cases res)
      case (Inl e)
      have "drew P r [] False r1"
        unfolding drew_def using draws.none [of P r] b [unfolded Inl] by (simp, intro exI [of _ r] conjI) blast+
      then show ?thesis
        using 1(4) False w b f nil Inl by (auto simp: getrandom_loop.simps [of P dst n] Let_def intro!: exI [of _ "[]"])
    next
      case (Inr u)
      let ?t = "bs @ drop ?c tmp"
      have s: "slice ?t 0 ?c = Some bs" using l by simp
      obtain m1 where m1: "copy_to_user m dst bs = Some m1" and
          e: "getrandom_loop P (dst + of_nat ?c) (n - ?c) ?t m1 r1 = Some (r', m', ok)"
        using 1(4) False w b s Inr by (auto simp: getrandom_loop.simps [of P dst n] Let_def split: Option.bind_splits)
      have "length ?t = 256" using l 1(3) by simp
      from 1(1) [OF False refl w b refl refl refl Inr s m1 1(2) this e] obtain bss where
        i: "ent_frame (ent r1) (ent r')" "length (concat bss) \<le> n - ?c"
          "m' = user_store m1 (dst + of_nat ?c) (concat bss)"
          "drew P r1 bss ok r'" "ok \<longrightarrow> length (concat bss) = n - ?c"
        by blast
      then show ?thesis
        using f l b m1 Inr ent_frame_trans [OF f i(1)] user_store_append [of m dst bs "concat bss"]
        by (intro conjI exI [of _ "bs # bss"]) (auto simp: copy_to_user_Some intro: drew_more)
    qed
  qed
qed

lemma sys_getrandom_loop:
  assumes "platform_ok P" "sys_getrandom P p len k = Some (k', r)"
    and "len \<noteq> 0" "unat len \<le> 4096" "user_range_ok p len"
  obtains bss ok rn where "k' = (set_rng rn k)\<lparr>umem := user_store (umem k) p (concat bss)\<rparr>"
    "r = (if ok then len else as_rax SyscallError.Internal)" "drew P (krng k) bss ok rn"
    "length (concat bss) \<le> unat len" "ok \<longrightarrow> length (concat bss) = unat len" "ent_frame (ent (krng k)) (ent rn)"
proof -
  obtain m ok rn where g: "getrandom_loop P p (unat len) (replicate 256 0) (umem k) (krng k) = Some (rn, m, ok)"
      "k' = (set_rng rn k)\<lparr>umem := m\<rparr>" "r = (if ok then len else as_rax SyscallError.Internal)"
    using assms(2-5) by (auto simp: sys_getrandom_def GETRANDOM_MAX_def word_less_nat_alt split: Option.bind_splits)
  show thesis using getrandom_loop_spec [OF assms(1) _ g(1)] that g(2,3) by auto
qed

text \<open>C37: getrandom. A length of zero or above 4096 is refused as a bad argument and a range that leaves
  user memory as a bad address, with nothing changed. Otherwise a call that returns has changed only the
  generator and bytes of the buffer, and returns one of two values. The requested length: then the buffer
  holds the concatenation of successive successful draws from the kernel's generator. Or the internal error
  code: then a draw failed, and the front of the buffer holds the draws before it.\<close>

theorem getrandom_fills_buffer:
  assumes "platform_ok P" "sys_getrandom P p len k = Some (k', r)"
  shows "if len = 0 \<or> 4096 < unat len then k' = k \<and> r = as_rax SyscallError.BadArg
    else if \<not> user_range_ok p len then k' = k \<and> r = as_rax SyscallError.BadAddress
    else (\<forall>a. (\<forall>i < unat len. a \<noteq> p + of_nat i) \<longrightarrow> ubyte (umem k') a = ubyte (umem k) a) \<and>
      k' = (set_rng (krng k') k)\<lparr>umem := umem k'\<rparr> \<and>
      (\<exists>bss. (r = len \<and> draws P (krng k) bss (krng k') \<and> user_bytes (umem k') p (unat len) = concat bss) \<or>
         (r = as_rax SyscallError.Internal \<and> user_bytes (umem k') p (length (concat bss)) = concat bss \<and>
          (\<exists>r1 buf bs e. draws P (krng k) bss r1 \<and> rand_bytes P r1 buf = Some (krng k', bs, Inl e))))"
proof (cases "len = 0 \<or> 4096 < unat len \<or> \<not> user_range_ok p len")
  case True
  then show ?thesis using assms(2) by (auto simp: sys_getrandom_def GETRANDOM_MAX_def word_less_nat_alt split: if_splits)
next
  case False
  then obtain bss ok rn where b: "k' = (set_rng rn k)\<lparr>umem := user_store (umem k) p (concat bss)\<rparr>"
      "r = (if ok then len else as_rax SyscallError.Internal)" "drew P (krng k) bss ok rn"
      "length (concat bss) \<le> unat len" "ok \<longrightarrow> length (concat bss) = unat len"
    using sys_getrandom_loop [OF assms] by (metis not_le)
  have "ubyte (umem k') a = ubyte (umem k) a" if "\<forall>i < unat len. a \<noteq> p + of_nat i" for a
    using that b(1,4) poke_bytes_other [of "concat bss" a p "ubyte (umem k)"] by simp
  moreover have "user_bytes (umem k') p (length (concat bss)) = concat bss"
    using b(1,4) False user_store_at [of "concat bss" "umem k" p] by simp
  moreover have "krng k' = rn" "k' = (set_rng (krng k') k)\<lparr>umem := umem k'\<rparr>" using b(1) by simp_all
  ultimately show ?thesis using b(2,3,5) False by (cases ok) (auto simp: drew_def intro!: exI [of _ bss])
qed

lemma demo_draw:
  "sys_getrandom demo_platform 0x3000 2 demo_kernel =
     Some ((set_rng \<lparr>ent = demo_entropy, cap_drbg = Some 1\<rparr> demo_kernel)\<lparr>umem := user_store (umem demo_kernel) 0x3000 [1, 1]\<rparr>, 2)"
proof -
  have "rand_bytes demo_platform (krng demo_kernel) [0, 0] =
      Some (\<lparr>ent = demo_entropy, cap_drbg = Some 1\<rparr>, [1, 1], Inr ())"
    by (simp add: rand_bytes_def rand_bytes_loop.simps [of demo_platform 0] demo_kernel_def replicate_numeral)
  moreover have "Prelude.slice (replicate 256 (0 :: u8)) 0 2 = Some [0, 0]" by (simp add: replicate_numeral)
  ultimately show ?thesis
    by (simp add: sys_getrandom_def getrandom_loop.simps [where remaining = 2] Let_def copy_to_user_def demo_umem
        getrandom_loop.simps [where remaining = 0] GETRANDOM_MAX_def demo_range)
qed

theorem getrandom_fills_buffer_witness:
  "\<exists>k'. sys_getrandom demo_platform 0x3000 2 demo_kernel = Some (k', 2) \<and>
     (\<exists>bss. draws demo_platform (krng demo_kernel) bss (krng k') \<and> user_bytes (umem k') 0x3000 2 = concat bss)"
  using getrandom_fills_buffer [OF demo_platform_ok demo_draw] demo_draw demo_range [of "0x3000" 2] by auto

subsection \<open>What every system call preserves\<close>

text \<open>
  The contract of a system call: the invariant, the mapping and the memory outside the user half, the boot
  capabilities and the trust root stay; the authority of the registry moves by one step of the authority machine;
  a capability once handed out stays handed out.
\<close>

definition call_ok :: "('m, 'd) kernel \<Rightarrow> ('m, 'd) kernel \<Rightarrow> bool" where
  "call_ok k k' \<longleftrightarrow> kernel_ok k' \<and> umem_frame (umem k) (umem k') \<and>
     audit_read_cap k' = audit_read_cap k \<and> network_attach_cap k' = network_attach_cap k \<and>
     active_trust_root_pk (attest k') = active_trust_root_pk (attest k) \<and>
     boot_challenge (attest k') = boot_challenge (attest k) \<and>
     (audit_cap_state k = Taken \<longrightarrow> audit_cap_state k' = Taken) \<and>
     (network_cap_state k = Taken \<longrightarrow> network_cap_state k' = Taken) \<and>
     authority_step (grants (registry k)) (grants (registry k'))"

lemma call_ok_safe:
  "sys_safe k k' \<Longrightarrow> authority_step (grants (registry k)) (grants (registry k')) \<Longrightarrow> call_ok k k'"
  by (simp add: call_ok_def sys_safe_def)

lemma call_ok_keep: "sys_keep k k' \<Longrightarrow> call_ok k k'"
  by (simp add: call_ok_def sys_keep_def sys_safe_def authority_step.keep)

lemma call_ok_refl: "kernel_ok k \<Longrightarrow> call_ok k k"
  by (simp add: call_ok_keep)

lemma take_caps_call_ok:
  assumes "kernel_ok k"
  shows "take_audit_read_cap ctx k = Some (k', r) \<Longrightarrow> call_ok k k'" "take_network_cap ctx k = Some (k', r) \<Longrightarrow> call_ok k k'"
proof -
  have l: "length (encode_hcap (audit_read_cap k)) \<le> unat HCAP_SIZE"
    "length (encode_hcap (network_attach_cap k)) \<le> unat HCAP_SIZE"
    using assms by (simp_all add: kernel_ok_def HCAP_SIZE_def)
  show "call_ok k k'" if t: "take_audit_read_cap ctx k = Some (k', r)"
    unfolding call_ok_def using take_audit_cap_result [OF assms t] t umem_frame_store [OF _ l(1)]
    by (auto simp: take_audit_read_cap_def copy_to_user_def Let_def authority_step.keep split: if_splits)
  show "call_ok k k'" if t: "take_network_cap ctx k = Some (k', r)"
    unfolding call_ok_def using take_network_cap_result [OF assms t] t umem_frame_store [OF _ l(2)]
    by (auto simp: take_network_cap_def copy_to_user_def Let_def authority_step.keep split: if_splits)
qed

lemma sys_getrandom_ok:
  assumes "platform_ok P" "kernel_ok k" "sys_getrandom P p len k = Some (k', r)"
  shows "call_ok k k'"
proof (cases "len = 0 \<or> 4096 < unat len \<or> \<not> user_range_ok p len")
  case True
  then have "k' = k"
    using assms(3) by (auto simp: sys_getrandom_def GETRANDOM_MAX_def word_less_nat_alt split: if_splits)
  then show ?thesis using call_ok_refl [OF assms(2)] by simp
next
  case False
  then obtain bss ok rn where b: "k' = (set_rng rn k)\<lparr>umem := user_store (umem k) p (concat bss)\<rparr>"
      "length (concat bss) \<le> unat len" "ent_frame (ent (krng k)) (ent rn)"
    using sys_getrandom_loop [OF assms(1,3)] by (metis not_le)
  then show ?thesis
    using assms(2) False umem_frame_store [OF _ b(2)]
    by (auto simp: call_ok_def kernel_ok_def ent_frame_def authority_step.keep)
qed

lemma settles_returned: "settles mapped R res \<Longrightarrow> res = Some (k', r) \<Longrightarrow> R k'"
  by simp

lemma dispatch_call_ok:
  assumes "platform_ok P" "kernel_ok k" "dispatch_call P cfg ctx k = Some (k', r)"
  shows "call_ok k k'"
proof -
  note refl = call_ok_refl [OF assms(2)]
  have w: "sys_write cfg fd p len k = Some (k', r) \<Longrightarrow> call_ok k k'" for fd p len
    using assms(2) refl
    by (auto simp: sys_write_def sys_write_loop_eq call_ok_def kernel_ok_def authority_step.keep split: if_splits)
  have d: "handle_detach ctx k = Some (k', r) \<Longrightarrow> call_ok k k'"
    using settles_returned [OF handle_detach_refines [OF assms(2)]] call_ok_safe by blast
  have a: "handle_attach P tls ctx k = Some (k', r) \<Longrightarrow> call_ok k k'" for tls
    using handle_attach_refines [OF assms(1,2)] call_ok_safe by blast
  note keeps = settles_returned [OF handle_enumerate_keep [OF assms(2)], THEN call_ok_keep]
    settles_returned [OF handle_write_keep [OF assms(1,2)], THEN call_ok_keep]
    settles_returned [OF handle_relay_keep [OF assms(1,2)], THEN call_ok_keep]
    settles_returned [OF handle_read_keep [OF assms(2)], THEN call_ok_keep]
    settles_returned [OF handle_hsm_status_keep [OF assms(2)], THEN call_ok_keep]
  show ?thesis
    using assms(3) refl w d a keeps take_caps_call_ok [OF assms(2)] sys_getrandom_ok [OF assms(1,2)]
    unfolding dispatch_call_def Let_def sys_exit_def
    by (simp del: syscall_num.simps split: if_splits)
qed

subsection \<open>User programs\<close>

text \<open>
  What user programs can do: enter the kernel with any registers, or store to their writable pages. The
  kernel's use of its own stack shows at user addresses too (\<open>frames\<close>). A call that wrote to the kernel's
  stack leaves the kernel in any state at all (\<open>corrupt\<close>); nothing is said about what comes after.
\<close>

definition poke :: "u64 \<Rightarrow> u8 \<Rightarrow> ('m, 'd) kernel \<Rightarrow> ('m, 'd) kernel" where
  "poke a v k = k\<lparr>umem := (umem k)\<lparr>ubyte := (ubyte (umem k))(a := v)\<rparr>\<rparr>"

inductive user_step :: "('m, 'd) platform \<Rightarrow> build_config \<Rightarrow> ('m, 'd) kernel \<Rightarrow> ('m, 'd) kernel \<Rightarrow> bool"
  for P :: "('m, 'd) platform" and cfg :: build_config where
  call: "\<not> stack_hit (umem k) \<Longrightarrow> dispatch P cfg ctx k = Some (k', ctx') \<Longrightarrow> \<not> stack_hit (umem k') \<Longrightarrow> user_step P cfg k k'"
| corrupt: "\<not> stack_hit (umem k) \<Longrightarrow> dispatch P cfg ctx k = Some (k', ctx') \<Longrightarrow> stack_hit (umem k') \<Longrightarrow>
     stack_hit (umem k'') \<Longrightarrow> user_step P cfg k k''"
| store: "\<not> stack_hit (umem k) \<Longrightarrow> is_user_address a \<Longrightarrow> upage (umem k) a = ReadWrite \<Longrightarrow> user_step P cfg k (poke a v k)"
| frames: "\<not> stack_hit (umem k) \<Longrightarrow> is_user_address a \<Longrightarrow> upage (umem k) a = KernelStack \<Longrightarrow> user_step P cfg k (poke a v k)"

lemma dispatch_ok:
  "dispatch P cfg c k = Some (k1, c1) \<Longrightarrow> platform_ok P \<Longrightarrow> kernel_ok k \<Longrightarrow> call_ok k k1"
  using dispatch_call_ok by (auto simp: dispatch_def split: Option.bind_splits)

lemma poke_ok: "kernel_ok k \<Longrightarrow> is_user_address a \<Longrightarrow> call_ok k (poke a v k)"
  by (auto simp: call_ok_def kernel_ok_def umem_frame_def poke_def authority_step.keep)

text \<open>One step from an intact kernel: the contract holds, or the stack was mapped at a user address.\<close>

lemma user_step_ok:
  assumes "user_step P cfg k k'" "platform_ok P" "kernel_ok k"
  shows "\<not> stack_hit (umem k) \<and>
    (if stack_hit (umem k') then \<exists>a. is_user_address a \<and> upage (umem k) a = KernelStack else call_ok k k')"
  using assms
proof (cases rule: user_step.cases)
  case (call ctx ctx')
  then show ?thesis using dispatch_ok [OF _ assms(2,3)] by simp
next
  case (corrupt ctx k1 ctx')
  then show ?thesis using dispatch_ok [OF _ assms(2,3), of cfg ctx k1] by (auto simp: call_ok_def umem_frame_def)
next
  case (store a v)
  then show ?thesis using poke_ok [OF assms(3)] by (simp add: poke_def)
next
  case (frames a v)
  then show ?thesis using poke_ok [OF assms(3)] by (simp add: poke_def)
qed


text \<open>A call that relays two bytes, as a step of a user program.\<close>

definition demo_cfg :: build_config where
  "demo_cfg = \<lparr>tls_external = False, debug_assertions = False\<rparr>"

lemma demo_relay_no_stack: "upage (umem demo_relay_kernel) a = ReadWrite" "\<not> stack_hit (umem demo_relay_kernel)"
  by (simp_all add: demo_relay_kernel_def demo_kernel_def on_stack_def list_ex_iff)

lemma demo_user_step:
  "\<exists>k'. user_step demo_platform demo_cfg demo_relay_kernel k' \<and> \<not> stack_hit (umem k') \<and>
     grants (registry k') 0 = Some (5, USE OR ENUMERATE OR REVOKE OR RELAY_SRC, BusKind.Software)"
proof -
  let ?c = "(demo_ctx 0x1000 0x1010 2)\<lparr>ctx_num := 11\<rparr>"
  obtain k' r where h: "handle_relay demo_platform ?c demo_relay_kernel = Some (k', r)" "sys_keep demo_relay_kernel k'"
    using handle_relay_keep [OF demo_platform_ok demo_relay_ok, of ?c] demo_relay_mapped
    by (cases "handle_relay demo_platform ?c demo_relay_kernel") auto
  then have n: "\<not> stack_hit (umem k')"
    using demo_relay_no_stack by (auto simp: sys_keep_def sys_safe_def umem_frame_def)
  have "dispatch demo_platform demo_cfg ?c demo_relay_kernel = Some (k', ?c\<lparr>ctx_num := r\<rparr>)"
    using h(1) by (simp add: dispatch_def dispatch_call_def)
  then have "user_step demo_platform demo_cfg demo_relay_kernel k'"
    using demo_relay_no_stack(2) n by (intro user_step.call)
  moreover have "grants (registry k') 0 = grants (registry demo_relay_kernel) 0"
    using h(2) by (simp add: sys_keep_def)
  moreover have "grants (registry demo_relay_kernel) 0 =
      Some (5, USE OR ENUMERATE OR REVOKE OR RELAY_SRC, BusKind.Software)"
    by (simp add: grants_def demo_relay_kernel_def registry_new_def HSM_MAX_SLOTS_def)
  ultimately show ?thesis using n by auto
qed


lemma reachable_ok:
  assumes "(user_step P cfg)\<^sup>*\<^sup>* k0 k" "platform_ok P" "kernel_ok k0" "\<not> stack_hit (umem k)"
  shows "kernel_ok k"
  using assms(1,4)
proof (induction rule: rtranclp_induct)
  case (step k k')
  have "\<not> stack_hit (umem k)" using step.hyps(2) by (cases rule: user_step.cases) simp_all
  then show ?case using step user_step_ok [OF step.hyps(2) assms(2)] by (auto simp: call_ok_def)
qed (use assms(3) in simp)



text \<open>A program run: calls, stores and the kernel's frames, with the log of call numbers and results. There is
  no result when a call does not return, when a store faults, or once the kernel's stack was overwritten.\<close>

datatype user_action = CallAct SyscallContext | StoreAct u64 u8 | FrameAct u64 u8

fun run_user ::
  "('m, 'd) platform \<Rightarrow> build_config \<Rightarrow> user_action list \<Rightarrow> ('m, 'd) kernel \<Rightarrow>
     (('m, 'd) kernel \<times> (u64 \<times> u64) list) option" where
  "run_user P cfg [] k = Some (k, [])"
| "run_user P cfg (CallAct c # as) k =
     do {
       (k1, c1) \<leftarrow> dispatch P cfg c k;
       if stack_hit (umem k1) then None
       else do {
         (k2, log) \<leftarrow> run_user P cfg as k1;
         Some (k2, (ctx_num c, ctx_num c1) # log)
       }
     }"
| "run_user P cfg (StoreAct a v # as) k =
     (if is_user_address a \<and> upage (umem k) a = ReadWrite then run_user P cfg as (poke a v k) else None)"
| "run_user P cfg (FrameAct a v # as) k =
     (if is_user_address a \<and> upage (umem k) a = KernelStack then run_user P cfg as (poke a v k) else None)"

definition successes :: "SyscallNum \<Rightarrow> (u64 \<times> u64) list \<Rightarrow> nat" where
  "successes n log = length (filter (\<lambda>(x, r). x = syscall_num n \<and> r = 0) log)"

lemma dispatch_take:
  assumes "dispatch P cfg c k = Some (k1, c1)" "ctx_num c = syscall_num AuditCapTake" "ctx_num c1 = 0" "kernel_ok k"
  shows "audit_cap_state k = Provisioned \<and> audit_cap_state k1 = Taken"
  using assms take_audit_cap_result [OF assms(4), of c]
  by (cases "take_audit_read_cap c k") (auto simp: dispatch_def dispatch_call_def split: if_splits)


text \<open>Two programs both try to take the audit capability.\<close>

lemma demo_takes:
  "\<exists>k' r. run_user demo_platform demo_cfg
     [CallAct ((demo_ctx 0x3000 0 0)\<lparr>ctx_num := syscall_num AuditCapTake\<rparr>),
      CallAct ((demo_ctx 0x3000 0 0)\<lparr>ctx_num := syscall_num AuditCapTake\<rparr>)] demo_kernel =
     Some (k', [(syscall_num AuditCapTake, 0), (syscall_num AuditCapTake, r)])"
proof -
  have u: "user_range_ok 0x3000 HCAP_SIZE" using demo_range [of "0x3000" HCAP_SIZE] by (simp add: HCAP_SIZE_def)
  show ?thesis
    by (simp add: dispatch_def dispatch_call_def take_audit_read_cap_def copy_to_user_def u demo_ctx_def demo_cfg_def
        Let_def demo_umem) (simp add: demo_kernel_def on_stack_def list_ex_iff)
qed


text \<open>The user memory that a call may access.\<close>

definition buffers_mapped :: "umem \<Rightarrow> SyscallContext \<Rightarrow> bool" where
  "buffers_mapped m ctx =
     (let x = ctx_num ctx; n = unat (arg2 ctx)
      in if x = syscall_num Write then user_readable m (arg1 ctx) (min n 8192)
         else if x = syscall_num HsmDetach then user_readable m (arg0 ctx) 16
         else if x = syscall_num HsmEnumerate then user_readable m (arg0 ctx) 16 \<and> user_writable m (arg1 ctx) (min n 8 * 8)
         else if x = syscall_num HsmWrite then user_readable m (arg0 ctx) 16 \<and> user_readable m (arg1 ctx) (min n CHAN_MAX)
         else if x = syscall_num HsmRelay then user_readable m (arg0 ctx) 16 \<and> user_readable m (arg1 ctx) 16
         else if x = syscall_num HsmRead then user_readable m (arg0 ctx) 16 \<and> user_writable m (arg1 ctx) (min n WIRE_FRAME_MAX)
         else if x = syscall_num NetworkCapTake \<or> x = syscall_num AuditCapTake then user_writable m (arg0 ctx) 16
         else if x = syscall_num HsmStatus then user_writable m (arg0 ctx) GAP_STATUS_LEN
         else True)"

lemma settles_returns: "settles mapped R res \<Longrightarrow> mapped \<Longrightarrow> res \<noteq> None"
  by (cases res) auto

lemma handlers_return:
  assumes "platform_ok P" "kernel_ok k" "buffers_mapped (umem k) ctx"
    and "ctx_num ctx \<notin> {syscall_num Exit, syscall_num HsmAttach, syscall_num GetRandom}"
  shows "dispatch_call P cfg ctx k \<noteq> None"
proof -
  have "sys_write cfg (arg0 ctx) (arg1 ctx) (arg2 ctx) k \<noteq> None"
    if "user_readable (umem k) (arg1 ctx) (min (unat (arg2 ctx)) 8192)"
    using that by (auto simp: sys_write_prints min_absorb1)
  note calls = this settles_returns [OF handle_detach_refines [OF assms(2)]] settles_returns [OF handle_enumerate_keep [OF assms(2)]]
    settles_returns [OF handle_write_keep [OF assms(1,2)]] settles_returns [OF handle_relay_keep [OF assms(1,2)]]
    settles_returns [OF handle_read_keep [OF assms(2)]] settles_returns [OF handle_hsm_status_keep [OF assms(2)]]
    take_caps_return [OF assms(2)]
  show ?thesis
    using assms(3,4) unfolding dispatch_call_def buffers_mapped_def Let_def
    by (simp add: calls del: not_None_eq split: if_split_asm)
qed


text \<open>The example kernel with nothing mapped.\<close>

definition demo_unmapped_kernel :: "(u64, u64) kernel" where
  "demo_unmapped_kernel = demo_kernel\<lparr>umem := (umem demo_kernel)\<lparr>upage := \<lambda>_. NotMapped\<rparr>\<rparr>"


text \<open>C99: the pointer check does not protect the kernel's stack. When the stack is mapped at a user address,
  a getrandom call with a buffer of up to 256 bytes in it passes the check, reports success, and the stack
  holds the generator's output where the kernel's saved registers and return addresses were.\<close>

theorem getrandom_overwrites_stack:
  assumes "platform_ok P" "ctx_num ctx = syscall_num GetRandom" "user_range_ok (arg0 ctx) (arg1 ctx)"
    and "0 < unat (arg1 ctx)" "unat (arg1 ctx) \<le> 256"
    and "\<forall>i < unat (arg1 ctx). upage (umem k) (arg0 ctx + of_nat i) = KernelStack"
    and "rand_bytes P (krng k) (replicate (unat (arg1 ctx)) 0) = Some (r, bs, Inr ())"
  shows "\<exists>k'. dispatch P cfg ctx k = Some (k', ctx\<lparr>ctx_num := arg1 ctx\<rparr>) \<and> stack_hit (umem k') \<and>
     user_bytes (umem k') (arg0 ctx) (unat (arg1 ctx)) = bs"
proof -
  let ?n = "unat (arg1 ctx)"
  have l: "length bs = ?n" using rand_bytes_length [OF assms(1,7)] by simp
  have "user_writable (umem k) (arg0 ctx) ?n" "on_stack (umem k) (arg0 ctx) ?n"
    using assms(4,6) by (auto simp: user_writable_def on_stack_def list_all_iff list_ex_iff intro!: bexI [of _ 0])
  moreover have "take ?n (bs @ drop ?n (replicate 256 0)) = bs" using l by simp
  ultimately have "sys_getrandom P (arg0 ctx) (arg1 ctx) k =
      Some ((set_rng r k)\<lparr>umem := user_store (umem k) (arg0 ctx) bs\<rparr>, arg1 ctx)"
    using assms(3-5,7) l
    by (auto simp: sys_getrandom_def GETRANDOM_MAX_def word_less_nat_alt Let_def copy_to_user_def
        getrandom_loop.simps [where remaining = ?n] getrandom_loop.simps [where remaining = 0] min_absorb1)
  then show ?thesis
    using assms(2) \<open>on_stack (umem k) (arg0 ctx) ?n\<close> user_store_at [of bs "umem k" "arg0 ctx"] l assms(5)
    by (simp add: dispatch_def dispatch_call_def)
qed

definition demo_stack_kernel :: "(u64, u64) kernel" where
  "demo_stack_kernel = demo_kernel\<lparr>umem := (umem demo_kernel)\<lparr>upage := \<lambda>_. KernelStack\<rparr>\<rparr>"

theorem getrandom_overwrites_stack_witness:
  "\<exists>k'. dispatch demo_platform demo_cfg ((demo_ctx 0x3000 2 0)\<lparr>ctx_num := syscall_num GetRandom\<rparr>) demo_stack_kernel =
     Some (k', (demo_ctx 0x3000 2 0)\<lparr>ctx_num := 2\<rparr>) \<and> stack_hit (umem k') \<and> user_bytes (umem k') 0x3000 2 = [1, 1]"
proof -
  let ?c = "(demo_ctx 0x3000 2 0)\<lparr>ctx_num := syscall_num GetRandom\<rparr>"
  have "rand_bytes demo_platform (krng demo_stack_kernel) [0, 0] =
      Some (\<lparr>ent = demo_entropy, cap_drbg = Some 1\<rparr>, [1, 1], Inr ())"
    by (simp add: rand_bytes_def rand_bytes_loop.simps [of demo_platform 0] demo_stack_kernel_def demo_kernel_def replicate_numeral)
  moreover have "\<forall>a. upage (umem demo_stack_kernel) a = KernelStack" by (simp add: demo_stack_kernel_def)
  moreover have "arg0 ?c = 0x3000" "arg1 ?c = 2" "ctx_num ?c = syscall_num GetRandom" by (simp_all add: demo_ctx_def)
  ultimately show ?thesis
    using getrandom_overwrites_stack [OF demo_platform_ok, of ?c demo_stack_kernel _ "[1, 1]" demo_cfg] demo_range [of "0x3000" 2]
    by (auto simp: replicate_numeral)
qed

end
