(* ===== verification/PhysMem.thy ===== *)
theory PhysMem
  imports Prelude
begin

text \<open>
  Physical memory as the boot code sees it through the identity map of the boot page tables: bytes
  at natural-number addresses, with the loads and stores of little-endian machine words that the raw
  pointer accesses of \<^verbatim>\<open>src/src/allocator.rs\<close>, \<^verbatim>\<open>src/src/arch/x86_64/mmu.rs\<close>,
  \<^verbatim>\<open>src/src/arch/x86_64/multiboot2.rs\<close> and \<^verbatim>\<open>src/src/process.rs\<close> perform, and the plain
  \<open>+\<close> and \<open>-\<close> of Rust's machine integers: with overflow checks (the dev profile) an overflow
  panics, without them (the release profile) it wraps. The argument \<open>oc\<close> says which.
\<close>

type_synonym pmem = "nat \<Rightarrow> u8"

definition load_bytes :: "pmem \<Rightarrow> nat \<Rightarrow> nat \<Rightarrow> bytes" where
  "load_bytes m p n = map m [p..<p + n]"

definition store_bytes :: "pmem \<Rightarrow> nat \<Rightarrow> bytes \<Rightarrow> pmem" where
  "store_bytes m p bs = (\<lambda>a. if p \<le> a \<and> a < p + length bs then bs ! (a - p) else m a)"

definition secure_zero :: "pmem \<Rightarrow> nat \<Rightarrow> nat \<Rightarrow> pmem" where
  "secure_zero m p n = (\<lambda>a. if p \<le> a \<and> a < p + n then 0 else m a)"

definition load32 :: "pmem \<Rightarrow> nat \<Rightarrow> u32" where
  "load32 m p = from_le (load_bytes m p 4)"

definition load64 :: "pmem \<Rightarrow> nat \<Rightarrow> u64" where
  "load64 m p = from_le (load_bytes m p 8)"

definition store64 :: "pmem \<Rightarrow> nat \<Rightarrow> u64 \<Rightarrow> pmem" where
  "store64 m p v = store_bytes m p (to_le 8 v)"

definition add_ovf :: "bool \<Rightarrow> 'a::len word \<Rightarrow> 'a word \<Rightarrow> 'a word option" where
  "add_ovf oc a b = (if oc \<and> 2 ^ LENGTH('a) \<le> unat a + unat b then None else Some (a + b))"

definition sub_ovf :: "bool \<Rightarrow> 'a::len word \<Rightarrow> 'a word \<Rightarrow> 'a word option" where
  "sub_ovf oc a b = (if oc \<and> unat a < unat b then None else Some (a - b))"

definition checked_add :: "'a::len word \<Rightarrow> 'a word \<Rightarrow> 'a word option" where
  "checked_add a b = (if 2 ^ LENGTH('a) \<le> unat a + unat b then None else Some (a + b))"

definition sat_sub :: "'a::len word \<Rightarrow> 'a word \<Rightarrow> 'a word" where
  "sat_sub a b = (if unat a < unat b then 0 else a - b)"

subsection \<open>Loads after stores\<close>

lemma length_load_bytes [simp]: "length (load_bytes m p n) = n"
  by (simp add: load_bytes_def)

lemma load_store_same: "load_bytes (store_bytes m p bs) p (length bs) = bs"
  by (auto simp: load_bytes_def store_bytes_def intro: nth_equalityI)

lemma load_bytes_cong: "(\<And>a. p \<le> a \<Longrightarrow> a < p + n \<Longrightarrow> m a = m' a) \<Longrightarrow> load_bytes m p n = load_bytes m' p n"
  by (simp add: load_bytes_def)

lemma load_store_other:
  "q + n \<le> p \<or> p + length bs \<le> q \<Longrightarrow> load_bytes (store_bytes m p bs) q n = load_bytes m q n"
  by (rule load_bytes_cong) (auto simp: store_bytes_def)

lemma load64_cong: "(\<And>a. p \<le> a \<Longrightarrow> a < p + 8 \<Longrightarrow> m a = m' a) \<Longrightarrow> load64 m p = load64 m' p"
  unfolding load64_def by (simp add: load_bytes_cong [of p 8 m m'])

lemma load64_store64_same [simp]: "load64 (store64 m p v) p = v"
  using load_store_same [of m p "to_le 8 v"] by (simp add: load64_def store64_def)

lemma load64_store64_other: "q + 8 \<le> p \<or> p + 8 \<le> q \<Longrightarrow> load64 (store64 m p v) q = load64 m q"
  by (simp add: load64_def store64_def load_store_other)

lemma store64_other: "a < p \<or> p + 8 \<le> a \<Longrightarrow> store64 m p v a = m a"
  by (auto simp: store64_def store_bytes_def)

lemma store_bytes_other: "a < p \<or> p + length bs \<le> a \<Longrightarrow> store_bytes m p bs a = m a"
  by (auto simp: store_bytes_def)

lemma from_le_zero: "set bs \<subseteq> {0} \<Longrightarrow> from_le bs = 0"
  by (induction bs) auto

lemma load64_zeroed: "p \<le> q \<Longrightarrow> q + 8 \<le> p + n \<Longrightarrow> load64 (secure_zero m p n) q = 0"
  unfolding load64_def by (rule from_le_zero) (auto simp: load_bytes_def secure_zero_def)

lemma load64_zero_other: "q + 8 \<le> p \<or> p + n \<le> q \<Longrightarrow> load64 (secure_zero m p n) q = load64 m q"
  by (rule load64_cong) (auto simp: secure_zero_def)

subsection \<open>Checked arithmetic\<close>

lemma add_ovf_Some [simp]: "unat a + unat b < 2 ^ LENGTH('a) \<Longrightarrow> add_ovf oc a b = Some (a + b)"
  for a b :: "'a::len word"
  by (simp add: add_ovf_def)

lemma checked_add_Some:
  "checked_add a b = Some c \<Longrightarrow> unat c = unat a + unat b" for a b c :: "'a::len word"
  by (auto simp: checked_add_def unat_word_ariths split: if_splits)

lemma sub_ovf_Some [simp]: "unat b \<le> unat a \<Longrightarrow> sub_ovf oc a b = Some (a - b)" for a b :: "'a::len word"
  by (simp add: sub_ovf_def)

lemma unat_add_ovf: "add_ovf oc a b = Some c \<Longrightarrow> unat a + unat b < 2 ^ LENGTH('a) \<Longrightarrow> unat c = unat a + unat b"
  for a b c :: "'a::len word"
  by (auto simp: unat_word_ariths)

lemma unat_of_nat_small: "n < 2 ^ LENGTH('a) \<Longrightarrow> unat (of_nat n :: 'a::len word) = n"
  by (simp add: unsigned_of_nat take_bit_nat_eq_self)

lemma unat_ucast_32_64 [simp]: "unat (ucast (w :: u32) :: u64) = unat w"
  using unat_less_pow [of w] by (simp add: unsigned_ucast_eq take_bit_nat_eq_self_iff)

subsection \<open>Alignment\<close>

lemma unat_and_mask: "unat (w AND mask n) = unat w mod 2 ^ n" for w :: "'a::len word"
  by (metis take_bit_eq_mask take_bit_eq_mod unsigned_take_bit_eq)

lemma and_not_mask: "w AND NOT (mask n) = w - (w AND mask n)" for w :: "'a::len word"
proof -
  have "(w AND NOT (mask n)) + (w AND mask n) = (w AND NOT (mask n)) OR (w AND mask n)"
    by (rule disjunctive_add_eq_or) (simp add: and.assoc and.left_commute)
  also have "\<dots> = w" by (rule bit_word_eqI) (auto simp: bit_simps)
  finally show ?thesis by (simp add: eq_diff_eq)
qed

lemma unat_and_not_mask: "unat (w AND NOT (mask n)) = unat w div 2 ^ n * 2 ^ n" for w :: "'a::len word"
proof -
  have "w AND mask n \<le> w" by (simp add: word_and_le2)
  then have "unat (w AND NOT (mask n)) = unat w - unat w mod 2 ^ n"
    by (simp add: and_not_mask unat_sub unat_and_mask)
  then show ?thesis by (simp add: minus_mod_eq_div_mult)
qed

lemma mask_4095: "(4095 :: 'a::len word) = mask 12"
  by (simp add: mask_eq_exp_minus_1)

lemma ceil_4096: "(x + 4095) div 4096 = (if x mod 4096 = 0 then x div 4096 else x div 4096 + 1)" for x :: nat
proof -
  define q r where "q = x div 4096" and "r = x mod 4096"
  have x: "x = q * 4096 + r" "r < 4096" by (simp_all add: q_def r_def)
  show ?thesis
  proof (cases r)
    case 0
    then show ?thesis by (simp add: x(1))
  next
    case (Suc n)
    then have "x + 4095 = (q + 1) * 4096 + n" "n < 4096" using x by simp_all
    then have "(x + 4095) div 4096 = q + 1" by (simp add: div_nat_eqI)
    then show ?thesis using Suc by (simp flip: q_def r_def)
  qed
qed

lemma ceil_4096_le: "(x + 4095) div 4096 \<le> i \<longleftrightarrow> x \<le> i * 4096" for x i :: nat
proof -
  have "(x + 4095) div 4096 < i + 1 \<longleftrightarrow> x + 4095 < (i + 1) * 4096" by (rule div_less_iff_less_mult) simp
  then show ?thesis by auto
qed

lemma load_bytes_sub:
  assumes "load_bytes m p n = bs" "k + j \<le> n"
  shows "load_bytes m (p + k) j = take j (drop k bs)"
proof (rule nth_equalityI)
  show "length (load_bytes m (p + k) j) = length (take j (drop k bs))"
    using assms by auto
  fix i assume "i < length (load_bytes m (p + k) j)"
  then show "load_bytes m (p + k) j ! i = take j (drop k bs) ! i"
    using assms by (auto simp: load_bytes_def add.assoc)
qed

lemma load_bytes_append:
  "load_bytes m p (length xs + length ys) = xs @ ys \<longleftrightarrow>
     load_bytes m p (length xs) = xs \<and> load_bytes m (p + length xs) (length ys) = ys"
proof -
  have "load_bytes m p (length xs + length ys) = load_bytes m p (length xs) @ load_bytes m (p + length xs) (length ys)"
    using upt_add_eq_append [of p "p + length xs" "length ys"] by (simp add: load_bytes_def add.assoc)
  then show ?thesis by auto
qed

end
