(* ===== verification/BootMemory.thy ===== *)
theory BootMemory
  imports PhysMem
begin

text \<open>
  The physical memory map of \<^verbatim>\<open>src/src/boot/memory_map.rs\<close>, the boot information of
  \<^verbatim>\<open>src/src/boot/mod.rs\<close> and the parser of the boot loader's Multiboot2 structure in
  \<^verbatim>\<open>src/src/arch/x86_64/multiboot2.rs\<close>. The structure is a sequence of tags in physical memory; the
  parser follows the size field of each tag, so its loops are \<open>partial_function\<close>s: not returning is
  \<^const>\<open>None\<close>.
\<close>

subsection \<open>The memory map\<close>

datatype ParseError = InvalidAddress | InvalidSize

datatype MemoryKind = Usable | Reserved | AcpiReclaimable | AcpiNvs | BadMemory

record MemoryRegion =
  region_base :: u64
  region_length :: u64
  region_kind :: MemoryKind

definition region_end :: "bool \<Rightarrow> MemoryRegion \<Rightarrow> u64 option" where
  "region_end oc r = add_ovf oc (region_base r) (region_length r)"

definition MAX_REGIONS :: nat where "MAX_REGIONS = 64"

definition DEFAULT_REGION :: MemoryRegion where
  "DEFAULT_REGION = \<lparr>region_base = 0, region_length = 0, region_kind = Reserved\<rparr>"

record MemoryMap =
  map_regions :: "MemoryRegion list"
  map_count :: nat

definition memory_map_empty :: MemoryMap where
  "memory_map_empty = \<lparr>map_regions = replicate MAX_REGIONS DEFAULT_REGION, map_count = 0\<rparr>"

definition add_region :: "MemoryRegion \<Rightarrow> MemoryMap \<Rightarrow> (MemoryMap \<times> (ParseError + unit)) option" where
  "add_region r mm =
     (if MAX_REGIONS \<le> map_count mm then Some (mm, Inr ())
      else do {
        rs \<leftarrow> index_set (map_regions mm) (map_count mm) r;
        Some (mm\<lparr>map_regions := rs, map_count := map_count mm + 1\<rparr>, Inr ())
      })"

definition regions :: "MemoryMap \<Rightarrow> MemoryRegion list option" where
  "regions mm = slice (map_regions mm) 0 (map_count mm)"

definition usable_regions :: "MemoryMap \<Rightarrow> MemoryRegion list option" where
  "usable_regions mm = map_option (filter (\<lambda>r. region_kind r = Usable)) (regions mm)"

fun sum_lengths :: "bool \<Rightarrow> u64 \<Rightarrow> MemoryRegion list \<Rightarrow> u64 option" where
  "sum_lengths oc acc [] = Some acc"
| "sum_lengths oc acc (r # rs) = do { acc1 \<leftarrow> add_ovf oc acc (region_length r); sum_lengths oc acc1 rs }"

definition total_usable_bytes :: "bool \<Rightarrow> MemoryMap \<Rightarrow> u64 option" where
  "total_usable_bytes oc mm = do { rs \<leftarrow> usable_regions mm; sum_lengths oc 0 rs }"

fun max_ends :: "bool \<Rightarrow> u64 \<Rightarrow> MemoryRegion list \<Rightarrow> u64 option" where
  "max_ends oc acc [] = Some acc"
| "max_ends oc acc (r # rs) = do { e \<leftarrow> region_end oc r; max_ends oc (max acc e) rs }"

definition highest_addr :: "bool \<Rightarrow> MemoryMap \<Rightarrow> u64 option" where
  "highest_addr oc mm = do { rs \<leftarrow> regions mm; max_ends oc 0 rs }"

subsection \<open>The Multiboot2 parser\<close>

definition memory_kind :: "u32 \<Rightarrow> MemoryKind" where
  "memory_kind typ =
     (if typ = 1 then Usable
      else if typ = 3 then AcpiReclaimable
      else if typ = 4 then AcpiNvs
      else if typ = 5 then BadMemory
      else Reserved)"

text \<open>One entry of the memory map tag: base, length and type at the entry's address.\<close>

definition take_entry :: "pmem \<Rightarrow> u64 \<Rightarrow> MemoryMap \<Rightarrow> MemoryMap option" where
  "take_entry m entry_ptr mm =
     (let p = unat entry_ptr;
          entry_base = load64 m p;
          entry_length = load64 m (p + 8);
          typ = load32 m (p + 16);
          kind = memory_kind typ
      in if 0 < entry_length
         then map_option fst (add_region \<lparr>region_base = entry_base, region_length = entry_length, region_kind = kind\<rparr> mm)
         else Some mm)"

partial_function (option) parse_entries ::
  "bool \<Rightarrow> pmem \<Rightarrow> u64 \<Rightarrow> u64 \<Rightarrow> u64 \<Rightarrow> MemoryMap \<Rightarrow> MemoryMap option" where
  "parse_entries oc m entry_size entries_end entry_ptr mm =
     (if sat_add entry_ptr entry_size \<le> entries_end
      then do {
        mm1 \<leftarrow> take_entry m entry_ptr mm;
        ptr1 \<leftarrow> add_ovf oc entry_ptr entry_size;
        parse_entries oc m entry_size entries_end ptr1 mm1
      }
      else Some mm)"

definition parse_mmap_tag :: "bool \<Rightarrow> pmem \<Rightarrow> u64 \<Rightarrow> u64 \<Rightarrow> u32 \<Rightarrow> MemoryMap \<Rightarrow> MemoryMap option" where
  "parse_mmap_tag oc m info_end tag_phys tag_size mm =
     (let entry_size = ucast (load32 m (unat tag_phys + 8)) :: u64
      in if 24 \<le> entry_size
         then do {
           entries_start \<leftarrow> add_ovf oc tag_phys 16;
           tag_end \<leftarrow> add_ovf oc tag_phys (ucast tag_size);
           let entries_end = min tag_end info_end;
           parse_entries oc m entry_size entries_end entries_start mm
         }
         else Some mm)"

definition next_tag :: "bool \<Rightarrow> u32 \<Rightarrow> u32 option" where
  "next_tag oc tag_size = do { s \<leftarrow> add_ovf oc tag_size 7; Some (s AND NOT 7) }"

partial_function (option) parse_tags ::
  "bool \<Rightarrow> pmem \<Rightarrow> u64 \<Rightarrow> u32 \<Rightarrow> u32 \<Rightarrow> MemoryMap \<Rightarrow> MemoryMap option" where
  "parse_tags oc m info_addr total_size offset mm =
     (if offset < total_size
      then do {
        tag_phys \<leftarrow> add_ovf oc info_addr (ucast offset);
        let typ = load32 m (unat tag_phys);
        let tag_size = load32 m (unat tag_phys + 4);
        if typ = 0 then Some mm
        else do {
          info_end \<leftarrow> add_ovf oc info_addr (ucast total_size);
          let tag_fits = (sat_add tag_phys (ucast tag_size) \<le> info_end);
          mm1 \<leftarrow> (if typ = 6 \<and> 16 \<le> tag_size \<and> tag_fits
                   then parse_mmap_tag oc m info_end tag_phys tag_size mm else Some mm);
          next \<leftarrow> next_tag oc tag_size;
          (case checked_add offset next of
             None \<Rightarrow> Some mm1
           | Some offset1 \<Rightarrow> parse_tags oc m info_addr total_size offset1 mm1)
        }
      }
      else Some mm)"

definition parse_multiboot2 :: "bool \<Rightarrow> pmem \<Rightarrow> u64 \<Rightarrow> (ParseError + MemoryMap) option" where
  "parse_multiboot2 oc m info_addr =
     (if info_addr = 0 \<or> info_addr AND 7 \<noteq> 0 then Some (Inl InvalidAddress)
      else
        let total_size = load32 m (unat info_addr)
        in if \<not> (8 \<le> total_size \<and> total_size \<le> 65536) then Some (Inl InvalidSize)
           else map_option Inr (parse_tags oc m info_addr total_size 8 memory_map_empty))"

definition MB2_TAG_KASLR :: u32 where "MB2_TAG_KASLR = 0x4B415352"
definition SIZE_2MIB :: u64 where "SIZE_2MIB = 2 * 1024 * 1024"

partial_function (option) kaslr_tags ::
  "bool \<Rightarrow> pmem \<Rightarrow> u64 \<Rightarrow> u32 \<Rightarrow> u32 \<Rightarrow> u64 option option" where
  "kaslr_tags oc m info_addr total_size offset =
     (if offset < total_size
      then do {
        tag_phys \<leftarrow> add_ovf oc info_addr (ucast offset);
        let typ = load32 m (unat tag_phys);
        let tag_size = load32 m (unat tag_phys + 4);
        if typ = 0 then Some None
        else
          let off = load64 m (unat tag_phys + 8)
          in if typ = MB2_TAG_KASLR \<and> 16 \<le> tag_size \<and> off AND (SIZE_2MIB - 1) = 0 \<and> off \<noteq> 0
             then Some (Some off)
             else do {
               next \<leftarrow> next_tag oc tag_size;
               (case checked_add offset next of
                  None \<Rightarrow> Some None
                | Some offset1 \<Rightarrow> kaslr_tags oc m info_addr total_size offset1)
             }
      }
      else Some None)"

definition parse_kaslr_offset :: "bool \<Rightarrow> pmem \<Rightarrow> u64 \<Rightarrow> u64 option option" where
  "parse_kaslr_offset oc m info_addr =
     (if info_addr = 0 \<or> info_addr AND 7 \<noteq> 0 then Some None
      else
        let total_size = load32 m (unat info_addr)
        in if \<not> (8 \<le> total_size \<and> total_size \<le> 65536) then Some None
           else kaslr_tags oc m info_addr total_size 8)"

record BootInfo =
  boot_memory_map :: MemoryMap
  boot_kaslr_offset :: u64
  command_line :: bytes
  command_line_len :: nat
  rsdp_ptr :: u64
  dtb_ptr :: u64
  framebuffer :: u64

definition boot_info_empty :: BootInfo where
  "boot_info_empty = \<lparr>boot_memory_map = memory_map_empty, boot_kaslr_offset = 0, command_line = replicate 128 0,
     command_line_len = 0, rsdp_ptr = 0, dtb_ptr = 0, framebuffer = 0\<rparr>"

text \<open>What the adapter hands to the kernel's entry point.\<close>

definition boot_adapter_mb2 :: "bool \<Rightarrow> pmem \<Rightarrow> u64 \<Rightarrow> BootInfo option" where
  "boot_adapter_mb2 oc m mb2_addr =
     do {
       res \<leftarrow> parse_multiboot2 oc m mb2_addr;
       off \<leftarrow> parse_kaslr_offset oc m mb2_addr;
       Some (boot_info_empty
         \<lparr>boot_memory_map := (case res of Inl _ \<Rightarrow> memory_map_empty | Inr mm \<Rightarrow> mm),
          boot_kaslr_offset := (case off of None \<Rightarrow> 0 | Some v \<Rightarrow> v)\<rparr>)
     }"

subsection \<open>Well-formed boot information\<close>

text \<open>
  The layout the Multiboot2 specification gives: a header with the total size, then tags, each with
  its type and size and padded to eight bytes, then the end tag. A memory map tag has entries of 24
  bytes.
\<close>

datatype mb2_tag = MmapTag "(u64 \<times> u64 \<times> u32) list" | OtherTag u32 bytes

fun enc_entry :: "u64 \<times> u64 \<times> u32 \<Rightarrow> bytes" where
  "enc_entry (b, l, t) = to_le 8 b @ to_le 8 l @ to_le 4 t @ [0, 0, 0, 0]"

fun tag_type :: "mb2_tag \<Rightarrow> u32" where
  "tag_type (MmapTag es) = 6"
| "tag_type (OtherTag t b) = t"

fun tag_body :: "mb2_tag \<Rightarrow> bytes" where
  "tag_body (MmapTag es) = to_le 4 (24 :: u32) @ to_le 4 (0 :: u32) @ concat (map enc_entry es)"
| "tag_body (OtherTag t b) = b"

definition enc_tag :: "mb2_tag \<Rightarrow> bytes" where
  "enc_tag t = to_le 4 (tag_type t) @ to_le 4 (of_nat (8 + length (tag_body t)) :: u32) @ tag_body t @
     replicate ((length (tag_body t) + 7) div 8 * 8 - length (tag_body t)) 0"

definition enc_tags :: "mb2_tag list \<Rightarrow> bytes" where
  "enc_tags ts = concat (map enc_tag ts)"

definition enc_info :: "mb2_tag list \<Rightarrow> bytes" where
  "enc_info ts = to_le 4 (of_nat (length (enc_tags ts) + 16) :: u32) @ to_le 4 (0 :: u32) @
     enc_tags ts @ to_le 4 (0 :: u32) @ to_le 4 (8 :: u32)"

definition tag_ok :: "mb2_tag \<Rightarrow> bool" where
  "tag_ok t \<longleftrightarrow> (case t of MmapTag _ \<Rightarrow> True | OtherTag ty _ \<Rightarrow> ty \<noteq> 0 \<and> ty \<noteq> 6)"

definition entry_regions :: "(u64 \<times> u64 \<times> u32) list \<Rightarrow> MemoryRegion list" where
  "entry_regions es = map (\<lambda>(b, l, t). \<lparr>region_base = b, region_length = l, region_kind = memory_kind t\<rparr>)
     (filter (\<lambda>(b, l, t). 0 < l) es)"

fun tag_regions :: "mb2_tag \<Rightarrow> MemoryRegion list" where
  "tag_regions (MmapTag es) = entry_regions es"
| "tag_regions (OtherTag t b) = []"

text \<open>A map that holds the first 64 of the regions offered to it.\<close>

definition map_holds :: "MemoryMap \<Rightarrow> MemoryRegion list \<Rightarrow> bool" where
  "map_holds mm rs \<longleftrightarrow> length (map_regions mm) = MAX_REGIONS \<and> map_count mm = min (length rs) MAX_REGIONS \<and>
     take (map_count mm) (map_regions mm) = take MAX_REGIONS rs"

lemma map_holds_empty: "map_holds memory_map_empty []"
  by (simp add: map_holds_def memory_map_empty_def)

lemma regions_eq: "map_holds mm rs \<Longrightarrow> regions mm = Some (take MAX_REGIONS rs)"
  by (auto simp: regions_def map_holds_def)

lemma add_region_holds:
  assumes "map_holds mm rs"
  shows "\<exists>mm'. add_region r mm = Some (mm', Inr ()) \<and> map_holds mm' (rs @ [r])"
proof (cases "MAX_REGIONS \<le> map_count mm")
  case True
  then show ?thesis using assms by (auto simp: add_region_def map_holds_def)
next
  case False
  then have n: "map_count mm = length rs" "length rs < MAX_REGIONS" using assms by (auto simp: map_holds_def)
  have "take (Suc (length rs)) ((map_regions mm)[length rs := r]) = rs @ [r]"
    using assms n by (simp add: map_holds_def take_Suc_conv_app_nth)
  then show ?thesis using assms n by (simp add: add_region_def map_holds_def)
qed

lemma length_enc_entry [simp]: "length (enc_entry e) = 24"
  by (cases e) simp

lemma length_enc_entries [simp]: "length (concat (map enc_entry es)) = 24 * length es"
  by (induction es) simp_all

lemma length_enc_tag: "length (enc_tag t) = 8 + (length (tag_body t) + 7) div 8 * 8"
proof -
  have "n \<le> (n + 7) div 8 * 8" for n :: nat
    using div_mult_mod_eq [of "n + 7" 8] mod_less_divisor [of 8 "n + 7"] by linarith
  then show ?thesis by (simp add: enc_tag_def)
qed

lemma take_entry_eq:
  assumes "load_bytes m (unat p) 24 = enc_entry (b, l, t)" "map_holds mm rs"
  shows "\<exists>mm'. take_entry m p mm = Some mm' \<and> map_holds mm' (rs @ entry_regions [(b, l, t)])"
proof -
  have "load64 m (unat p) = b" "load64 m (unat p + 8) = l" "load32 m (unat p + 16) = t"
    using load_bytes_sub [OF assms(1), of 0 8] load_bytes_sub [OF assms(1), of 8 8]
      load_bytes_sub [OF assms(1), of 16 4] by (simp_all add: load64_def load32_def)
  then show ?thesis
    using add_region_holds [OF assms(2)] assms(2)
    by (cases "0 < l") (fastforce simp: take_entry_def Let_def entry_regions_def)+
qed

lemma parse_entries_eq:
  assumes "load_bytes m (unat p) (24 * length es) = concat (map enc_entry es)" "map_holds mm rs"
    and "unat p + 24 * length es \<le> unat e" "unat e < unat p + 24 * length es + 24" "unat e + 24 < 2 ^ 64"
  shows "\<exists>mm'. parse_entries oc m 24 e p mm = Some mm' \<and> map_holds mm' (rs @ entry_regions es)"
  using assms
proof (induction es arbitrary: p mm rs)
  case Nil
  have "unat (sat_add p 24) = unat p + 24" using Nil by (simp add: unat_sat_add)
  then have "\<not> sat_add p 24 \<le> e" using Nil by (simp add: word_le_nat_alt)
  then show ?case using Nil by (simp add: parse_entries.simps [of oc m 24 e p] entry_regions_def)
next
  case (Cons x es)
  obtain b l t where x: "x = (b, l, t)" by (cases x)
  have ld: "load_bytes m (unat p) 24 = enc_entry (b, l, t)"
      "load_bytes m (unat p + 24) (24 * length es) = concat (map enc_entry es)"
    using Cons.prems(1) load_bytes_append [of m "unat p" "enc_entry x" "concat (map enc_entry es)"] x by simp_all
  obtain mm1 where t: "take_entry m p mm = Some mm1" "map_holds mm1 (rs @ entry_regions [(b, l, t)])"
    using take_entry_eq [OF ld(1) Cons.prems(2)] by blast
  have p24: "unat p + unat (24 :: u64) < 2 ^ LENGTH(64)" "unat (p + 24) = unat p + 24"
    using Cons.prems by (simp_all add: unat_word_ariths)
  have "sat_add p 24 \<le> e" using Cons.prems by (simp add: word_le_nat_alt unat_sat_add)
  then have "parse_entries oc m 24 e p mm = parse_entries oc m 24 e (p + 24) mm1"
    using t(1) p24(1) by (simp add: parse_entries.simps [of oc m 24 e p])
  moreover have "\<exists>mm'. parse_entries oc m 24 e (p + 24) mm1 = Some mm' \<and>
      map_holds mm' ((rs @ entry_regions [(b, l, t)]) @ entry_regions es)"
    using Cons.prems ld(2) p24(2) by (intro Cons.IH t(2)) simp_all
  moreover have "entry_regions (x # es) = entry_regions [(b, l, t)] @ entry_regions es"
    by (simp add: x entry_regions_def)
  ultimately show ?case by simp
qed

lemma next_tag_eq:
  assumes "n < 2 ^ 31"
  shows "\<exists>w. next_tag oc (of_nat (8 + n)) = Some w \<and> unat w = 8 + (n + 7) div 8 * 8"
proof -
  define sz where "sz = (of_nat (8 + n) :: u32)"
  have u: "unat sz = 8 + n" unfolding sz_def using assms by (intro unat_of_nat_small) simp
  have "(8 + n + 7) div 8 = Suc ((n + 7) div 8)" using div_add_self1 [of 8 "n + 7"] by (simp add: add.assoc)
  then have "unat ((sz + 7) AND NOT (mask 3)) = 8 + (n + 7) div 8 * 8"
    unfolding unat_and_not_mask using u assms by (simp add: unat_word_ariths)
  moreover have "mask 3 = (7 :: u32)" by (simp add: mask_eq_exp_minus_1)
  ultimately show ?thesis using u assms unfolding sz_def [symmetric] by (simp add: next_tag_def)
qed

text \<open>The parser steps over one well-formed tag.\<close>

lemma parse_tags_step:
  assumes "load_bytes m (unat a + unat off) (length (enc_tag t)) = enc_tag t" "tag_ok t" "map_holds mm rs"
    and "unat off + length (enc_tag t) < unat tot" "unat tot \<le> 65536" "unat a + unat tot + 24 < 2 ^ 64"
  shows "\<exists>mm' off'. parse_tags oc m a tot off mm = parse_tags oc m a tot off' mm' \<and>
     unat off' = unat off + length (enc_tag t) \<and> map_holds mm' (rs @ tag_regions t)"
proof -
  let ?n = "length (tag_body t)"
  define sz where "sz = (of_nat (8 + ?n) :: u32)"
  have le: "?n \<le> (?n + 7) div 8 * 8"
    using div_mult_mod_eq [of "?n + 7" 8] mod_less_divisor [of 8 "?n + 7"] by linarith
  then have n: "8 + ?n + unat off < unat tot" using assms(4) length_enc_tag [of t] by simp
  then have us: "unat sz = 8 + ?n" unfolding sz_def using assms(5) by (intro unat_of_nat_small) simp
  obtain w where w: "next_tag oc sz = Some w" "unat w = length (enc_tag t)"
    using next_tag_eq [of ?n oc] n assms(5) length_enc_tag [of t] unfolding sz_def by auto
  have ot: "off < tot" using n by (simp add: word_less_nat_alt)
  define p where "p = a + ucast off"
  define e where "e = a + ucast tot"
  have up: "unat (ucast off :: u64) = unat off" "unat (ucast tot :: u64) = unat tot" "unat (ucast sz :: u64) = 8 + ?n"
    using us by simp_all
  have p: "unat p = unat a + unat off" "unat e = unat a + unat tot"
    using assms(6) n up by (simp_all add: p_def e_def unat_word_ariths)
  have av: "add_ovf oc a (ucast off) = Some p" "add_ovf oc a (ucast tot) = Some e"
    using assms(6) n up by (simp_all add: p_def e_def)
  have hd: "load32 m (unat p) = tag_type t" "load32 m (unat p + 4) = sz"
    using load_bytes_sub [OF assms(1), of 0 4] load_bytes_sub [OF assms(1), of 4 4]
    by (simp_all add: load32_def p length_enc_tag) (simp_all add: enc_tag_def sz_def)
  have fits: "sat_add p (ucast sz) \<le> e"
    using p n up assms(6) by (simp add: word_le_nat_alt unat_sat_add)
  have c: "checked_add off w = Some (off + w)" "unat (off + w) = unat off + length (enc_tag t)"
    using assms(4,5) w(2) by (simp_all add: checked_add_def unat_word_ariths)
  have t0: "tag_type t \<noteq> 0" using assms(2) by (cases t) (simp_all add: tag_ok_def)
  define res where "res = (if tag_type t = 6 \<and> 16 \<le> sz then parse_mmap_tag oc m e p sz mm else Some mm)"
  have "parse_tags oc m a tot off mm = do { mm1 \<leftarrow> res; parse_tags oc m a tot (off + w) mm1 }"
    using ot av hd fits t0 w(1) c(1) by (simp add: parse_tags.simps [of oc m a tot off] res_def Let_def)
  moreover obtain mm1 where "res = Some mm1" "map_holds mm1 (rs @ tag_regions t)"
  proof (cases t)
    case (OtherTag ty b)
    then show ?thesis using that assms(2,3) by (simp add: res_def tag_ok_def)
  next
    case (MmapTag es)
    then have nb: "?n = 8 + 24 * length es" by simp
    have "load_bytes m (unat a + unat off + 8) 4 = take 4 (drop 8 (enc_tag t))"
        "load_bytes m (unat a + unat off + 16) (24 * length es) = take (24 * length es) (drop 16 (enc_tag t))"
      using load_bytes_sub [OF assms(1)] length_enc_tag [of t] le nb by simp_all
    then have ld: "load32 m (unat p + 8) = 24" "load_bytes m (unat p + 16) (24 * length es) = concat (map enc_entry es)"
      by (simp_all add: load32_def p MmapTag enc_tag_def)
    have p16: "unat p + unat (16 :: u64) < 2 ^ LENGTH(64)" "unat (p + 16) = unat p + 16"
        "unat p + unat (ucast sz :: u64) < 2 ^ LENGTH(64)" "unat (p + ucast sz) = unat p + 16 + 24 * length es"
      using p n nb up assms(6) by (simp_all add: unat_word_ariths)
    have "min (p + ucast sz) e = p + ucast sz"
      using p16(4) p n nb by (simp add: min_def word_le_nat_alt)
    then have "parse_mmap_tag oc m e p sz mm = parse_entries oc m 24 (p + ucast sz) (p + 16) mm"
      using ld(1) p16(1,3) by (simp add: parse_mmap_tag_def Let_def)
    moreover have "\<exists>mm1. parse_entries oc m 24 (p + ucast sz) (p + 16) mm = Some mm1 \<and>
        map_holds mm1 (rs @ entry_regions es)"
      using ld(2) p16 p n nb assms(3,6) by (intro parse_entries_eq) simp_all
    moreover have "16 \<le> sz" using us nb by (simp add: word_le_nat_alt)
    ultimately show ?thesis using that MmapTag by (auto simp: res_def)
  qed
  ultimately show ?thesis using c(2) by (intro exI [of _ mm1] exI [of _ "off + w"]) simp
qed

lemma parse_tags_prefix:
  assumes "load_bytes m (unat a + unat off) (length (enc_tags ts)) = enc_tags ts" "\<forall>t \<in> set ts. tag_ok t" "map_holds mm rs"
    and "unat off + length (enc_tags ts) < unat tot" "unat tot \<le> 65536" "unat a + unat tot + 24 < 2 ^ 64"
  shows "\<exists>mm' off'. parse_tags oc m a tot off mm = parse_tags oc m a tot off' mm' \<and>
     unat off' = unat off + length (enc_tags ts) \<and> map_holds mm' (rs @ concat (map tag_regions ts))"
  using assms
proof (induction ts arbitrary: off mm rs)
  case (Cons t ts)
  have ld: "load_bytes m (unat a + unat off) (length (enc_tag t)) = enc_tag t"
      "load_bytes m (unat a + unat off + length (enc_tag t)) (length (enc_tags ts)) = enc_tags ts"
    using Cons.prems(1) load_bytes_append [of m "unat a + unat off" "enc_tag t" "enc_tags ts"]
    by (simp_all add: enc_tags_def)
  obtain mm1 off1 where s: "parse_tags oc m a tot off mm = parse_tags oc m a tot off1 mm1"
      "unat off1 = unat off + length (enc_tag t)" "map_holds mm1 (rs @ tag_regions t)"
    using parse_tags_step [OF ld(1) _ Cons.prems(3), of tot oc] Cons.prems by (auto simp: enc_tags_def)
  have "\<exists>mm' off'. parse_tags oc m a tot off1 mm1 = parse_tags oc m a tot off' mm' \<and>
     unat off' = unat off1 + length (enc_tags ts) \<and> map_holds mm' ((rs @ tag_regions t) @ concat (map tag_regions ts))"
    using Cons.prems ld(2) s(2) by (intro Cons.IH s(3)) (simp_all add: enc_tags_def add.assoc)
  then show ?case using s(1,2) by (auto simp: enc_tags_def add.assoc)
qed (auto simp: enc_tags_def)

lemma and_7: "a AND 7 = 0 \<longleftrightarrow> 8 dvd unat a" for a :: u64
  using unat_and_mask [of a 3] by (simp add: mask_eq_exp_minus_1 word_unat_eq_iff dvd_eq_mod_eq_0)

text \<open>C28: the memory map of the boot loader is read completely. When a boot information structure
  of at most 64 KiB with the layout of the specification lies in memory, parsing returns, and the map
  holds, in the order of the entries and up to its capacity of 64, exactly the regions of non-zero
  length of all memory map tags, whatever other tags stand between them.\<close>

theorem multiboot2_parsed:
  assumes "load_bytes m (unat a) (length (enc_info ts)) = enc_info ts" "\<forall>t \<in> set ts. tag_ok t"
    and "length (enc_info ts) \<le> 65536" "a \<noteq> 0" "8 dvd unat a" "unat a + length (enc_info ts) + 24 < 2 ^ 64"
  shows "\<exists>mm. parse_multiboot2 oc m a = Some (Inr mm) \<and>
    regions mm = Some (take MAX_REGIONS (concat (map tag_regions ts)))"
proof -
  define n where "n = length (enc_tags ts)"
  define tot where "tot = (of_nat (n + 16) :: u32)"
  have len: "length (enc_info ts) = n + 16" by (simp add: enc_info_def n_def)
  have ut: "unat tot = n + 16" unfolding tot_def using assms(3) len by (intro unat_of_nat_small) simp
  note sub = load_bytes_sub [OF assms(1)]
  have ld: "load32 m (unat a) = tot" "load_bytes m (unat a + unat (8 :: u32)) (length (enc_tags ts)) = enc_tags ts"
      "load32 m (unat a + (8 + n)) = 0"
    using sub [of 0 4] sub [of 8 n] sub [of "8 + n" 4] len
    by (simp_all add: load32_def enc_info_def n_def tot_def)
  obtain mm off where p: "parse_tags oc m a tot 8 memory_map_empty = parse_tags oc m a tot off mm"
      "unat off = 8 + n" "map_holds mm (concat (map tag_regions ts))"
    using parse_tags_prefix [OF ld(2) assms(2) map_holds_empty, of tot oc] assms(3,6) len ut n_def by auto
  have "unat a + unat (ucast off :: u64) < 2 ^ LENGTH(64)" "off < tot"
    using p(2) ut assms(6) len by (simp_all add: word_less_nat_alt)
  moreover have "unat (a + ucast off) = unat a + (8 + n)" using p(2) assms(6) len by (simp add: unat_word_ariths)
  ultimately have "parse_tags oc m a tot off mm = Some mm"
    using ld(3) by (simp add: parse_tags.simps [of oc m a tot off] Let_def)
  then have "parse_multiboot2 oc m a = Some (Inr mm)"
    using assms(3-5) ld(1) ut len p(1) by (simp add: parse_multiboot2_def and_7 word_le_nat_alt)
  then show ?thesis using regions_eq [OF p(3)] by blast
qed

definition demo_tags :: "mb2_tag list" where
  "demo_tags = [OtherTag 4 [1, 2, 3], MmapTag [(0, 0x9FC00, 1), (0xF0000, 0, 2), (0x100000, 0x7F00000, 1)]]"

lemma demo_tags_at:
  "load_bytes (store_bytes (\<lambda>_. 0) 0x8000 (enc_info demo_tags)) (unat (0x8000 :: u64)) (length (enc_info demo_tags)) =
     enc_info demo_tags" "length (enc_info demo_tags) = 120" "\<forall>t \<in> set demo_tags. tag_ok t"
  using load_store_same [of "\<lambda>_. 0" "0x8000" "enc_info demo_tags"]
  by (simp_all add: demo_tags_def tag_ok_def enc_info_def enc_tags_def length_enc_tag)

theorem multiboot2_parsed_witness:
  "\<exists>mm. parse_multiboot2 True (store_bytes (\<lambda>_. 0) 0x8000 (enc_info demo_tags)) 0x8000 = Some (Inr mm) \<and>
     regions mm = Some [\<lparr>region_base = 0, region_length = 0x9FC00, region_kind = Usable\<rparr>,
       \<lparr>region_base = 0x100000, region_length = 0x7F00000, region_kind = Usable\<rparr>]"
  using multiboot2_parsed [OF demo_tags_at(1,3), of True] demo_tags_at(2)
  by (simp add: demo_tags_def entry_regions_def memory_kind_def MAX_REGIONS_def)

lemma parse_tags_not_stuck:
  assumes "parse_tags oc m a tot off mm = Some r"
  shows "\<not> (off < tot \<and> load32 m (unat (a + ucast off)) \<noteq> 0 \<and> load32 m (unat (a + ucast off) + 4) = 0)"
proof (rule parse_tags.raw_induct [rotated, OF assms], goal_cases)
  case (1 f oc m a tot off mm r)
  show ?case
  proof
    assume s: "off < tot \<and> load32 m (unat (a + ucast off)) \<noteq> 0 \<and> load32 m (unat (a + ucast off) + 4) = 0"
    have "next_tag oc 0 = Some 0" "checked_add off 0 = Some off"
      using unat_less_pow [of off] by (simp_all add: next_tag_def checked_add_def)
    then have "f oc m a tot off mm = Some r"
      using 1(2) s by (auto simp: Let_def add_ovf_def split: if_splits)
    from 1(1) [OF this] show False using s by blast
  qed
qed

text \<open>C29: a tag of size zero hangs the boot. When, after any number of well-formed tags, the structure
  has a tag that is not the end tag and whose size field is zero, the parser stays at that tag for
  ever: it does not return, in debug and in release builds.\<close>

theorem multiboot2_zero_tag_hangs:
  assumes "load_bytes m (unat a + 8) (length (enc_tags ts)) = enc_tags ts" "\<forall>t \<in> set ts. tag_ok t"
    and "load32 m (unat a + 8 + length (enc_tags ts)) \<noteq> 0" "load32 m (unat a + 8 + length (enc_tags ts) + 4) = 0"
    and "8 + length (enc_tags ts) < unat (load32 m (unat a))" "unat (load32 m (unat a)) \<le> 65536"
    and "a \<noteq> 0" "8 dvd unat a" "unat a + unat (load32 m (unat a)) + 24 < 2 ^ 64"
  shows "parse_multiboot2 oc m a = None"
proof -
  let ?tot = "load32 m (unat a)"
  obtain mm off where p: "parse_tags oc m a ?tot 8 memory_map_empty = parse_tags oc m a ?tot off mm"
      "unat off = 8 + length (enc_tags ts)"
    using parse_tags_prefix [OF _ assms(2) map_holds_empty, of m a 8 ?tot oc] assms by auto
  have "unat (a + ucast off) = unat a + 8 + length (enc_tags ts)" "off < ?tot"
    using p(2) assms(5,9) by (simp_all add: unat_word_ariths word_less_nat_alt)
  then have "parse_tags oc m a ?tot off mm = None"
    using parse_tags_not_stuck [of oc m a ?tot off mm] assms(3,4) by (cases "parse_tags oc m a ?tot off mm") auto
  then show ?thesis
    using p(1) assms(5-8) by (simp add: parse_multiboot2_def and_7 word_le_nat_alt)
qed

definition demo_stuck_info :: bytes where
  "demo_stuck_info = to_le 4 (0x60 :: u32) @ to_le 4 (0 :: u32) @ enc_tags [OtherTag 4 [1, 2, 3]] @ to_le 4 (6 :: u32)"

theorem multiboot2_zero_tag_hangs_witness:
  "parse_multiboot2 False (store_bytes (\<lambda>_. 0) 0x8000 demo_stuck_info) 0x8000 = None"
proof -
  let ?m = "store_bytes (\<lambda>_. 0) 0x8000 demo_stuck_info"
  have len: "length demo_stuck_info = 28" by (simp add: demo_stuck_info_def enc_tags_def length_enc_tag)
  have "load_bytes ?m 0x8000 28 = demo_stuck_info"
    using load_store_same [of "\<lambda>_. 0" "0x8000" demo_stuck_info] by (simp only: len)
  note ld = load_bytes_sub [OF this]
  have tags: "length (enc_tags [OtherTag 4 [1, 2, 3]]) = 16" by (simp add: enc_tags_def length_enc_tag)
  have "load_bytes ?m (0x8000 + 8) 16 = enc_tags [OtherTag 4 [1, 2, 3]]" "load32 ?m (0x8000 + 24) = 6"
      "load32 ?m 0x8000 = 0x60"
    using ld [of 8 16] ld [of 24 4] ld [of 0 4] tags by (simp_all add: demo_stuck_info_def load32_def)
  moreover have "load32 ?m (0x8000 + 24 + 4) = 0"
    unfolding load32_def by (rule from_le_zero) (auto simp: load_bytes_def store_bytes_def len)
  ultimately show ?thesis
    using multiboot2_zero_tag_hangs [of ?m "0x8000" "[OtherTag 4 [1, 2, 3]]" False] tags
    by (simp add: tag_ok_def)
qed

text \<open>The parser of the address space layout tag lacks the bounds check that the other one has: a
  structure that ends right after the tag's header makes it read the offset from behind the end.\<close>

lemma kaslr_reads_past_end:
  assumes "load32 m (unat a) = 16" "load32 m (unat a + 8) = MB2_TAG_KASLR" "load32 m (unat a + 12) = 16"
    and "a \<noteq> 0" "8 dvd unat a" "unat a + 24 < 2 ^ 64"
    and "load64 m (unat a + 16) AND (SIZE_2MIB - 1) = 0" "load64 m (unat a + 16) \<noteq> 0"
  shows "parse_kaslr_offset oc m a = Some (Some (load64 m (unat a + 16)))"
proof -
  have "unat (ucast (8 :: u32) :: u64) = 8" "unat (a + ucast (8 :: u32)) = unat a + 8"
    using assms(6) by (simp_all add: unat_word_ariths)
  moreover have "kaslr_tags oc m a 16 8 = Some (Some (load64 m (unat a + 16)))"
    using calculation assms by (simp add: kaslr_tags.simps [of oc m a 16 8] MB2_TAG_KASLR_def Let_def add.assoc)
  ultimately show ?thesis using assms by (simp add: parse_kaslr_offset_def and_7)
qed

end
