(* ===== verification/FrameAlloc.thy ===== *)
theory FrameAlloc
  imports BootMemory
begin

text \<open>
  The bitmap allocator of physical 4 KiB frames, \<^verbatim>\<open>src/src/allocator.rs\<close>. A set bit is a frame in
  use, a clear bit a free frame. The state of the machine at boot is the physical memory together with
  the allocator, because handing out and taking back a frame erases it. The contract of the
  allocator, which hides the bitmap, the counter and the search hint behind the set of free frames, is
  the locale \<open>frame_pool\<close>.
\<close>

subsection \<open>The allocator\<close>

definition MAX_PHYS_ADDR :: u64 where "MAX_PHYS_ADDR = 4 * 1024 * 1024 * 1024"
definition FRAME_SIZE :: u64 where "FRAME_SIZE = 4096"
definition MAX_FRAMES :: nat where "MAX_FRAMES = 1048576"
definition BITMAP_WORDS :: nat where "BITMAP_WORDS = 16384"

type_synonym PhysFrame = u64

definition frame_from_addr :: "u64 \<Rightarrow> PhysFrame option" where
  "frame_from_addr addr = (if addr AND (FRAME_SIZE - 1) \<noteq> 0 then None else Some addr)"

definition frame_index :: "PhysFrame \<Rightarrow> nat" where
  "frame_index f = unat (f div FRAME_SIZE)"

datatype AllocError = OutOfMemory | InvalidFrame | DoubleFree

record BitmapFrameAllocator =
  bitmap :: "u64 list"
  free_count :: u64
  next_free_word :: nat

definition allocator_new :: BitmapFrameAllocator where
  "allocator_new = \<lparr>bitmap = replicate BITMAP_WORDS (- 1), free_count = 0, next_free_word = 0\<rparr>"

definition is_free :: "nat \<Rightarrow> BitmapFrameAllocator \<Rightarrow> bool option" where
  "is_free i a = do { w \<leftarrow> index_get (bitmap a) (i div 64); Some (drop_bit (i mod 64) w AND 1 = 0) }"

definition mark_used :: "nat \<Rightarrow> BitmapFrameAllocator \<Rightarrow> BitmapFrameAllocator option" where
  "mark_used i a =
     do {
       w \<leftarrow> index_get (bitmap a) (i div 64);
       ws \<leftarrow> index_set (bitmap a) (i div 64) (w OR push_bit (i mod 64) 1);
       Some (a\<lparr>bitmap := ws\<rparr>)
     }"

definition mark_free :: "nat \<Rightarrow> BitmapFrameAllocator \<Rightarrow> BitmapFrameAllocator option" where
  "mark_free i a =
     do {
       w \<leftarrow> index_get (bitmap a) (i div 64);
       ws \<leftarrow> index_set (bitmap a) (i div 64) (w AND NOT (push_bit (i mod 64) 1));
       Some (a\<lparr>bitmap := ws\<rparr>)
     }"

function free_range_loop :: "bool \<Rightarrow> nat \<Rightarrow> nat \<Rightarrow> BitmapFrameAllocator \<Rightarrow> BitmapFrameAllocator option" where
  "free_range_loop oc i end_idx a =
     (if i < end_idx
      then do {
        fr \<leftarrow> is_free i a;
        a1 \<leftarrow> (if \<not> fr
               then do {
                 a1 \<leftarrow> mark_free i a;
                 c \<leftarrow> add_ovf oc (free_count a1) 1;
                 Some (a1\<lparr>free_count := c\<rparr>)
               }
               else Some a);
        free_range_loop oc (i + 1) end_idx a1
      }
      else Some a)"
  by pat_completeness auto
termination
  by (relation "measure (\<lambda>(oc, i, end_idx, a). end_idx - i)") auto

definition mark_range_free :: "bool \<Rightarrow> u64 \<Rightarrow> u64 \<Rightarrow> BitmapFrameAllocator \<Rightarrow> BitmapFrameAllocator option" where
  "mark_range_free oc base len a =
     do {
       b1 \<leftarrow> add_ovf oc base FRAME_SIZE;
       b2 \<leftarrow> sub_ovf oc b1 1;
       let aligned_base = b2 AND NOT (FRAME_SIZE - 1);
       e1 \<leftarrow> add_ovf oc base len;
       let aligned_end = e1 AND NOT (FRAME_SIZE - 1);
       if aligned_end \<le> aligned_base then Some a
       else do {
         let start_idx = unat (aligned_base div FRAME_SIZE);
         let end_idx = min (unat (aligned_end div FRAME_SIZE)) MAX_FRAMES;
         a1 \<leftarrow> free_range_loop oc start_idx end_idx a;
         let start_word = start_idx div 64;
         Some (if start_word < next_free_word a1 then a1\<lparr>next_free_word := start_word\<rparr> else a1)
       }
     }"

fun init_regions :: "bool \<Rightarrow> MemoryRegion list \<Rightarrow> BitmapFrameAllocator \<Rightarrow> BitmapFrameAllocator option" where
  "init_regions oc [] a = Some a"
| "init_regions oc (r # rs) a =
     do { a1 \<leftarrow> mark_range_free oc (region_base r) (region_length r) a; init_regions oc rs a1 }"

definition init_from_memory_map :: "bool \<Rightarrow> MemoryMap \<Rightarrow> BitmapFrameAllocator \<Rightarrow> BitmapFrameAllocator option" where
  "init_from_memory_map oc mm a = do { rs \<leftarrow> usable_regions mm; init_regions oc rs a }"

function use_range_loop :: "nat \<Rightarrow> nat \<Rightarrow> BitmapFrameAllocator \<Rightarrow> BitmapFrameAllocator option" where
  "use_range_loop i end_idx a =
     (if i < end_idx
      then do {
        fr \<leftarrow> is_free i a;
        a1 \<leftarrow> (if fr
               then do {
                 a1 \<leftarrow> mark_used i a;
                 Some (a1\<lparr>free_count := sat_sub (free_count a1) 1\<rparr>)
               }
               else Some a);
        use_range_loop (i + 1) end_idx a1
      }
      else Some a)"
  by pat_completeness auto
termination
  by (relation "measure (\<lambda>(i, end_idx, a). end_idx - i)") auto

definition div_ceil :: "u64 \<Rightarrow> u64 \<Rightarrow> u64" where
  "div_ceil a b = (if a mod b = 0 then a div b else a div b + 1)"

definition mark_range_used :: "bool \<Rightarrow> u64 \<Rightarrow> u64 \<Rightarrow> BitmapFrameAllocator \<Rightarrow> BitmapFrameAllocator option" where
  "mark_range_used oc base len a =
     do {
       let start_idx = unat (base div FRAME_SIZE);
       e \<leftarrow> add_ovf oc base len;
       let end_idx = min (unat (div_ceil e FRAME_SIZE)) MAX_FRAMES;
       use_range_loop start_idx end_idx a
     }"

definition trailing_ones :: "u64 \<Rightarrow> nat" where
  "trailing_ones w = (case find (\<lambda>k. \<not> bit w k) [0..<64] of None \<Rightarrow> 64 | Some k \<Rightarrow> k)"

text \<open>Physical memory and the allocator: what an allocation changes.\<close>

record phys =
  pmem :: pmem
  frames :: BitmapFrameAllocator

function alloc_loop :: "bool \<Rightarrow> nat \<Rightarrow> phys \<Rightarrow> (phys \<times> PhysFrame option) option" where
  "alloc_loop oc word_idx ph =
     (if word_idx < BITMAP_WORDS
      then do {
        word \<leftarrow> index_get (bitmap (frames ph)) word_idx;
        if word = - 1 then alloc_loop oc (word_idx + 1) ph
        else do {
          let b = trailing_ones word;
          let frame_idx = word_idx * 64 + b;
          if MAX_FRAMES \<le> frame_idx then Some (ph, None)
          else do {
            ws \<leftarrow> index_set (bitmap (frames ph)) word_idx (word OR push_bit b 1);
            c \<leftarrow> sub_ovf oc (free_count (frames ph)) 1;
            let frame = of_nat frame_idx * FRAME_SIZE;
            Some (\<lparr>pmem = secure_zero (pmem ph) (unat frame) (unat FRAME_SIZE),
                   frames = \<lparr>bitmap = ws, free_count = c, next_free_word = word_idx\<rparr>\<rparr>,
                  Some frame)
          }
        }
      }
      else Some (ph, None))"
  by pat_completeness auto
termination
  by (relation "measure (\<lambda>(oc, word_idx, ph). BITMAP_WORDS - word_idx)") auto

definition alloc_frame :: "bool \<Rightarrow> phys \<Rightarrow> (phys \<times> PhysFrame option) option" where
  "alloc_frame oc ph = alloc_loop oc (next_free_word (frames ph)) ph"

definition dealloc :: "bool \<Rightarrow> PhysFrame \<Rightarrow> phys \<Rightarrow> (phys \<times> (AllocError + unit)) option" where
  "dealloc oc frame ph =
     (let idx = frame_index frame
      in if MAX_FRAMES \<le> idx then Some (ph, Inl InvalidFrame)
         else do {
           fr \<leftarrow> is_free idx (frames ph);
           if fr then Some (ph, Inl DoubleFree)
           else do {
             let m = secure_zero (pmem ph) (unat frame) (unat FRAME_SIZE);
             a1 \<leftarrow> mark_free idx (frames ph);
             c \<leftarrow> add_ovf oc (free_count a1) 1;
             let a2 = a1\<lparr>free_count := c\<rparr>;
             let word_idx = idx div 64;
             let a3 = (if word_idx < next_free_word a2 then a2\<lparr>next_free_word := word_idx\<rparr> else a2);
             Some (\<lparr>pmem = m, frames = a3\<rparr>, Inr ())
           }
         })"

definition free_bytes :: "BitmapFrameAllocator \<Rightarrow> u64" where
  "free_bytes a = free_count a * FRAME_SIZE"

declare free_range_loop.simps [simp del] use_range_loop.simps [simp del] alloc_loop.simps [simp del]

subsection \<open>The bitmap as a set of free frames\<close>

definition free_set :: "BitmapFrameAllocator \<Rightarrow> nat set" where
  "free_set a = {i. i < MAX_FRAMES \<and> \<not> bit (bitmap a ! (i div 64)) (i mod 64)}"

definition alloc_core :: "BitmapFrameAllocator \<Rightarrow> bool" where
  "alloc_core a \<longleftrightarrow> length (bitmap a) = BITMAP_WORDS \<and> unat (free_count a) = card (free_set a)"

definition alloc_inv :: "BitmapFrameAllocator \<Rightarrow> bool" where
  "alloc_inv a \<longleftrightarrow> alloc_core a \<and> (\<forall>i \<in> free_set a. next_free_word a \<le> i div 64)"

lemma finite_free_set [simp]: "finite (free_set a)"
  by (simp add: free_set_def)

lemma free_set_bound: "i \<in> free_set a \<Longrightarrow> i < MAX_FRAMES"
  by (simp add: free_set_def)

lemma card_free_set: "card (free_set a) \<le> MAX_FRAMES"
  using card_mono [of "{..<MAX_FRAMES}" "free_set a"] by (auto simp: free_set_def)

lemma free_set_upd [simp]:
  "free_set (a\<lparr>free_count := c\<rparr>) = free_set a" "free_set (a\<lparr>next_free_word := n\<rparr>) = free_set a"
  by (simp_all add: free_set_def)

lemma word_index: "i < MAX_FRAMES \<Longrightarrow> i div 64 < BITMAP_WORDS"
  by (simp add: MAX_FRAMES_def BITMAP_WORDS_def)

lemma is_free_eq:
  assumes "length (bitmap a) = BITMAP_WORDS" "i < MAX_FRAMES"
  shows "is_free i a = Some (i \<in> free_set a)"
  using assms word_index [OF assms(2)]
  by (simp add: is_free_def free_set_def and_one_eq bit_iff_odd_drop_bit even_iff_mod_2_eq_zero)

lemma bit_of_other: "i div 64 = j div 64 \<Longrightarrow> i mod 64 = j mod 64 \<Longrightarrow> i = j" for i j :: nat
  by (metis div_mult_mod_eq)

lemma mark_free_eq:
  assumes "length (bitmap a) = BITMAP_WORDS" "i < MAX_FRAMES"
  shows "\<exists>a1. mark_free i a = Some a1 \<and> length (bitmap a1) = BITMAP_WORDS \<and> free_count a1 = free_count a \<and>
     next_free_word a1 = next_free_word a \<and> free_set a1 = insert i (free_set a)"
proof -
  let ?w = "bitmap a ! (i div 64) AND NOT (push_bit (i mod 64) 1)"
  have "free_set (a\<lparr>bitmap := (bitmap a)[i div 64 := ?w]\<rparr>) = insert i (free_set a)"
    using assms word_index [OF assms(2)] bit_of_other [of _ i]
    by (auto simp: free_set_def nth_list_update bit_and_iff bit_not_iff bit_exp_iff)
  then show ?thesis using assms word_index [OF assms(2)] by (simp add: mark_free_def)
qed

lemma mark_used_eq:
  assumes "length (bitmap a) = BITMAP_WORDS" "i < MAX_FRAMES"
  shows "\<exists>a1. mark_used i a = Some a1 \<and> length (bitmap a1) = BITMAP_WORDS \<and> free_count a1 = free_count a \<and>
     next_free_word a1 = next_free_word a \<and> free_set a1 = free_set a - {i}"
proof -
  let ?w = "bitmap a ! (i div 64) OR push_bit (i mod 64) 1"
  have "free_set (a\<lparr>bitmap := (bitmap a)[i div 64 := ?w]\<rparr>) = free_set a - {i}"
    using assms word_index [OF assms(2)] bit_of_other [of _ i]
    by (auto simp: free_set_def nth_list_update bit_or_iff bit_exp_iff)
  then show ?thesis using assms word_index [OF assms(2)] by (simp add: mark_used_def)
qed

lemma unat_count_succ: "unat c = card (free_set a) \<Longrightarrow> unat (c + 1) = Suc (card (free_set a))" for c :: u64
  using card_free_set [of a] by (simp add: MAX_FRAMES_def unat_word_ariths)

lemma alloc_inv_new: "alloc_inv allocator_new" "free_set allocator_new = {}"
proof -
  show "free_set allocator_new = {}"
    using word_index by (auto simp: free_set_def allocator_new_def)
  then show "alloc_inv allocator_new" by (simp add: alloc_inv_def alloc_core_def) (simp add: allocator_new_def)
qed

subsection \<open>Ranges\<close>

lemma free_range_loop_eq:
  assumes "alloc_core a" "end_idx \<le> MAX_FRAMES"
  shows "\<exists>a1. free_range_loop oc i end_idx a = Some a1 \<and> alloc_core a1 \<and>
     free_set a1 = free_set a \<union> {i..<end_idx} \<and> next_free_word a1 = next_free_word a"
  using assms
proof (induction oc i end_idx a rule: free_range_loop.induct)
  case (1 oc i end_idx a)
  show ?case
  proof (cases "i < end_idx")
    case True
    then have i: "i < MAX_FRAMES" using 1(3) by simp
    have len: "length (bitmap a) = BITMAP_WORDS" and fr: "is_free i a = Some (i \<in> free_set a)"
      using 1(2) is_free_eq [OF _ i] by (simp_all add: alloc_core_def)
    define a2 where "a2 = (if i \<in> free_set a then a else (the (mark_free i a))\<lparr>free_count := free_count a + 1\<rparr>)"
    have a2: "alloc_core a2 \<and> free_set a2 = insert i (free_set a) \<and> next_free_word a2 = next_free_word a \<and>
      (if \<not> i \<in> free_set a then do { a1 \<leftarrow> mark_free i a; c \<leftarrow> add_ovf oc (free_count a1) 1; Some (a1\<lparr>free_count := c\<rparr>) }
       else Some a) = Some a2"
    proof (cases "i \<in> free_set a")
      case False
      obtain a1 where m: "mark_free i a = Some a1" "length (bitmap a1) = BITMAP_WORDS" "free_count a1 = free_count a"
          "next_free_word a1 = next_free_word a" "free_set a1 = insert i (free_set a)"
        using mark_free_eq [OF len i] by blast
      have c: "unat (free_count a) = card (free_set a)" using 1(2) by (simp add: alloc_core_def)
      then have "unat (free_count a) + unat (1 :: u64) < 2 ^ LENGTH(64)"
        using card_free_set [of a] by (simp add: MAX_FRAMES_def)
      then show ?thesis
        using m False 1(2) unat_count_succ [OF c] by (auto simp: a2_def alloc_core_def)
    qed (use 1(2) in \<open>simp add: a2_def insert_absorb\<close>)
    then have "\<exists>a1. free_range_loop oc (i + 1) end_idx a2 = Some a1 \<and> alloc_core a1 \<and>
        free_set a1 = free_set a2 \<union> {i + 1..<end_idx} \<and> next_free_word a1 = next_free_word a2"
      using 1(1) [OF True fr] 1(3) by simp
    then show ?thesis
      using a2 True fr
      by (auto simp: free_range_loop.simps [of oc i] atLeastLessThanSuc_atLeastAtMost)
  qed (use 1 in \<open>simp add: free_range_loop.simps [of oc i]\<close>)
qed

lemma use_range_loop_eq:
  assumes "alloc_inv a" "end_idx \<le> MAX_FRAMES"
  shows "\<exists>a1. use_range_loop i end_idx a = Some a1 \<and> alloc_inv a1 \<and> free_set a1 = free_set a - {i..<end_idx}"
  using assms
proof (induction i end_idx a rule: use_range_loop.induct)
  case (1 i end_idx a)
  show ?case
  proof (cases "i < end_idx")
    case True
    then have i: "i < MAX_FRAMES" using 1(3) by simp
    have len: "length (bitmap a) = BITMAP_WORDS" and fr: "is_free i a = Some (i \<in> free_set a)"
      using 1(2) is_free_eq [OF _ i] by (simp_all add: alloc_inv_def alloc_core_def)
    define a2 where "a2 = (if i \<in> free_set a
       then (the (mark_used i a))\<lparr>free_count := sat_sub (free_count a) 1\<rparr> else a)"
    have a2: "alloc_inv a2 \<and> free_set a2 = free_set a - {i} \<and>
      (if i \<in> free_set a then do { a1 \<leftarrow> mark_used i a; Some (a1\<lparr>free_count := sat_sub (free_count a1) 1\<rparr>) }
       else Some a) = Some a2"
    proof (cases "i \<in> free_set a")
      case True
      obtain a1 where m: "mark_used i a = Some a1" "length (bitmap a1) = BITMAP_WORDS" "free_count a1 = free_count a"
          "next_free_word a1 = next_free_word a" "free_set a1 = free_set a - {i}"
        using mark_used_eq [OF len i] by blast
      have c: "unat (free_count a) = card (free_set a)" "0 < card (free_set a)"
        using 1(2) True by (auto simp: alloc_inv_def alloc_core_def card_gt_0_iff)
      then have "unat (sat_sub (free_count a) 1) = card (free_set a) - 1"
        by (simp add: sat_sub_def unat_sub_if_size)
      then show ?thesis using m True 1(2) c by (auto simp: a2_def alloc_inv_def alloc_core_def)
    qed (use 1(2) in \<open>simp add: a2_def\<close>)
    then have "\<exists>a1. use_range_loop (i + 1) end_idx a2 = Some a1 \<and> alloc_inv a1 \<and>
        free_set a1 = free_set a2 - {i + 1..<end_idx}"
      using 1(1) [OF True fr] 1(3) by simp
    then show ?thesis
      using a2 True fr by (auto simp: use_range_loop.simps [of i])
  qed (use 1 in \<open>simp add: use_range_loop.simps [of i]\<close>)
qed

text \<open>The frames that lie wholly inside a range of addresses, and those that a range touches.\<close>

definition frames_inside :: "nat \<Rightarrow> nat \<Rightarrow> nat set" where
  "frames_inside base len = {i. i < MAX_FRAMES \<and> base \<le> i * 4096 \<and> (i + 1) * 4096 \<le> base + len}"

definition frames_touched :: "nat \<Rightarrow> nat \<Rightarrow> nat set" where
  "frames_touched base len = {i. i < MAX_FRAMES \<and> base < (i + 1) * 4096 \<and> i * 4096 < base + len}"

lemma align_down: "unat (w AND NOT (FRAME_SIZE - 1)) = unat w div 4096 * 4096" for w :: u64
  using unat_and_not_mask [of w 12] by (simp add: FRAME_SIZE_def mask_4095)

lemma mark_range_free_eq:
  assumes "alloc_inv a" "unat base + 4096 < 2 ^ 64" "unat base + unat len < 2 ^ 64"
  shows "\<exists>a1. mark_range_free oc base len a = Some a1 \<and> alloc_inv a1 \<and>
     free_set a1 = free_set a \<union> frames_inside (unat base) (unat len)"
proof -
  define s e where "s = (unat base + 4095) div 4096" and "e = (unat base + unat len) div 4096"
  have u: "unat (base + FRAME_SIZE - 1) = unat base + 4095" "unat (base + len) = unat base + unat len"
      "unat base + unat FRAME_SIZE < 2 ^ 64" "unat (1 :: u64) \<le> unat (base + FRAME_SIZE)"
    using assms(2,3) by (simp_all add: FRAME_SIZE_def unat_word_ariths unat_sub_if_size)
  have d: "unat ((w AND NOT (FRAME_SIZE - 1)) div FRAME_SIZE) = unat w div 4096" for w :: u64
    using align_down [of w] by (simp add: unat_div FRAME_SIZE_def)
  have le: "(base + len) AND NOT (FRAME_SIZE - 1) \<le> (base + FRAME_SIZE - 1) AND NOT (FRAME_SIZE - 1) \<longleftrightarrow> e \<le> s"
    by (simp add: word_le_nat_alt align_down u s_def e_def)
  have inside: "frames_inside (unat base) (unat len) = {s..<min e MAX_FRAMES}"
    unfolding frames_inside_def s_def e_def by auto
  show ?thesis
  proof (cases "e \<le> s")
    case True
    then show ?thesis using assms le inside u by (simp add: mark_range_free_def)
  next
    case False
    obtain a1 where l: "free_range_loop oc s (min e MAX_FRAMES) a = Some a1" "alloc_core a1"
        "free_set a1 = free_set a \<union> {s..<min e MAX_FRAMES}" "next_free_word a1 = next_free_word a"
      using free_range_loop_eq [of a "min e MAX_FRAMES" oc s] assms(1) by (auto simp: alloc_inv_def)
    let ?a = "if s div 64 < next_free_word a1 then a1\<lparr>next_free_word := s div 64\<rparr> else a1"
    have m: "mark_range_free oc base len a = Some ?a"
      using False assms le u l(1) by (simp add: mark_range_free_def d s_def e_def Let_def)
    have "next_free_word ?a \<le> i div 64" if "i \<in> free_set a1" for i
    proof (cases "i \<in> free_set a")
      case True
      then have "next_free_word a \<le> i div 64" using assms(1) by (simp add: alloc_inv_def)
      then show ?thesis using l(4) by auto
    next
      case False
      then have "s div 64 \<le> i div 64" using that l(3) by (auto intro: div_le_mono)
      then show ?thesis by auto
    qed
    then have "alloc_inv ?a" using l(2) by (auto simp: alloc_inv_def alloc_core_def)
    then show ?thesis using m l(3) inside by auto
  qed
qed

lemma mark_range_used_eq:
  assumes "alloc_inv a" "unat base + unat len < 2 ^ 64"
  shows "\<exists>a1. mark_range_used oc base len a = Some a1 \<and> alloc_inv a1 \<and>
     free_set a1 = free_set a - {unat base div 4096..<(unat base + unat len + 4095) div 4096}"
proof -
  define e where "e = (unat base + unat len + 4095) div 4096"
  have ub: "unat (base + len) = unat base + unat len" using assms(2) by (simp add: unat_word_ariths)
  have "unat (base + len) div 4096 + 1 < 2 ^ 64" using unat_less_pow [of "base + len"] by simp
  then have dc: "unat (div_ceil (base + len) FRAME_SIZE) = e"
    unfolding e_def ub [symmetric] ceil_4096
    by (simp add: div_ceil_def word_unat_eq_iff unat_mod unat_div FRAME_SIZE_def unat_word_ariths)
  obtain a1 where l: "use_range_loop (unat base div 4096) (min e MAX_FRAMES) a = Some a1" "alloc_inv a1"
      "free_set a1 = free_set a - {unat base div 4096..<min e MAX_FRAMES}"
    using use_range_loop_eq [OF assms(1), of "min e MAX_FRAMES" "unat base div 4096"] by auto
  moreover have "free_set a - {unat base div 4096..<min e MAX_FRAMES} = free_set a - {unat base div 4096..<e}"
    using free_set_bound [of _ a] by auto
  moreover have "mark_range_used oc base len a = Some a1"
    using assms(2) l(1) dc by (simp add: mark_range_used_def Let_def unat_div FRAME_SIZE_def)
  ultimately show ?thesis by (simp add: e_def)
qed

subsection \<open>Allocation and release\<close>

definition frame_addr :: "nat \<Rightarrow> PhysFrame" where
  "frame_addr i = of_nat i * FRAME_SIZE"

lemma unat_frame_addr: "i < MAX_FRAMES \<Longrightarrow> unat (frame_addr i) = i * 4096"
  by (simp add: frame_addr_def FRAME_SIZE_def MAX_FRAMES_def unat_word_ariths unat_of_nat)

lemma frame_index_addr: "i < MAX_FRAMES \<Longrightarrow> frame_index (frame_addr i) = i"
  by (simp add: frame_index_def unat_div unat_frame_addr) (simp add: FRAME_SIZE_def)

lemma frame_addr_inject: "i < MAX_FRAMES \<Longrightarrow> j < MAX_FRAMES \<Longrightarrow> frame_addr i = frame_addr j \<longleftrightarrow> i = j"
  by (metis frame_index_addr)

lemma trailing_ones_first:
  assumes "w \<noteq> - 1"
  shows "trailing_ones w < 64 \<and> \<not> bit w (trailing_ones w) \<and> (\<forall>k < trailing_ones w. bit w k)"
proof -
  have "\<exists>k < 64. \<not> bit w k" using assms bit_word_eqI [of w "- 1"] by auto
  then obtain k where k: "find (\<lambda>k. \<not> bit w k) [0..<64] = Some k"
    using find_upt_None_iff [of "\<lambda>k. \<not> bit w k" 64] by (metis option.exhaust)
  then show ?thesis
    using find_upt_Some_iff [of "\<lambda>k. \<not> bit w k" 64 k] unfolding trailing_ones_def k by simp
qed

lemma word_below:
  fixes j :: nat
  assumes "j < n * 64 + b" "b < 64" "n \<le> j div 64"
  shows "j div 64 = n \<and> j mod 64 < b"
proof -
  have "n * 64 \<le> j" using mult_le_mono1 [OF assms(3), of 64] by (metis div_times_less_eq_dividend le_trans)
  then have d: "j div 64 = n" using assms(1,2) by (intro div_nat_eqI) simp_all
  then show ?thesis using assms(1) div_mult_mod_eq [of j 64] by simp
qed

lemma alloc_loop_eq:
  assumes "alloc_core (frames ph)" "\<forall>i \<in> free_set (frames ph). word_idx \<le> i div 64"
  shows "if free_set (frames ph) = {} then alloc_loop oc word_idx ph = Some (ph, None)
     else \<exists>a1. alloc_loop oc word_idx ph = Some (\<lparr>pmem = secure_zero (pmem ph) (Min (free_set (frames ph)) * 4096) 4096,
         frames = a1\<rparr>, Some (frame_addr (Min (free_set (frames ph))))) \<and> alloc_inv a1 \<and>
         free_set a1 = free_set (frames ph) - {Min (free_set (frames ph))}"
  using assms
proof (induction oc word_idx ph rule: alloc_loop.induct)
  case (1 oc n ph)
  let ?a = "frames ph" and ?F = "free_set (frames ph)"
  have len: "length (bitmap ?a) = BITMAP_WORDS" using 1(2) by (simp add: alloc_core_def)
  show ?case
  proof (cases "n < BITMAP_WORDS")
    case False
    then have "?F = {}" using 1(3) word_index free_set_bound by fastforce
    then show ?thesis using False by (simp add: alloc_loop.simps [of oc n])
  next
    case True
    let ?w = "bitmap ?a ! n"
    have g: "index_get (bitmap ?a) n = Some ?w" using True len by simp
    show ?thesis
    proof (cases "?w = - 1")
      case True
      have "\<forall>i \<in> ?F. n + 1 \<le> i div 64"
      proof
        fix i assume i: "i \<in> ?F"
        then have "\<not> bit (bitmap ?a ! (i div 64)) (i mod 64)" by (simp add: free_set_def)
        then have "i div 64 \<noteq> n" using True by auto
        then show "n + 1 \<le> i div 64" using 1(3) i by force
      qed
      moreover have "alloc_loop oc n ph = alloc_loop oc (n + 1) ph"
        using True \<open>n < BITMAP_WORDS\<close> g by (simp add: alloc_loop.simps [of oc n])
      ultimately show ?thesis using 1(1) [OF \<open>n < BITMAP_WORDS\<close> g True 1(2)] by presburger
    next
      case w: False
      let ?b = "trailing_ones ?w"
      let ?i = "n * 64 + ?b"
      note t = trailing_ones_first [OF w]
      have i: "?i < MAX_FRAMES" using True t by (simp add: MAX_FRAMES_def BITMAP_WORDS_def)
      have dm: "?i div 64 = n" "?i mod 64 = ?b" using t by simp_all
      have mem: "?i \<in> ?F" using i t dm by (simp add: free_set_def)
      moreover have "?i \<le> j" if "j \<in> ?F" for j
      proof (rule ccontr)
        assume "\<not> ?i \<le> j"
        moreover have "n \<le> j div 64" using 1(3) that by blast
        ultimately have "j div 64 = n" "j mod 64 < ?b" using t word_below [of j n ?b] by simp_all
        then show False using that t by (simp add: free_set_def)
      qed
      ultimately have min: "Min ?F = ?i" by (intro Min_eqI) auto
      let ?a1 = "\<lparr>bitmap = (bitmap ?a)[n := ?w OR push_bit ?b 1], free_count = free_count ?a - 1, next_free_word = n\<rparr>"
      have "mark_used ?i ?a = Some (?a\<lparr>bitmap := bitmap ?a1\<rparr>)" using True len dm by (simp add: mark_used_def)
      then have fs: "free_set ?a1 = ?F - {?i}" using mark_used_eq [OF len i] by (auto simp: free_set_def)
      have c: "unat (free_count ?a) = card ?F" "0 < card ?F" using 1(2) mem by (auto simp: alloc_core_def card_gt_0_iff)
      then have "unat (free_count ?a - 1) = card ?F - 1" by (simp add: unat_sub_if_size)
      then have inv: "alloc_inv ?a1" using fs mem c len 1(3) by (simp add: alloc_inv_def alloc_core_def)
      have "alloc_loop oc n ph = Some (\<lparr>pmem = secure_zero (pmem ph) (?i * 4096) 4096, frames = ?a1\<rparr>, Some (frame_addr ?i))"
        using True w g len i c unat_frame_addr [OF i]
        by (simp add: alloc_loop.simps [of oc n] Let_def frame_addr_def FRAME_SIZE_def)
      then show ?thesis using inv fs mem min by auto
    qed
  qed
qed

lemma alloc_frame_none:
  "alloc_inv (frames ph) \<Longrightarrow> free_set (frames ph) = {} \<Longrightarrow> alloc_frame oc ph = Some (ph, None)"
  using alloc_loop_eq [of ph "next_free_word (frames ph)" oc] by (simp add: alloc_frame_def alloc_inv_def)

lemma alloc_frame_some:
  assumes "alloc_inv (frames ph)" "free_set (frames ph) \<noteq> {}"
  shows "\<exists>i a1. i = Min (free_set (frames ph)) \<and> i \<in> free_set (frames ph) \<and>
       alloc_frame oc ph = Some (\<lparr>pmem = secure_zero (pmem ph) (i * 4096) 4096, frames = a1\<rparr>, Some (frame_addr i)) \<and>
       alloc_inv a1 \<and> free_set a1 = free_set (frames ph) - {i}"
  using alloc_loop_eq [of ph "next_free_word (frames ph)" oc] assms
  by (simp add: alloc_frame_def alloc_inv_def)

lemma dealloc_double:
  assumes "alloc_inv (frames ph)" "i \<in> free_set (frames ph)"
  shows "dealloc oc (frame_addr i) ph = Some (ph, Inl DoubleFree)"
  using assms is_free_eq [of "frames ph" i] frame_index_addr [of i] free_set_bound [OF assms(2)]
  by (simp add: dealloc_def alloc_inv_def alloc_core_def)

lemma dealloc_used:
  assumes "alloc_inv (frames ph)" "i < MAX_FRAMES" "i \<notin> free_set (frames ph)"
  shows "\<exists>a1. dealloc oc (frame_addr i) ph =
         Some (\<lparr>pmem = secure_zero (pmem ph) (i * 4096) 4096, frames = a1\<rparr>, Inr ()) \<and>
         alloc_inv a1 \<and> free_set a1 = insert i (free_set (frames ph))"
proof -
  let ?a = "frames ph"
  have len: "length (bitmap ?a) = BITMAP_WORDS" and c: "unat (free_count ?a) = card (free_set ?a)"
    using assms(1) by (simp_all add: alloc_inv_def alloc_core_def)
  obtain a1 where m: "mark_free i ?a = Some a1" "length (bitmap a1) = BITMAP_WORDS" "free_count a1 = free_count ?a"
      "next_free_word a1 = next_free_word ?a" "free_set a1 = insert i (free_set ?a)"
    using mark_free_eq [OF len assms(2)] by blast
  define a2 where "a2 = a1\<lparr>free_count := free_count a1 + 1\<rparr>"
  define a3 where "a3 = (if i div 64 < next_free_word a2 then a2\<lparr>next_free_word := i div 64\<rparr> else a2)"
  have "unat (free_count ?a) + unat (1 :: u64) < 2 ^ LENGTH(64)"
    using c card_free_set [of ?a] by (simp add: MAX_FRAMES_def)
  then have "dealloc oc (frame_addr i) ph =
      Some (\<lparr>pmem = secure_zero (pmem ph) (i * 4096) 4096, frames = a3\<rparr>, Inr ())"
    using m assms(2,3) is_free_eq [OF len assms(2)] frame_index_addr [OF assms(2)] unat_frame_addr [OF assms(2)]
    by (simp add: dealloc_def Let_def a3_def a2_def FRAME_SIZE_def)
  moreover have "alloc_inv a3"
    using m assms(3) c assms(1) unat_count_succ [OF c]
    by (auto simp: alloc_inv_def alloc_core_def a3_def a2_def)
  moreover have "free_set a3 = insert i (free_set ?a)" using m by (simp add: a3_def a2_def)
  ultimately show ?thesis by auto
qed

subsection \<open>The contract of a frame pool\<close>

text \<open>
  A client takes frames and gives back frames it holds. The contract promises that a taken frame was
  free and that a frame in use can be given back; a client's frames are then its own.
\<close>

inductive pool_step ::
  "('s \<Rightarrow> ('s \<times> 'f option) option) \<Rightarrow> ('f \<Rightarrow> 's \<Rightarrow> ('s \<times> ('e + unit)) option) \<Rightarrow>
     's \<times> 'f set \<Rightarrow> 's \<times> 'f set \<Rightarrow> bool"
  for take :: "'s \<Rightarrow> ('s \<times> 'f option) option" and give :: "'f \<Rightarrow> 's \<Rightarrow> ('s \<times> ('e + unit)) option" where
  taken: "take s = Some (s', Some f) \<Longrightarrow> pool_step take give (s, held) (s', insert f held)"
| exhausted: "take s = Some (s', None) \<Longrightarrow> pool_step take give (s, held) (s', held)"
| given: "f \<in> held \<Longrightarrow> give f s = Some (s', r) \<Longrightarrow> pool_step take give (s, held) (s', held - {f})"

locale frame_pool =
  fixes take_frame :: "'s \<Rightarrow> ('s \<times> 'f option) option"
    and give_frame :: "'f \<Rightarrow> 's \<Rightarrow> ('s \<times> ('e + unit)) option"
    and free :: "'s \<Rightarrow> 'f set"
    and inv :: "'s \<Rightarrow> bool"
    and is_frame :: "'f \<Rightarrow> bool"
  assumes take_some: "inv s \<Longrightarrow> free s \<noteq> {} \<Longrightarrow>
      \<exists>s' f. take_frame s = Some (s', Some f) \<and> inv s' \<and> f \<in> free s \<and> free s' = free s - {f}"
    and take_none: "inv s \<Longrightarrow> free s = {} \<Longrightarrow> take_frame s = Some (s, None)"
    and give_used: "inv s \<Longrightarrow> is_frame f \<Longrightarrow> f \<notin> free s \<Longrightarrow>
      \<exists>s'. give_frame f s = Some (s', Inr ()) \<and> inv s' \<and> free s' = insert f (free s)"
    and free_frames: "inv s \<Longrightarrow> f \<in> free s \<Longrightarrow> is_frame f"
begin

lemma held_apart:
  assumes "(pool_step take_frame give_frame)\<^sup>*\<^sup>* (s0, {}) (s, held)" "inv s0"
  shows "inv s \<and> held \<inter> free s = {} \<and> held \<union> free s = free s0"
  using assms(1)
proof (induction "(s, held)" arbitrary: s held rule: rtranclp_induct)
  case base
  then show ?case using assms(2) by simp
next
  case (step sh)
  obtain s1 held1 where sh: "sh = (s1, held1)" by (cases sh)
  note IH = step.hyps(3) [OF sh]
  from step.hyps(2) show ?case unfolding sh
  proof cases
    case (taken f)
    then show ?thesis using IH take_some [of s1] take_none [of s1] by (cases "free s1 = {}") auto
  next
    case exhausted
    then show ?thesis using IH take_some [of s1] take_none [of s1] by (cases "free s1 = {}") auto
  next
    case (given f r)
    then have "f \<in> free s0" "f \<notin> free s1" using IH by auto
    then show ?thesis
      using given IH give_used [of s1 f] free_frames [OF assms(2), of f] by auto
  qed
qed

lemma takes_fresh:
  assumes "(pool_step take_frame give_frame)\<^sup>*\<^sup>* (s0, {}) (s, held)" "inv s0"
  shows "\<exists>s' r. take_frame s = Some (s', r) \<and> (r = None \<longleftrightarrow> held = free s0) \<and> (\<forall>f. r = Some f \<longrightarrow> f \<in> free s0 - held)"
proof -
  note h = held_apart [OF assms]
  show ?thesis
  proof (cases "free s = {}")
    case True
    then show ?thesis using h take_none [of s] by auto
  next
    case False
    then obtain s' f where t: "take_frame s = Some (s', Some f)" "f \<in> free s" using h take_some [of s] by blast
    have "f \<in> free s0 - held" "held \<noteq> free s0" using h t(2) by blast+
    then show ?thesis using t(1) by auto
  qed
qed

lemma gives_back:
  assumes "(pool_step take_frame give_frame)\<^sup>*\<^sup>* (s0, {}) (s, held)" "inv s0" "f \<in> held"
  shows "\<exists>s'. give_frame f s = Some (s', Inr ())"
  using held_apart [OF assms(1,2)] assms(3) give_used [of s f] free_frames [OF assms(2), of f] by auto

end

definition free_frames :: "phys \<Rightarrow> PhysFrame set" where
  "free_frames ph = frame_addr ` free_set (frames ph)"

definition is_frame :: "PhysFrame \<Rightarrow> bool" where
  "is_frame f \<longleftrightarrow> f \<in> frame_addr ` {..<MAX_FRAMES}"

interpretation bitmap_pool: frame_pool "alloc_frame oc" "dealloc oc" free_frames "\<lambda>ph. alloc_inv (frames ph)" is_frame
  for oc
proof
  fix ph :: phys assume inv: "alloc_inv (frames ph)"
  show "alloc_frame oc ph = Some (ph, None)" if "free_frames ph = {}"
    using alloc_frame_none [OF inv, of oc] that by (simp add: free_frames_def)
  have inj: "inj_on frame_addr (free_set (frames ph))"
    using free_set_bound by (auto intro!: inj_onI simp: frame_addr_inject)
  show "\<exists>s' f. alloc_frame oc ph = Some (s', Some f) \<and> alloc_inv (frames s') \<and> f \<in> free_frames ph \<and>
      free_frames s' = free_frames ph - {f}" if "free_frames ph \<noteq> {}"
  proof -
    have "free_set (frames ph) \<noteq> {}" using that by (simp add: free_frames_def)
    then obtain i a1 where a: "i \<in> free_set (frames ph)" "alloc_inv a1" "free_set a1 = free_set (frames ph) - {i}"
        "alloc_frame oc ph = Some (\<lparr>pmem = secure_zero (pmem ph) (i * 4096) 4096, frames = a1\<rparr>, Some (frame_addr i))"
      using alloc_frame_some [OF inv, of oc] by blast
    have "frame_addr ` (free_set (frames ph) - {i}) = free_frames ph - {frame_addr i}"
      using inj_on_image_set_diff [OF inj, of "free_set (frames ph)" "{i}"] a(1) by (simp add: free_frames_def)
    then show ?thesis using a by (simp add: free_frames_def)
  qed
  show "is_frame f" if "f \<in> free_frames ph" for f
    using that free_set_bound by (auto simp: is_frame_def free_frames_def)
  show "\<exists>s'. dealloc oc f ph = Some (s', Inr ()) \<and> alloc_inv (frames s') \<and> free_frames s' = insert f (free_frames ph)"
    if f: "is_frame f" "f \<notin> free_frames ph" for f
  proof -
    obtain i where i: "f = frame_addr i" "i < MAX_FRAMES" "i \<notin> free_set (frames ph)"
      using f by (auto simp: is_frame_def free_frames_def)
    then show ?thesis using dealloc_used [OF inv i(2,3), of oc] by (auto simp: free_frames_def)
  qed
qed

subsection \<open>Boot\<close>

text \<open>
  The set-up of the allocator in \<^verbatim>\<open>_kernel_start\<close>: the usable regions become free, then the lowest
  megabyte and the kernel image, which ends at the linker symbol \<open>phys_end\<close>, are reserved.
\<close>

definition boot_allocator :: "bool \<Rightarrow> MemoryMap \<Rightarrow> u64 \<Rightarrow> BitmapFrameAllocator option" where
  "boot_allocator oc mm phys_end =
     do {
       a1 \<leftarrow> init_from_memory_map oc mm allocator_new;
       a2 \<leftarrow> mark_range_used oc 0 0x100000 a1;
       e \<leftarrow> add_ovf oc phys_end 0xFFF;
       let phys_end_aligned = e AND NOT 0xFFF;
       len \<leftarrow> sub_ovf oc phys_end_aligned 0x100000;
       mark_range_used oc 0x100000 len a2
     }"

lemma init_regions_eq:
  assumes "alloc_inv a"
    and "\<forall>r \<in> set rs. unat (region_base r) + 4096 < 2 ^ 64 \<and> unat (region_base r) + unat (region_length r) < 2 ^ 64"
  shows "\<exists>a1. init_regions oc rs a = Some a1 \<and> alloc_inv a1 \<and>
     free_set a1 = free_set a \<union> (\<Union>r \<in> set rs. frames_inside (unat (region_base r)) (unat (region_length r)))"
  using assms
proof (induction oc rs a rule: init_regions.induct)
  case (2 oc r rs a)
  obtain a1 where a1: "mark_range_free oc (region_base r) (region_length r) a = Some a1" "alloc_inv a1"
      "free_set a1 = free_set a \<union> frames_inside (unat (region_base r)) (unat (region_length r))"
    using mark_range_free_eq [OF 2(2), of "region_base r" "region_length r" oc] 2(3) by auto
  then show ?case using 2(1) [OF a1(1,2)] 2(3) by auto
qed simp

text \<open>C27: the allocator at boot. For a memory map whose usable regions do not wrap around the end of
  the address space, the set-up succeeds and the free frames are exactly the frames that lie wholly in
  a usable region and above the kernel image: no frame of the lowest megabyte, of the kernel or of
  reserved memory is ever handed out.\<close>

theorem boot_frames_usable:
  assumes "regions mm = Some rs" "2 ^ 20 \<le> unat phys_end" "unat phys_end + 4095 < 2 ^ 64"
    and "\<forall>r \<in> set rs. region_kind r = Usable \<longrightarrow>
      unat (region_base r) + 4096 < 2 ^ 64 \<and> unat (region_base r) + unat (region_length r) < 2 ^ 64"
  shows "\<exists>a. boot_allocator oc mm phys_end = Some a \<and> alloc_inv a \<and>
    free_set a = {i. i < MAX_FRAMES \<and> unat phys_end \<le> i * 4096 \<and>
      (\<exists>r \<in> set rs. region_kind r = Usable \<and> unat (region_base r) \<le> i * 4096 \<and>
         (i + 1) * 4096 \<le> unat (region_base r) + unat (region_length r))}"
proof -
  let ?us = "filter (\<lambda>r. region_kind r = Usable) rs"
  obtain a1 where a1: "init_regions oc ?us allocator_new = Some a1" "alloc_inv a1"
      "free_set a1 = (\<Union>r \<in> set ?us. frames_inside (unat (region_base r)) (unat (region_length r)))"
    using init_regions_eq [OF alloc_inv_new(1), of ?us oc] alloc_inv_new(2) assms(4) by auto
  obtain a2 where a2: "mark_range_used oc 0 0x100000 a1 = Some a2" "alloc_inv a2" "free_set a2 = free_set a1 - {0..<256}"
    using mark_range_used_eq [OF a1(2), of 0 "0x100000" oc] by auto
  define e where "e = (phys_end + 0xFFF) AND NOT 0xFFF"
  have ue: "unat e = (unat phys_end + 4095) div 4096 * 4096"
    using align_down [of "phys_end + 0xFFF"] assms(3) by (simp add: FRAME_SIZE_def unat_word_ariths e_def)
  have ge: "2 ^ 20 \<le> unat e"
    unfolding ue ceil_4096 using assms(2) div_mult_mod_eq [of "unat phys_end" 4096] mod_less_divisor [of 4096 "unat phys_end"]
    by (cases "unat phys_end mod 4096 = 0") simp_all
  then have lt: "unat (0x100000 :: u64) + unat (e - 0x100000) = unat e" by (simp add: unat_sub_if_size)
  obtain a3 where a3: "mark_range_used oc 0x100000 (e - 0x100000) a2 = Some a3" "alloc_inv a3"
      "free_set a3 = free_set a2 - {256..<(unat e + 4095) div 4096}"
    using mark_range_used_eq [OF a2(2), of "0x100000" "e - 0x100000" oc, unfolded lt] unat_less_pow [of e] by auto
  have "(phys_end + 4095) AND - 4096 = e" by (simp add: e_def)
  then have b: "boot_allocator oc mm phys_end = Some a3"
    using assms(1,3) a1(1) a2(1) a3(1) ge
    by (simp add: boot_allocator_def init_from_memory_map_def usable_regions_def Let_def)
  have above: "i \<notin> {0..<256} \<union> {256..<(unat e + 4095) div 4096} \<longleftrightarrow> unat phys_end \<le> i * 4096" for i
  proof -
    have "(unat e + 4095) div 4096 = (unat phys_end + 4095) div 4096" by (simp add: ue)
    moreover have "256 \<le> (unat e + 4095) div 4096" using ge by (simp add: div_le_mono [of "2 ^ 20", simplified])
    moreover have "(unat phys_end + 4095) div 4096 \<le> i \<longleftrightarrow> unat phys_end \<le> i * 4096" by (rule ceil_4096_le)
    ultimately show ?thesis by auto
  qed
  have "free_set a3 = {i \<in> free_set a1. unat phys_end \<le> i * 4096}"
    unfolding a3(3) a2(3) above [symmetric] by blast
  also have "\<dots> = {i. i < MAX_FRAMES \<and> unat phys_end \<le> i * 4096 \<and>
      (\<exists>r \<in> set rs. region_kind r = Usable \<and> unat (region_base r) \<le> i * 4096 \<and>
         (i + 1) * 4096 \<le> unat (region_base r) + unat (region_length r))}"
    unfolding a1(3) frames_inside_def by auto
  finally show ?thesis using b a3(2) by blast
qed

definition demo_map :: MemoryMap where
  "demo_map = \<lparr>map_regions = [\<lparr>region_base = 0x200000, region_length = 0x2000, region_kind = Usable\<rparr>], map_count = 1\<rparr>"

theorem boot_frames_usable_witness:
  "\<exists>a. boot_allocator True demo_map 0x180000 = Some a \<and> alloc_inv a \<and> 512 \<in> free_set a \<and> 100 \<notin> free_set a"
  using boot_frames_usable [of demo_map "map_regions demo_map" "0x180000" True]
  by (auto simp: demo_map_def regions_def MAX_FRAMES_def)

text \<open>C26: every frame has one owner. Let clients take and give back frames in any order, starting
  from a well-formed allocator. Then the frames they hold and the free frames together are always
  exactly the frames that were free at the start, and no frame is both. A further request returns a
  frame that nobody holds, erased and with all other memory unchanged, or fails when everything is
  held; and every frame that is held can be given back.\<close>

theorem frames_exclusive:
  assumes "alloc_inv (frames ph0)" "(pool_step (alloc_frame oc) (dealloc oc))\<^sup>*\<^sup>* (ph0, {}) (ph, held)"
  shows "alloc_inv (frames ph) \<and> held \<inter> free_frames ph = {} \<and> held \<union> free_frames ph = free_frames ph0 \<and>
    (\<exists>ph' r. alloc_frame oc ph = Some (ph', r) \<and> (r = None \<longleftrightarrow> held = free_frames ph0) \<and>
       (\<forall>f. r = Some f \<longrightarrow> f \<in> free_frames ph0 - held \<and>
          (\<forall>a. pmem ph' a = (if unat f \<le> a \<and> a < unat f + 4096 then 0 else pmem ph a)))) \<and>
    (\<forall>f \<in> held. \<exists>ph'. dealloc oc f ph = Some (ph', Inr ()))"
proof -
  note h = bitmap_pool.held_apart [OF assms(2,1)]
  obtain ph' r where t: "alloc_frame oc ph = Some (ph', r)" "r = None \<longleftrightarrow> held = free_frames ph0"
      "\<forall>f. r = Some f \<longrightarrow> f \<in> free_frames ph0 - held"
    using bitmap_pool.takes_fresh [OF assms(2,1)] by blast
  have "\<forall>a. pmem ph' a = (if unat f \<le> a \<and> a < unat f + 4096 then 0 else pmem ph a)" if r: "r = Some f" for f
  proof -
    have "free_set (frames ph) \<noteq> {}" using alloc_frame_none [of ph oc] h t(1) r by auto
    then obtain i a1 where i: "i \<in> free_set (frames ph)" "alloc_frame oc ph =
        Some (\<lparr>pmem = secure_zero (pmem ph) (i * 4096) 4096, frames = a1\<rparr>, Some (frame_addr i))"
      using alloc_frame_some [OF conjunct1 [OF h], of oc] by blast
    then show ?thesis using t(1) r free_set_bound [OF i(1)] by (simp add: secure_zero_def unat_frame_addr)
  qed
  then show ?thesis using h t bitmap_pool.gives_back [OF assms(2,1)] by blast
qed

theorem frames_exclusive_witness:
  "\<exists>a ph held. mark_range_free True 0x200000 0x2000 allocator_new = Some a \<and>
     (pool_step (alloc_frame True) (dealloc True))\<^sup>*\<^sup>* (\<lparr>pmem = (\<lambda>_. 7), frames = a\<rparr>, {}) (ph, held) \<and>
     held = {frame_addr 512} \<and> (\<exists>ph' r. alloc_frame True ph = Some (ph', r) \<and> r \<noteq> None \<and> r \<noteq> Some (frame_addr 512))"
proof -
  obtain a where a: "mark_range_free True 0x200000 0x2000 allocator_new = Some a" "alloc_inv a"
      "free_set a = frames_inside 0x200000 0x2000"
    using mark_range_free_eq [OF alloc_inv_new(1), of "0x200000" "0x2000" True] alloc_inv_new(2) by auto
  have fs: "free_set a = {512, 513}" unfolding a(3) frames_inside_def MAX_FRAMES_def by auto
  let ?ph = "\<lparr>pmem = (\<lambda>_. 7), frames = a\<rparr>"
  obtain ph where p: "alloc_frame True ?ph = Some (ph, Some (frame_addr 512))"
    using alloc_frame_some [of ?ph True] a(2) fs by auto
  have r: "(pool_step (alloc_frame True) (dealloc True))\<^sup>*\<^sup>* (?ph, {}) (ph, {frame_addr 512})"
    using pool_step.taken [where take = "alloc_frame True" and give = "dealloc True", OF p, of "{}"] by auto
  have "frame_addr 513 \<noteq> frame_addr 512" by (simp add: frame_addr_inject MAX_FRAMES_def)
  then have "free_frames ?ph \<noteq> {frame_addr 512}" using fs by (auto simp: free_frames_def)
  then show ?thesis
    using a(1) r frames_exclusive [of ?ph True ph "{frame_addr 512}", OF _ r] a(2)
    by (intro exI [of _ a] exI [of _ ph] exI [of _ "{frame_addr 512}"]) (auto simp del: of_nat_numeral)
qed

end
