(* ===== verification/PageTables.thy ===== *)
theory PageTables
  imports FrameAlloc
begin

text \<open>
  The four-level page tables of \<^verbatim>\<open>src/src/arch/x86_64/mmu.rs\<close>. A table is a frame of 512
  little-endian entries in physical memory, an address space is the physical address of its root
  table. Tables are reached through the identity map, as on every path of the kernel, which builds
  address spaces before it activates one; reached through the linear map they are the same physical
  memory.
\<close>

subsection \<open>Entries\<close>

type_synonym PageTableFlags = u64

definition PAGE_SIZE :: nat where "PAGE_SIZE = 4096"
definition KERNEL_VMA_BASE :: u64 where "KERNEL_VMA_BASE = 0xFFFFFFFF80000000"
definition TABLE_ENTRIES :: nat where "TABLE_ENTRIES = 512"
definition PHYS_ADDR_MASK :: u64 where "PHYS_ADDR_MASK = 0x000FFFFFFFFFF000"
definition HUGE_PHYS_MASK :: u64 where "HUGE_PHYS_MASK = 0x000FFFFFFFE00000"
definition DEFAULT_PHYS_MAP_OFFSET :: u64 where "DEFAULT_PHYS_MAP_OFFSET = 0xFFFF800000000000"

definition PRESENT :: PageTableFlags where "PRESENT = push_bit 0 1"
definition WRITABLE :: PageTableFlags where "WRITABLE = push_bit 1 1"
definition USER_ACCESSIBLE :: PageTableFlags where "USER_ACCESSIBLE = push_bit 2 1"
definition HUGE_PAGE :: PageTableFlags where "HUGE_PAGE = push_bit 7 1"
definition NO_EXECUTE :: PageTableFlags where "NO_EXECUTE = push_bit 63 1"

definition flags_contain :: "PageTableFlags \<Rightarrow> PageTableFlags \<Rightarrow> bool" where
  "flags_contain f other \<longleftrightarrow> f AND other = other"

datatype MmuError = WxPolicyViolation | AlreadyMapped | FrameAllocFailed | UnalignedAddress

definition entry_flags :: "u64 \<Rightarrow> PageTableFlags" where
  "entry_flags e = e AND NOT PHYS_ADDR_MASK"

definition entry_phys :: "u64 \<Rightarrow> u64" where
  "entry_phys e = e AND PHYS_ADDR_MASK"

definition is_present :: "u64 \<Rightarrow> bool" where
  "is_present e = flags_contain (entry_flags e) PRESENT"

definition entry_set :: "u64 \<Rightarrow> PageTableFlags \<Rightarrow> MmuError + u64" where
  "entry_set phys_addr flags =
     (if phys_addr AND (of_nat PAGE_SIZE - 1) \<noteq> 0 then Inl UnalignedAddress
      else
        let flags = (if flags_contain flags WRITABLE then flags OR NO_EXECUTE else flags)
        in Inr ((phys_addr AND PHYS_ADDR_MASK) OR flags))"

definition entry_set_huge :: "u64 \<Rightarrow> PageTableFlags \<Rightarrow> MmuError + u64" where
  "entry_set_huge phys_addr flags =
     (if phys_addr AND (SIZE_2MIB - 1) \<noteq> 0 then Inl UnalignedAddress
      else
        let flags = (if flags_contain flags WRITABLE then flags OR NO_EXECUTE else flags)
        in Inr ((phys_addr AND HUGE_PHYS_MASK) OR flags))"

definition table_index :: "u64 \<Rightarrow> nat \<Rightarrow> nat" where
  "table_index virt_addr level = unat (drop_bit (12 + (level - 1) * 9) virt_addr AND 0x1FF)"

definition get_entry :: "pmem \<Rightarrow> u64 \<Rightarrow> nat \<Rightarrow> u64" where
  "get_entry m table i = load64 m (unat table + 8 * i)"

definition set_entry :: "u64 \<Rightarrow> nat \<Rightarrow> u64 \<Rightarrow> phys \<Rightarrow> phys" where
  "set_entry table i v ph = ph\<lparr>pmem := store64 (pmem ph) (unat table + 8 * i) v\<rparr>"

subsection \<open>Mapping\<close>

definition MID_FLAGS :: PageTableFlags where
  "MID_FLAGS = PRESENT OR WRITABLE OR NO_EXECUTE"

definition alloc_or_get_table :: "bool \<Rightarrow> u64 \<Rightarrow> nat \<Rightarrow> phys \<Rightarrow> (phys \<times> (MmuError + u64)) option" where
  "alloc_or_get_table oc table i ph =
     (let entry = get_entry (pmem ph) table i
      in if is_present entry
         then if flags_contain (entry_flags entry) HUGE_PAGE then Some (ph, Inl AlreadyMapped)
              else Some (ph, Inr (entry_phys entry))
         else do {
           (ph1, frame) \<leftarrow> alloc_frame oc ph;
           case frame of
             None \<Rightarrow> Some (ph1, Inl FrameAllocFailed)
           | Some new_phys \<Rightarrow>
               let ph2 = ph1\<lparr>pmem := secure_zero (pmem ph1) (unat new_phys) PAGE_SIZE\<rparr>
               in (case entry_set new_phys MID_FLAGS of
                     Inl e \<Rightarrow> Some (ph2, Inl e)
                   | Inr v \<Rightarrow> Some (set_entry table i v ph2, Inr new_phys))
         })"

definition map_page ::
  "bool \<Rightarrow> u64 \<Rightarrow> u64 \<Rightarrow> u64 \<Rightarrow> PageTableFlags \<Rightarrow> phys \<Rightarrow> (phys \<times> (MmuError + unit)) option" where
  "map_page oc pml4 virt_addr phys_addr flags ph =
     (if virt_addr AND (of_nat PAGE_SIZE - 1) \<noteq> 0 \<or> phys_addr AND (of_nat PAGE_SIZE - 1) \<noteq> 0
      then Some (ph, Inl UnalignedAddress)
      else if flags_contain flags WRITABLE \<and> \<not> flags_contain flags NO_EXECUTE
      then Some (ph, Inl WxPolicyViolation)
      else
        try_then (alloc_or_get_table oc pml4 (table_index virt_addr 4) ph) (\<lambda>pdpt ph.
        try_then (alloc_or_get_table oc pdpt (table_index virt_addr 3) ph) (\<lambda>pd ph.
        try_then (alloc_or_get_table oc pd (table_index virt_addr 2) ph) (\<lambda>pt ph.
          if is_present (get_entry (pmem ph) pt (table_index virt_addr 1)) then Some (ph, Inl AlreadyMapped)
          else (case entry_set phys_addr (flags OR PRESENT) of
                  Inl e \<Rightarrow> Some (ph, Inl e)
                | Inr v \<Rightarrow> Some (set_entry pt (table_index virt_addr 1) v ph, Inr ()))))))"

definition is_user_va :: "u64 \<Rightarrow> bool" where
  "is_user_va va \<longleftrightarrow> va < 0x0000800000000000 \<and> va AND (of_nat PAGE_SIZE - 1) = 0"

definition map_user_page ::
  "bool \<Rightarrow> u64 \<Rightarrow> u64 \<Rightarrow> u64 \<Rightarrow> bool \<Rightarrow> phys \<Rightarrow> (phys \<times> (MmuError + unit)) option" where
  "map_user_page oc pml4 virt_addr phys_addr writable ph =
     (if \<not> is_user_va virt_addr then Some (ph, Inl UnalignedAddress)
      else
        let flags = PRESENT OR USER_ACCESSIBLE;
            flags = (if writable then flags OR WRITABLE OR NO_EXECUTE else flags)
        in map_page oc pml4 virt_addr phys_addr flags ph)"

definition walk_to_phys :: "pmem \<Rightarrow> u64 \<Rightarrow> u64 \<Rightarrow> u64 option" where
  "walk_to_phys m pml4 va =
     (let pdpt_entry = get_entry m pml4 (table_index va 4)
      in if \<not> is_present pdpt_entry then None
         else
           let pd_entry = get_entry m (entry_phys pdpt_entry) (table_index va 3)
           in if \<not> is_present pd_entry \<or> flags_contain (entry_flags pd_entry) HUGE_PAGE then None
              else
                let pt_entry = get_entry m (entry_phys pd_entry) (table_index va 2)
                in if \<not> is_present pt_entry \<or> flags_contain (entry_flags pt_entry) HUGE_PAGE then None
                   else
                     let leaf = get_entry m (entry_phys pt_entry) (table_index va 1)
                     in if \<not> is_present leaf then None else Some (entry_phys leaf))"

fun inherit_loop :: "u64 \<Rightarrow> u64 \<Rightarrow> nat list \<Rightarrow> phys \<Rightarrow> phys" where
  "inherit_loop pml4 from [] ph = ph"
| "inherit_loop pml4 from (i # is) ph = inherit_loop pml4 from is (set_entry pml4 i (get_entry (pmem ph) from i) ph)"

definition inherit_kernel_mappings :: "u64 \<Rightarrow> u64 \<Rightarrow> phys \<Rightarrow> phys" where
  "inherit_kernel_mappings pml4 from ph = inherit_loop pml4 from [256..<TABLE_ENTRIES] ph"

definition map_2mib_page ::
  "bool \<Rightarrow> u64 \<Rightarrow> u64 \<Rightarrow> u64 \<Rightarrow> PageTableFlags \<Rightarrow> phys \<Rightarrow> (phys \<times> (MmuError + unit)) option" where
  "map_2mib_page oc pml4 virt_addr phys_addr flags ph =
     (if virt_addr AND (SIZE_2MIB - 1) \<noteq> 0 \<or> phys_addr AND (SIZE_2MIB - 1) \<noteq> 0
      then Some (ph, Inl UnalignedAddress)
      else if flags_contain flags WRITABLE \<and> \<not> flags_contain flags NO_EXECUTE
      then Some (ph, Inl WxPolicyViolation)
      else
        try_then (alloc_or_get_table oc pml4 (table_index virt_addr 4) ph) (\<lambda>pdpt ph.
        try_then (alloc_or_get_table oc pdpt (table_index virt_addr 3) ph) (\<lambda>pd ph.
          if is_present (get_entry (pmem ph) pd (table_index virt_addr 2)) then Some (ph, Inl AlreadyMapped)
          else (case entry_set_huge phys_addr (flags OR PRESENT OR HUGE_PAGE) of
                  Inl e \<Rightarrow> Some (ph, Inl e)
                | Inr v \<Rightarrow> Some (set_entry pd (table_index virt_addr 2) v ph, Inr ())))))"

definition mmu_initialize :: "u64 option \<Rightarrow> u64" where
  "mmu_initialize kaslr_offset =
     (let raw_offset = (case kaslr_offset of None \<Rightarrow> DEFAULT_PHYS_MAP_OFFSET | Some v \<Rightarrow> v)
      in raw_offset AND NOT (SIZE_2MIB - 1))"

definition phys_to_linear_virt :: "bool \<Rightarrow> u64 \<Rightarrow> u64 \<Rightarrow> u64 option" where
  "phys_to_linear_virt oc offset phys_addr = add_ovf oc offset phys_addr"

fun linear_map_loop :: "bool \<Rightarrow> u64 \<Rightarrow> u64 \<Rightarrow> nat list \<Rightarrow> phys \<Rightarrow> (phys \<times> (MmuError + unit)) option" where
  "linear_map_loop oc pml4 offset [] ph = Some (ph, Inr ())"
| "linear_map_loop oc pml4 offset (i # is) ph =
     do {
       let phys_base = of_nat i * SIZE_2MIB;
       virt_base \<leftarrow> add_ovf oc offset phys_base;
       try_then (map_2mib_page oc pml4 virt_base phys_base MID_FLAGS ph) (\<lambda>_ ph. linear_map_loop oc pml4 offset is ph)
     }"

definition build_linear_map :: "bool \<Rightarrow> u64 \<Rightarrow> u64 \<Rightarrow> u64 \<Rightarrow> phys \<Rightarrow> (phys \<times> (MmuError + unit)) option" where
  "build_linear_map oc pml4 offset highest_phys_addr ph =
     (let highest = min highest_phys_addr (4 * 1024 * 1024 * 1024);
          page_count = sat_add highest (SIZE_2MIB - 1) div SIZE_2MIB
      in linear_map_loop oc pml4 offset [0..<unat page_count] ph)"

text \<open>The value for the page table base register.\<close>

definition pml4_phys_addr :: "u64 \<Rightarrow> u64" where
  "pml4_phys_addr vma = (if KERNEL_VMA_BASE \<le> vma then vma - KERNEL_VMA_BASE else vma)"

subsection \<open>The bits of an entry\<close>

lemma flags_contain_bit: "n < 64 \<Longrightarrow> flags_contain f (push_bit n 1) \<longleftrightarrow> bit f n"
proof -
  assume n: "n < 64"
  have "bit f n" if "f AND push_bit n 1 = push_bit n 1"
    using arg_cong [OF that, of "\<lambda>w. bit w n"] n by (simp add: bit_and_iff bit_exp_iff)
  moreover have "f AND push_bit n 1 = push_bit n 1" if "bit f n"
    by (rule bit_word_eqI) (use that in \<open>auto simp: bit_and_iff bit_exp_iff\<close>)
  ultimately show ?thesis by (auto simp: flags_contain_def)
qed

lemma flags_contain_consts:
  "flags_contain f PRESENT \<longleftrightarrow> bit f 0" "flags_contain f WRITABLE \<longleftrightarrow> bit f 1" "flags_contain f USER_ACCESSIBLE \<longleftrightarrow> bit f 2"
  "flags_contain f HUGE_PAGE \<longleftrightarrow> bit f 7" "flags_contain f NO_EXECUTE \<longleftrightarrow> bit f 63"
  unfolding PRESENT_def WRITABLE_def USER_ACCESSIBLE_def HUGE_PAGE_def NO_EXECUTE_def
  by (rule flags_contain_bit; simp)+

lemma bit_phys_mask: "bit PHYS_ADDR_MASK n \<longleftrightarrow> 12 \<le> n \<and> n < 52"
proof -
  have eq: "PHYS_ADDR_MASK = push_bit 12 (mask 40)" by (simp add: PHYS_ADDR_MASK_def mask_eq_exp_minus_1 push_bit_eq_mult)
  show ?thesis unfolding eq by (auto simp: bit_push_bit_iff bit_mask_iff)
qed

lemma is_present_bit: "is_present e \<longleftrightarrow> bit e 0"
  by (simp add: is_present_def flags_contain_consts entry_flags_def bit_and_iff bit_not_iff bit_phys_mask)

lemma is_huge_bit: "flags_contain (entry_flags e) HUGE_PAGE \<longleftrightarrow> bit e 7"
  by (simp add: flags_contain_consts entry_flags_def bit_and_iff bit_not_iff bit_phys_mask)

lemma bit_push_one: "bit (push_bit k (1 :: u64)) n \<longleftrightarrow> n = k \<and> k < 64"
  by (auto simp: bit_exp_iff)

lemma bit_flag_consts:
  "bit PRESENT n \<longleftrightarrow> n = 0" "bit WRITABLE n \<longleftrightarrow> n = 1" "bit USER_ACCESSIBLE n \<longleftrightarrow> n = 2"
  "bit HUGE_PAGE n \<longleftrightarrow> n = 7" "bit NO_EXECUTE n \<longleftrightarrow> n = 63"
  unfolding PRESENT_def WRITABLE_def USER_ACCESSIBLE_def HUGE_PAGE_def NO_EXECUTE_def bit_push_one by simp_all

lemma small_no_bit: "unat w < 2 ^ k \<Longrightarrow> k \<le> n \<Longrightarrow> \<not> bit w n" for w :: "'a::len word"
proof -
  assume "unat w < 2 ^ k" "k \<le> n"
  then have "take_bit k (unat w) = unat w" by (simp add: take_bit_nat_eq_self)
  then have "\<not> bit (unat w) n" using \<open>k \<le> n\<close> by (metis bit_take_bit_iff leD)
  then show ?thesis by (simp add: bit_unsigned_iff)
qed

lemma page_aligned: "w AND (of_nat PAGE_SIZE - 1) = 0 \<longleftrightarrow> unat w mod 4096 = 0" for w :: u64
  using unat_and_mask [of w 12] by (simp add: PAGE_SIZE_def mask_4095 word_unat_eq_iff)

lemma aligned_no_bit: "unat w mod 4096 = 0 \<Longrightarrow> n < 12 \<Longrightarrow> \<not> bit w n" for w :: u64
proof -
  assume "unat w mod 4096 = 0" "n < 12"
  then have "w AND mask 12 = 0" using unat_and_mask [of w 12] by (simp add: word_unat_eq_iff)
  then have "\<not> bit (w AND mask 12) n" by simp
  then show ?thesis using \<open>n < 12\<close> by (simp add: bit_and_iff bit_mask_iff)
qed

definition flag_bits :: "u64 \<Rightarrow> bool" where
  "flag_bits f \<longleftrightarrow> (\<forall>n. 12 \<le> n \<and> n < 52 \<longrightarrow> \<not> bit f n)"

lemma entry_value:
  assumes "unat p mod 4096 = 0" "unat p < 2 ^ 52" "flag_bits f"
  shows "entry_phys ((p AND PHYS_ADDR_MASK) OR f) = p"
    "n < 12 \<or> 52 \<le> n \<Longrightarrow> bit ((p AND PHYS_ADDR_MASK) OR f) n \<longleftrightarrow> bit f n"
proof -
  have "bit (entry_phys ((p AND PHYS_ADDR_MASK) OR f)) n = bit p n" for n
    using assms(3) aligned_no_bit [OF assms(1), of n] small_no_bit [OF assms(2), of n]
    by (cases "n < 12"; cases "n < 52") (auto simp: entry_phys_def bit_simps bit_phys_mask flag_bits_def)
  then show "entry_phys ((p AND PHYS_ADDR_MASK) OR f) = p" by (simp add: bit_eq_iff)
  show "n < 12 \<or> 52 \<le> n \<Longrightarrow> bit ((p AND PHYS_ADDR_MASK) OR f) n \<longleftrightarrow> bit f n"
    by (auto simp: bit_simps bit_phys_mask)
qed

lemma flag_bits_MID: "flag_bits MID_FLAGS"
  by (simp add: flag_bits_def MID_FLAGS_def bit_or_iff bit_flag_consts)

lemma entry_set_eq:
  assumes "unat p mod 4096 = 0" "flags_contain f WRITABLE \<Longrightarrow> flags_contain f NO_EXECUTE"
  shows "entry_set p f = Inr ((p AND PHYS_ADDR_MASK) OR f)"
proof -
  have "f OR NO_EXECUTE = f" if "flags_contain f NO_EXECUTE"
    by (rule bit_word_eqI) (use that in \<open>auto simp: bit_or_iff bit_flag_consts flags_contain_consts\<close>)
  then show ?thesis using assms page_aligned [of p] by (auto simp: entry_set_def Let_def)
qed

subsection \<open>The tree of tables\<close>

text \<open>
  The table reached from the root along a path of indices, and the entry that maps a virtual address.
  Two addresses are on the same page when their four indices agree.
\<close>

definition next_table :: "pmem \<Rightarrow> u64 \<Rightarrow> nat \<Rightarrow> u64 option" where
  "next_table m t i =
     (let e = get_entry m t i in if bit e 0 \<and> \<not> bit e 7 then Some (entry_phys e) else None)"

fun table_at :: "pmem \<Rightarrow> u64 \<Rightarrow> nat list \<Rightarrow> u64 option" where
  "table_at m t [] = Some t"
| "table_at m t (i # p) = (case next_table m t i of None \<Rightarrow> None | Some t' \<Rightarrow> table_at m t' p)"

lemma table_at_snoc: "table_at m t (p @ [i]) = (case table_at m t p of None \<Rightarrow> None | Some t' \<Rightarrow> next_table m t' i)"
  by (induction p arbitrary: t) (simp_all split: option.splits)

lemma table_at_append: "table_at m t (p @ q) = (case table_at m t p of None \<Rightarrow> None | Some t' \<Rightarrow> table_at m t' q)"
  by (induction p arbitrary: t) (simp_all split: option.splits)

definition va_path :: "u64 \<Rightarrow> nat list" where
  "va_path va = [table_index va 4, table_index va 3, table_index va 2]"

definition leaf_at :: "pmem \<Rightarrow> u64 \<Rightarrow> u64 \<Rightarrow> u64 option" where
  "leaf_at m root va =
     (case table_at m root (va_path va) of
        None \<Rightarrow> None
      | Some pt \<Rightarrow> let e = get_entry m pt (table_index va 1) in if bit e 0 then Some e else None)"

definition same_page :: "u64 \<Rightarrow> u64 \<Rightarrow> bool" where
  "same_page va va' \<longleftrightarrow> va_path va = va_path va' \<and> table_index va 1 = table_index va' 1"

lemma table_index_bound [simp]: "table_index va l < 512"
  using unat_and_mask [of "drop_bit (12 + (l - 1) * 9) va" 9] by (simp add: table_index_def mask_eq_exp_minus_1)

lemma length_va_path: "length (va_path va) = 3"
  and hd_va_path: "hd (va_path va) = table_index va 4"
  by (simp_all add: va_path_def)

lemma leaf_at_cong:
  assumes "table_at m' root (va_path va) = table_at m root (va_path va)"
    and "\<And>g. table_at m root (va_path va) = Some g \<Longrightarrow> get_entry m' g (table_index va 1) = get_entry m g (table_index va 1)"
  shows "leaf_at m' root va = leaf_at m root va"
  using assms by (auto simp: leaf_at_def split: option.split)

text \<open>
  A path names a table when its indices are in range and it has at most three of them. In a
  well-formed address space every table is a frame in use and no frame is two tables.
\<close>

definition table_path :: "nat list \<Rightarrow> bool" where
  "table_path p \<longleftrightarrow> length p \<le> 3 \<and> (\<forall>i \<in> set p. i < 512)"

definition used_frame :: "BitmapFrameAllocator \<Rightarrow> u64 \<Rightarrow> bool" where
  "used_frame a t \<longleftrightarrow> (\<exists>i < MAX_FRAMES. i \<notin> free_set a \<and> t = frame_addr i)"

definition pt_inv :: "phys \<Rightarrow> u64 \<Rightarrow> bool" where
  "pt_inv ph root \<longleftrightarrow> alloc_inv (frames ph) \<and>
     (\<forall>p t. table_path p \<longrightarrow> table_at (pmem ph) root p = Some t \<longrightarrow> used_frame (frames ph) t) \<and>
     (\<forall>p q t. table_path p \<longrightarrow> table_path q \<longrightarrow>
        table_at (pmem ph) root p = Some t \<longrightarrow> table_at (pmem ph) root q = Some t \<longrightarrow> p = q)"

lemma used_frame_addr: "used_frame a t \<Longrightarrow> \<exists>i < MAX_FRAMES. unat t = i * 4096"
  using unat_frame_addr by (auto simp: used_frame_def)

lemma frames_apart:
  assumes "used_frame a t" "used_frame a' t'" "t \<noteq> t'"
  shows "unat t + 4096 \<le> unat t' \<or> unat t' + 4096 \<le> unat t"
proof -
  obtain i j where "unat t = i * 4096" "unat t' = j * 4096" using used_frame_addr assms(1,2) by meson
  moreover have "i \<noteq> j" using assms(3) calculation by (metis word_unat_eq_iff)
  ultimately show ?thesis by (cases "i < j") auto
qed

lemma get_set_same [simp]: "get_entry (pmem (set_entry t i v ph)) t i = v"
  by (simp add: get_entry_def set_entry_def)

lemma get_set_other:
  assumes "used_frame a t" "used_frame a' t'" "i < 512" "j < 512" "(t, i) \<noteq> (t', j)"
  shows "get_entry (pmem (set_entry t i v ph)) t' j = get_entry (pmem ph) t' j"
proof -
  have "unat t' + 8 * j + 8 \<le> unat t + 8 * i \<or> unat t + 8 * i + 8 \<le> unat t' + 8 * j"
    using frames_apart [OF assms(1,2)] assms(3-5) by (cases "t = t'") auto
  then show ?thesis by (simp add: get_entry_def set_entry_def load64_store64_other)
qed

lemma table_path_simps [simp]:
  "table_path []" "table_path (va_path va)" "table_path (p @ [i]) \<longleftrightarrow> table_path p \<and> length p \<le> 2 \<and> i < 512"
  by (auto simp: table_path_def va_path_def)

lemma pt_invD:
  assumes "pt_inv ph root"
  shows "alloc_inv (frames ph)"
    "table_path p \<Longrightarrow> table_at (pmem ph) root p = Some t \<Longrightarrow> used_frame (frames ph) t"
    "table_path p \<Longrightarrow> table_path q \<Longrightarrow> table_at (pmem ph) root p = Some t \<Longrightarrow> table_at (pmem ph) root q = Some t \<Longrightarrow> p = q"
  using assms unfolding pt_inv_def by blast+

lemma table_at_cong:
  assumes "\<And>p t k. table_path p \<Longrightarrow> table_at m root p = Some t \<Longrightarrow> k < 512 \<Longrightarrow> get_entry m' t k = get_entry m t k"
  shows "table_path q \<Longrightarrow> table_at m' root q = table_at m root q"
proof (induction q rule: rev_induct)
  case (snoc j q)
  then show ?case using assms [of q _ j]
    by (auto simp: table_at_snoc next_table_def split: option.split)
qed simp

lemma table_at_set:
  assumes "pt_inv ph root" "table_path p" "table_at (pmem ph) root p = Some t" "i < 512"
  shows "table_path q \<Longrightarrow> (\<And>r. q \<noteq> p @ i # r) \<Longrightarrow>
    table_at (pmem (set_entry t i v ph)) root q = table_at (pmem ph) root q"
proof (induction q rule: rev_induct)
  case (snoc j q)
  have "q \<noteq> p @ i # r" for r using snoc.prems(2) [of "r @ [j]"] by auto
  then have IH: "table_at (pmem (set_entry t i v ph)) root q = table_at (pmem ph) root q"
    using snoc by auto
  have "get_entry (pmem (set_entry t i v ph)) t' j = get_entry (pmem ph) t' j" if t': "table_at (pmem ph) root q = Some t'" for t'
  proof (rule get_set_other)
    show "used_frame (frames ph) t" "used_frame (frames ph) t'"
      using pt_invD(2) [OF assms(1)] assms(2,3) t' snoc.prems(1) by auto
    show "(t, i) \<noteq> (t', j)"
      using pt_invD(3) [OF assms(1,2), of q t] assms(3) t' snoc.prems by auto
  qed (use assms(4) snoc.prems(1) in auto)
  then show ?case using IH by (auto simp: table_at_snoc next_table_def split: option.split)
qed simp

subsection \<open>What mapping operations preserve\<close>

text \<open>
  How an address space grows: frames only become used, tables stay tables, a new table was a free
  frame, the bytes of every other frame in use stay, and so do the tables below the root entries
  outside \<open>H\<close>; the root table changes only where an empty entry in \<open>H\<close> gets a new table.
\<close>

definition MID_ENTRY :: "u64 \<Rightarrow> u64" where
  "MID_ENTRY f = (f AND PHYS_ADDR_MASK) OR MID_FLAGS"

definition pt_ext :: "nat set \<Rightarrow> phys \<Rightarrow> phys \<Rightarrow> u64 \<Rightarrow> bool" where
  "pt_ext H ph ph' root \<longleftrightarrow>
     free_set (frames ph') \<subseteq> free_set (frames ph) \<and>
     (\<forall>q t. table_path q \<longrightarrow> table_at (pmem ph) root q = Some t \<longrightarrow> table_at (pmem ph') root q = Some t) \<and>
     (\<forall>q t. table_path q \<longrightarrow> table_at (pmem ph') root q = Some t \<longrightarrow>
        table_at (pmem ph) root q = Some t \<or> t \<in> free_frames ph) \<and>
     (\<forall>g. used_frame (frames ph) g \<longrightarrow> (\<forall>q. table_path q \<longrightarrow> table_at (pmem ph) root q \<noteq> Some g) \<longrightarrow>
        (\<forall>k < 4096. pmem ph' (unat g + k) = pmem ph (unat g + k))) \<and>
     (\<forall>q t. table_path q \<longrightarrow> q \<noteq> [] \<longrightarrow> hd q \<notin> H \<longrightarrow> table_at (pmem ph) root q = Some t \<longrightarrow>
        (\<forall>k < 4096. pmem ph' (unat t + k) = pmem ph (unat t + k))) \<and>
     (\<forall>i < 512. get_entry (pmem ph') root i = get_entry (pmem ph) root i \<or>
        i \<in> H \<and> \<not> bit (get_entry (pmem ph) root i) 0 \<and> (\<exists>f. get_entry (pmem ph') root i = MID_ENTRY f))"

lemma pt_ext_refl [simp]: "pt_ext H ph ph root"
  by (simp add: pt_ext_def)

lemma pt_extD:
  assumes "pt_ext H ph ph' root"
  shows "free_set (frames ph') \<subseteq> free_set (frames ph)"
    "table_path q \<Longrightarrow> table_at (pmem ph) root q = Some t \<Longrightarrow> table_at (pmem ph') root q = Some t"
    "table_path q \<Longrightarrow> table_at (pmem ph') root q = Some t \<Longrightarrow> table_at (pmem ph) root q = Some t \<or> t \<in> free_frames ph"
    "used_frame (frames ph) g \<Longrightarrow> (\<And>q. table_path q \<Longrightarrow> table_at (pmem ph) root q \<noteq> Some g) \<Longrightarrow> k < 4096 \<Longrightarrow>
       pmem ph' (unat g + k) = pmem ph (unat g + k)"
    "table_path q \<Longrightarrow> q \<noteq> [] \<Longrightarrow> hd q \<notin> H \<Longrightarrow> table_at (pmem ph) root q = Some t \<Longrightarrow> k < 4096 \<Longrightarrow>
       pmem ph' (unat t + k) = pmem ph (unat t + k)"
    "i < 512 \<Longrightarrow> get_entry (pmem ph') root i = get_entry (pmem ph) root i \<or>
       i \<in> H \<and> \<not> bit (get_entry (pmem ph) root i) 0 \<and> (\<exists>f. get_entry (pmem ph') root i = MID_ENTRY f)"
  using assms unfolding pt_ext_def by simp_all

lemma mid_entry_bits: "bit (MID_ENTRY f) 0" "\<not> bit (MID_ENTRY f) 7" "\<not> bit (MID_ENTRY f) 2" "bit (MID_ENTRY f) 63"
  by (simp_all add: MID_ENTRY_def MID_FLAGS_def bit_or_iff bit_and_iff bit_phys_mask bit_flag_consts)

lemma used_not_free: "used_frame (frames ph) g \<Longrightarrow> g \<notin> free_frames ph"
  using frame_addr_inject free_set_bound by (fastforce simp: used_frame_def free_frames_def)

lemma used_frame_mono: "used_frame a g \<Longrightarrow> free_set a' \<subseteq> free_set a \<Longrightarrow> used_frame a' g"
  by (auto simp: used_frame_def)

lemma pt_ext_trans:
  assumes "pt_ext H ph ph1 root" "pt_ext H ph1 ph2 root"
  shows "pt_ext H ph ph2 root"
  unfolding pt_ext_def
proof (intro conjI allI impI)
  note a = pt_extD [OF assms(1)] and b = pt_extD [OF assms(2)]
  show "free_set (frames ph2) \<subseteq> free_set (frames ph)" using a(1) b(1) by blast
  show "table_at (pmem ph2) root q = Some t" if "table_path q" "table_at (pmem ph) root q = Some t" for q t
    using a(2) b(2) that by blast
  show "table_at (pmem ph) root q = Some t \<or> t \<in> free_frames ph"
    if "table_path q" "table_at (pmem ph2) root q = Some t" for q t
    using a(1) a(3) [of q t] b(3) [OF that] that(1) by (auto simp: free_frames_def)
  show "pmem ph2 (unat t + k) = pmem ph (unat t + k)"
    if "table_path q" "q \<noteq> []" "hd q \<notin> H" "table_at (pmem ph) root q = Some t" "k < 4096" for q t k
    using a(5) [OF that] b(5) [OF that(1-3) a(2) [OF that(1,4)] that(5)] by simp
  show "get_entry (pmem ph2) root i = get_entry (pmem ph) root i \<or>
      i \<in> H \<and> \<not> bit (get_entry (pmem ph) root i) 0 \<and> (\<exists>f. get_entry (pmem ph2) root i = MID_ENTRY f)" if "i < 512" for i
    using a(6) [OF that] b(6) [OF that] mid_entry_bits(1) by auto
  show "pmem ph2 (unat g + k) = pmem ph (unat g + k)"
    if g: "used_frame (frames ph) g" "\<forall>q. table_path q \<longrightarrow> table_at (pmem ph) root q \<noteq> Some g" "k < 4096" for g k
  proof -
    have "table_at (pmem ph1) root q \<noteq> Some g" if "table_path q" for q
      using a(3) [OF that] g used_not_free that by blast
    then show ?thesis
      using a(4) [OF g(1) _ g(3)] b(4) [OF used_frame_mono [OF g(1) a(1)] _ g(3)] g(2) by metis
  qed
qed

lemma pt_ext_mono: "pt_ext H ph ph' root \<Longrightarrow> H \<subseteq> H' \<Longrightarrow> pt_ext H' ph ph' root"
  unfolding pt_ext_def by (elim conjE, intro conjI) blast+

text \<open>Erasing a free frame and making it a table below an empty entry.\<close>

lemma frame_zero_entry:
  "i < 512 \<Longrightarrow> get_entry (secure_zero m (unat t) 4096) t i = 0"
  by (simp add: get_entry_def load64_zeroed)

lemma frame_zero_other:
  assumes "used_frame a t" "j \<in> free_set a" "i < 512"
  shows "get_entry (secure_zero m (j * 4096) 4096) t i = get_entry m t i"
proof -
  obtain k where k: "k < MAX_FRAMES" "k \<notin> free_set a" "unat t = k * 4096"
    using assms(1) unat_frame_addr by (auto simp: used_frame_def)
  then have "k \<noteq> j" using assms(2) by auto
  then have "unat t + 8 * i + 8 \<le> j * 4096 \<or> j * 4096 + 4096 \<le> unat t + 8 * i"
    using k(3) assms(3) by (cases "k < j") auto
  then show ?thesis by (simp add: get_entry_def load64_zero_other)
qed

lemma secure_zero_twice [simp]: "secure_zero (secure_zero m p n) p n = secure_zero m p n"
  by (auto simp: secure_zero_def)

lemma frame_addr_aligned: "i < MAX_FRAMES \<Longrightarrow> unat (frame_addr i) mod 4096 = 0 \<and> unat (frame_addr i) < 2 ^ 32"
  by (simp add: unat_frame_addr MAX_FRAMES_def)

lemma mid_entry:
  assumes "i < MAX_FRAMES"
  shows "entry_set (frame_addr i) MID_FLAGS = Inr (MID_ENTRY (frame_addr i))" "entry_phys (MID_ENTRY (frame_addr i)) = frame_addr i"
proof -
  have f: "unat (frame_addr i) mod 4096 = 0" "unat (frame_addr i) < 2 ^ 52"
    using frame_addr_aligned [OF assms] by auto
  note v = entry_value [OF f flag_bits_MID]
  show "entry_set (frame_addr i) MID_FLAGS = Inr (MID_ENTRY (frame_addr i))" unfolding MID_ENTRY_def
    by (rule entry_set_eq [OF f(1)]) (simp add: MID_FLAGS_def flags_contain_consts bit_or_iff bit_flag_consts)
  show "entry_phys (MID_ENTRY (frame_addr i)) = frame_addr i" unfolding MID_ENTRY_def by (rule v(1))
qed

text \<open>The state after a new table has been linked in, and its tree of tables.\<close>

definition link_table :: "u64 \<Rightarrow> nat \<Rightarrow> nat \<Rightarrow> BitmapFrameAllocator \<Rightarrow> phys \<Rightarrow> phys" where
  "link_table t i j a ph =
     set_entry t i (MID_ENTRY (frame_addr j)) \<lparr>pmem = secure_zero (pmem ph) (j * 4096) 4096, frames = a\<rparr>"

lemma link_table_tree:
  assumes "pt_inv ph root" "table_path p" "length p \<le> 2" "table_at (pmem ph) root p = Some t" "i < 512"
    and "\<not> bit (get_entry (pmem ph) t i) 0" "j \<in> free_set (frames ph)"
    and "alloc_inv a" "free_set a = free_set (frames ph) - {j}"
  defines "ph' \<equiv> link_table t i j a ph"
  shows "table_path q \<Longrightarrow> table_at (pmem ph') root q = (if q = p @ [i] then Some (frame_addr j) else table_at (pmem ph) root q)"
    and "k < 512 \<Longrightarrow> get_entry (pmem ph') (frame_addr j) k = 0"
    and "used_frame (frames ph) t' \<Longrightarrow> k < 512 \<Longrightarrow> (t', k) \<noteq> (t, i) \<Longrightarrow> get_entry (pmem ph') t' k = get_entry (pmem ph) t' k"
proof -
  have jb: "j < MAX_FRAMES" using free_set_bound [OF assms(7)] .
  define ph1 where "ph1 = \<lparr>pmem = secure_zero (pmem ph) (j * 4096) 4096, frames = a\<rparr>"
  have ph': "ph' = set_entry t i (MID_ENTRY (frame_addr j)) ph1" by (simp add: ph'_def link_table_def ph1_def)
  have old: "get_entry (pmem ph1) g k = get_entry (pmem ph) g k" if "used_frame (frames ph) g" "k < 512" for g k
    using frame_zero_other [OF that(1) assms(7) that(2)] by (simp add: ph1_def)
  have tree1: "table_at (pmem ph1) root q = table_at (pmem ph) root q" if "table_path q" for q
    using that by (rule table_at_cong [rotated]) (rule old [OF pt_invD(2) [OF assms(1)]])
  have inv1: "pt_inv ph1 root"
    unfolding pt_inv_def
  proof (intro conjI allI impI)
    show "alloc_inv (frames ph1)" using assms(8) by (simp add: ph1_def)
    show "used_frame (frames ph1) g" if "table_path q" "table_at (pmem ph1) root q = Some g" for q g
      using that tree1 pt_invD(2) [OF assms(1) that(1)] used_frame_mono [of "frames ph" g a] assms(9) by (auto simp: ph1_def)
    show "q = r" if "table_path q" "table_path r" "table_at (pmem ph1) root q = Some g" "table_at (pmem ph1) root r = Some g" for q r g
      using that tree1 pt_invD(3) [OF assms(1)] by auto
  qed
  have ut: "used_frame (frames ph) t" using pt_invD(2) [OF assms(1,2,4)] .
  have ne: "frame_addr j \<noteq> t" using used_not_free [OF ut] assms(7) by (auto simp: free_frames_def)
  have uj: "used_frame a (frame_addr j)" using jb assms(9) by (auto simp: used_frame_def)
  show zero: "get_entry (pmem ph') (frame_addr j) k = 0" if "k < 512" for k
  proof -
    have "get_entry (pmem ph') (frame_addr j) k = get_entry (pmem ph1) (frame_addr j) k"
      unfolding ph' using ut uj assms(5) that ne by (intro get_set_other) auto
    then show ?thesis
      using frame_zero_entry [OF that, of "pmem ph" "frame_addr j"] unat_frame_addr [OF jb] by (simp add: ph1_def)
  qed
  show "get_entry (pmem ph') t' k = get_entry (pmem ph) t' k"
    if "used_frame (frames ph) t'" "k < 512" "(t', k) \<noteq> (t, i)" for t' k
  proof -
    have "get_entry (pmem ph') t' k = get_entry (pmem ph1) t' k"
      unfolding ph' using ut that assms(5) by (intro get_set_other) auto
    then show ?thesis using old that by simp
  qed
  have at1: "table_at (pmem ph1) root p = Some t" using tree1 [OF assms(2)] assms(4) by simp
  have link: "table_at (pmem ph') root (p @ [i]) = Some (frame_addr j)"
  proof -
    have "table_at (pmem ph') root p = Some t"
      unfolding ph' using table_at_set [OF inv1 assms(2) at1 assms(5,2)] at1 by auto
    moreover have "next_table (pmem ph') t i = Some (frame_addr j)"
      unfolding ph' next_table_def using mid_entry [OF jb] mid_entry_bits by simp
    ultimately show ?thesis by (simp add: table_at_snoc)
  qed
  have none: "table_at (pmem ph) root (p @ i # r) = None" for r
    using assms(4,6) by (simp add: table_at_append next_table_def Let_def)
  show "table_at (pmem ph') root q = (if q = p @ [i] then Some (frame_addr j) else table_at (pmem ph) root q)"
    if q: "table_path q" for q
  proof (cases "\<exists>r. q = p @ i # r")
    case False
    then have "table_at (pmem ph') root q = table_at (pmem ph1) root q"
      unfolding ph' using table_at_set [OF inv1 assms(2) at1 assms(5) q] by auto
    then show ?thesis using tree1 [OF q] False by auto
  next
    case True
    then obtain r where r: "q = p @ i # r" by blast
    show ?thesis
    proof (cases r)
      case Nil
      then show ?thesis using link r by simp
    next
      case (Cons k r')
      then have "k < 512" using q r by (auto simp: table_path_def)
      then have "table_at (pmem ph') root ((p @ [i]) @ k # r') = None"
        using link zero unfolding table_at_append by (simp add: next_table_def Let_def)
      then show ?thesis using none [of r] r Cons by simp
    qed
  qed
qed

lemma set_entry_bytes:
  assumes "used_frame a t" "used_frame a' g" "g \<noteq> t" "i < 512" "k < 4096"
  shows "pmem (set_entry t i v ph) (unat g + k) = pmem ph (unat g + k)"
  using frames_apart [OF assms(2,1,3)] assms(4,5) by (auto simp: set_entry_def intro!: store64_other)

lemma frame_zero_bytes:
  assumes "used_frame a g" "j \<in> free_set a" "k < 4096"
  shows "secure_zero m (j * 4096) 4096 (unat g + k) = m (unat g + k)"
proof -
  obtain n where n: "n < MAX_FRAMES" "n \<notin> free_set a" "unat g = n * 4096"
    using assms(1) unat_frame_addr by (auto simp: used_frame_def)
  then have "n \<noteq> j" using assms(2) by auto
  then have "\<not> (j * 4096 \<le> unat g + k \<and> unat g + k < j * 4096 + 4096)"
    using n(3) assms(3) by (cases "n < j") auto
  then show ?thesis unfolding secure_zero_def by (rule if_not_P)
qed

definition huge_at :: "pmem \<Rightarrow> u64 \<Rightarrow> nat list \<Rightarrow> nat \<Rightarrow> bool" where
  "huge_at m root p i \<longleftrightarrow> (\<exists>t. table_at m root p = Some t \<and> bit (get_entry m t i) 0 \<and> bit (get_entry m t i) 7)"

lemma huge_at_cong:
  assumes "table_at m' root p = table_at m root p"
    and "\<And>t. table_at m root p = Some t \<Longrightarrow> get_entry m' t i = get_entry m t i"
  shows "huge_at m' root p i = huge_at m root p i"
  using assms by (auto simp: huge_at_def)

lemma link_table_old:
  assumes "pt_inv ph root" "table_path p" "length p \<le> 2" "table_at (pmem ph) root p = Some t" "i < 512"
    and "\<not> bit (get_entry (pmem ph) t i) 0" "j \<in> free_set (frames ph)"
    and "alloc_inv a" "free_set a = free_set (frames ph) - {j}"
    and "table_path q" "table_at (pmem ph) root q = Some g"
  shows "used_frame (frames ph) g" "g \<noteq> frame_addr j"
  using pt_invD(2) [OF assms(1,10,11)] used_not_free [of ph g] assms(7) by (auto simp: free_frames_def)

lemma link_table_parent:
  assumes "pt_inv ph root" "table_path p" "length p \<le> 2" "table_at (pmem ph) root p = Some t" "i < 512"
    and "\<not> bit (get_entry (pmem ph) t i) 0" "j \<in> free_set (frames ph)"
    and "alloc_inv a" "free_set a = free_set (frames ph) - {j}"
    and "table_path q" "table_at (pmem ph) root q = Some t"
  shows "q = p"
  using pt_invD(3) [OF assms(1,10,2,11,4)] .

lemma link_table_absent:
  assumes "pt_inv ph root" "table_path p" "length p \<le> 2" "table_at (pmem ph) root p = Some t" "i < 512"
    and "\<not> bit (get_entry (pmem ph) t i) 0" "j \<in> free_set (frames ph)"
    and "alloc_inv a" "free_set a = free_set (frames ph) - {j}"
  shows "table_at (pmem ph) root (p @ [i]) = None"
  using assms(4,6) by (simp add: table_at_snoc next_table_def Let_def)

lemma link_table_inv:
  assumes "pt_inv ph root" "table_path p" "length p \<le> 2" "table_at (pmem ph) root p = Some t" "i < 512"
    and "\<not> bit (get_entry (pmem ph) t i) 0" "j \<in> free_set (frames ph)"
    and "alloc_inv a" "free_set a = free_set (frames ph) - {j}"
  shows "pt_inv (link_table t i j a ph) root"
proof -
  let ?ph = "link_table t i j a ph"
  note tree = link_table_tree(1) [OF assms]
  note old = link_table_old [OF assms]
  have jb: "j < MAX_FRAMES" using free_set_bound [OF assms(7)] .
  have fr: "frames ?ph = a" by (simp add: link_table_def set_entry_def)
  show ?thesis
    unfolding pt_inv_def fr
  proof (intro conjI allI impI)
    show "used_frame a g" if "table_path q" "table_at (pmem ?ph) root q = Some g" for q g
      using that tree [OF that(1)] old [OF that(1)] used_frame_mono [of "frames ph" g a] assms(9) jb
      by (auto simp: used_frame_def split: if_splits)
    show "q = r" if "table_path q" "table_path r" "table_at (pmem ?ph) root q = Some g" "table_at (pmem ?ph) root r = Some g" for q r g
      using that tree [OF that(1)] tree [OF that(2)] old(2) [OF that(1)] old(2) [OF that(2)] pt_invD(3) [OF assms(1) that(1,2)]
      by (auto split: if_splits)
  qed (use assms(8) in simp)
qed

lemma link_table_ext:
  assumes "pt_inv ph root" "table_path p" "length p \<le> 2" "table_at (pmem ph) root p = Some t" "i < 512"
    and "\<not> bit (get_entry (pmem ph) t i) 0" "j \<in> free_set (frames ph)"
    and "alloc_inv a" "free_set a = free_set (frames ph) - {j}"
  shows "pt_ext {hd (p @ [i])} ph (link_table t i j a ph) root"
proof -
  let ?ph = "link_table t i j a ph"
  note tree = link_table_tree(1) [OF assms] and other = link_table_tree(3) [OF assms]
  note old = link_table_old [OF assms] and at_t = link_table_parent [OF assms] and none = link_table_absent [OF assms]
  have fr: "frames ?ph = a" by (simp add: link_table_def set_entry_def)
  have bytes: "pmem ?ph (unat g + k) = pmem ph (unat g + k)" if "used_frame (frames ph) g" "g \<noteq> t" "k < 4096" for g k
    using set_entry_bytes [OF old(1) [OF assms(2,4)] that(1,2) assms(5) that(3)] frame_zero_bytes [OF that(1) assms(7) that(3)]
    by (simp add: link_table_def)
  show ?thesis
    unfolding pt_ext_def fr
  proof (intro conjI allI impI)
    show "free_set a \<subseteq> free_set (frames ph)" using assms(9) by blast
    show "table_at (pmem ?ph) root q = Some g" if "table_path q" "table_at (pmem ph) root q = Some g" for q g
      using tree [OF that(1)] that none by auto
    show "table_at (pmem ph) root q = Some g \<or> g \<in> free_frames ph" if "table_path q" "table_at (pmem ?ph) root q = Some g" for q g
      using tree [OF that(1)] that assms(7) by (auto simp: free_frames_def split: if_splits)
    show "pmem ?ph (unat g + k) = pmem ph (unat g + k)"
      if "used_frame (frames ph) g" "\<forall>q. table_path q \<longrightarrow> table_at (pmem ph) root q \<noteq> Some g" "k < 4096" for g k
      using bytes that assms(2,4) by blast
    show "pmem ?ph (unat g + k) = pmem ph (unat g + k)"
      if "table_path q" "q \<noteq> []" "hd q \<notin> {hd (p @ [i])}" "table_at (pmem ph) root q = Some g" "k < 4096" for q g k
    proof -
      have "g \<noteq> t" using at_t [OF that(1)] that(2-4) by (cases p) auto
      then show ?thesis using bytes [OF old(1) [OF that(1,4)] _ that(5)] by blast
    qed
    show "get_entry (pmem ?ph) root k = get_entry (pmem ph) root k \<or>
        k \<in> {hd (p @ [i])} \<and> \<not> bit (get_entry (pmem ph) root k) 0 \<and> (\<exists>f. get_entry (pmem ?ph) root k = MID_ENTRY f)"
      if "k < 512" for k
    proof (cases "(root, k) = (t, i)")
      case True
      then have "get_entry (pmem ?ph) root k = MID_ENTRY (frame_addr j)" by (simp add: link_table_def)
      moreover have "p = []" using at_t [of "[]"] True by simp
      ultimately show ?thesis using True assms(6) by auto
    qed (use other [OF old(1) [of "[]"]] that in simp)
  qed
qed

lemma link_table_leaf:
  assumes "pt_inv ph root" "table_path p" "length p \<le> 2" "table_at (pmem ph) root p = Some t" "i < 512"
    and "\<not> bit (get_entry (pmem ph) t i) 0" "j \<in> free_set (frames ph)"
    and "alloc_inv a" "free_set a = free_set (frames ph) - {j}"
  shows "leaf_at (pmem (link_table t i j a ph)) root va = leaf_at (pmem ph) root va"
proof -
  let ?ph = "link_table t i j a ph"
  note tree = link_table_tree(1) [OF assms] and zero = link_table_tree(2) [OF assms] and other = link_table_tree(3) [OF assms]
  note old = link_table_old [OF assms] and at_t = link_table_parent [OF assms] and none = link_table_absent [OF assms]
  show ?thesis
  proof (cases "va_path va = p @ [i]")
    case True
    then show ?thesis
      using tree [of "va_path va"] none zero [of "table_index va 1"] assms(2,3,5) by (simp add: leaf_at_def table_index_bound Let_def)
  next
    case False
    show ?thesis
    proof (rule leaf_at_cong)
      fix g assume g: "table_at (pmem ph) root (va_path va) = Some g"
      then have "g \<noteq> t" using at_t [of "va_path va"] assms(3) length_va_path [of va] by auto
      then show "get_entry (pmem ?ph) g (table_index va 1) = get_entry (pmem ph) g (table_index va 1)"
        using other old(1) [OF _ g] by simp
    qed (use False tree [of "va_path va"] in simp)
  qed
qed

lemma link_table_huge:
  assumes "pt_inv ph root" "table_path p" "length p \<le> 2" "table_at (pmem ph) root p = Some t" "i < 512"
    and "\<not> bit (get_entry (pmem ph) t i) 0" "j \<in> free_set (frames ph)"
    and "alloc_inv a" "free_set a = free_set (frames ph) - {j}"
    and qk: "table_path (q @ [k])"
  shows "huge_at (pmem (link_table t i j a ph)) root q k = huge_at (pmem ph) root q k"
proof -
  let ?ph = "link_table t i j a ph"
  note tree = link_table_tree(1) [OF assms(1-9)] and zero = link_table_tree(2) [OF assms(1-9)] and other = link_table_tree(3) [OF assms(1-9)]
  note old = link_table_old [OF assms(1-9)] and at_t = link_table_parent [OF assms(1-9)] and none = link_table_absent [OF assms(1-9)]
  show ?thesis
  proof (cases "q = p @ [i] \<or> (q, k) = (p, i)")
    case True
    have "bit (get_entry (pmem ?ph) t i) 7 = False" using mid_entry_bits by (simp add: link_table_def)
    then show ?thesis
      using True tree [of q] zero [of k] none assms(4,6) qk by (auto simp: huge_at_def)
  next
    case False
    show ?thesis
    proof (rule huge_at_cong)
      fix g assume g: "table_at (pmem ph) root q = Some g"
      then have "(g, k) \<noteq> (t, i)" using False at_t [of q] qk by auto
      then show "get_entry (pmem ?ph) g k = get_entry (pmem ph) g k"
        using other old(1) [OF _ g] qk by simp
    qed (use False tree [of q] qk in simp)
  qed
qed

lemmas link_table_ok = link_table_inv link_table_ext link_table_leaf link_table_huge

text \<open>
  A growth of the tables that maps nothing and takes at most \<open>n\<close> frames: what every intermediate step
  of a mapping does, whether or not the mapping succeeds.
\<close>

definition tables_grown :: "nat set \<Rightarrow> nat \<Rightarrow> phys \<Rightarrow> phys \<Rightarrow> u64 \<Rightarrow> bool" where
  "tables_grown H n ph ph' root \<longleftrightarrow> pt_inv ph' root \<and> pt_ext H ph ph' root \<and>
     (\<forall>va. leaf_at (pmem ph') root va = leaf_at (pmem ph) root va) \<and>
     (\<forall>p i. table_path (p @ [i]) \<longrightarrow> huge_at (pmem ph') root p i = huge_at (pmem ph) root p i) \<and>
     card (free_set (frames ph)) \<le> card (free_set (frames ph')) + n"

definition huge_on_path :: "pmem \<Rightarrow> u64 \<Rightarrow> u64 \<Rightarrow> bool" where
  "huge_on_path m root va \<longleftrightarrow> (\<exists>k < 3. huge_at m root (take k (va_path va)) (va_path va ! k))"

lemma tables_grown_refl: "pt_inv ph root \<Longrightarrow> tables_grown H n ph ph root"
  by (simp add: tables_grown_def)

lemma tables_grown_trans:
  "tables_grown H n ph ph1 root \<Longrightarrow> tables_grown H n' ph1 ph2 root \<Longrightarrow> tables_grown H (n + n') ph ph2 root"
  using pt_ext_trans [of H ph ph1 root ph2] unfolding tables_grown_def by simp

lemma va_path_take:
  "take 0 (va_path va) = []" "take (Suc 0) (va_path va) = [table_index va 4]" "take 2 (va_path va) = [table_index va 4, table_index va 3]"
  "va_path va ! 0 = table_index va 4" "va_path va ! Suc 0 = table_index va 3" "va_path va ! 2 = table_index va 2"
  by (simp_all add: va_path_def numeral_2_eq_2)

lemma va_path_split:
  assumes "k < 3"
  shows "table_path (take k (va_path va))" "length (take k (va_path va)) \<le> 2" "va_path va ! k < 512"
    "hd (take k (va_path va) @ [va_path va ! k]) = table_index va 4"
    "take (Suc k) (va_path va) = take k (va_path va) @ [va_path va ! k]"
  using assms
  by (auto simp: table_path_def va_path_def take_Suc_conv_app_nth nth_Cons less_Suc_eq numeral_3_eq_3 split: nat.split)

lemma huge_on_path_grown: "tables_grown H n ph ph' root \<Longrightarrow> huge_on_path (pmem ph') root va = huge_on_path (pmem ph) root va"
  using va_path_split unfolding huge_on_path_def tables_grown_def by (metis table_path_simps(3))

definition step_ok :: "nat \<Rightarrow> phys \<Rightarrow> u64 \<Rightarrow> u64 \<Rightarrow> nat \<Rightarrow> (phys \<times> (MmuError + u64)) option \<Rightarrow> bool" where
  "step_ok n ph root va k res \<longleftrightarrow> (\<exists>ph' r. res = Some (ph', r) \<and> tables_grown {table_index va 4} n ph ph' root \<and>
     (\<forall>t. r = Inr t \<longrightarrow> table_at (pmem ph') root (take k (va_path va)) = Some t) \<and>
     (\<forall>e. r = Inl e \<longrightarrow> e = AlreadyMapped \<and> huge_on_path (pmem ph) root va \<or>
        e = FrameAllocFailed \<and> card (free_set (frames ph)) < n))"

lemma alloc_or_get_table_ok:
  assumes "pt_inv ph root" "k < 3" "table_at (pmem ph) root (take k (va_path va)) = Some t"
  shows "step_ok 1 ph root va (Suc k) (alloc_or_get_table oc t (va_path va ! k) ph)"
proof -
  define p i where pi: "p = take k (va_path va)" "i = va_path va ! k"
  note p = va_path_split [OF assms(2), of va, folded pi] and inv = pt_invD(1) [OF assms(1)]
  note t = assms(1) p(1,2) assms(3) [folded pi] p(3)
  show ?thesis unfolding step_ok_def p(5) pi(2) [symmetric]
  proof (cases "bit (get_entry (pmem ph) t i) 0")
    case True
    have "huge_on_path (pmem ph) root va" if "bit (get_entry (pmem ph) t i) 7"
      using that True assms(2) t(4) pi by (auto simp: huge_on_path_def huge_at_def)
    then show "\<exists>ph' r. alloc_or_get_table oc t i ph = Some (ph', r) \<and> tables_grown {table_index va 4} 1 ph ph' root \<and>
        (\<forall>t'. r = Inr t' \<longrightarrow> table_at (pmem ph') root (p @ [i]) = Some t') \<and>
        (\<forall>e. r = Inl e \<longrightarrow> e = AlreadyMapped \<and> huge_on_path (pmem ph) root va \<or>
           e = FrameAllocFailed \<and> card (free_set (frames ph)) < 1)"
      using t(4) True tables_grown_refl [OF assms(1)]
      by (auto simp: alloc_or_get_table_def is_present_bit is_huge_bit table_at_snoc next_table_def Let_def)
  next
    case False
    show "\<exists>ph' r. alloc_or_get_table oc t i ph = Some (ph', r) \<and> tables_grown {table_index va 4} 1 ph ph' root \<and>
        (\<forall>t'. r = Inr t' \<longrightarrow> table_at (pmem ph') root (p @ [i]) = Some t') \<and>
        (\<forall>e. r = Inl e \<longrightarrow> e = AlreadyMapped \<and> huge_on_path (pmem ph) root va \<or>
           e = FrameAllocFailed \<and> card (free_set (frames ph)) < 1)"
    proof (cases "free_set (frames ph) = {}")
      case True
      then show ?thesis
        using False alloc_frame_none [OF inv True, of oc] tables_grown_refl [OF assms(1)]
        by (auto simp: alloc_or_get_table_def is_present_bit Let_def)
    next
      case ne: False
      obtain j a where j: "j \<in> free_set (frames ph)" "alloc_inv a" "free_set a = free_set (frames ph) - {j}"
          "alloc_frame oc ph = Some (\<lparr>pmem = secure_zero (pmem ph) (j * 4096) 4096, frames = a\<rparr>, Some (frame_addr j))"
        using alloc_frame_some [OF inv ne, of oc] by blast
      have "alloc_or_get_table oc t i ph = Some (link_table t i j a ph, Inr (frame_addr j))"
        using False j(4) mid_entry(1) free_set_bound [OF j(1)] unat_frame_addr
        by (simp add: alloc_or_get_table_def is_present_bit link_table_def PAGE_SIZE_def Let_def)
      moreover have "card (free_set (frames ph)) \<le> card (free_set (frames (link_table t i j a ph))) + 1"
        using j(1,3) by (simp add: link_table_def set_entry_def)
      then have "tables_grown {table_index va 4} 1 ph (link_table t i j a ph) root"
        using link_table_ok [OF t False j(1-3)] p(4) by (simp add: tables_grown_def)
      ultimately show ?thesis
        using link_table_tree(1) [OF t False j(1-3), of "p @ [i]"] p(1-3) by simp
    qed
  qed
qed

subsection \<open>Mapping a page\<close>

text \<open>The three steps down to the page table of an address.\<close>

definition descend :: "bool \<Rightarrow> u64 \<Rightarrow> u64 \<Rightarrow> phys \<Rightarrow> (phys \<times> (MmuError + u64)) option" where
  "descend oc root va ph =
     try_then (alloc_or_get_table oc root (table_index va 4) ph) (\<lambda>pdpt ph.
     try_then (alloc_or_get_table oc pdpt (table_index va 3) ph) (\<lambda>pd ph.
       alloc_or_get_table oc pd (table_index va 2) ph))"

lemma step_ok_first: "pt_inv ph root \<Longrightarrow> step_ok 1 ph root va 1 (alloc_or_get_table oc root (table_index va 4) ph)"
  using alloc_or_get_table_ok [of ph root 0 va root oc] by (simp add: va_path_take)

lemma step_ok_next:
  assumes "step_ok n ph root va k res" "k = 1 \<or> k = 2"
  shows "step_ok (n + 1) ph root va (Suc k) (try_then res (\<lambda>t ph. alloc_or_get_table oc t (va_path va ! k) ph))"
proof -
  obtain ph1 r where r: "res = Some (ph1, r)" "tables_grown {table_index va 4} n ph ph1 root"
      "\<And>t. r = Inr t \<Longrightarrow> table_at (pmem ph1) root (take k (va_path va)) = Some t"
      "\<And>e. r = Inl e \<Longrightarrow> e = AlreadyMapped \<and> huge_on_path (pmem ph) root va \<or>
        e = FrameAllocFailed \<and> card (free_set (frames ph)) < n"
    using assms(1) by (auto simp: step_ok_def)
  have inv: "pt_inv ph1 root" and k: "k < 3" using r(2) assms(2) by (auto simp: tables_grown_def)
  show ?thesis
  proof (cases r)
    case (Inl e)
    have "tables_grown {table_index va 4} (n + 1) ph ph1 root" using r(2) by (simp add: tables_grown_def)
    then show ?thesis using r(1) r(4) [OF Inl] Inl by (auto simp: step_ok_def)
  next
    case (Inr t)
    have "step_ok 1 ph1 root va (Suc k) (alloc_or_get_table oc t (va_path va ! k) ph1)"
      using alloc_or_get_table_ok [OF inv k r(3) [OF Inr]] .
    then obtain ph2 r2 where r2: "alloc_or_get_table oc t (va_path va ! k) ph1 = Some (ph2, r2)"
        "tables_grown {table_index va 4} 1 ph1 ph2 root"
        "\<forall>t'. r2 = Inr t' \<longrightarrow> table_at (pmem ph2) root (take (Suc k) (va_path va)) = Some t'"
        "\<forall>e. r2 = Inl e \<longrightarrow> e = AlreadyMapped \<and> huge_on_path (pmem ph1) root va \<or>
           e = FrameAllocFailed \<and> card (free_set (frames ph1)) < 1"
      unfolding step_ok_def by blast
    moreover have "card (free_set (frames ph)) \<le> card (free_set (frames ph1)) + n" using r(2) by (simp add: tables_grown_def)
    moreover have "try_then res (\<lambda>t ph. alloc_or_get_table oc t (va_path va ! k) ph) = Some (ph2, r2)"
      using r(1) Inr r2(1) by simp
    ultimately show ?thesis
      using tables_grown_trans [OF r(2) r2(2)] huge_on_path_grown [OF r(2)] unfolding step_ok_def by fastforce
  qed
qed

lemma descend_ok: "pt_inv ph root \<Longrightarrow> step_ok 3 ph root va 3 (descend oc root va ph)"
proof -
  assume inv: "pt_inv ph root"
  have "step_ok 2 ph root va 2 (try_then (alloc_or_get_table oc root (table_index va 4) ph)
      (\<lambda>t ph. alloc_or_get_table oc t (table_index va 3) ph))"
    using step_ok_next [OF step_ok_first [OF inv], of va oc oc] unfolding One_nat_def va_path_take by (simp add: numeral_2_eq_2)
  from step_ok_next [OF this, of oc]
  have "step_ok 3 ph root va (Suc 2) (try_then (try_then (alloc_or_get_table oc root (table_index va 4) ph)
      (\<lambda>t ph. alloc_or_get_table oc t (table_index va 3) ph)) (\<lambda>t ph. alloc_or_get_table oc t (table_index va 2) ph))"
    unfolding va_path_take by simp
  then show ?thesis unfolding descend_def try_then_assoc by simp
qed

lemma table_at_set_leaf:
  assumes "pt_inv ph root" "table_at (pmem ph) root (va_path va) = Some g" "i < 512" "table_path q"
  shows "table_at (pmem (set_entry g i v ph)) root q = table_at (pmem ph) root q"
proof (rule table_at_set [OF assms(1) _ assms(2-4)])
  show "q \<noteq> va_path va @ i # r" for r using assms(4) length_va_path [of va] by (auto simp: table_path_def)
qed simp

lemma put_leaf_ok:
  fixes v :: u64
  assumes "pt_inv ph root" "table_at (pmem ph) root (va_path va) = Some g"
  defines "ph' \<equiv> set_entry g (table_index va 1) v ph"
  shows "pt_inv ph' root" "pt_ext {table_index va 4} ph ph' root"
    "leaf_at (pmem ph') root va' = (if same_page va va' then if bit v 0 then Some v else None else leaf_at (pmem ph) root va')"
    "table_path (q @ [k]) \<Longrightarrow> huge_at (pmem ph') root q k = huge_at (pmem ph) root q k"
proof -
  note tree = table_at_set_leaf [OF assms(1,2), of "table_index va 1" _ v, folded ph'_def]
  have fr: "frames ph' = frames ph" by (simp add: ph'_def set_entry_def)
  have ug: "used_frame (frames ph) g" using pt_invD(2) [OF assms(1) _ assms(2)] by simp
  show "pt_inv ph' root"
    unfolding pt_inv_def fr using tree pt_invD [OF assms(1)] by auto
  show "pt_ext {table_index va 4} ph ph' root"
    unfolding pt_ext_def fr
  proof (intro conjI allI impI)
    show "pmem ph' (unat h + k) = pmem ph (unat h + k)"
      if "used_frame (frames ph) h" "\<forall>q. table_path q \<longrightarrow> table_at (pmem ph) root q \<noteq> Some h" "k < 4096" for h k
      unfolding ph'_def using that(2) assms(2) by (intro set_entry_bytes [OF ug that(1)] that(3)) auto
    show "pmem ph' (unat h + k) = pmem ph (unat h + k)"
      if q: "table_path q" "q \<noteq> []" "hd q \<notin> {table_index va 4}" "table_at (pmem ph) root q = Some h" "k < 4096" for q h k
    proof -
      have "h \<noteq> g" using pt_invD(3) [OF assms(1) q(1) _ q(4), of "va_path va"] assms(2) q(3) hd_va_path [of va] by auto
      then show ?thesis
        unfolding ph'_def using pt_invD(2) [OF assms(1) q(1,4)] q(5) by (intro set_entry_bytes [OF ug]) auto
    qed
    show "get_entry (pmem ph') root i = get_entry (pmem ph) root i \<or> i \<in> {table_index va 4} \<and>
        \<not> bit (get_entry (pmem ph) root i) 0 \<and> (\<exists>f. get_entry (pmem ph') root i = MID_ENTRY f)" if "i < 512" for i
    proof -
      have "used_frame (frames ph) root" using pt_invD(2) [OF assms(1), of "[]"] by simp
      moreover have "g \<noteq> root"
        using pt_invD(3) [OF assms(1), of "[]" "va_path va" root] assms(2) length_va_path [of va] by auto
      ultimately have "get_entry (pmem ph') root i = get_entry (pmem ph) root i"
        unfolding ph'_def using that by (intro get_set_other [OF ug]) auto
      then show ?thesis ..
    qed
  qed (use tree in auto)
  show "leaf_at (pmem ph') root va' = (if same_page va va' then if bit v 0 then Some v else None else leaf_at (pmem ph) root va')"
  proof (cases "same_page va va'")
    case True
    then have "table_at (pmem ph') root (va_path va') = Some g" using tree [of "va_path va'"] assms(2) by (simp add: same_page_def)
    then show ?thesis using True by (simp add: leaf_at_def same_page_def Let_def ph'_def)
  next
    case False
    have "get_entry (pmem ph') h (table_index va' 1) = get_entry (pmem ph) h (table_index va' 1)"
      if h: "table_at (pmem ph) root (va_path va') = Some h" for h
      unfolding ph'_def
    proof (rule get_set_other [OF ug])
      show "used_frame (frames ph) h" using pt_invD(2) [OF assms(1) _ h] by simp
      show "(g, table_index va 1) \<noteq> (h, table_index va' 1)"
        using False pt_invD(3) [OF assms(1), of "va_path va" "va_path va'" g] assms(2) h by (auto simp: same_page_def)
    qed simp_all
    then show ?thesis using False leaf_at_cong [of "pmem ph'" root va' "pmem ph"] tree by simp
  qed
  show "huge_at (pmem ph') root q k = huge_at (pmem ph) root q k" if qk: "table_path (q @ [k])"
  proof (rule huge_at_cong)
    fix h assume h: "table_at (pmem ph) root q = Some h"
    then have "h \<noteq> g"
      using pt_invD(3) [OF assms(1), of q "va_path va" h] assms(2) qk length_va_path [of va] by auto
    then show "get_entry (pmem ph') h k = get_entry (pmem ph) h k"
      unfolding ph'_def using pt_invD(2) [OF assms(1) _ h] qk by (intro get_set_other [OF ug]) auto
  qed (use tree [of q] qk in simp)
qed

definition page_entry :: "u64 \<Rightarrow> PageTableFlags \<Rightarrow> u64" where
  "page_entry pa flags = (pa AND PHYS_ADDR_MASK) OR (flags OR PRESENT)"

text \<open>Why a page cannot be mapped, by the error that is returned.\<close>

fun map_refusal :: "MmuError \<Rightarrow> phys \<Rightarrow> u64 \<Rightarrow> u64 \<Rightarrow> u64 \<Rightarrow> PageTableFlags \<Rightarrow> bool" where
  "map_refusal UnalignedAddress ph root va pa flags \<longleftrightarrow> unat va mod 4096 \<noteq> 0 \<or> unat pa mod 4096 \<noteq> 0"
| "map_refusal WxPolicyViolation ph root va pa flags \<longleftrightarrow> flags_contain flags WRITABLE \<and> \<not> flags_contain flags NO_EXECUTE"
| "map_refusal FrameAllocFailed ph root va pa flags \<longleftrightarrow> card (free_set (frames ph)) < 3"
| "map_refusal AlreadyMapped ph root va pa flags \<longleftrightarrow> leaf_at (pmem ph) root va \<noteq> None \<or> huge_on_path (pmem ph) root va"

lemma map_page_descend:
  assumes "unat va mod 4096 = 0" "unat pa mod 4096 = 0" "flags_contain flags WRITABLE \<Longrightarrow> flags_contain flags NO_EXECUTE"
  shows "map_page oc root va pa flags ph =
    try_then (descend oc root va ph) (\<lambda>pt ph.
      if bit (get_entry (pmem ph) pt (table_index va 1)) 0 then Some (ph, Inl AlreadyMapped)
      else Some (set_entry pt (table_index va 1) (page_entry pa flags) ph, Inr ()))"
proof -
  have "entry_set pa (flags OR PRESENT) = Inr (page_entry pa flags)"
    unfolding page_entry_def
    using assms(3) by (intro entry_set_eq [OF assms(2)]) (auto simp: flags_contain_consts bit_or_iff bit_flag_consts)
  then show ?thesis
    using assms by (auto simp: map_page_def descend_def try_then_assoc is_present_bit page_aligned cong: if_cong)
qed

lemma page_entry_present: "bit (page_entry pa flags) 0"
  by (simp add: page_entry_def bit_or_iff bit_flag_consts)

lemma map_page_ok:
  assumes "pt_inv ph root"
  shows "\<exists>ph' r. map_page oc root va pa flags ph = Some (ph', r) \<and> pt_inv ph' root \<and> pt_ext {table_index va 4} ph ph' root \<and>
    card (free_set (frames ph)) \<le> card (free_set (frames ph')) + 3 \<and>
    (\<forall>p i. table_path (p @ [i]) \<longrightarrow> huge_at (pmem ph') root p i = huge_at (pmem ph) root p i) \<and>
    (r = Inr () \<longrightarrow> unat va mod 4096 = 0 \<and> unat pa mod 4096 = 0 \<and>
       (flags_contain flags WRITABLE \<longrightarrow> flags_contain flags NO_EXECUTE) \<and> leaf_at (pmem ph) root va = None \<and>
       (\<forall>va'. leaf_at (pmem ph') root va' =
          (if same_page va va' then Some (page_entry pa flags) else leaf_at (pmem ph) root va'))) \<and>
    (\<forall>e. r = Inl e \<longrightarrow> map_refusal e ph root va pa flags \<and> (\<forall>va'. leaf_at (pmem ph') root va' = leaf_at (pmem ph) root va'))"
proof (cases "unat va mod 4096 = 0 \<and> unat pa mod 4096 = 0 \<and> (flags_contain flags WRITABLE \<longrightarrow> flags_contain flags NO_EXECUTE)")
  case False
  then show ?thesis using assms by (auto simp: map_page_def page_aligned)
next
  case True
  then have m: "map_page oc root va pa flags ph =
    try_then (descend oc root va ph) (\<lambda>pt ph.
      if bit (get_entry (pmem ph) pt (table_index va 1)) 0 then Some (ph, Inl AlreadyMapped)
      else Some (set_entry pt (table_index va 1) (page_entry pa flags) ph, Inr ()))"
    by (intro map_page_descend) auto
  obtain ph1 r where r: "descend oc root va ph = Some (ph1, r)" "tables_grown {table_index va 4} 3 ph ph1 root"
      "\<And>t. r = Inr t \<Longrightarrow> table_at (pmem ph1) root (va_path va) = Some t"
      "\<And>e. r = Inl e \<Longrightarrow> map_refusal e ph root va pa flags"
    using descend_ok [OF assms, of va oc] length_va_path [of va] unfolding step_ok_def by fastforce
  have g: "pt_inv ph1 root" "pt_ext {table_index va 4} ph ph1 root"
      "\<And>va'. leaf_at (pmem ph1) root va' = leaf_at (pmem ph) root va'"
      "\<And>p i. table_path (p @ [i]) \<Longrightarrow> huge_at (pmem ph1) root p i = huge_at (pmem ph) root p i"
      "card (free_set (frames ph)) \<le> card (free_set (frames ph1)) + 3"
    using r(2) unfolding tables_grown_def by simp_all
  show ?thesis
  proof (cases r)
    case (Inl e)
    then show ?thesis using m r(1) r(4) [OF Inl] g by simp
  next
    case (Inr pt)
    note t = r(3) [OF Inr]
    show ?thesis
    proof (cases "bit (get_entry (pmem ph1) pt (table_index va 1)) 0")
      case b: True
      have "leaf_at (pmem ph) root va \<noteq> None" unfolding g(3) [of va, symmetric] using t b by (simp add: leaf_at_def Let_def)
      then show ?thesis using m r(1) g Inr b by auto
    next
      case b: False
      have "leaf_at (pmem ph) root va = None" unfolding g(3) [of va, symmetric] using t b by (simp add: leaf_at_def Let_def)
      moreover have "map_page oc root va pa flags ph = Some (set_entry pt (table_index va 1) (page_entry pa flags) ph1, Inr ())"
        using m r(1) Inr b by simp
      moreover have "frames (set_entry pt (table_index va 1) (page_entry pa flags) ph1) = frames ph1"
        by (simp add: set_entry_def)
      ultimately show ?thesis
        using True put_leaf_ok [OF g(1) t, where v = "page_entry pa flags"] pt_ext_trans [OF g(2)] page_entry_present g(3-5) by simp
    qed
  qed
qed

text \<open>Reading an address back.\<close>

lemma walk_to_phys_leaf:
  assumes "leaf_at m root va = Some e"
  shows "walk_to_phys m root va = Some (entry_phys e)"
  using assms
  by (auto simp: leaf_at_def va_path_def next_table_def walk_to_phys_def is_present_bit is_huge_bit Let_def split: option.splits if_splits)

lemma walk_to_phys_unmapped:
  assumes "leaf_at m root va = None" "\<not> huge_at m root [] (table_index va 4)"
  shows "walk_to_phys m root va = None"
  using assms
  by (auto simp: leaf_at_def va_path_def next_table_def walk_to_phys_def huge_at_def is_present_bit is_huge_bit Let_def
      split: option.splits if_splits)

lemma page_entry_value:
  assumes "unat pa mod 4096 = 0" "unat pa < 2 ^ 52" "flag_bits flags"
  shows "entry_phys (page_entry pa flags) = pa" "n < 12 \<or> 52 \<le> n \<Longrightarrow> bit (page_entry pa flags) n \<longleftrightarrow> n = 0 \<or> bit flags n"
proof -
  have "flag_bits (flags OR PRESENT)" using assms(3) by (simp add: flag_bits_def bit_or_iff bit_flag_consts)
  from entry_value [OF assms(1,2) this]
  show "entry_phys (page_entry pa flags) = pa" "n < 12 \<or> 52 \<le> n \<Longrightarrow> bit (page_entry pa flags) n \<longleftrightarrow> n = 0 \<or> bit flags n"
    by (auto simp: page_entry_def bit_or_iff bit_flag_consts)
qed

subsection \<open>Address spaces\<close>

lemma pt_inv_empty:
  assumes "alloc_inv (frames ph)" "used_frame (frames ph) root" "\<And>i. i < 512 \<Longrightarrow> get_entry (pmem ph) root i = 0"
  shows "pt_inv ph root" "leaf_at (pmem ph) root va = None" "\<not> huge_on_path (pmem ph) root va"
proof -
  have none: "table_at (pmem ph) root (i # p) = None" if "i < 512" for i p
    using assms(3) [OF that] by (simp add: next_table_def)
  have only: "p = [] \<and> t = root" if "table_path p" "table_at (pmem ph) root p = Some t" for p t
    using none that by (cases p) (auto simp: table_path_def)
  show "pt_inv ph root" unfolding pt_inv_def
  proof (intro conjI allI impI)
    show "used_frame (frames ph) t" if "table_path p" "table_at (pmem ph) root p = Some t" for p t
      using only [OF that] assms(2) by simp
    show "p = q" if "table_path p" "table_path q" "table_at (pmem ph) root p = Some t" "table_at (pmem ph) root q = Some t" for p q t
      using only [OF that(1,3)] only [OF that(2,4)] by simp
  qed (rule assms(1))
  show "leaf_at (pmem ph) root va = None"
    using only [of "va_path va"] length_va_path [of va] by (cases "table_at (pmem ph) root (va_path va)") (auto simp: leaf_at_def)
  show "\<not> huge_on_path (pmem ph) root va"
  proof
    assume "huge_on_path (pmem ph) root va"
    then obtain k t where k: "k < 3" "table_at (pmem ph) root (take k (va_path va)) = Some t" "bit (get_entry (pmem ph) t (va_path va ! k)) 0"
      by (auto simp: huge_on_path_def huge_at_def)
    then have "t = root" using only va_path_split(1) by blast
    then show False using k(3) assms(3) [OF va_path_split(3) [OF k(1)]] by simp
  qed
qed

text \<open>C25: mapping a page. In a well-formed address space the kernel's mapping routine always returns
  and leaves the address space well-formed. When it succeeds the page was not mapped before, the
  table walk now gives the requested frame, the entry has the requested rights and is never both
  writable and executable, and every other page is translated as before. When it fails no translation
  has changed, and the error tells why: an address that is not page-aligned, a page both writable and
  executable, a page already mapped, or fewer than three free frames. So with three free frames every
  legal request for a page that is not mapped succeeds.\<close>

theorem page_mapped:
  assumes "pt_inv ph root" "unat pa < 2 ^ 52" "flag_bits flags"
  shows "\<exists>ph' r. map_page oc root va pa flags ph = Some (ph', r) \<and> pt_inv ph' root \<and>
    (case r of
       Inr _ \<Rightarrow> leaf_at (pmem ph) root va = None \<and> walk_to_phys (pmem ph') root va = Some pa \<and>
         (\<exists>e. leaf_at (pmem ph') root va = Some e \<and> (\<forall>n. n < 12 \<or> 52 \<le> n \<longrightarrow> bit e n = (n = 0 \<or> bit flags n)) \<and>
            \<not> (flags_contain e WRITABLE \<and> \<not> flags_contain e NO_EXECUTE)) \<and>
         (\<forall>va'. \<not> same_page va va' \<longrightarrow> leaf_at (pmem ph') root va' = leaf_at (pmem ph) root va')
     | Inl e \<Rightarrow> map_refusal e ph root va pa flags \<and> (\<forall>va'. leaf_at (pmem ph') root va' = leaf_at (pmem ph) root va'))"
proof -
  obtain ph' r where m: "map_page oc root va pa flags ph = Some (ph', r)" "pt_inv ph' root"
      "r = Inr () \<longrightarrow> unat va mod 4096 = 0 \<and> unat pa mod 4096 = 0 \<and>
         (flags_contain flags WRITABLE \<longrightarrow> flags_contain flags NO_EXECUTE) \<and> leaf_at (pmem ph) root va = None \<and>
         (\<forall>va'. leaf_at (pmem ph') root va' =
            (if same_page va va' then Some (page_entry pa flags) else leaf_at (pmem ph) root va'))"
      "\<forall>e. r = Inl e \<longrightarrow> map_refusal e ph root va pa flags \<and> (\<forall>va'. leaf_at (pmem ph') root va' = leaf_at (pmem ph) root va')"
    using map_page_ok [OF assms(1), of oc va pa flags] by (elim exE conjE) (rule that)
  show ?thesis
  proof (cases r)
    case (Inr u)
    then have h: "unat pa mod 4096 = 0" "flags_contain flags WRITABLE \<longrightarrow> flags_contain flags NO_EXECUTE"
        "leaf_at (pmem ph') root va = Some (page_entry pa flags)"
      using m(3) by (simp_all add: same_page_def)
    note v = page_entry_value [OF h(1) assms(2,3)]
    have "\<not> (flags_contain (page_entry pa flags) WRITABLE \<and> \<not> flags_contain (page_entry pa flags) NO_EXECUTE)"
      using h(2) v(2) [of 1] v(2) [of 63] by (simp add: flags_contain_consts)
    then show ?thesis using m(1-3) Inr h walk_to_phys_leaf [OF h(3)] v by simp
  qed (use m in simp)
qed

lemma demo_frames:
  "\<exists>a. mark_range_free True 0x200000 0x8000 allocator_new = Some a \<and> alloc_inv a \<and> free_set a = {512..<520}"
proof -
  obtain a where a: "mark_range_free True 0x200000 0x8000 allocator_new = Some a" "alloc_inv a"
      "free_set a = frames_inside 0x200000 0x8000"
    using mark_range_free_eq [OF alloc_inv_new(1), of "0x200000" "0x8000" True] alloc_inv_new(2) by auto
  moreover have "frames_inside 0x200000 0x8000 = {512..<520}" unfolding frames_inside_def MAX_FRAMES_def by auto
  ultimately show ?thesis by simp
qed

theorem page_mapped_witness:
  "\<exists>a ph'. mark_range_free True 0x200000 0x8000 allocator_new = Some a \<and>
     map_page True 0x12C000 0x400000 0x300000 (PRESENT OR USER_ACCESSIBLE) \<lparr>pmem = (\<lambda>_. 0), frames = a\<rparr> = Some (ph', Inr ()) \<and>
     walk_to_phys (pmem ph') 0x12C000 0x400000 = Some 0x300000"
proof -
  obtain a where a: "mark_range_free True 0x200000 0x8000 allocator_new = Some a" "alloc_inv a" "free_set a = {512..<520}"
    using demo_frames by blast
  let ?ph = "\<lparr>pmem = (\<lambda>_. 0), frames = a\<rparr>" and ?fl = "PRESENT OR USER_ACCESSIBLE"
  have u: "used_frame a 0x12C000" unfolding used_frame_def a(3) by (rule exI [of _ 300]) (simp add: frame_addr_def FRAME_SIZE_def MAX_FRAMES_def)
  have z: "get_entry (\<lambda>_. 0) t i = 0" for t i unfolding get_entry_def load64_def by (rule from_le_zero) (auto simp: load_bytes_def)
  note e = pt_inv_empty [of ?ph "0x12C000"]
  have fl: "flag_bits ?fl" "\<not> flags_contain ?fl WRITABLE"
    by (simp_all add: flag_bits_def flags_contain_consts bit_or_iff bit_flag_consts)
  obtain ph' r where m: "map_page True 0x12C000 0x400000 0x300000 ?fl ?ph = Some (ph', r)"
      "case r of Inr _ \<Rightarrow> walk_to_phys (pmem ph') 0x12C000 0x400000 = Some 0x300000
       | Inl e \<Rightarrow> map_refusal e ?ph 0x12C000 0x400000 0x300000 ?fl"
    using page_mapped [OF e(1), of "0x300000" ?fl True "0x400000"] a(2) u z fl(1) by (fastforce split: sum.splits)
  have "\<not> map_refusal err ?ph 0x12C000 0x400000 0x300000 ?fl" for err
    using e(2,3) a u z fl(2) by (cases err) auto
  then show ?thesis using m a(1) by (auto split: sum.splits)
qed

subsection \<open>What the processor allows in ring 3\<close>

text \<open>
  The rule of the processor for an access in user mode: every entry used by the translation, from the
  root to the page, must be present and user accessible, and an instruction fetch also needs that none
  of them has the no-execute bit. The entries that lead to a table are written by \<^const>\<open>MID_FLAGS\<close>.
\<close>

definition path_entries :: "pmem \<Rightarrow> u64 \<Rightarrow> u64 \<Rightarrow> u64 list" where
  "path_entries m root va =
     (let e4 = get_entry m root (table_index va 4);
          e3 = get_entry m (entry_phys e4) (table_index va 3);
          e2 = get_entry m (entry_phys e3) (table_index va 2);
          e1 = get_entry m (entry_phys e2) (table_index va 1)
      in if bit e3 7 then [e4, e3] else if bit e2 7 then [e4, e3, e2] else [e4, e3, e2, e1])"

definition ring3_access :: "pmem \<Rightarrow> u64 \<Rightarrow> u64 \<Rightarrow> bool" where
  "ring3_access m root va \<longleftrightarrow> (\<forall>e \<in> set (path_entries m root va). bit e 0 \<and> bit e 2)"

definition kernel_fetch :: "pmem \<Rightarrow> u64 \<Rightarrow> u64 \<Rightarrow> bool" where
  "kernel_fetch m root va \<longleftrightarrow> (\<forall>e \<in> set (path_entries m root va). bit e 0 \<and> \<not> bit e 63)"

definition root_locked :: "pmem \<Rightarrow> u64 \<Rightarrow> bool" where
  "root_locked m root \<longleftrightarrow> (\<forall>i < 512. bit (get_entry m root i) 0 \<longrightarrow> \<not> bit (get_entry m root i) 2 \<and> bit (get_entry m root i) 63)"

lemma root_locked_access:
  assumes "root_locked m root"
  shows "\<not> ring3_access m root va" "\<not> kernel_fetch m root va"
proof -
  let ?e = "get_entry m root (table_index va 4)"
  have "?e \<in> set (path_entries m root va)" by (simp add: path_entries_def Let_def)
  moreover have "bit ?e 0 \<longrightarrow> \<not> bit ?e 2 \<and> bit ?e 63" using assms by (simp add: root_locked_def)
  ultimately show "\<not> ring3_access m root va" "\<not> kernel_fetch m root va"
    unfolding ring3_access_def kernel_fetch_def by blast+
qed

lemma root_locked_ext: "pt_ext H ph ph' root \<Longrightarrow> root_locked (pmem ph) root \<Longrightarrow> root_locked (pmem ph') root"
  unfolding root_locked_def using pt_extD(6) [of H ph ph' root] mid_entry_bits by metis

end
