(* ===== verification/ElfImage.thy ===== *)
theory ElfImage
  imports PageTables
begin

text \<open>
  The parser of user programs, \<^verbatim>\<open>src/src/elf.rs\<close>. An executable file is a list of bytes; the
  packed structures that the code reads through \<open>read_unaligned\<close> are decoded field by field at their
  offsets. A read outside the file would be a call that does not return, so that the theorem below
  also says that the raw reads stay inside.
\<close>

subsection \<open>Constants and structures\<close>

definition MAX_PROGRAM_HEADERS :: nat where "MAX_PROGRAM_HEADERS = 8"
definition ELF_MAGIC :: bytes where "ELF_MAGIC = [0x7F, 0x45, 0x4C, 0x46]"
definition ELFCLASS64 :: u8 where "ELFCLASS64 = 2"
definition ELFDATA2LSB :: u8 where "ELFDATA2LSB = 1"
definition EV_CURRENT :: u8 where "EV_CURRENT = 1"
definition ET_EXEC :: u16 where "ET_EXEC = 2"
definition ET_DYN :: u16 where "ET_DYN = 3"
definition EM_X86_64 :: u16 where "EM_X86_64 = 62"
definition EV_CURRENT_U32 :: u32 where "EV_CURRENT_U32 = 1"
definition PT_LOAD :: u32 where "PT_LOAD = 1"
definition PT_DYNAMIC :: u32 where "PT_DYNAMIC = 2"
definition PT_INTERP :: u32 where "PT_INTERP = 3"
definition PF_X :: u32 where "PF_X = 1"
definition PF_W :: u32 where "PF_W = 2"

datatype ElfError =
  Truncated | BadMagic | UnsupportedFormat | UnsupportedTarget | BadPhentSize | TooManyHeaders | PhdrOutOfBounds |
  SegmentOutOfBounds | BadSegmentLayout | BadVirtualAddress | DynamicLinkingRejected

record ProgramHeader =
  p_type :: u32
  p_flags :: u32
  p_offset :: u64
  p_vaddr :: u64
  p_filesz :: u64
  p_memsz :: u64
  p_align :: u64

record ProgramHeaderArray =
  headers :: "ProgramHeader list"
  headers_len :: nat

record Elf64Image =
  entry :: u64
  loads :: ProgramHeaderArray
  raw :: bytes

definition program_header_default :: ProgramHeader where
  "program_header_default =
     \<lparr>p_type = 0, p_flags = 0, p_offset = 0, p_vaddr = 0, p_filesz = 0, p_memsz = 0, p_align = 0\<rparr>"

definition is_executable :: "ProgramHeader \<Rightarrow> bool" where
  "is_executable h \<longleftrightarrow> p_flags h AND PF_X \<noteq> 0"

definition is_writable :: "ProgramHeader \<Rightarrow> bool" where
  "is_writable h \<longleftrightarrow> p_flags h AND PF_W \<noteq> 0"

text \<open>The packed header of a file; the fields that the parser never looks at are left out.\<close>

record ElfHeader =
  e_ident_magic :: bytes
  e_ident_class :: u8
  e_ident_data :: u8
  e_ident_version :: u8
  e_type :: u16
  e_machine :: u16
  e_version :: u32
  e_entry :: u64
  e_phoff :: u64
  e_phentsize :: u16
  e_phnum :: u16

definition elf_header_size :: nat where "elf_header_size = 64"
definition program_header_size :: nat where "program_header_size = 56"

definition field :: "bytes \<Rightarrow> nat \<Rightarrow> nat \<Rightarrow> 'a::len word" where
  "field bs off n = from_le (take n (drop off bs))"

definition read_elf_header :: "bytes \<Rightarrow> ElfHeader option" where
  "read_elf_header data =
     do {
       b \<leftarrow> slice data 0 elf_header_size;
       Some \<lparr>e_ident_magic = take 4 b, e_ident_class = field b 4 1, e_ident_data = field b 5 1, e_ident_version = field b 6 1,
         e_type = field b 16 2, e_machine = field b 18 2, e_version = field b 20 4, e_entry = field b 24 8,
         e_phoff = field b 32 8, e_phentsize = field b 54 2, e_phnum = field b 56 2\<rparr>
     }"

definition read_program_header :: "bytes \<Rightarrow> nat \<Rightarrow> ProgramHeader option" where
  "read_program_header data off =
     do {
       b \<leftarrow> slice data off (off + program_header_size);
       Some \<lparr>p_type = field b 0 4, p_flags = field b 4 4, p_offset = field b 8 8, p_vaddr = field b 16 8,
         p_filesz = field b 32 8, p_memsz = field b 40 8, p_align = field b 48 8\<rparr>
     }"

subsection \<open>The parser\<close>

definition is_power_of_two :: "u64 \<Rightarrow> bool" where
  "is_power_of_two w \<longleftrightarrow> w \<noteq> 0 \<and> w AND (w - 1) = 0"

definition check_load :: "bytes \<Rightarrow> ProgramHeader \<Rightarrow> ElfError + unit" where
  "check_load data h =
     (if p_memsz h < p_filesz h then Inl BadSegmentLayout
      else if p_align h < of_nat PAGE_SIZE then Inl BadSegmentLayout
      else if \<not> is_power_of_two (p_align h) then Inl BadSegmentLayout
      else (case checked_add (p_offset h) (p_filesz h) of
        None \<Rightarrow> Inl SegmentOutOfBounds
      | Some seg_end \<Rightarrow>
          if length data < unat seg_end then Inl SegmentOutOfBounds
          else if \<not> is_user_va (p_vaddr h) then Inl BadVirtualAddress
          else (case checked_add (p_vaddr h) (p_memsz h) of
            None \<Rightarrow> Inl BadVirtualAddress
          | Some mem_end \<Rightarrow> if 0x0000800000000000 < mem_end then Inl BadVirtualAddress else Inr ())))"

fun parse_headers :: "bytes \<Rightarrow> nat \<Rightarrow> nat list \<Rightarrow> ProgramHeaderArray \<Rightarrow> (ElfError + ProgramHeaderArray) option" where
  "parse_headers data phoff [] arr = Some (Inr arr)"
| "parse_headers data phoff (i # is) arr =
     do {
       h \<leftarrow> read_program_header data (phoff + i * program_header_size);
       if p_type h = PT_INTERP \<or> p_type h = PT_DYNAMIC then Some (Inl DynamicLinkingRejected)
       else if p_type h \<noteq> PT_LOAD then parse_headers data phoff is arr
       else (case check_load data h of
         Inl e \<Rightarrow> Some (Inl e)
       | Inr _ \<Rightarrow> do {
           hs \<leftarrow> index_set (headers arr) (headers_len arr) h;
           parse_headers data phoff is \<lparr>headers = hs, headers_len = headers_len arr + 1\<rparr>
         })
     }"

definition elf_parse :: "bytes \<Rightarrow> (ElfError + Elf64Image) option" where
  "elf_parse data =
     (if length data < elf_header_size then Some (Inl Truncated)
      else do {
        h \<leftarrow> read_elf_header data;
        if e_ident_magic h \<noteq> ELF_MAGIC then Some (Inl BadMagic)
        else if e_ident_class h \<noteq> ELFCLASS64 \<or> e_ident_data h \<noteq> ELFDATA2LSB \<or> e_ident_version h \<noteq> EV_CURRENT
        then Some (Inl UnsupportedFormat)
        else if e_machine h \<noteq> EM_X86_64 \<or> e_version h \<noteq> EV_CURRENT_U32 then Some (Inl UnsupportedTarget)
        else if e_type h \<noteq> ET_EXEC \<and> e_type h \<noteq> ET_DYN then Some (Inl UnsupportedTarget)
        else if unat (e_phentsize h) \<noteq> program_header_size then Some (Inl BadPhentSize)
        else if MAX_PROGRAM_HEADERS < unat (e_phnum h) then Some (Inl TooManyHeaders)
        else (case checked_add (e_phoff h) (of_nat (unat (e_phnum h) * program_header_size)) of
          None \<Rightarrow> Some (Inl PhdrOutOfBounds)
        | Some phend \<Rightarrow>
            if length data < unat phend then Some (Inl PhdrOutOfBounds)
            else do {
              r \<leftarrow> parse_headers data (unat (e_phoff h)) [0..<unat (e_phnum h)]
                     \<lparr>headers = replicate MAX_PROGRAM_HEADERS program_header_default, headers_len = 0\<rparr>;
              case r of
                Inl e \<Rightarrow> Some (Inl e)
              | Inr arr \<Rightarrow>
                  if \<not> is_user_va (e_entry h AND NOT (of_nat PAGE_SIZE - 1)) then Some (Inl BadVirtualAddress)
                  else Some (Inr \<lparr>entry = e_entry h, loads = arr, raw = data\<rparr>)
            })
      })"

subsection \<open>Accepted files\<close>

text \<open>What makes a file acceptable, over unbounded integers.\<close>

definition elf_header_of :: "bytes \<Rightarrow> ElfHeader" where
  "elf_header_of data = the (read_elf_header data)"

definition headers_at :: "bytes \<Rightarrow> nat \<Rightarrow> nat list \<Rightarrow> ProgramHeader list" where
  "headers_at data phoff is = map (\<lambda>i. the (read_program_header data (phoff + i * 56))) is"

definition program_headers_of :: "bytes \<Rightarrow> ProgramHeader list" where
  "program_headers_of data =
     headers_at data (unat (e_phoff (elf_header_of data))) [0..<unat (e_phnum (elf_header_of data))]"

definition load_ok :: "bytes \<Rightarrow> ProgramHeader \<Rightarrow> bool" where
  "load_ok data h \<longleftrightarrow>
     unat (p_filesz h) \<le> unat (p_memsz h) \<and> unat (p_offset h) + unat (p_filesz h) \<le> length data \<and>
     unat (p_vaddr h) mod 4096 = 0 \<and> unat (p_vaddr h) < 2 ^ 47 \<and> unat (p_vaddr h) + unat (p_memsz h) \<le> 2 ^ 47 \<and>
     (\<exists>k \<ge> 12. unat (p_align h) = 2 ^ k)"

definition elf_valid :: "bytes \<Rightarrow> bool" where
  "elf_valid data \<longleftrightarrow>
     (let h = elf_header_of data in
      64 \<le> length data \<and> take 4 data = ELF_MAGIC \<and> e_ident_class h = ELFCLASS64 \<and> e_ident_data h = ELFDATA2LSB \<and>
      e_ident_version h = EV_CURRENT \<and> e_machine h = EM_X86_64 \<and> e_version h = EV_CURRENT_U32 \<and>
      e_type h \<in> {ET_EXEC, ET_DYN} \<and> e_phentsize h = 56 \<and> unat (e_phnum h) \<le> 8 \<and>
      unat (e_phoff h) + unat (e_phnum h) * 56 \<le> length data \<and>
      (\<forall>ph \<in> set (program_headers_of data). p_type ph \<notin> {PT_INTERP, PT_DYNAMIC} \<and> (p_type ph = PT_LOAD \<longrightarrow> load_ok data ph)) \<and>
      unat (e_entry h) < 2 ^ 47)"

lemma nat_pow2_and: "0 < n \<Longrightarrow> n AND (n - 1) = 0 \<longleftrightarrow> (\<exists>k. n = 2 ^ k)" for n :: nat
proof (induction n rule: less_induct)
  case (less n)
  show ?case
  proof (cases "even n")
    case True
    then obtain q where q: "n = 2 * q" by blast
    then have "0 < q" "q < n" using less.prems by auto
    have "n - 1 = 2 * (q - 1) + 1" using q \<open>0 < q\<close> by simp
    then have "n AND (n - 1) = 2 * (q AND (q - 1))" using q and_rec [of n "n - 1"] by simp
    then have "n AND (n - 1) = 0 \<longleftrightarrow> (\<exists>k. q = 2 ^ k)" using less.IH [OF \<open>q < n\<close> \<open>0 < q\<close>] by simp
    also have "\<dots> \<longleftrightarrow> (\<exists>k. n = 2 ^ k)"
    proof
      assume "\<exists>k. n = 2 ^ k"
      then obtain k where "2 * q = 2 ^ k" using q by auto
      then show "\<exists>k. q = 2 ^ k" by (cases k) auto
    qed (metis q power_Suc)
    finally show ?thesis .
  next
    case False
    then obtain q where q: "n = 2 * q + 1" by (elim oddE)
    have "n AND (n - 1) = 2 * q" using q and_rec [of n "n - 1"] by simp
    moreover have "(\<exists>k. n = 2 ^ k) \<longleftrightarrow> q = 0"
    proof
      assume "\<exists>k. n = 2 ^ k"
      then obtain k where "n = 2 ^ k" by blast
      then show "q = 0" using False q by (cases k) auto
    qed (auto simp: q intro: exI [of _ 0])
    ultimately show ?thesis by simp
  qed
qed

lemma is_power_of_two_iff: "is_power_of_two w \<longleftrightarrow> (\<exists>k. unat w = 2 ^ k)"
proof (cases "w = 0")
  case False
  then have p: "0 < unat w" by (simp add: unat_gt_0)
  have "unat (w - 1) = unat w - 1" using p by (simp add: unat_minus_one False)
  then have "unat (w AND (w - 1)) = unat w AND (unat w - 1)" by (simp add: unsigned_and_eq)
  then show ?thesis using nat_pow2_and [OF p] False by (simp add: is_power_of_two_def word_unat_eq_iff)
qed (simp add: is_power_of_two_def)

lemma is_user_va_iff: "is_user_va va \<longleftrightarrow> unat va < 2 ^ 47 \<and> unat va mod 4096 = 0"
  using page_aligned [of va] by (simp add: is_user_va_def word_less_nat_alt)

lemma page_base_user: "is_user_va (va AND NOT (of_nat PAGE_SIZE - 1)) \<longleftrightarrow> unat va < 2 ^ 47"
proof -
  have "unat (va AND NOT (of_nat PAGE_SIZE - 1)) = unat va div 4096 * 4096"
    using unat_and_not_mask [of va 12] mask_4095 [where 'a = 64] by (simp add: PAGE_SIZE_def)
  moreover have "unat va div 4096 * 4096 < 2 ^ 47 \<longleftrightarrow> unat va div 4096 < 2 ^ 35" by simp
  moreover have "unat va div 4096 < 2 ^ 35 \<longleftrightarrow> unat va < 2 ^ 35 * 4096" by (rule div_less_iff_less_mult) simp
  ultimately show ?thesis by (simp add: is_user_va_iff)
qed

lemma checked_add_iff: "checked_add a b = Some c \<longleftrightarrow> unat a + unat b < 2 ^ LENGTH('a) \<and> c = a + b" for a b :: "'a::len word"
  by (auto simp: checked_add_def)

lemma check_load_iff:
  assumes "length data < 2 ^ 64"
  shows "check_load data h = Inr () \<longleftrightarrow> load_ok data h"
proof -
  have align: "\<not> p_align h < of_nat PAGE_SIZE \<and> is_power_of_two (p_align h) \<longleftrightarrow> (\<exists>k \<ge> 12. unat (p_align h) = 2 ^ k)"
  proof -
    have "(2 :: nat) ^ 12 \<le> 2 ^ k \<longleftrightarrow> 12 \<le> k" for k by (rule power_increasing_iff) simp
    then have "unat (p_align h) = 2 ^ k \<Longrightarrow> 4096 \<le> unat (p_align h) \<longleftrightarrow> 12 \<le> k" for k by simp
    then show ?thesis by (auto simp: is_power_of_two_iff PAGE_SIZE_def word_less_nat_alt not_less)
  qed
  have seg: "(\<exists>c. checked_add (p_offset h) (p_filesz h) = Some c \<and> \<not> length data < unat c) \<longleftrightarrow>
      unat (p_offset h) + unat (p_filesz h) \<le> length data"
    using assms by (auto simp: checked_add_iff unat_word_ariths)
  have mem: "(\<exists>c. checked_add (p_vaddr h) (p_memsz h) = Some c \<and> \<not> 0x0000800000000000 < c) \<longleftrightarrow>
      unat (p_vaddr h) + unat (p_memsz h) \<le> 2 ^ 47"
    by (auto simp: checked_add_iff unat_word_ariths word_less_nat_alt)
  have "check_load data h = Inr () \<longleftrightarrow> \<not> p_memsz h < p_filesz h \<and>
      (\<not> p_align h < of_nat PAGE_SIZE \<and> is_power_of_two (p_align h)) \<and>
      (\<exists>c. checked_add (p_offset h) (p_filesz h) = Some c \<and> \<not> length data < unat c) \<and> is_user_va (p_vaddr h) \<and>
      (\<exists>c. checked_add (p_vaddr h) (p_memsz h) = Some c \<and> \<not> 0x0000800000000000 < c)"
    by (auto simp: check_load_def split: option.splits)
  then show ?thesis
    unfolding align seg mem load_ok_def is_user_va_iff by (auto simp: word_less_nat_alt not_less)
qed

text \<open>The loop keeps the loadable headers in the order of the file.\<close>

definition loads_of :: "ProgramHeaderArray \<Rightarrow> ProgramHeader list" where
  "loads_of arr = take (headers_len arr) (headers arr)"

definition headers_result :: "bytes \<Rightarrow> ProgramHeader list \<Rightarrow> ProgramHeaderArray \<Rightarrow> ElfError + ProgramHeaderArray \<Rightarrow> bool" where
  "headers_result data hs arr r \<longleftrightarrow>
     ((\<exists>a. r = Inr a) \<longleftrightarrow> (\<forall>h \<in> set hs. p_type h \<notin> {PT_INTERP, PT_DYNAMIC} \<and> (p_type h = PT_LOAD \<longrightarrow> load_ok data h))) \<and>
     (\<forall>a. r = Inr a \<longrightarrow> length (headers a) = 8 \<and> headers_len a \<le> 8 \<and>
        loads_of a = loads_of arr @ filter (\<lambda>h. p_type h = PT_LOAD) hs)"

lemma parse_headers_eq:
  assumes "length data < 2 ^ 64" "\<And>i. i \<in> set is \<Longrightarrow> phoff + i * 56 + 56 \<le> length data"
    and "length (headers arr) = 8" "headers_len arr + length is \<le> 8"
  shows "\<exists>r. parse_headers data phoff is arr = Some r \<and> headers_result data (headers_at data phoff is) arr r"
  using assms
proof (induction "is" arbitrary: arr)
  case (Cons i "is")
  obtain h where h: "read_program_header data (phoff + i * 56) = Some h"
    using Cons.prems(2) [of i] by (simp add: read_program_header_def program_header_size_def)
  have hs: "headers_at data phoff (i # is) = h # headers_at data phoff is" using h by (simp add: headers_at_def)
  show ?case
  proof (cases "p_type h = PT_INTERP \<or> p_type h = PT_DYNAMIC")
    case True
    then show ?thesis using h hs by (auto simp: program_header_size_def headers_result_def)
  next
    case np: False
    show ?thesis
    proof (cases "p_type h = PT_LOAD")
      case False
      have "\<exists>r. parse_headers data phoff is arr = Some r \<and> headers_result data (headers_at data phoff is) arr r"
        using Cons.prems by (intro Cons.IH) auto
      then show ?thesis using h hs np False by (auto simp: program_header_size_def headers_result_def)
    next
      case True
      show ?thesis
      proof (cases "load_ok data h")
        case False
        then obtain e where "check_load data h = Inl e"
          using check_load_iff [OF Cons.prems(1)] by (cases "check_load data h") auto
        then show ?thesis using h hs np True False by (auto simp: program_header_size_def headers_result_def)
      next
        case ok: True
        let ?arr = "\<lparr>headers = (headers arr)[headers_len arr := h], headers_len = headers_len arr + 1\<rparr>"
        have c: "check_load data h = Inr ()" using ok check_load_iff [OF Cons.prems(1)] by simp
        have ix: "index_set (headers arr) (headers_len arr) h = Some ((headers arr)[headers_len arr := h])"
          using Cons.prems(3,4) by simp
        have "\<exists>r. parse_headers data phoff is ?arr = Some r \<and> headers_result data (headers_at data phoff is) ?arr r"
          using Cons.prems by (intro Cons.IH) auto
        moreover have "loads_of ?arr = loads_of arr @ [h]"
          using Cons.prems(3,4) by (simp add: loads_of_def take_Suc_conv_app_nth)
        ultimately show ?thesis using h hs np True c ix ok by (auto simp: program_header_size_def headers_result_def)
      qed
    qed
  qed
qed (simp add: headers_at_def headers_result_def)

lemma elf_parse_result:
  assumes "length data < 2 ^ 64"
  shows "\<exists>r. elf_parse data = Some r \<and> ((\<exists>img. r = Inr img) \<longleftrightarrow> elf_valid data) \<and>
    (\<forall>img. r = Inr img \<longrightarrow> raw img = data \<and> entry img = e_entry (elf_header_of data) \<and> headers_len (loads img) \<le> 8 \<and>
       length (headers (loads img)) = 8 \<and> loads_of (loads img) = filter (\<lambda>h. p_type h = PT_LOAD) (program_headers_of data))"
proof (cases "64 \<le> length data")
  case False
  then show ?thesis by (simp add: elf_parse_def elf_header_size_def elf_valid_def Let_def)
next
  case True
  then obtain h where h: "read_elf_header data = Some h" "e_ident_magic h = take 4 data"
    by (simp add: read_elf_header_def elf_header_size_def)
  then have ho: "elf_header_of data = h" by (simp add: elf_header_of_def)
  let ?pre = "e_ident_magic h = ELF_MAGIC \<and> e_ident_class h = ELFCLASS64 \<and> e_ident_data h = ELFDATA2LSB \<and>
      e_ident_version h = EV_CURRENT \<and> e_machine h = EM_X86_64 \<and> e_version h = EV_CURRENT_U32 \<and>
      e_type h \<in> {ET_EXEC, ET_DYN} \<and> e_phentsize h = 56 \<and> unat (e_phnum h) \<le> 8 \<and>
      unat (e_phoff h) + unat (e_phnum h) * 56 \<le> length data"
  have sz: "unat (e_phentsize h) = program_header_size \<longleftrightarrow> e_phentsize h = 56"
    by (simp add: program_header_size_def word_unat_eq_iff)
  have mul: "unat (of_nat (unat (e_phnum h) * 56) :: u64) = unat (e_phnum h) * 56" if "unat (e_phnum h) \<le> 8"
    using that by (intro unat_of_nat_small) simp
  show ?thesis
  proof (cases ?pre)
    case pre: True
    have cnt: "unat (e_phnum h) \<le> 8" and fits: "unat (e_phoff h) + unat (e_phnum h) * 56 \<le> length data" using pre by auto
    have add: "checked_add (e_phoff h) (of_nat (unat (e_phnum h) * 56)) = Some (e_phoff h + of_nat (unat (e_phnum h) * 56))"
        "unat (e_phoff h + of_nat (unat (e_phnum h) * 56)) = unat (e_phoff h) + unat (e_phnum h) * 56"
      using fits assms mul [OF cnt] by (simp_all add: checked_add_iff unat_word_ariths del: of_nat_mult)
    let ?arr = "\<lparr>headers = replicate MAX_PROGRAM_HEADERS program_header_default, headers_len = 0\<rparr>"
    have inb: "unat (e_phoff h) + i * 56 + 56 \<le> length data" if "i < unat (e_phnum h)" for i using fits that by linarith
    obtain r where r: "parse_headers data (unat (e_phoff h)) [0..<unat (e_phnum h)] ?arr = Some r"
        "headers_result data (program_headers_of data) ?arr r"
      using parse_headers_eq [OF assms, of "[0..<unat (e_phnum h)]" "unat (e_phoff h)" ?arr] inb cnt
      by (auto simp: program_headers_of_def ho MAX_PROGRAM_HEADERS_def)
    have "elf_parse data = Some (case r of Inl e \<Rightarrow> Inl e | Inr arr \<Rightarrow>
        if unat (e_entry h) < 2 ^ 47 then Inr \<lparr>entry = e_entry h, loads = arr, raw = data\<rparr> else Inl BadVirtualAddress)"
      using True pre h(1) r(1) add fits sz page_base_user [of "e_entry h"]
      by (auto simp: elf_parse_def elf_header_size_def program_header_size_def MAX_PROGRAM_HEADERS_def split: sum.splits simp del: of_nat_mult)
    moreover have "elf_valid data \<longleftrightarrow> (\<forall>ph \<in> set (program_headers_of data). p_type ph \<notin> {PT_INTERP, PT_DYNAMIC} \<and>
        (p_type ph = PT_LOAD \<longrightarrow> load_ok data ph)) \<and> unat (e_entry h) < 2 ^ 47"
      unfolding elf_valid_def ho Let_def using True pre h(2) by auto
    ultimately show ?thesis
      using r(2) ho by (cases r) (auto simp: headers_result_def loads_of_def)
  next
    case False
    have "\<exists>e. elf_parse data = Some (Inl e)"
      using True False h(1) sz mul assms
      by (auto simp: elf_parse_def elf_header_size_def program_header_size_def MAX_PROGRAM_HEADERS_def checked_add_iff unat_word_ariths
          split: option.splits simp del: of_nat_mult)
    moreover have "\<not> elf_valid data" using False h(2) unfolding elf_valid_def ho Let_def by auto
    ultimately show ?thesis by auto
  qed
qed

text \<open>C21: the program loader's parser. For every file the parser returns, reading nothing outside the
  file. It accepts exactly the files whose headers are well-formed: a little-endian 64-bit executable
  for this processor with at most eight program headers inside the file, no interpreter or dynamic
  section, an entry point in the user half, and loadable segments whose bytes lie inside the file and
  whose memory is page-aligned and inside the user half. The image it returns has the entry point of
  the file and its loadable headers, in order.\<close>

theorem elf_parse_accepts:
  assumes "length data < 2 ^ 64"
  shows "\<exists>r. elf_parse data = Some r \<and> ((\<exists>img. r = Inr img) \<longleftrightarrow> elf_valid data) \<and>
    (\<forall>img. r = Inr img \<longrightarrow> raw img = data \<and> entry img = e_entry (elf_header_of data) \<and> headers_len (loads img) \<le> 8 \<and>
       take (headers_len (loads img)) (headers (loads img)) = filter (\<lambda>h. p_type h = PT_LOAD) (program_headers_of data))"
  using elf_parse_result [OF assms] by (auto simp: loads_of_def)

text \<open>A program of four bytes of code in an eight byte segment.\<close>

definition demo_elf :: bytes where
  "demo_elf =
     ELF_MAGIC @ [2, 1, 1] @ replicate 9 0 @ to_le 2 ET_EXEC @ to_le 2 EM_X86_64 @ to_le 4 EV_CURRENT_U32 @
     to_le 8 (0x400000 :: u64) @ to_le 8 (64 :: u64) @ replicate 12 0 @ to_le 2 (64 :: u16) @ to_le 2 (56 :: u16) @
     to_le 2 (1 :: u16) @ replicate 6 0 @
     to_le 4 PT_LOAD @ to_le 4 (5 :: u32) @ to_le 8 (120 :: u64) @ to_le 8 (0x400000 :: u64) @ to_le 8 (0 :: u64) @
     to_le 8 (4 :: u64) @ to_le 8 (8 :: u64) @ to_le 8 (4096 :: u64) @ [0xF3, 0x90, 0xEB, 0xFC]"

definition demo_load :: ProgramHeader where
  "demo_load = \<lparr>p_type = 1, p_flags = 5, p_offset = 120, p_vaddr = 0x400000, p_filesz = 4, p_memsz = 8, p_align = 4096\<rparr>"

lemma demo_elf_header:
  "read_elf_header demo_elf = Some \<lparr>e_ident_magic = [0x7F, 0x45, 0x4C, 0x46], e_ident_class = 2, e_ident_data = 1, e_ident_version = 1,
     e_type = 2, e_machine = 62, e_version = 1, e_entry = 0x400000, e_phoff = 64, e_phentsize = 56, e_phnum = 1\<rparr>"
  by code_simp

lemma demo_program_header: "read_program_header demo_elf 64 = Some demo_load"
  by code_simp

lemma length_demo_elf: "length demo_elf = 124"
  by (simp add: demo_elf_def ELF_MAGIC_def)

lemma demo_program_headers: "program_headers_of demo_elf = [demo_load]"
  by (simp add: program_headers_of_def headers_at_def elf_header_of_def demo_elf_header demo_program_header)

lemma demo_load_ok: "load_ok demo_elf demo_load"
  unfolding load_ok_def length_demo_elf by (auto simp: demo_load_def intro!: exI [of _ 12])

lemma demo_elf_valid: "elf_valid demo_elf"
proof -
  have "take 4 demo_elf = ELF_MAGIC" by (simp add: demo_elf_def ELF_MAGIC_def)
  then show ?thesis
    unfolding elf_valid_def demo_program_headers length_demo_elf elf_header_of_def demo_elf_header
    using demo_load_ok
    by (simp add: ELFCLASS64_def ELFDATA2LSB_def EV_CURRENT_def EM_X86_64_def EV_CURRENT_U32_def ET_EXEC_def ET_DYN_def
        PT_INTERP_def PT_DYNAMIC_def PT_LOAD_def demo_load_def)
qed

theorem elf_parse_accepts_witness:
  "\<exists>img. elf_parse demo_elf = Some (Inr img) \<and> entry img = 0x400000 \<and>
     take (headers_len (loads img)) (headers (loads img)) = [demo_load]"
  using elf_parse_accepts [of demo_elf] demo_elf_valid
  by (auto simp: length_demo_elf demo_program_headers elf_header_of_def demo_elf_header demo_load_def PT_LOAD_def)

end
