(* ===== verification/ProcessLoad.thy ===== *)
theory ProcessLoad
  imports ElfImage
begin

text \<open>
  Program loading, \<^verbatim>\<open>src/src/process.rs\<close>: the process table, the construction of user address
  spaces and the loading of flat and ELF programs. The state is the physical memory with its frame
  allocator and the process table. The bounds of the boot stack are linker symbols and so arguments,
  as is the root table of the kernel. The copies into freshly mapped pages go through the identity
  map, that is to physical memory.
\<close>

subsection \<open>Processes\<close>

definition MAX_PROCESSES :: nat where "MAX_PROCESSES = 4"
definition DEFAULT_USER_ENTRY :: u64 where "DEFAULT_USER_ENTRY = 0x400000"
definition DEFAULT_USER_STACK_TOP :: u64 where "DEFAULT_USER_STACK_TOP = 0x00007FFFFFFFF000"
definition DEFAULT_USER_STACK_SIZE :: nat where "DEFAULT_USER_STACK_SIZE = 64 * 1024"

type_synonym ProcessId = u8

datatype ProcessState = Loaded | Running | Exited

record Process =
  proc_id :: ProcessId
  proc_state :: ProcessState
  pml4_phys :: u64
  entry_rip :: u64
  user_rsp :: u64
  user_stack_range :: "u64 \<times> u64"

datatype ProcessError = SlotsFull | Mmu MmuError | PmAllocFailed | BadAddress | Elf ElfError

record loader =
  lphys :: phys
  processes :: "Process option list"

definition find_free_slot :: "Process option list \<Rightarrow> nat option" where
  "find_free_slot ps = find (\<lambda>i. ps ! i = None) [0..<length ps]"

definition put_slot :: "nat \<Rightarrow> Process \<Rightarrow> loader \<Rightarrow> (loader \<times> ProcessId) option" where
  "put_slot idx p st =
     do {
       ps \<leftarrow> index_set (processes st) idx (Some p);
       Some (st\<lparr>processes := ps\<rparr>, proc_id p)
     }"

definition process_get :: "ProcessId \<Rightarrow> loader \<Rightarrow> Process option option" where
  "process_get pid st =
     (if MAX_PROCESSES \<le> unat pid then Some None else index_get (processes st) (unat pid))"

subsection \<open>User address spaces\<close>

fun boot_stack_loop :: "bool \<Rightarrow> u64 \<Rightarrow> u64 \<Rightarrow> nat list \<Rightarrow> phys \<Rightarrow> (phys \<times> (ProcessError + unit)) option" where
  "boot_stack_loop oc space bottom [] ph = Some (ph, Inr ())"
| "boot_stack_loop oc space bottom (i # is) ph =
     do {
       va \<leftarrow> add_ovf oc bottom (of_nat i * of_nat PAGE_SIZE);
       try_then (map_err Mmu (map_page oc space va va (PRESENT OR WRITABLE OR NO_EXECUTE) ph))
         (\<lambda>_ ph. boot_stack_loop oc space bottom is ph)
     }"

definition map_boot_stack_identity :: "bool \<Rightarrow> u64 \<times> u64 \<Rightarrow> u64 \<Rightarrow> phys \<Rightarrow> (phys \<times> (ProcessError + unit)) option" where
  "map_boot_stack_identity oc boot_stack_range space ph =
     do {
       let (bottom, top_va) = boot_stack_range;
       len \<leftarrow> sub_ovf oc top_va bottom;
       boot_stack_loop oc space bottom [0..<unat len div PAGE_SIZE] ph
     }"

definition alloc_user_address_space ::
  "bool \<Rightarrow> u64 \<times> u64 \<Rightarrow> u64 \<Rightarrow> phys \<Rightarrow> (phys \<times> (ProcessError + u64)) option" where
  "alloc_user_address_space oc boot_stack_range kernel_space ph =
     do {
       (ph, frame) \<leftarrow> alloc_frame oc ph;
       case frame of
         None \<Rightarrow> Some (ph, Inl PmAllocFailed)
       | Some space \<Rightarrow> do {
           let ph = ph\<lparr>pmem := secure_zero (pmem ph) (unat space) PAGE_SIZE\<rparr>;
           let ph = inherit_kernel_mappings space kernel_space ph;
           try_then (map_boot_stack_identity oc boot_stack_range space ph) (\<lambda>_ ph. Some (ph, Inr space))
         }
     }"

definition map_fresh_page :: "bool \<Rightarrow> u64 \<Rightarrow> u64 \<Rightarrow> nat \<Rightarrow> bool \<Rightarrow> phys \<Rightarrow> (phys \<times> (ProcessError + unit)) option" where
  "map_fresh_page oc space base_va i writable ph =
     do {
       (ph, frame) \<leftarrow> alloc_frame oc ph;
       case frame of
         None \<Rightarrow> Some (ph, Inl PmAllocFailed)
       | Some f \<Rightarrow> do {
           let ph = ph\<lparr>pmem := secure_zero (pmem ph) (unat f) PAGE_SIZE\<rparr>;
           va \<leftarrow> add_ovf oc base_va (of_nat i * of_nat PAGE_SIZE);
           map_err Mmu (map_user_page oc space va f writable ph)
         }
     }"

fun user_region_loop :: "bool \<Rightarrow> u64 \<Rightarrow> u64 \<Rightarrow> bool \<Rightarrow> nat list \<Rightarrow> phys \<Rightarrow> (phys \<times> (ProcessError + unit)) option" where
  "user_region_loop oc space base_va writable [] ph = Some (ph, Inr ())"
| "user_region_loop oc space base_va writable (i # is) ph =
     try_then (map_fresh_page oc space base_va i writable ph) (\<lambda>_ ph. user_region_loop oc space base_va writable is ph)"

definition map_user_region :: "bool \<Rightarrow> u64 \<Rightarrow> u64 \<Rightarrow> nat \<Rightarrow> bool \<Rightarrow> phys \<Rightarrow> (phys \<times> (ProcessError + unit)) option" where
  "map_user_region oc space base_va pages writable ph =
     (if \<not> is_user_va base_va then Some (ph, Inl BadAddress)
      else user_region_loop oc space base_va writable [0..<pages] ph)"

definition copy_bytes :: "u64 \<Rightarrow> bytes \<Rightarrow> phys \<Rightarrow> phys" where
  "copy_bytes dst bs ph = ph\<lparr>pmem := store_bytes (pmem ph) (unat dst) bs\<rparr>"

fun flat_copy_loop ::
  "bool \<Rightarrow> u64 \<Rightarrow> u64 \<Rightarrow> bytes \<Rightarrow> nat \<Rightarrow> nat list \<Rightarrow> phys \<Rightarrow> (phys \<times> (ProcessError + unit)) option" where
  "flat_copy_loop oc space base_va payload copied [] ph = Some (ph, Inr ())"
| "flat_copy_loop oc space base_va payload copied (i # is) ph =
     do {
       va \<leftarrow> add_ovf oc base_va (of_nat i * of_nat PAGE_SIZE);
       case walk_to_phys (pmem ph) space va of
         None \<Rightarrow> Some (ph, Inl BadAddress)
       | Some p \<Rightarrow> do {
           let chunk = min (length payload - copied) PAGE_SIZE;
           bs \<leftarrow> slice payload copied (copied + chunk);
           flat_copy_loop oc space base_va payload (copied + chunk) is (copy_bytes p bs ph)
         }
     }"

definition load_flat_payload :: "bool \<Rightarrow> u64 \<Rightarrow> u64 \<Rightarrow> bytes \<Rightarrow> bool \<Rightarrow> phys \<Rightarrow> (phys \<times> (ProcessError + unit)) option" where
  "load_flat_payload oc space base_va payload writable ph =
     (if \<not> is_user_va base_va then Some (ph, Inl BadAddress)
      else
        let pages = (length payload + PAGE_SIZE - 1) div PAGE_SIZE
        in if pages = 0 then Some (ph, Inl BadAddress)
           else try_then (map_user_region oc space base_va pages writable ph)
             (\<lambda>_ ph. flat_copy_loop oc space base_va payload 0 [0..<pages] ph))"

definition map_user_stack :: "bool \<Rightarrow> u64 \<Rightarrow> u64 \<Rightarrow> nat \<Rightarrow> phys \<Rightarrow> (phys \<times> (ProcessError + u64 \<times> u64)) option" where
  "map_user_stack oc space top_va sz ph =
     (if sz = 0 \<or> sz mod PAGE_SIZE \<noteq> 0 then Some (ph, Inl BadAddress)
      else if unat top_va < sz then Some (ph, Inl BadAddress)
      else
        let bottom = top_va - of_nat sz
        in if \<not> is_user_va bottom then Some (ph, Inl BadAddress)
           else try_then (map_user_region oc space bottom (sz div PAGE_SIZE) True ph) (\<lambda>_ ph. Some (ph, Inr (bottom, top_va))))"

subsection \<open>Loading\<close>

definition page_mask :: u64 where "page_mask = NOT (of_nat PAGE_SIZE - 1)"

function segment_copy_loop ::
  "bool \<Rightarrow> u64 \<Rightarrow> u64 \<Rightarrow> bytes \<Rightarrow> nat \<Rightarrow> nat \<Rightarrow> nat \<Rightarrow> phys \<Rightarrow> (phys \<times> (ProcessError + unit)) option" where
  "segment_copy_loop oc space vaddr data file_off file_len copied ph =
     (if copied < file_len then
        do {
          va \<leftarrow> add_ovf oc vaddr (of_nat copied);
          case walk_to_phys (pmem ph) space (va AND page_mask) of
            None \<Rightarrow> Some (ph, Inl BadAddress)
          | Some p \<Rightarrow>
              let page_off = unat (va AND (of_nat PAGE_SIZE - 1));
                  page_remain = PAGE_SIZE - page_off;
                  chunk = min (file_len - copied) page_remain
              in do {
                bs \<leftarrow> slice data (file_off + copied) (file_off + copied + chunk);
                segment_copy_loop oc space vaddr data file_off file_len (copied + chunk)
                  (copy_bytes (p + of_nat page_off) bs ph)
              }
        }
      else Some (ph, Inr ()))"
  by pat_completeness auto

lemma page_off_bound: "unat (va AND (of_nat PAGE_SIZE - 1)) < PAGE_SIZE" for va :: u64
  using unat_and_mask [of va 12] by (simp add: PAGE_SIZE_def mask_4095)

termination segment_copy_loop
proof (relation "measure (\<lambda>(oc, space, vaddr, data, file_off, file_len, copied, ph). file_len - copied)", goal_cases)
  case (2 oc space vaddr data file_off file_len copied ph va x2 x xa xb bs)
  then show ?case using page_off_bound [of va] by auto
qed simp

declare segment_copy_loop.simps [simp del]

definition load_segment :: "bool \<Rightarrow> u64 \<Rightarrow> ProgramHeader \<Rightarrow> bytes \<Rightarrow> phys \<Rightarrow> (phys \<times> (ProcessError + unit)) option" where
  "load_segment oc space h data ph =
     do {
       let va_start = p_vaddr h AND page_mask;
       mem_end \<leftarrow> add_ovf oc (p_vaddr h) (p_memsz h);
       rounded \<leftarrow> add_ovf oc mem_end (of_nat PAGE_SIZE - 1);
       let va_end = rounded AND page_mask;
       len \<leftarrow> sub_ovf oc va_end va_start;
       try_then (map_user_region oc space va_start (unat len div PAGE_SIZE) (is_writable h) ph)
         (\<lambda>_ ph. segment_copy_loop oc space (p_vaddr h) data (unat (p_offset h)) (unat (p_filesz h)) 0 ph)
     }"

fun load_segments :: "bool \<Rightarrow> u64 \<Rightarrow> Elf64Image \<Rightarrow> nat list \<Rightarrow> phys \<Rightarrow> (phys \<times> (ProcessError + unit)) option" where
  "load_segments oc space img [] ph = Some (ph, Inr ())"
| "load_segments oc space img (i # is) ph =
     do {
       h \<leftarrow> index_get (headers (loads img)) i;
       try_then (load_segment oc space h (raw img) ph) (\<lambda>_ ph. load_segments oc space img is ph)
     }"

definition new_process :: "nat \<Rightarrow> u64 \<Rightarrow> u64 \<Rightarrow> u64 \<times> u64 \<Rightarrow> Process" where
  "new_process slot space rip stack_range =
     \<lparr>proc_id = of_nat slot, proc_state = Loaded, pml4_phys = space, entry_rip = rip,
      user_rsp = snd stack_range AND NOT 0xF, user_stack_range = stack_range\<rparr>"

text \<open>The part of both spawn functions that builds the address space, with the loading step as an argument.\<close>

definition build_space ::
  "bool \<Rightarrow> u64 \<times> u64 \<Rightarrow> u64 \<Rightarrow> (u64 \<Rightarrow> phys \<Rightarrow> (phys \<times> (ProcessError + unit)) option) \<Rightarrow> phys \<Rightarrow>
     (phys \<times> (ProcessError + u64 \<times> u64 \<times> u64)) option" where
  "build_space oc boot_stack_range kernel_space load ph =
     try_then (alloc_user_address_space oc boot_stack_range kernel_space ph) (\<lambda>space ph.
     try_then (load space ph) (\<lambda>_ ph.
     try_then (map_user_stack oc space DEFAULT_USER_STACK_TOP DEFAULT_USER_STACK_SIZE ph) (\<lambda>rng ph.
       Some (ph, Inr (space, rng)))))"

definition register_process ::
  "nat \<Rightarrow> u64 \<Rightarrow> Process option list \<Rightarrow> (phys \<times> (ProcessError + u64 \<times> u64 \<times> u64)) option \<Rightarrow>
     (loader \<times> (ProcessError + ProcessId)) option" where
  "register_process slot rip ps res =
     do {
       (ph, r) \<leftarrow> res;
       let st = \<lparr>lphys = ph, processes = ps\<rparr>;
       case r of
         Inl e \<Rightarrow> Some (st, Inl e)
       | Inr (space, rng) \<Rightarrow> do {
           (st, pid) \<leftarrow> put_slot slot (new_process slot space rip rng) st;
           Some (st, Inr pid)
         }
     }"

definition spawn_flat :: "bool \<Rightarrow> u64 \<times> u64 \<Rightarrow> u64 \<Rightarrow> bytes \<Rightarrow> loader \<Rightarrow> (loader \<times> (ProcessError + ProcessId)) option" where
  "spawn_flat oc boot_stack_range kernel_space code_payload st =
     (case find_free_slot (processes st) of
        None \<Rightarrow> Some (st, Inl SlotsFull)
      | Some slot \<Rightarrow>
          register_process slot DEFAULT_USER_ENTRY (processes st)
            (build_space oc boot_stack_range kernel_space
               (\<lambda>space ph. load_flat_payload oc space DEFAULT_USER_ENTRY code_payload False ph) (lphys st)))"

definition spawn_elf :: "bool \<Rightarrow> u64 \<times> u64 \<Rightarrow> u64 \<Rightarrow> bytes \<Rightarrow> loader \<Rightarrow> (loader \<times> (ProcessError + ProcessId)) option" where
  "spawn_elf oc boot_stack_range kernel_space elf_bytes st =
     do {
       parsed \<leftarrow> elf_parse elf_bytes;
       case parsed of
         Inl e \<Rightarrow> Some (st, Inl (Elf e))
       | Inr img \<Rightarrow>
           (case find_free_slot (processes st) of
              None \<Rightarrow> Some (st, Inl SlotsFull)
            | Some slot \<Rightarrow>
                register_process slot (entry img) (processes st)
                  (build_space oc boot_stack_range kernel_space
                     (\<lambda>space ph. load_segments oc space img [0..<headers_len (loads img)] ph) (lphys st)))
     }"

text \<open>
  The switch to a loaded process: the values for the page table base register, the instruction
  pointer and the stack pointer. A wrong handle halts the processor.
\<close>

definition enter_ring3 :: "ProcessId \<Rightarrow> loader \<Rightarrow> (u64 \<times> u64 \<times> u64) option" where
  "enter_ring3 pid st =
     do {
       found \<leftarrow> process_get pid st;
       p \<leftarrow> found;
       Some (pml4_phys p, entry_rip p, user_rsp p)
     }"

subsection \<open>User addresses\<close>

lemma table_index_bit: "i < 9 \<Longrightarrow> l \<in> {1, 2, 3, 4} \<Longrightarrow> bit (table_index va l) i \<longleftrightarrow> bit va (12 + (l - 1) * 9 + i)"
proof -
  assume i: "i < 9" and l: "l \<in> {1, 2, 3, 4}"
  have m: "(0x1FF :: u64) = mask 9" by (simp add: mask_eq_exp_minus_1)
  show ?thesis using i l unfolding table_index_def m
    by (auto simp: bit_unsigned_iff bit_and_iff bit_drop_bit_eq bit_mask_iff)
qed

lemma user_va_no_bit: "is_user_va va \<Longrightarrow> n < 12 \<or> 47 \<le> n \<Longrightarrow> \<not> bit va n"
  using aligned_no_bit [of va n] small_no_bit [of va 47 n] by (auto simp: is_user_va_iff)

lemma same_page_bit:
  assumes "same_page va va'" "12 \<le> n" "n < 48"
  shows "bit va n = bit va' n"
proof -
  define l where "l = (n - 12) div 9 + 1"
  have "n - 12 \<le> 35" using assms(3) by linarith
  then have le: "(n - 12) div 9 \<le> 3" using div_le_mono [of "n - 12" 35 9] by simp
  have l: "l \<in> {1, 2, 3, 4}" using le unfolding l_def by auto
  have "12 + (l - 1) * 9 + (n - 12) mod 9 = n" using assms(2) by (simp add: l_def)
  then have "bit va n \<longleftrightarrow> bit (table_index va l) ((n - 12) mod 9)" "bit va' n \<longleftrightarrow> bit (table_index va' l) ((n - 12) mod 9)"
    using table_index_bit [OF _ l, of "(n - 12) mod 9"] by simp_all
  moreover have "table_index va l = table_index va' l" using assms(1) l by (auto simp: same_page_def va_path_def)
  ultimately show ?thesis by simp
qed

lemma same_page_user:
  assumes "is_user_va va" "is_user_va va'" "same_page va va'"
  shows "va = va'"
proof (rule bit_word_eqI)
  fix n assume "n < LENGTH(64)"
  show "bit va n = bit va' n"
    using user_va_no_bit [OF assms(1), of n] user_va_no_bit [OF assms(2), of n] same_page_bit [OF assms(3), of n]
    by (cases "n < 12 \<or> 47 \<le> n") auto
qed

lemma user_root_index: "unat va < 2 ^ 47 \<Longrightarrow> table_index va 4 < 256"
proof -
  assume a: "unat va < 2 ^ 47"
  have m: "(0x1FF :: u64) = mask 9" by (simp add: mask_eq_exp_minus_1)
  have "unat (drop_bit 39 va) = unat va div 2 ^ 39" by (simp add: drop_bit_eq_div unat_div)
  moreover have "unat va div 2 ^ 39 < 256" using a by (simp add: div_less_iff_less_mult)
  ultimately show ?thesis unfolding table_index_def m using unat_and_mask [of "drop_bit 39 va" 9] by simp
qed

lemma page_offset:
  "is_user_va base \<Longrightarrow> unat base + n * 4096 < 2 ^ 47 \<Longrightarrow>
     unat (base + of_nat n * of_nat PAGE_SIZE) = unat base + n * 4096 \<and> is_user_va (base + of_nat n * of_nat PAGE_SIZE)"
proof -
  assume b: "is_user_va base" "unat base + n * 4096 < 2 ^ 47"
  then have "unat (of_nat (n * 4096) :: u64) = n * 4096" by (intro unat_of_nat_small) simp
  then have "unat (base + of_nat n * of_nat PAGE_SIZE) = unat base + n * 4096"
    using b by (simp add: unat_word_ariths PAGE_SIZE_def)
  then show ?thesis using b by (auto simp: is_user_va_iff)
qed

subsection \<open>Taking a frame\<close>

lemma erase_frame_ok:
  assumes "pt_inv ph root" "j \<in> free_set (frames ph)" "alloc_inv a" "free_set a = free_set (frames ph) - {j}"
  defines "ph' \<equiv> \<lparr>pmem = secure_zero (pmem ph) (j * 4096) 4096, frames = a\<rparr>"
  shows "pt_inv ph' root" "pt_ext {} ph ph' root" "leaf_at (pmem ph') root va = leaf_at (pmem ph) root va"
    "table_path q \<Longrightarrow> table_at (pmem ph') root q = table_at (pmem ph) root q"
proof -
  have old: "get_entry (pmem ph') g k = get_entry (pmem ph) g k" if "used_frame (frames ph) g" "k < 512" for g k
    using frame_zero_other [OF that(1) assms(2) that(2)] by (simp add: ph'_def)
  have bytes: "pmem ph' (unat g + k) = pmem ph (unat g + k)" if "used_frame (frames ph) g" "k < 4096" for g k
    using frame_zero_bytes [OF that(1) assms(2) that(2)] by (simp add: ph'_def)
  show tree: "table_at (pmem ph') root q = table_at (pmem ph) root q" if "table_path q" for q
    using that by (rule table_at_cong [rotated]) (rule old [OF pt_invD(2) [OF assms(1)]])
  show "pt_inv ph' root" unfolding pt_inv_def
  proof (intro conjI allI impI)
    show "alloc_inv (frames ph')" using assms(3) by (simp add: ph'_def)
    show "used_frame (frames ph') g" if "table_path q" "table_at (pmem ph') root q = Some g" for q g
      using that tree pt_invD(2) [OF assms(1) that(1)] used_frame_mono [of "frames ph" g a] assms(4) by (auto simp: ph'_def)
    show "q = r" if "table_path q" "table_path r" "table_at (pmem ph') root q = Some g" "table_at (pmem ph') root r = Some g" for q r g
      using that tree pt_invD(3) [OF assms(1)] by auto
  qed
  show "pt_ext {} ph ph' root" unfolding pt_ext_def
  proof (intro conjI allI impI)
    show "free_set (frames ph') \<subseteq> free_set (frames ph)" using assms(4) by (auto simp: ph'_def)
    show "get_entry (pmem ph') root i = get_entry (pmem ph) root i \<or>
        i \<in> {} \<and> \<not> bit (get_entry (pmem ph) root i) 0 \<and> (\<exists>f. get_entry (pmem ph') root i = MID_ENTRY f)" if "i < 512" for i
      using old that pt_invD(2) [OF assms(1), of "[]"] by simp
  qed (use tree bytes pt_invD(2) [OF assms(1)] in auto)
  show "leaf_at (pmem ph') root va = leaf_at (pmem ph) root va"
    using tree [of "va_path va"] old pt_invD(2) [OF assms(1), of "va_path va"] by (intro leaf_at_cong) auto
qed

lemma not_table_ext:
  assumes "pt_ext H ph ph' root" "used_frame (frames ph) f" "\<And>q. table_path q \<Longrightarrow> table_at (pmem ph) root q \<noteq> Some f"
  shows "table_path q \<Longrightarrow> table_at (pmem ph') root q \<noteq> Some f"
  using pt_extD(3) [OF assms(1)] assms(3) used_not_free [OF assms(2)] by blast

end
