(* ===== verification/UserPages.thy ===== *)
theory UserPages
  imports ProcessLoad
begin

text \<open>
  Correctness of the loader of \<^verbatim>\<open>src/src/process.rs\<close>: a partial map of the user pages of an
  address space to their frames is the abstract state, each operation extends or fills it, and what
  was in use before stays as it was.
\<close>

subsection \<open>The abstract address space\<close>

definition user_flags :: "bool \<Rightarrow> PageTableFlags" where
  "user_flags writable =
     (if writable then PRESENT OR USER_ACCESSIBLE OR WRITABLE OR NO_EXECUTE else PRESENT OR USER_ACCESSIBLE)"

type_synonym page_map = "u64 \<rightharpoonup> u64 \<times> bool"

text \<open>
  The pages \<open>M\<close> of a space under construction. Its frames come from the frames that were free in the
  state \<open>ph0\<close>, in which construction began; they are in use, are no tables and have one page each.
\<close>

definition pages_ok :: "phys \<Rightarrow> u64 \<Rightarrow> phys \<Rightarrow> page_map \<Rightarrow> bool" where
  "pages_ok ph0 root ph M \<longleftrightarrow> pt_inv ph root \<and> pt_ext {i. i < 256} ph0 ph root \<and>
     (\<forall>va f w. M va = Some (f, w) \<longrightarrow>
        is_user_va va \<and> leaf_at (pmem ph) root va = Some (page_entry f (user_flags w)) \<and>
        f \<in> free_frames ph0 \<and> used_frame (frames ph) f \<and> (\<forall>q. table_path q \<longrightarrow> table_at (pmem ph) root q \<noteq> Some f)) \<and>
     (\<forall>va va' f w w'. M va = Some (f, w) \<longrightarrow> M va' = Some (f, w') \<longrightarrow> va = va')"

definition page_of :: "nat \<Rightarrow> u64" where
  "page_of a = of_nat (a div 4096 * 4096)"

definition vbyte :: "phys \<Rightarrow> page_map \<Rightarrow> nat \<Rightarrow> u8 option" where
  "vbyte ph M a = (case M (page_of a) of None \<Rightarrow> None | Some (f, w) \<Rightarrow> Some (pmem ph (unat f + a mod 4096)))"

lemma pages_okD:
  assumes "pages_ok ph0 root ph M"
  shows "pt_inv ph root" "pt_ext {i. i < 256} ph0 ph root"
    "M va = Some (f, w) \<Longrightarrow> is_user_va va" "M va = Some (f, w) \<Longrightarrow> leaf_at (pmem ph) root va = Some (page_entry f (user_flags w))"
    "M va = Some (f, w) \<Longrightarrow> f \<in> free_frames ph0" "M va = Some (f, w) \<Longrightarrow> used_frame (frames ph) f"
    "M va = Some (f, w) \<Longrightarrow> table_path q \<Longrightarrow> table_at (pmem ph) root q \<noteq> Some f"
    "M va = Some (f, w) \<Longrightarrow> M va' = Some (f, w') \<Longrightarrow> va = va'"
  using assms unfolding pages_ok_def by (elim conjE; blast)+

lemma vbyte_mem: "M (page_of a) = Some (f, w) \<Longrightarrow> vbyte ph M a = Some (pmem ph (unat f + a mod 4096))"
  by (simp add: vbyte_def)

text \<open>A step of the tables that keeps the mapped pages keeps the abstract state and its bytes.\<close>

lemma pages_ok_ext:
  assumes "pages_ok ph0 root ph M" "pt_inv ph' root" "pt_ext H ph ph' root" "H \<subseteq> {i. i < 256}"
    and "\<And>va. va \<in> dom M \<Longrightarrow> leaf_at (pmem ph') root va = leaf_at (pmem ph) root va"
  shows "pages_ok ph0 root ph' M" "vbyte ph' M a = vbyte ph M a"
proof -
  note ok = pages_okD [OF assms(1)]
  have ext: "pt_ext {i. i < 256} ph0 ph' root"
    using pt_ext_trans [OF ok(2) pt_ext_mono [OF assms(3,4)]] .
  show "pages_ok ph0 root ph' M" unfolding pages_ok_def
  proof (intro conjI allI impI)
    fix va f w assume m: "M va = Some (f, w)"
    show "is_user_va va" "f \<in> free_frames ph0" using ok(3,5) m by blast+
    show "leaf_at (pmem ph') root va = Some (page_entry f (user_flags w))" using assms(5) [of va] ok(4) [OF m] m by auto
    show "used_frame (frames ph') f" using used_frame_mono [OF ok(6) [OF m] pt_extD(1) [OF assms(3)]] .
    show "table_at (pmem ph') root q \<noteq> Some f" if "table_path q" for q
      using not_table_ext [OF assms(3) ok(6) [OF m] ok(7) [OF m] that] .
  qed (use assms(2) ext ok(8) in blast)+
  show "vbyte ph' M a = vbyte ph M a"
    using pt_extD(4) [OF assms(3) ok(6) ok(7)] by (auto simp: vbyte_def split: option.split)
qed

subsection \<open>Mapping fresh pages\<close>

lemma map_page_cases:
  assumes "pt_inv ph root"
  obtains (mapped) ph' where "map_page oc root va pa flags ph = Some (ph', Inr ())" "pt_inv ph' root"
      "pt_ext {table_index va 4} ph ph' root" "leaf_at (pmem ph) root va = None"
      "\<And>va'. leaf_at (pmem ph') root va' = (if same_page va va' then Some (page_entry pa flags) else leaf_at (pmem ph) root va')"
      "\<And>va'. huge_on_path (pmem ph') root va' = huge_on_path (pmem ph) root va'"
      "card (free_set (frames ph)) \<le> card (free_set (frames ph')) + 3"
  | (refused) ph' e where "map_page oc root va pa flags ph = Some (ph', Inl e)" "pt_inv ph' root"
      "pt_ext {table_index va 4} ph ph' root" "\<And>va'. leaf_at (pmem ph') root va' = leaf_at (pmem ph) root va'"
      "\<And>va'. huge_on_path (pmem ph') root va' = huge_on_path (pmem ph) root va'"
      "card (free_set (frames ph)) \<le> card (free_set (frames ph')) + 3" "map_refusal e ph root va pa flags"
proof -
  note ex = map_page_ok [OF assms, of oc va pa flags]
  then obtain ph' r where m: "map_page oc root va pa flags ph = Some (ph', r)" by blast
  note f = ex [unfolded m option.inject prod.inject, simplified]
  have huge: "huge_on_path (pmem ph') root va' = huge_on_path (pmem ph) root va'" for va'
  proof -
    have "huge_at (pmem ph') root (take k (va_path va')) (va_path va' ! k) = huge_at (pmem ph) root (take k (va_path va')) (va_path va' ! k)"
      if "k < 3" for k using f va_path_split [OF that, of va'] by auto
    then show ?thesis by (auto simp: huge_on_path_def)
  qed
  show ?thesis
  proof (cases r)
    case (Inl e)
    then show ?thesis using f m huge refused by auto
  next
    case (Inr u)
    then show ?thesis using f m huge mapped by auto
  qed
qed

lemma flag_bits_user: "flag_bits (user_flags w)"
  by (simp add: flag_bits_def user_flags_def bit_or_iff bit_flag_consts)

lemma user_flags_wx: "flags_contain (user_flags w) WRITABLE \<Longrightarrow> flags_contain (user_flags w) NO_EXECUTE"
  by (simp add: user_flags_def flags_contain_consts bit_or_iff bit_flag_consts split: if_splits)

lemma map_user_page_eq: "is_user_va va \<Longrightarrow> map_user_page oc root va f w ph = map_page oc root va f (user_flags w) ph"
  by (simp add: map_user_page_def user_flags_def Let_def or.assoc)

definition leaves_kept :: "u64 \<Rightarrow> phys \<Rightarrow> phys \<Rightarrow> bool" where
  "leaves_kept root ph ph' \<longleftrightarrow> (\<forall>va e. leaf_at (pmem ph) root va = Some e \<longrightarrow> leaf_at (pmem ph') root va = Some e)"

lemma leaves_kept_trans: "leaves_kept root ph ph1 \<Longrightarrow> leaves_kept root ph1 ph2 \<Longrightarrow> leaves_kept root ph ph2"
  by (simp add: leaves_kept_def)

lemma leaf_at_same_page: "same_page va va' \<Longrightarrow> leaf_at m root va = leaf_at m root va'"
  unfolding leaf_at_def same_page_def by metis

text \<open>Nothing but the pages of the map and the pages \<open>B\<close> is mapped in the user half.\<close>

definition user_exact :: "u64 \<Rightarrow> u64 set \<Rightarrow> phys \<Rightarrow> page_map \<Rightarrow> bool" where
  "user_exact root B ph M \<longleftrightarrow> (\<forall>va. is_user_va va \<longrightarrow>
     \<not> huge_on_path (pmem ph) root va \<and> (leaf_at (pmem ph) root va \<noteq> None \<longrightarrow> va \<in> dom M \<union> B))"

definition page_added :: "phys \<Rightarrow> u64 \<Rightarrow> page_map \<Rightarrow> phys \<Rightarrow> page_map \<Rightarrow> phys \<Rightarrow> bool" where
  "page_added ph0 root M ph M' ph' \<longleftrightarrow> pages_ok ph0 root ph' M' \<and> M \<subseteq>\<^sub>m M' \<and> leaves_kept root ph ph' \<and>
     (\<forall>B. user_exact root B ph M \<longrightarrow> user_exact root B ph' M') \<and> (\<forall>a < 2 ^ 47. page_of a \<in> dom M \<longrightarrow> vbyte ph' M' a = vbyte ph M a)"

lemma page_added_refl: "pages_ok ph0 root ph M \<Longrightarrow> page_added ph0 root M ph M ph"
  by (simp add: page_added_def leaves_kept_def)

lemma page_addedD:
  assumes "page_added ph0 root M ph M' ph'"
  shows "pages_ok ph0 root ph' M'" "M \<subseteq>\<^sub>m M'" "leaves_kept root ph ph'" "user_exact root B ph M \<Longrightarrow> user_exact root B ph' M'"
    "a < 2 ^ 47 \<Longrightarrow> page_of a \<in> dom M \<Longrightarrow> vbyte ph' M' a = vbyte ph M a"
  using assms unfolding page_added_def by simp_all

lemma page_added_trans:
  assumes "page_added ph0 root M ph M1 ph1" "page_added ph0 root M1 ph1 M2 ph2"
  shows "page_added ph0 root M ph M2 ph2"
  unfolding page_added_def
proof (intro conjI allI impI)
  note a = page_addedD [OF assms(1)] and b = page_addedD [OF assms(2)]
  show "pages_ok ph0 root ph2 M2" "M \<subseteq>\<^sub>m M2" "leaves_kept root ph ph2"
    using a(1-3) b(1-3) map_le_trans leaves_kept_trans by blast+
  show "user_exact root B ph2 M2" if "user_exact root B ph M" for B using a(4) b(4) that by blast
  show "vbyte ph2 M2 x = vbyte ph M x" if "x < 2 ^ 47" "page_of x \<in> dom M" for x
    using a(5) [OF that] b(5) [OF that(1)] map_le_implies_dom_le [OF a(2)] that(2) by (simp add: subsetD)
qed

lemma erase_frame_huge:
  assumes "pt_inv ph root" "j \<in> free_set (frames ph)" "alloc_inv a" "free_set a = free_set (frames ph) - {j}"
  shows "huge_on_path (secure_zero (pmem ph) (j * 4096) 4096) root va = huge_on_path (pmem ph) root va"
proof -
  have "huge_at (secure_zero (pmem ph) (j * 4096) 4096) root (take k (va_path va)) (va_path va ! k) =
      huge_at (pmem ph) root (take k (va_path va)) (va_path va ! k)" if k: "k < 3" for k
  proof (rule huge_at_cong)
    note p = va_path_split [OF k, of va]
    show "table_at (secure_zero (pmem ph) (j * 4096) 4096) root (take k (va_path va)) = table_at (pmem ph) root (take k (va_path va))"
      using erase_frame_ok(4) [OF assms p(1)] by simp
    show "get_entry (secure_zero (pmem ph) (j * 4096) 4096) t (va_path va ! k) = get_entry (pmem ph) t (va_path va ! k)"
      if "table_at (pmem ph) root (take k (va_path va)) = Some t" for t
      using frame_zero_other [OF pt_invD(2) [OF assms(1) p(1) that] assms(2) p(3)] .
  qed
  then show ?thesis by (auto simp: huge_on_path_def)
qed

lemma page_joins:
  assumes "pages_ok ph0 root ph M" "is_user_va va" "f \<in> free_frames ph0" "used_frame (frames ph) f"
    and "\<And>q. table_path q \<Longrightarrow> table_at (pmem ph) root q \<noteq> Some f" "\<And>va w. M va \<noteq> Some (f, w)"
    and "\<And>k. k < 4096 \<Longrightarrow> pmem ph (unat f + k) = 0"
    and "pt_inv ph' root" "pt_ext {table_index va 4} ph ph' root" "leaf_at (pmem ph) root va = None"
    and "\<And>va'. leaf_at (pmem ph') root va' =
      (if same_page va va' then Some (page_entry f (user_flags w)) else leaf_at (pmem ph) root va')"
    and "\<And>va'. huge_on_path (pmem ph') root va' = huge_on_path (pmem ph) root va'"
  shows "va \<notin> dom M" "page_added ph0 root M ph (M(va \<mapsto> (f, w))) ph'"
    "page_of a = va \<Longrightarrow> vbyte ph' (M(va \<mapsto> (f, w))) a = Some 0"
proof -
  note ok = pages_okD [OF assms(1)]
  show new: "va \<notin> dom M" using ok(4) assms(10) by fastforce
  have H: "{table_index va 4} \<subseteq> {i. i < 256}" using user_root_index [of va] assms(2) by (simp add: is_user_va_iff)
  have "leaf_at (pmem ph') root va' = leaf_at (pmem ph) root va'" if "va' \<in> dom M" for va'
    using that new ok(3) same_page_user [OF assms(2), of va'] assms(11) by auto
  note ext = pages_ok_ext [OF assms(1,8,9) H this]
  have nt: "table_at (pmem ph') root q \<noteq> Some f" if "table_path q" for q
    using not_table_ext [OF assms(9,4,5) that] .
  have leaf: "leaf_at (pmem ph') root va = Some (page_entry f (user_flags w))" using assms(11) [of va] by (simp add: same_page_def)
  have used: "used_frame (frames ph') f" using used_frame_mono [OF assms(4) pt_extD(1) [OF assms(9)]] .
  have "pages_ok ph0 root ph' (M(va \<mapsto> (f, w)))"
    unfolding pages_ok_def using pages_okD [OF ext(1)] assms(2,3,6) nt leaf used by (auto split: if_splits)
  moreover have "vbyte ph' (M(va \<mapsto> (f, w))) a = vbyte ph M a" if "page_of a \<in> dom M" for a
    using ext(2) [of a] that new by (auto simp: vbyte_def)
  moreover have "M \<subseteq>\<^sub>m M(va \<mapsto> (f, w))" using new by (auto simp: map_le_def)
  moreover have "leaves_kept root ph ph'"
    unfolding leaves_kept_def using assms(10,11) leaf_at_same_page by (metis option.distinct(1))
  moreover have "user_exact root B ph' (M(va \<mapsto> (f, w)))" if "user_exact root B ph M" for B
    unfolding user_exact_def
  proof (intro allI impI conjI)
    fix v assume v: "is_user_va v"
    show "\<not> huge_on_path (pmem ph') root v" using that v assms(12) by (simp add: user_exact_def)
    show "v \<in> dom (M(va \<mapsto> (f, w))) \<union> B" if "leaf_at (pmem ph') root v \<noteq> None"
      using that \<open>user_exact root B ph M\<close> v assms(11) [of v] same_page_user [OF assms(2) v]
      by (cases "same_page va v") (auto simp: user_exact_def)
  qed
  ultimately show "page_added ph0 root M ph (M(va \<mapsto> (f, w))) ph'" unfolding page_added_def by blast
  show "vbyte ph' (M(va \<mapsto> (f, w))) a = Some 0" if "page_of a = va"
    using that pt_extD(4) [OF assms(9,4,5), of "a mod 4096"] assms(7) [of "a mod 4096"] by (simp add: vbyte_def)
qed

definition nth_page :: "u64 \<Rightarrow> nat \<Rightarrow> u64" where
  "nth_page base i = base + of_nat i * of_nat PAGE_SIZE"

lemma map_fresh_page_ok:
  assumes "pages_ok ph0 root ph M" "is_user_va base" "unat base + i * 4096 < 2 ^ 47"
  defines "va \<equiv> nth_page base i"
  shows "\<exists>ph' r. map_fresh_page oc root base i w ph = Some (ph', r) \<and>
    card (free_set (frames ph)) \<le> card (free_set (frames ph')) + 4 \<and>
    (case r of
       Inl e \<Rightarrow> page_added ph0 root M ph M ph' \<and>
         (\<forall>B. user_exact root B ph M \<longrightarrow> va \<notin> dom M \<union> B \<longrightarrow> card (free_set (frames ph)) < 4)
     | Inr _ \<Rightarrow> \<exists>f. va \<notin> dom M \<and> page_added ph0 root M ph (M(va \<mapsto> (f, w))) ph' \<and>
         (\<forall>a. page_of a = va \<longrightarrow> vbyte ph' (M(va \<mapsto> (f, w))) a = Some 0))"
proof -
  note ok = pages_okD [OF assms(1)] and inv = pt_invD(1) [OF pages_okD(1) [OF assms(1)]]
  have uva: "is_user_va va" "unat va = unat base + i * 4096" using page_offset [OF assms(2,3)] by (simp_all add: va_def nth_page_def)
  show ?thesis
  proof (cases "free_set (frames ph) = {}")
    case True
    then show ?thesis
      using alloc_frame_none [OF inv True, of oc] page_added_refl [OF assms(1)] by (simp add: map_fresh_page_def)
  next
    case False
    obtain j a where j: "j \<in> free_set (frames ph)" "alloc_inv a" "free_set a = free_set (frames ph) - {j}"
        "alloc_frame oc ph = Some (\<lparr>pmem = secure_zero (pmem ph) (j * 4096) 4096, frames = a\<rparr>, Some (frame_addr j))"
      using alloc_frame_some [OF inv False, of oc] by blast
    define ph1 where "ph1 = \<lparr>pmem = secure_zero (pmem ph) (j * 4096) 4096, frames = a\<rparr>"
    note e = erase_frame_ok [OF ok(1) j(1-3), folded ph1_def]
    note ok1 = pages_ok_ext [OF assms(1) e(1,2) _ e(3)]
    have jb: "j < MAX_FRAMES" using free_set_bound [OF j(1)] .
    let ?f = "frame_addr j"
    have ff: "?f \<in> free_frames ph" using j(1) by (auto simp: free_frames_def)
    have f0: "?f \<in> free_frames ph0" using pt_extD(1) [OF ok(2)] ff by (auto simp: free_frames_def)
    have f1: "used_frame (frames ph1) ?f" using jb j(3) by (auto simp: used_frame_def ph1_def)
    have nt: "table_at (pmem ph1) root q \<noteq> Some ?f" if "table_path q" for q
      using e(4) [OF that] pt_invD(2) [OF ok(1) that] used_not_free [of ph ?f] ff by auto
    have addr: "add_ovf oc base (of_nat i * of_nat PAGE_SIZE) = Some va"
    proof -
      have "unat (of_nat (i * 4096) :: u64) = i * 4096" using assms(3) by (intro unat_of_nat_small) simp
      then show ?thesis using assms(3) by (simp add: va_def nth_page_def PAGE_SIZE_def)
    qed
    have call: "map_fresh_page oc root base i w ph = map_err Mmu (map_page oc root va ?f (user_flags w) ph1)"
      using j(4) addr map_user_page_eq [OF uva(1)] unat_frame_addr [OF jb]
      by (simp add: map_fresh_page_def ph1_def PAGE_SIZE_def Let_def)
    have fresh: "M va' \<noteq> Some (?f, w')" for va' w' using ok(6) used_not_free ff by blast
    have zero: "pmem ph1 (unat ?f + k) = 0" if "k < 4096" for k
      using that unat_frame_addr [OF jb] by (simp add: ph1_def secure_zero_def)
    have H: "{table_index va 4} \<subseteq> {i. i < 256}" using user_root_index [of va] uva(1) by (simp add: is_user_va_iff)
    have huge: "huge_on_path (pmem ph1) root v = huge_on_path (pmem ph) root v" for v using erase_frame_huge [OF ok(1) j(1-3)] by (simp add: ph1_def)
    have keep: "page_added ph0 root M ph M ph1" using ok1 e(3) huge by (simp add: page_added_def leaves_kept_def user_exact_def)
    have cnt: "card (free_set (frames ph)) = card (free_set (frames ph1)) + 1" using j(1,3) card_Suc_Diff1 [OF finite_free_set j(1)] by (simp add: ph1_def)
    show ?thesis
    proof (cases rule: map_page_cases [OF e(1), where oc = oc and va = va and pa = ?f and flags = "user_flags w", case_names mapped refused])
      case (mapped ph2)
      note new = page_joins [OF ok1(1) uva(1) f0 f1 nt fresh zero mapped(2-6)]
      then show ?thesis
        using call mapped(1) page_added_trans [OF keep new(2)] mapped(7) cnt by (auto simp: map_err_def)
    next
      case (refused ph2 err)
      have "page_added ph0 root M ph1 M ph2"
        using pages_ok_ext [OF ok1(1) refused(2,3) H refused(4)] refused(4,5) by (simp add: page_added_def leaves_kept_def user_exact_def)
      moreover have "card (free_set (frames ph)) < 4" if ex: "user_exact root B ph M" "va \<notin> dom M \<union> B" for B
      proof -
        have "leaf_at (pmem ph1) root va = None" "\<not> huge_on_path (pmem ph1) root va"
          using ex uva(1) e(3) huge by (auto simp: user_exact_def)
        then show ?thesis
          using refused(7) uva(1) frame_addr_aligned [OF jb] user_flags_wx [of w] cnt by (cases err) (auto simp: is_user_va_iff)
      qed
      ultimately show ?thesis using call refused(1) page_added_trans [OF keep] refused(6) cnt by (simp add: map_err_def)
    qed
  qed
qed

definition zero_pages :: "bool \<Rightarrow> u64 set \<Rightarrow> page_map \<Rightarrow> phys \<Rightarrow> page_map \<Rightarrow> phys \<Rightarrow> bool" where
  "zero_pages w V M ph M' ph' \<longleftrightarrow> dom M' = dom M \<union> V \<and> dom M \<inter> V = {} \<and>
     (\<forall>va \<in> V. \<exists>f. M' va = Some (f, w)) \<and> (\<forall>a < 2 ^ 47. page_of a \<in> V \<longrightarrow> vbyte ph' M' a = Some 0)"

text \<open>The contract of a mapping or loading step that needs the pages \<open>V\<close> to be free and at most \<open>n\<close> frames.\<close>

definition step_done ::
  "u64 set \<Rightarrow> nat \<Rightarrow> phys \<Rightarrow> u64 \<Rightarrow> page_map \<Rightarrow> phys \<Rightarrow> page_map \<Rightarrow> phys \<Rightarrow> ('e + 'a) \<Rightarrow> bool" where
  "step_done V n ph0 root M ph M' ph' r \<longleftrightarrow> page_added ph0 root M ph M' ph' \<and> dom M' \<subseteq> dom M \<union> V \<and>
     card (free_set (frames ph)) \<le> card (free_set (frames ph')) + n \<and>
     (\<forall>e B. r = Inl e \<longrightarrow> user_exact root B ph M \<longrightarrow> (dom M \<union> B) \<inter> V = {} \<longrightarrow> card (free_set (frames ph)) < n)"

lemma step_doneD:
  assumes "step_done V n ph0 root M ph M' ph' r"
  shows "page_added ph0 root M ph M' ph'" "dom M' \<subseteq> dom M \<union> V" "card (free_set (frames ph)) \<le> card (free_set (frames ph')) + n"
    "r = Inl e \<Longrightarrow> user_exact root B ph M \<Longrightarrow> (dom M \<union> B) \<inter> V = {} \<Longrightarrow> card (free_set (frames ph)) < n"
  using assms unfolding step_done_def by simp_all

lemma step_done_seq:
  assumes "step_done V n ph0 root M ph M1 ph1 (Inr x :: 'e + 'a)" "step_done V' n' ph0 root M1 ph1 M2 ph2 r" "V \<inter> V' = {}"
  shows "step_done (V \<union> V') (n + n') ph0 root M ph M2 ph2 r"
  unfolding step_done_def
proof (intro conjI allI impI)
  note a = step_doneD [OF assms(1)] and b = step_doneD [OF assms(2)]
  show "page_added ph0 root M ph M2 ph2" using page_added_trans [OF a(1) b(1)] .
  show "dom M2 \<subseteq> dom M \<union> (V \<union> V')" using a(2) b(2) by blast
  show "card (free_set (frames ph)) \<le> card (free_set (frames ph2)) + (n + n')" using a(3) b(3) by simp
  fix e B assume e: "r = Inl e" "user_exact root B ph M" "(dom M \<union> B) \<inter> (V \<union> V') = {}"
  have "(dom M1 \<union> B) \<inter> V' = {}" using e(3) a(2) assms(3) by blast
  then show "card (free_set (frames ph)) < n + n'"
    using b(4) [OF e(1) page_addedD(4) [OF a(1) e(2)]] a(3) by simp
qed

lemma step_done_fail:
  assumes "step_done V n ph0 root M ph M1 ph1 (Inl e :: 'e + 'a)"
  shows "step_done (V \<union> V') (n + n') ph0 root M ph M1 ph1 (Inl e' :: 'e2 + 'b)"
  unfolding step_done_def
proof (intro conjI allI impI)
  note a = step_doneD [OF assms]
  fix B assume e: "user_exact root B ph M" "(dom M \<union> B) \<inter> (V \<union> V') = {}"
  have "(dom M \<union> B) \<inter> V = {}" using e(2) by blast
  then show "card (free_set (frames ph)) < n + n'" using a(4) [OF refl e(1)] by simp
qed (use step_doneD [OF assms] in auto)

lemma step_done_refl: "pages_ok ph0 root ph M \<Longrightarrow> step_done {} 0 ph0 root M ph M ph (Inr x)"
  by (simp add: step_done_def page_added_refl)

lemma nth_page_inj:
  assumes "is_user_va base" "unat base + i * 4096 < 2 ^ 47" "unat base + j * 4096 < 2 ^ 47" "nth_page base i = nth_page base j"
  shows "i = j"
proof -
  have "unat base + i * 4096 = unat base + j * 4096"
    using page_offset [OF assms(1,2)] page_offset [OF assms(1,3)] assms(4) unfolding nth_page_def by metis
  then show ?thesis by linarith
qed

lemma user_region_loop_ok:
  assumes "pages_ok ph0 root ph M" "is_user_va base" "\<And>i. i \<in> set is \<Longrightarrow> unat base + i * 4096 < 2 ^ 47" "distinct is"
  shows "\<exists>ph' r M'. user_region_loop oc root base w is ph = Some (ph', r) \<and>
    step_done (nth_page base ` set is) (4 * length is) ph0 root M ph M' ph' r \<and>
    (r = Inr () \<longrightarrow> zero_pages w (nth_page base ` set is) M ph M' ph')"
  using assms(1,3,4)
proof (induction "is" arbitrary: ph M)
  case Nil
  then show ?case by (auto simp: zero_pages_def intro: step_done_refl)
next
  case (Cons i "is")
  let ?v = "nth_page base i"
  obtain ph1 r1 where m: "map_fresh_page oc root base i w ph = Some (ph1, r1)"
      "card (free_set (frames ph)) \<le> card (free_set (frames ph1)) + 4"
      "case r1 of
         Inl e \<Rightarrow> page_added ph0 root M ph M ph1 \<and>
           (\<forall>B. user_exact root B ph M \<longrightarrow> ?v \<notin> dom M \<union> B \<longrightarrow> card (free_set (frames ph)) < 4)
       | Inr _ \<Rightarrow> \<exists>f. ?v \<notin> dom M \<and> page_added ph0 root M ph (M(?v \<mapsto> (f, w))) ph1 \<and>
           (\<forall>a. page_of a = ?v \<longrightarrow> vbyte ph1 (M(?v \<mapsto> (f, w))) a = Some 0)"
    using map_fresh_page_ok [OF Cons.prems(1) assms(2), of i oc w] Cons.prems(2) [of i] by auto
  have img: "nth_page base ` set (i # is) = {?v} \<union> nth_page base ` set is" "4 * length (i # is) = 4 + 4 * length is" by simp_all
  show ?case unfolding img
  proof (cases r1)
    case (Inl e)
    then have "step_done {?v} 4 ph0 root M ph M ph1 r1" using m(2,3) by (auto simp: step_done_def)
    then show "\<exists>ph' r M'. user_region_loop oc root base w (i # is) ph = Some (ph', r) \<and>
        step_done ({?v} \<union> nth_page base ` set is) (4 + 4 * length is) ph0 root M ph M' ph' r \<and>
        (r = Inr () \<longrightarrow> zero_pages w ({?v} \<union> nth_page base ` set is) M ph M' ph')"
      using m(1) Inl step_done_fail by fastforce
  next
    case (Inr u)
    then obtain f where f: "?v \<notin> dom M" "page_added ph0 root M ph (M(?v \<mapsto> (f, w))) ph1"
        "\<forall>a. page_of a = ?v \<longrightarrow> vbyte ph1 (M(?v \<mapsto> (f, w))) a = Some 0"
      using m(3) by auto
    let ?M1 = "M(?v \<mapsto> (f, w))"
    have s1: "step_done {?v} 4 ph0 root M ph ?M1 ph1 r1" using f(2) m(2) Inr by (auto simp: step_done_def)
    have ok1: "pages_ok ph0 root ph1 ?M1" using page_addedD(1) [OF f(2)] .
    have "distinct is" using Cons.prems(3) by simp
    moreover have "unat base + j * 4096 < 2 ^ 47" if "j \<in> set is" for j using Cons.prems(2) that by simp
    ultimately obtain ph2 r2 M2 where r2: "user_region_loop oc root base w is ph1 = Some (ph2, r2)"
        "step_done (nth_page base ` set is) (4 * length is) ph0 root ?M1 ph1 M2 ph2 r2"
        "r2 = Inr () \<longrightarrow> zero_pages w (nth_page base ` set is) ?M1 ph1 M2 ph2"
      using Cons.IH [OF ok1] by blast
    have "{?v} \<inter> nth_page base ` set is = {}"
      using nth_page_inj [OF assms(2), of i] Cons.prems(2,3) by fastforce
    then have sd: "step_done ({?v} \<union> nth_page base ` set is) (4 + 4 * length is) ph0 root M ph M2 ph2 r2"
      using step_done_seq [OF _ r2(2), of "{?v}" 4 M ph] s1 Inr by auto
    have "zero_pages w ({?v} \<union> nth_page base ` set is) M ph M2 ph2" if "r2 = Inr ()"
    proof -
      note z = r2(3) [rule_format, OF that, unfolded zero_pages_def]
      have "?M1 ?v = M2 ?v" using page_addedD(2) [OF step_doneD(1) [OF r2(2)]] by (simp add: map_le_def)
      then have "M2 ?v = Some (f, w)" by simp
      moreover have "vbyte ph2 M2 a = Some 0" if "page_of a = ?v" "a < 2 ^ 47" for a
        using page_addedD(5) [OF step_doneD(1) [OF r2(2)] that(2)] f(3) that by auto
      ultimately show ?thesis unfolding zero_pages_def using z f(1) by auto
    qed
    then show "\<exists>ph' r M'. user_region_loop oc root base w (i # is) ph = Some (ph', r) \<and>
        step_done ({?v} \<union> nth_page base ` set is) (4 + 4 * length is) ph0 root M ph M' ph' r \<and>
        (r = Inr () \<longrightarrow> zero_pages w ({?v} \<union> nth_page base ` set is) M ph M' ph')"
      using m(1) Inr r2(1) sd by auto
  qed
qed

lemma map_user_region_ok:
  assumes "pages_ok ph0 root ph M" "is_user_va base" "unat base + n * 4096 \<le> 2 ^ 47"
  shows "\<exists>ph' r M'. map_user_region oc root base n w ph = Some (ph', r) \<and>
    step_done (nth_page base ` {0..<n}) (4 * n) ph0 root M ph M' ph' r \<and>
    (r = Inr () \<longrightarrow> zero_pages w (nth_page base ` {0..<n}) M ph M' ph')"
proof -
  have "unat base + i * 4096 < 2 ^ 47" if "i \<in> set [0..<n]" for i using assms(3) that by auto
  then show ?thesis using user_region_loop_ok [OF assms(1,2), of "[0..<n]" oc w] assms(2) by (simp add: map_user_region_def)
qed

subsection \<open>Filling pages\<close>

definition same_tables :: "u64 \<Rightarrow> phys \<Rightarrow> phys \<Rightarrow> bool" where
  "same_tables root ph ph' \<longleftrightarrow> frames ph' = frames ph \<and> (\<forall>va. leaf_at (pmem ph') root va = leaf_at (pmem ph) root va) \<and>
     (\<forall>va. huge_on_path (pmem ph') root va = huge_on_path (pmem ph) root va)"

lemma same_tables_trans: "same_tables root ph ph1 \<Longrightarrow> same_tables root ph1 ph2 \<Longrightarrow> same_tables root ph ph2"
  by (simp add: same_tables_def)

lemma copy_page_ok:
  assumes "pages_ok ph0 root ph M" "M va = Some (f, w)" "k + length bs \<le> 4096"
  defines "ph' \<equiv> copy_bytes (f + of_nat k) bs ph"
  shows "pages_ok ph0 root ph' M" "same_tables root ph ph'"
    "vbyte ph' M a = (if page_of a = va \<and> k \<le> a mod 4096 \<and> a mod 4096 < k + length bs then Some (bs ! (a mod 4096 - k)) else vbyte ph M a)"
proof -
  note ok = pages_okD [OF assms(1)]
  note f = ok(3-7) [OF assms(2)]
  obtain j where j: "j < MAX_FRAMES" "unat f = j * 4096" using used_frame_addr [OF f(4)] by blast
  have "unat (f + of_nat k) = unat f + k"
    using j assms(3) unat_of_nat_small [of k, where 'a = 64] by (simp add: unat_word_ariths MAX_FRAMES_def)
  then have pm: "pmem ph' = store_bytes (pmem ph) (unat f + k) bs" by (simp add: ph'_def copy_bytes_def)
  have fr: "frames ph' = frames ph" by (simp add: ph'_def copy_bytes_def)
  have other: "pmem ph' (unat g + n) = pmem ph (unat g + n)" if "used_frame A g" "g \<noteq> f" "n < 4096" for A g n
    unfolding pm using frames_apart [OF that(1) f(4) that(2)] that(3) assms(3) by (intro store_bytes_other) auto
  have ent: "get_entry (pmem ph') g i = get_entry (pmem ph) g i" if "used_frame A g" "g \<noteq> f" "i < 512" for A g i
    unfolding get_entry_def
  proof (rule load64_cong)
    fix b assume b: "unat g + 8 * i \<le> b" "b < unat g + 8 * i + 8"
    then have "b = unat g + (b - unat g)" "b - unat g < 4096" using that(3) by linarith+
    then show "pmem ph' b = pmem ph b" using other [OF that(1,2), of "b - unat g"] by simp
  qed
  have tab: "used_frame (frames ph) g \<and> g \<noteq> f" if "table_path q" "table_at (pmem ph) root q = Some g" for q g
    using pt_invD(2) [OF ok(1) that] f(5) that by auto
  have tree: "table_at (pmem ph') root q = table_at (pmem ph) root q" if "table_path q" for q
    using that by (rule table_at_cong [rotated]) (use ent tab in blast)
  have leaf: "leaf_at (pmem ph') root v = leaf_at (pmem ph) root v" for v
    using tree [of "va_path v"] ent tab [of "va_path v"] by (intro leaf_at_cong) auto
  have inv: "pt_inv ph' root" unfolding pt_inv_def fr using tree pt_invD [OF ok(1)] by auto
  have nf: "g \<noteq> f" if "used_frame (frames ph0) g" for g using used_not_free [OF that] f(3) by auto
  have ext: "pt_ext {i. i < 256} ph0 ph' root"
    unfolding pt_ext_def fr
  proof (intro conjI allI impI)
    note e = pt_extD [OF ok(2)]
    show "free_set (frames ph) \<subseteq> free_set (frames ph0)" by (rule e(1))
    show "table_at (pmem ph') root q = Some t" if "table_path q" "table_at (pmem ph0) root q = Some t" for q t
      using tree e(2) that by simp
    show "table_at (pmem ph0) root q = Some t \<or> t \<in> free_frames ph0" if "table_path q" "table_at (pmem ph') root q = Some t" for q t
      using tree e(3) that by simp
    show "pmem ph' (unat g + n) = pmem ph0 (unat g + n)"
      if "used_frame (frames ph0) g" "\<forall>q. table_path q \<longrightarrow> table_at (pmem ph0) root q \<noteq> Some g" "n < 4096" for g n
      using e(4) [OF that(1) _ that(3)] that(2) other [OF that(1) nf [OF that(1)] that(3)] by simp
    show "pmem ph' (unat t + n) = pmem ph0 (unat t + n)"
      if "table_path q" "q \<noteq> []" "hd q \<notin> {i. i < 256}" "table_at (pmem ph0) root q = Some t" "n < 4096" for q t n
      using e(5) [OF that] other [OF _ _ that(5)] tab [OF that(1) e(2) [OF that(1,4)]] by metis
    show "get_entry (pmem ph') root i = get_entry (pmem ph0) root i \<or>
        i \<in> {i. i < 256} \<and> \<not> bit (get_entry (pmem ph0) root i) 0 \<and> (\<exists>f. get_entry (pmem ph') root i = MID_ENTRY f)" if "i < 512" for i
      using e(6) [OF that] ent [of "frames ph" root, OF _ _ that] tab [of "[]" root] by simp
  qed
  show "pages_ok ph0 root ph' M" unfolding pages_ok_def fr leaf using inv ext ok tree by auto
  have "huge_at (pmem ph') root (take i (va_path v)) (va_path v ! i) = huge_at (pmem ph) root (take i (va_path v)) (va_path v ! i)"
    if "i < 3" for i v
  proof (rule huge_at_cong)
    note p = va_path_split [OF that, of v]
    show "table_at (pmem ph') root (take i (va_path v)) = table_at (pmem ph) root (take i (va_path v))" using tree [OF p(1)] .
    show "get_entry (pmem ph') t (va_path v ! i) = get_entry (pmem ph) t (va_path v ! i)"
      if "table_at (pmem ph) root (take i (va_path v)) = Some t" for t
      using ent [OF _ _ p(3)] tab [OF p(1) that] by blast
  qed
  then show "same_tables root ph ph'" using fr leaf by (auto simp: same_tables_def huge_on_path_def)
  show "vbyte ph' M a = (if page_of a = va \<and> k \<le> a mod 4096 \<and> a mod 4096 < k + length bs then Some (bs ! (a mod 4096 - k)) else vbyte ph M a)"
  proof (cases "page_of a = va")
    case True
    then show ?thesis using assms(2) by (auto simp: vbyte_def pm store_bytes_def)
  next
    case False
    then have "g \<noteq> f" if "M (page_of a) = Some (g, w')" for g w' using ok(8) [OF that, of va w] assms(2) by auto
    then show ?thesis using False other [OF ok(6)] by (auto simp: vbyte_def split: option.split)
  qed
qed

lemma unat_page_of: "a < 2 ^ 47 \<Longrightarrow> unat (page_of a) = a div 4096 * 4096"
proof -
  assume a: "a < 2 ^ 47"
  have "a div 4096 * 4096 \<le> a" by simp
  then show ?thesis unfolding page_of_def using a by (intro unat_of_nat_small) simp
qed

lemma page_of_eq: "a < 2 ^ 47 \<Longrightarrow> b < 2 ^ 47 \<Longrightarrow> page_of a = page_of b \<longleftrightarrow> a div 4096 = b div 4096"
  by (metis div_mult_self_is_m unat_page_of zero_less_numeral word_unat_eq_iff)

lemma page_of_word: "unat va < 2 ^ 47 \<Longrightarrow> va AND page_mask = page_of (unat va)"
proof -
  have m: "page_mask = NOT (mask 12)" by (simp add: page_mask_def PAGE_SIZE_def mask_eq_exp_minus_1)
  show "unat va < 2 ^ 47 \<Longrightarrow> ?thesis"
    using unat_and_not_mask [of va 12] unfolding m by (simp add: word_unat_eq_iff unat_page_of)
qed

lemma page_of_is_user: "a < 2 ^ 47 \<Longrightarrow> is_user_va (page_of a)"
  using div_mult_mod_eq [of a 4096] by (simp add: is_user_va_iff unat_page_of)

lemma walk_page:
  assumes "pages_ok ph0 root ph M" "M va = Some (f, w)"
  shows "walk_to_phys (pmem ph) root va = Some f"
proof -
  have "unat f mod 4096 = 0" "unat f < 2 ^ 52"
    using used_frame_addr [OF pages_okD(6) [OF assms]] by (auto simp: MAX_FRAMES_def)
  then show ?thesis
    using walk_to_phys_leaf [OF pages_okD(4) [OF assms]] page_entry_value(1) [OF _ _ flag_bits_user] by simp
qed

lemma in_page_run:
  fixes a A c :: nat
  assumes "A mod 4096 + c \<le> 4096"
  shows "a div 4096 = A div 4096 \<and> A mod 4096 \<le> a mod 4096 \<and> a mod 4096 < A mod 4096 + c \<longleftrightarrow> A \<le> a \<and> a < A + c"
    "a div 4096 = A div 4096 \<Longrightarrow> a mod 4096 - A mod 4096 = a - A"
proof -
  have eq: "a = a div 4096 * 4096 + a mod 4096" "A = A div 4096 * 4096 + A mod 4096" by simp_all
  show "a div 4096 = A div 4096 \<Longrightarrow> a mod 4096 - A mod 4096 = a - A" using eq by linarith
  have "a div 4096 = A div 4096" if "A \<le> a" "a < A + c"
  proof (rule div_nat_eqI)
    show "4096 * (A div 4096) \<le> a" using that(1) eq(2) by linarith
    have "A + c \<le> 4096 * (A div 4096) + 4096" using eq(2) assms by linarith
    then show "a < 4096 * Suc (A div 4096)" using that(2) by simp
  qed
  moreover have "A mod 4096 \<le> a mod 4096 \<longleftrightarrow> A \<le> a" "a mod 4096 < A mod 4096 + c \<longleftrightarrow> a < A + c" if "a div 4096 = A div 4096"
    using eq that by (intro iffI; linarith)+
  ultimately show "a div 4096 = A div 4096 \<and> A mod 4096 \<le> a mod 4096 \<and> a mod 4096 < A mod 4096 + c \<longleftrightarrow> A \<le> a \<and> a < A + c"
    by blast
qed

lemma segment_copy_loop_ok:
  assumes "pages_ok ph0 root ph M" "unat vaddr + file_len \<le> 2 ^ 47" "file_off + file_len \<le> length data"
    and "\<And>a. unat vaddr \<le> a \<Longrightarrow> a < unat vaddr + file_len \<Longrightarrow> page_of a \<in> dom M" "copied \<le> file_len"
  shows "\<exists>ph'. segment_copy_loop oc root vaddr data file_off file_len copied ph = Some (ph', Inr ()) \<and> pages_ok ph0 root ph' M \<and>
    same_tables root ph ph' \<and> (\<forall>a < 2 ^ 47. vbyte ph' M a = (if unat vaddr + copied \<le> a \<and> a < unat vaddr + file_len
       then Some (data ! (file_off + (a - unat vaddr))) else vbyte ph M a))"
  using assms(1,5)
proof (induction "file_len - copied" arbitrary: copied ph rule: less_induct)
  case less
  show ?case
  proof (cases "copied < file_len")
    case False
    then have "segment_copy_loop oc root vaddr data file_off file_len copied ph = Some (ph, Inr ())"
      by (simp add: segment_copy_loop.simps)
    then show ?thesis using False less.prems by (auto simp: same_tables_def)
  next
    case True
    let ?A = "unat vaddr + copied"
    have small: "unat (of_nat copied :: u64) = copied" using True assms(2) by (intro unat_of_nat_small) simp
    define va where "va = vaddr + of_nat copied"
    have va: "add_ovf oc vaddr (of_nat copied) = Some va" "unat va = ?A"
      using small True assms(2) by (simp_all add: va_def unat_word_ariths)
    have A: "?A < 2 ^ 47" using True assms(2) by simp
    obtain f w where f: "M (page_of ?A) = Some (f, w)" using assms(4) [of ?A] True by auto
    have off: "unat (va AND (of_nat PAGE_SIZE - 1)) = ?A mod 4096"
      using unat_and_mask [of va 12] va(2) by (simp add: PAGE_SIZE_def mask_4095)
    define c where "c = min (file_len - copied) (4096 - ?A mod 4096)"
    have c: "0 < c" "copied + c \<le> file_len" "?A mod 4096 + c \<le> 4096" "file_len - (copied + c) < file_len - copied"
      using True mod_less_divisor [of 4096 ?A] by (auto simp: c_def min_def)
    let ?bs = "take c (drop (file_off + copied) data)"
    let ?ph = "copy_bytes (f + of_nat (?A mod 4096)) ?bs ph"
    have len: "length ?bs = c" using assms(3) c(2) by simp
    have walk: "walk_to_phys (pmem ph) root (va AND page_mask) = Some f"
      using walk_page [OF less.prems(1) f] page_of_word [of va] va(2) A by simp
    have sl: "slice data (file_off + copied) (file_off + copied + c) = Some ?bs" using assms(3) c(2) by simp
    have cc: "min (file_len - copied) (PAGE_SIZE - ?A mod 4096) = c" by (simp add: c_def PAGE_SIZE_def)
    have step: "segment_copy_loop oc root vaddr data file_off file_len copied ph =
        segment_copy_loop oc root vaddr data file_off file_len (copied + c) ?ph"
      using True va(1) walk off sl cc by (simp add: segment_copy_loop.simps [of oc root vaddr data file_off file_len copied] Let_def)
    note cp = copy_page_ok [OF less.prems(1) f, of "?A mod 4096" ?bs, unfolded len, OF c(3)]
    obtain ph' where ph': "segment_copy_loop oc root vaddr data file_off file_len (copied + c) ?ph = Some (ph', Inr ())"
        "pages_ok ph0 root ph' M" "same_tables root ?ph ph'" "\<And>a. a < 2 ^ 47 \<Longrightarrow> vbyte ph' M a = (if unat vaddr + (copied + c) \<le> a \<and> a < unat vaddr + file_len
           then Some (data ! (file_off + (a - unat vaddr))) else vbyte ?ph M a)"
      using less.hyps [OF c(4) cp(1) c(2)] by blast
    have "vbyte ?ph M a = (if ?A \<le> a \<and> a < ?A + c then Some (data ! (file_off + (a - unat vaddr))) else vbyte ph M a)"
      if a: "a < 2 ^ 47" for a
    proof -
      have "page_of a = page_of ?A \<and> ?A mod 4096 \<le> a mod 4096 \<and> a mod 4096 < ?A mod 4096 + c \<longleftrightarrow> ?A \<le> a \<and> a < ?A + c"
        using in_page_run(1) [OF c(3), of a] page_of_eq [OF a A] by simp
      moreover have "?bs ! (a mod 4096 - ?A mod 4096) = data ! (file_off + (a - unat vaddr))" if "?A \<le> a" "a < ?A + c"
        using in_page_run [OF c(3), of a] that len assms(3) by (simp add: add.assoc)
      ultimately show ?thesis using cp(3) [of a] by simp
    qed
    then have "vbyte ph' M a = (if ?A \<le> a \<and> a < unat vaddr + file_len then Some (data ! (file_off + (a - unat vaddr))) else vbyte ph M a)"
      if "a < 2 ^ 47" for a using ph'(4) [OF that] that c(2) by auto
    then show ?thesis using step ph'(1,2) same_tables_trans [OF cp(2) ph'(3)] by auto
  qed
qed

subsection \<open>Loading a segment\<close>

definition segment_loaded :: "bytes \<Rightarrow> ProgramHeader \<Rightarrow> page_map \<Rightarrow> phys \<Rightarrow> bool" where
  "segment_loaded data h M ph \<longleftrightarrow> (\<forall>k < unat (p_memsz h).
     vbyte ph M (unat (p_vaddr h) + k) = Some (if k < unat (p_filesz h) then data ! (unat (p_offset h) + k) else 0) \<and>
     (\<exists>f. M (page_of (unat (p_vaddr h) + k)) = Some (f, is_writable h)))"

lemma segment_loaded_mono:
  assumes "segment_loaded data h M ph" "page_added ph0 root M ph M' ph'" "load_ok data h"
  shows "segment_loaded data h M' ph'"
  unfolding segment_loaded_def
proof (intro allI impI)
  fix k assume k: "k < unat (p_memsz h)"
  let ?a = "unat (p_vaddr h) + k"
  obtain f where f: "M (page_of ?a) = Some (f, is_writable h)" using assms(1) k by (auto simp: segment_loaded_def)
  have "?a < 2 ^ 47" "page_of ?a \<in> dom M" using assms(3) k f by (auto simp: load_ok_def)
  then have "vbyte ph' M' ?a = vbyte ph M ?a" "M' (page_of ?a) = M (page_of ?a)"
    using assms(2) unfolding page_added_def map_le_def by metis+
  then show "vbyte ph' M' ?a = Some (if k < unat (p_filesz h) then data ! (unat (p_offset h) + k) else 0) \<and>
     (\<exists>f. M' (page_of ?a) = Some (f, is_writable h))"
    using assms(1) k f by (auto simp: segment_loaded_def)
qed

lemma nth_page_of:
  assumes "is_user_va base" "unat base + n * 4096 \<le> 2 ^ 47" "a < 2 ^ 47"
  shows "page_of a \<in> nth_page base ` {0..<n} \<longleftrightarrow> unat base \<le> a \<and> a < unat base + n * 4096"
proof -
  obtain q where q: "unat base = q * 4096" using assms(1) by (auto simp: is_user_va_iff dvd_def mod_eq_0_iff_dvd mult.commute)
  have u: "unat (nth_page base i) = (q + i) * 4096" if "i < n" for i
    using page_offset [OF assms(1), of i] that assms(2) q by (simp add: nth_page_def algebra_simps)
  have "page_of a = nth_page base i \<longleftrightarrow> a div 4096 = q + i" if "i < n" for i
    unfolding word_unat_eq_iff u [OF that] unat_page_of [OF assms(3)] by (simp only: mult_cancel2) simp
  then have "page_of a \<in> nth_page base ` {0..<n} \<longleftrightarrow> (\<exists>i < n. a div 4096 = q + i)"
    unfolding image_iff by (metis atLeastLessThan_iff le0)
  also have "\<dots> \<longleftrightarrow> q \<le> a div 4096 \<and> a div 4096 < q + n" by (auto intro!: exI [of _ "a div 4096 - q"])
  also have "\<dots> \<longleftrightarrow> q * 4096 \<le> a \<and> a < (q + n) * 4096"
    using less_eq_div_iff_mult_less_eq [of 4096 q a] div_less_iff_less_mult [of 4096 a "q + n"] by simp
  finally show ?thesis using q by (simp add: algebra_simps)
qed

lemma load_segment_size:
  assumes "load_ok data h"
  defines "n \<equiv> (unat (p_memsz h) + 4095) div 4096"
  shows "load_segment oc space h data ph =
    try_then (map_user_region oc space (p_vaddr h) n (is_writable h) ph)
      (\<lambda>_ ph. segment_copy_loop oc space (p_vaddr h) data (unat (p_offset h)) (unat (p_filesz h)) 0 ph)"
    "unat (p_vaddr h) + n * 4096 \<le> 2 ^ 47" "unat (p_memsz h) \<le> n * 4096"
proof -
  let ?v = "p_vaddr h" and ?m = "p_memsz h"
  have b: "unat ?v mod 4096 = 0" "unat ?v < 2 ^ 47" "unat ?v + unat ?m \<le> 2 ^ 47" using assms(1) by (auto simp: load_ok_def)
  then obtain q where q: "unat ?v = q * 4096" by (auto simp: dvd_def mod_eq_0_iff_dvd mult.commute)
  have mask: "page_mask = NOT (mask 12)" by (simp add: page_mask_def PAGE_SIZE_def mask_eq_exp_minus_1)
  define e where "e = ?v + ?m"
  have e: "add_ovf oc ?v ?m = Some e" "unat e = unat ?v + unat ?m" using b by (simp_all add: e_def unat_word_ariths)
  define r where "r = e + (of_nat PAGE_SIZE - 1)"
  have r: "add_ovf oc e (of_nat PAGE_SIZE - 1) = Some r" "unat r = unat ?v + unat ?m + 4095"
    using b e(2) by (simp_all add: r_def unat_word_ariths PAGE_SIZE_def)
  have start: "?v AND page_mask = ?v" using unat_and_not_mask [of ?v 12] b(1) q unfolding mask by (simp add: word_unat_eq_iff)
  have fin: "unat (r AND page_mask) = (q + n) * 4096"
  proof -
    have "unat r = (unat ?m + 4095) + q * 4096" using r(2) q by simp
    then have "unat r div 4096 = q + n" unfolding n_def by (simp only: div_mult_self1)
    then show ?thesis using unat_and_not_mask [of r 12] unfolding mask by simp
  qed
  show nb: "unat ?v + n * 4096 \<le> 2 ^ 47"
  proof -
    have "n \<le> 2 ^ 35 - q" unfolding n_def ceil_4096_le using b(3) q by (simp add: algebra_simps)
    moreover have "q \<le> 2 ^ 35" using b(2) q by simp
    ultimately have "(q + n) * 4096 \<le> 2 ^ 35 * 4096" by (intro mult_le_mono1) simp
    then show ?thesis using q by (simp add: algebra_simps)
  qed
  show "unat ?m \<le> n * 4096" using ceil_4096_le [of "unat ?m" n] by (simp add: n_def)
  have "sub_ovf oc (r AND page_mask) ?v = Some ((r AND page_mask) - ?v)" "unat ((r AND page_mask) - ?v) div PAGE_SIZE = n"
    using fin q by (simp_all add: unat_sub_if_size PAGE_SIZE_def)
  then show "load_segment oc space h data ph =
    try_then (map_user_region oc space (p_vaddr h) n (is_writable h) ph)
      (\<lambda>_ ph. segment_copy_loop oc space (p_vaddr h) data (unat (p_offset h)) (unat (p_filesz h)) 0 ph)"
    using e(1) r(1) start by (simp add: load_segment_def Let_def)
qed

definition segment_pages :: "ProgramHeader \<Rightarrow> u64 set" where
  "segment_pages h = nth_page (p_vaddr h) ` {0..<(unat (p_memsz h) + 4095) div 4096}"

definition segment_frames :: "ProgramHeader \<Rightarrow> nat" where
  "segment_frames h = 4 * ((unat (p_memsz h) + 4095) div 4096)"

lemma page_added_same_tables:
  assumes "page_added ph0 root M ph M1 ph1" "pages_ok ph0 root ph2 M1" "same_tables root ph1 ph2"
    and "\<And>a. a < 2 ^ 47 \<Longrightarrow> page_of a \<in> dom M \<Longrightarrow> vbyte ph2 M1 a = vbyte ph1 M1 a"
  shows "page_added ph0 root M ph M1 ph2"
  unfolding page_added_def
proof (intro conjI allI impI)
  note a = page_addedD [OF assms(1)]
  show "leaves_kept root ph ph2" using a(3) assms(3) by (simp add: leaves_kept_def same_tables_def)
  show "user_exact root B ph2 M1" if "user_exact root B ph M" for B
    using a(4) [OF that] assms(3) by (simp add: user_exact_def same_tables_def)
qed (use page_addedD [OF assms(1)] assms(2,4) in auto)

lemma load_segment_ok:
  assumes "pages_ok ph0 root ph M" "load_ok data h"
  shows "\<exists>ph' r M'. load_segment oc root h data ph = Some (ph', r) \<and>
    step_done (segment_pages h) (segment_frames h) ph0 root M ph M' ph' r \<and> (r = Inr () \<longrightarrow> segment_loaded data h M' ph')"
proof -
  define n where "n = (unat (p_memsz h) + 4095) div 4096"
  note sz = load_segment_size [OF assms(2), folded n_def]
  have h: "is_user_va (p_vaddr h)" "unat (p_filesz h) \<le> unat (p_memsz h)" "unat (p_offset h) + unat (p_filesz h) \<le> length data"
      "unat (p_vaddr h) + unat (p_memsz h) \<le> 2 ^ 47"
    using assms(2) by (auto simp: load_ok_def is_user_va_iff)
  have sp: "segment_pages h = nth_page (p_vaddr h) ` {0..<n}" "segment_frames h = 4 * n"
    by (simp_all add: segment_pages_def segment_frames_def n_def)
  obtain ph1 r1 M1 where m: "map_user_region oc root (p_vaddr h) n (is_writable h) ph = Some (ph1, r1)"
      "step_done (segment_pages h) (segment_frames h) ph0 root M ph M1 ph1 r1"
      "r1 = Inr () \<longrightarrow> zero_pages (is_writable h) (segment_pages h) M ph M1 ph1"
    unfolding sp using map_user_region_ok [OF assms(1) h(1) sz(2)] by blast
  show ?thesis
  proof (cases r1)
    case (Inl e)
    then show ?thesis using m sz(1) by auto
  next
    case (Inr u)
    then have z: "zero_pages (is_writable h) (segment_pages h) M ph M1 ph1" using m(3) by simp
    have pg: "page_of a \<in> segment_pages h" if "unat (p_vaddr h) \<le> a" "a < unat (p_vaddr h) + unat (p_memsz h)" for a
      unfolding sp using nth_page_of [OF h(1) sz(2), of a] that h(4) sz(3) by simp
    note ok1 = page_addedD(1) [OF step_doneD(1) [OF m(2)]]
    obtain ph2 where c: "segment_copy_loop oc root (p_vaddr h) data (unat (p_offset h)) (unat (p_filesz h)) 0 ph1 = Some (ph2, Inr ())"
        "pages_ok ph0 root ph2 M1" "same_tables root ph1 ph2"
        "\<forall>a < 2 ^ 47. vbyte ph2 M1 a = (if unat (p_vaddr h) + 0 \<le> a \<and> a < unat (p_vaddr h) + unat (p_filesz h)
           then Some (data ! (unat (p_offset h) + (a - unat (p_vaddr h)))) else vbyte ph1 M1 a)"
      using segment_copy_loop_ok [OF ok1, of "p_vaddr h" "unat (p_filesz h)" "unat (p_offset h)" data 0 oc] h pg z
      by (fastforce simp: zero_pages_def)
    have "vbyte ph2 M1 a = vbyte ph1 M1 a" if "a < 2 ^ 47" "page_of a \<in> dom M" for a
    proof -
      have "page_of a \<notin> segment_pages h" using z that(2) unfolding zero_pages_def by blast
      then have "\<not> (unat (p_vaddr h) \<le> a \<and> a < unat (p_vaddr h) + unat (p_filesz h))" using pg [of a] h(2) by auto
      then show ?thesis using c(4) that by auto
    qed
    then have "page_added ph0 root M ph M1 ph2" by (rule page_added_same_tables [OF step_doneD(1) [OF m(2)] c(2,3)])
    then have "step_done (segment_pages h) (segment_frames h) ph0 root M ph M1 ph2 (Inr () :: ProcessError + unit)"
      using step_doneD(2,3) [OF m(2)] c(3) by (simp add: step_done_def same_tables_def)
    moreover have "segment_loaded data h M1 ph2"
      unfolding segment_loaded_def
    proof (intro allI impI)
      fix k assume k: "k < unat (p_memsz h)"
      let ?a = "unat (p_vaddr h) + k"
      have a: "?a < 2 ^ 47" "page_of ?a \<in> segment_pages h" using k h(4) pg [of ?a] by simp_all
      then have "vbyte ph1 M1 ?a = Some 0" "\<exists>f. M1 (page_of ?a) = Some (f, is_writable h)" using z unfolding zero_pages_def by blast+
      then show "vbyte ph2 M1 ?a = Some (if k < unat (p_filesz h) then data ! (unat (p_offset h) + k) else 0) \<and>
         (\<exists>f. M1 (page_of ?a) = Some (f, is_writable h))"
        using c(4) a(1) by simp
    qed
    ultimately show ?thesis using sz(1) m(1) Inr c(1) by auto
  qed
qed

end
