(* ===== verification/ProcessSpawn.thy ===== *)
theory ProcessSpawn
  imports UserPages
begin

text \<open>
  The spawn functions of \<^verbatim>\<open>src/src/process.rs\<close>: what a new address space starts from, what a
  spawned program finds in its memory, and what spawning leaves alone.
\<close>

subsection \<open>A new address space\<close>

lemma inherit_loop_bytes:
  assumes "used_frame a root" "used_frame a' g" "g \<noteq> root" "\<forall>i \<in> set is. i < 512" "k < 4096"
  shows "pmem (inherit_loop root from is ph) (unat g + k) = pmem ph (unat g + k)"
  using assms(4)
proof (induction "is" arbitrary: ph)
  case (Cons i "is")
  then show ?case using set_entry_bytes [OF assms(1-3) _ assms(5)] by simp
qed simp

lemma inherit_loop_entries:
  assumes "used_frame a root" "used_frame a' from" "from \<noteq> root" "\<forall>i \<in> set is. i < 512" "k < 512"
  shows "get_entry (pmem (inherit_loop root from is ph)) root k =
    (if k \<in> set is then get_entry (pmem ph) from k else get_entry (pmem ph) root k)"
  using assms(4)
proof (induction "is" arbitrary: ph)
  case (Cons i "is")
  let ?ph = "set_entry root i (get_entry (pmem ph) from i) ph"
  have "get_entry (pmem ?ph) from k = get_entry (pmem ph) from k"
    using Cons.prems assms by (intro get_set_other [OF assms(1,2)]) auto
  moreover have "i \<noteq> k \<Longrightarrow> get_entry (pmem ?ph) root k = get_entry (pmem ph) root k"
    using Cons.prems assms by (intro get_set_other [OF assms(1,1)]) auto
  ultimately show ?case using Cons by auto
qed simp

lemma inherit_loop_frames [simp]: "frames (inherit_loop root from is ph) = frames ph"
  by (induction "is" arbitrary: ph) (simp_all add: set_entry_def)

text \<open>
  The state in which the construction of a space with root table \<open>root\<close> begins, seen from the state
  \<open>ph\<close> before: the root was a free frame, its upper half has the kernel's entries, its lower half is
  empty, and every frame in use keeps its bytes.
\<close>

definition space_started :: "phys \<Rightarrow> u64 \<Rightarrow> phys \<Rightarrow> u64 \<Rightarrow> bool" where
  "space_started ph kroot ph1 root \<longleftrightarrow> pt_inv ph1 root \<and> root \<in> free_frames ph \<and> free_set (frames ph1) \<subseteq> free_set (frames ph) \<and>
     (\<forall>g k. used_frame (frames ph) g \<longrightarrow> k < 4096 \<longrightarrow> pmem ph1 (unat g + k) = pmem ph (unat g + k)) \<and>
     (\<forall>q t. table_path q \<longrightarrow> q \<noteq> [] \<longrightarrow> table_at (pmem ph1) root q = Some t \<longrightarrow> 256 \<le> hd q) \<and>
     (\<forall>i < 512. get_entry (pmem ph1) root i = (if i < 256 then 0 else get_entry (pmem ph) kroot i)) \<and>
     user_exact root {} ph1 Map.empty"

text \<open>A root table with an empty lower half and the upper half of the kernel's, and no other frame in use touched.\<close>

definition kernel_half_copied :: "phys \<Rightarrow> u64 \<Rightarrow> phys \<Rightarrow> u64 \<Rightarrow> bool" where
  "kernel_half_copied ph kroot ph1 root \<longleftrightarrow>
     (\<forall>g k. used_frame (frames ph) g \<longrightarrow> k < 4096 \<longrightarrow> pmem ph1 (unat g + k) = pmem ph (unat g + k)) \<and>
     (\<forall>i < 512. get_entry (pmem ph1) root i = (if i < 256 then 0 else get_entry (pmem ph) kroot i))"

lemma inherit_copies:
  assumes "pt_inv ph kroot" "j \<in> free_set (frames ph)" "free_set a = free_set (frames ph) - {j}"
  defines "root \<equiv> frame_addr j"
  shows "kernel_half_copied ph kroot (inherit_kernel_mappings root kroot \<lparr>pmem = secure_zero (pmem ph) (j * 4096) 4096, frames = a\<rparr>) root"
    (is "kernel_half_copied ph kroot ?ph1 root")
proof -
  define phA where "phA = \<lparr>pmem = secure_zero (pmem ph) (j * 4096) 4096, frames = a\<rparr>"
  have jb: "j < MAX_FRAMES" using free_set_bound [OF assms(2)] .
  have free: "root \<in> free_frames ph" using assms(2) by (auto simp: free_frames_def root_def)
  have ur: "used_frame a root" using jb assms(3) by (auto simp: used_frame_def root_def)
  have uk: "used_frame (frames ph) kroot" using pt_invD(2) [OF assms(1), of "[]"] by simp
  have nf: "g \<noteq> root" if "used_frame (frames ph) g" for g using used_not_free [OF that] free by auto
  have ix: "\<forall>i \<in> set [256..<TABLE_ENTRIES]. i < 512"
    unfolding set_upt atLeastLessThan_iff TABLE_ENTRIES_def by auto
  have "pmem ?ph1 (unat g + k) = pmem ph (unat g + k)" if "used_frame (frames ph) g" "k < 4096" for g k
  proof -
    have "pmem ?ph1 (unat g + k) = pmem phA (unat g + k)"
      unfolding inherit_kernel_mappings_def phA_def [symmetric]
      using inherit_loop_bytes [OF ur that(1) nf [OF that(1)] ix that(2)] by simp
    then show ?thesis using frame_zero_bytes [OF that(1) assms(2) that(2)] by (simp add: phA_def)
  qed
  moreover have "get_entry (pmem ?ph1) root i = (if i < 256 then 0 else get_entry (pmem ph) kroot i)" if "i < 512" for i
  proof -
    have "get_entry (pmem ?ph1) root i = (if i \<in> set [256..<TABLE_ENTRIES] then get_entry (pmem phA) kroot i else get_entry (pmem phA) root i)"
      unfolding inherit_kernel_mappings_def phA_def [symmetric]
      using inherit_loop_entries [OF ur uk nf [OF uk] ix that] by simp
    moreover have "get_entry (pmem phA) root i = 0"
      using frame_zero_entry [OF that, of "pmem ph" root] unat_frame_addr [OF jb] by (simp add: phA_def root_def)
    moreover have "get_entry (pmem phA) kroot i = get_entry (pmem ph) kroot i"
      using frame_zero_other [OF uk assms(2) that] by (simp add: phA_def)
    moreover have "i \<in> set [256..<TABLE_ENTRIES] \<longleftrightarrow> \<not> i < 256"
      unfolding set_upt atLeastLessThan_iff TABLE_ENTRIES_def using that by auto
    ultimately show ?thesis by simp
  qed
  ultimately show ?thesis by (simp add: kernel_half_copied_def)
qed

lemma copied_entry:
  assumes "kernel_half_copied ph kroot ph1 root" "used_frame (frames ph) g" "k < 512"
  shows "get_entry (pmem ph1) g k = get_entry (pmem ph) g k"
  unfolding get_entry_def
proof (rule load64_cong)
  fix b assume b: "unat g + 8 * k \<le> b" "b < unat g + 8 * k + 8"
  then have "b = unat g + (b - unat g)" "b - unat g < 4096" using assms(3) by linarith+
  then show "pmem ph1 b = pmem ph b" using assms(1,2) unfolding kernel_half_copied_def by metis
qed

lemma copied_tree:
  assumes "pt_inv ph kroot" "kernel_half_copied ph kroot ph1 root" "table_path (i # q)"
  shows "table_at (pmem ph1) root (i # q) = (if i < 256 then None else table_at (pmem ph) kroot (i # q))"
  using assms(3)
proof (induction q rule: rev_induct)
  case Nil
  then have "get_entry (pmem ph1) root i = (if i < 256 then 0 else get_entry (pmem ph) kroot i)"
    using assms(2) by (simp add: kernel_half_copied_def table_path_def)
  then show ?case by (simp add: next_table_def Let_def split: option.split)
next
  case (snoc k q)
  then have p: "table_path (i # q)" "k < 512" by (auto simp: table_path_def)
  have "next_table (pmem ph1) t k = next_table (pmem ph) t k" if "table_at (pmem ph) kroot (i # q) = Some t" for t
    using copied_entry [OF assms(2) pt_invD(2) [OF assms(1) p(1) that] p(2)] by (simp add: next_table_def)
  then show ?case
    using snoc.IH [OF p(1)] table_at_snoc [of "pmem ph1" root "i # q" k] table_at_snoc [of "pmem ph" kroot "i # q" k]
    by (simp split: option.split)
qed

lemma copied_table:
  assumes "pt_inv ph kroot" "kernel_half_copied ph kroot ph1 root" "table_path q" "q \<noteq> []" "table_at (pmem ph1) root q = Some t"
  shows "256 \<le> hd q" "table_at (pmem ph) kroot q = Some t"
  using assms(3-5) copied_tree [OF assms(1,2), of "hd q" "tl q"] by (auto split: if_splits)

lemma copied_inv:
  assumes "pt_inv ph kroot" "kernel_half_copied ph kroot ph1 root" "root \<in> free_frames ph"
    and "alloc_inv (frames ph1)" "free_set (frames ph1) \<subseteq> free_set (frames ph)" "used_frame (frames ph1) root"
  shows "pt_inv ph1 root"
  unfolding pt_inv_def
proof (intro conjI allI impI)
  note kern = copied_table(2) [OF assms(1,2)]
  fix q t assume q: "table_path q" "table_at (pmem ph1) root q = Some t"
  show "used_frame (frames ph1) t"
    using q kern [of q t] pt_invD(2) [OF assms(1), of q t] used_frame_mono [of "frames ph" t "frames ph1"] assms(5,6) by (cases "q = []") auto
  fix r assume r: "table_path r" "table_at (pmem ph1) root r = Some t"
  have nr: "t \<noteq> root" if "table_path p" "p \<noteq> []" "table_at (pmem ph1) root p = Some t" for p
    using used_not_free [OF pt_invD(2) [OF assms(1) that(1) kern [OF that]]] assms(3) by auto
  show "q = r"
  proof (cases "q = [] \<or> r = []")
    case True
    then have "t = root" using q(2) r(2) by auto
    then show ?thesis using nr [OF q(1) _ q(2)] nr [OF r(1) _ r(2)] by blast
  next
    case False
    then show ?thesis using pt_invD(3) [OF assms(1) q(1) r(1) kern [OF q(1) _ q(2)] kern [OF r(1) _ r(2)]] by blast
  qed
qed (rule assms(4))

lemma copied_user_empty:
  assumes "pt_inv ph kroot" "kernel_half_copied ph kroot ph1 root"
  shows "user_exact root {} ph1 Map.empty"
  unfolding user_exact_def
proof (intro allI impI conjI)
  fix va assume "is_user_va va"
  then have ix: "table_index va 4 < 256" using user_root_index by (simp add: is_user_va_iff)
  have none: "table_at (pmem ph1) root (table_index va 4 # q) = None" if "table_path (table_index va 4 # q)" for q
    using copied_tree [OF assms that] ix by simp
  have "leaf_at (pmem ph1) root va = None"
    using none [of "tl (va_path va)"] table_path_simps(2) [of va] by (simp add: leaf_at_def va_path_def)
  then show "va \<in> dom Map.empty \<union> {}" if "leaf_at (pmem ph1) root va \<noteq> None" using that by simp
  have "\<not> huge_at (pmem ph1) root (take k (va_path va)) (va_path va ! k)" if "k < 3" for k
  proof (cases k)
    case 0
    then show ?thesis using assms(2) ix by (simp add: kernel_half_copied_def huge_at_def va_path_take)
  next
    case (Suc k')
    then have "take k (va_path va) = table_index va 4 # take k' (tl (va_path va))" by (simp add: va_path_def)
    then show ?thesis using none va_path_split(1) [OF that, of va] by (simp add: huge_at_def)
  qed
  then show "\<not> huge_on_path (pmem ph1) root va" by (auto simp: huge_on_path_def)
qed

lemma inherited_space:
  assumes "pt_inv ph kroot" "j \<in> free_set (frames ph)" "alloc_inv a" "free_set a = free_set (frames ph) - {j}"
  defines "root \<equiv> frame_addr j"
  defines "ph1 \<equiv> inherit_kernel_mappings root kroot \<lparr>pmem = secure_zero (pmem ph) (j * 4096) 4096, frames = a\<rparr>"
  shows "space_started ph kroot ph1 root"
proof -
  have fr: "frames ph1 = a" by (simp add: ph1_def inherit_kernel_mappings_def)
  have free: "root \<in> free_frames ph" using assms(2) by (auto simp: free_frames_def root_def)
  have ur: "used_frame a root" using free_set_bound [OF assms(2)] assms(4) by (auto simp: used_frame_def root_def)
  have copied: "kernel_half_copied ph kroot ph1 root" unfolding ph1_def root_def by (rule inherit_copies [OF assms(1,2,4)])
  have "pt_inv ph1 root" by (rule copied_inv [OF assms(1) copied free]) (use fr ur assms(3,4) in auto)
  then show ?thesis
    unfolding space_started_def fr using free copied_user_empty [OF assms(1) copied] copied_table(1) [OF assms(1) copied] copied assms(4)
    by (auto simp: kernel_half_copied_def)
qed

lemma space_untouched:
  assumes "space_started ph kroot ph1 root" "pt_ext {i. i < 256} ph1 ph' root" "used_frame (frames ph) g" "k < 4096"
  shows "pmem ph' (unat g + k) = pmem ph (unat g + k)"
proof -
  have st: "root \<in> free_frames ph" "free_set (frames ph1) \<subseteq> free_set (frames ph)" "pmem ph1 (unat g + k) = pmem ph (unat g + k)"
      "\<And>q t. table_path q \<Longrightarrow> q \<noteq> [] \<Longrightarrow> table_at (pmem ph1) root q = Some t \<Longrightarrow> 256 \<le> hd q"
    using assms(1,3,4) unfolding space_started_def by simp_all
  have "g \<noteq> root" using used_not_free [OF assms(3)] st(1) by auto
  show ?thesis
  proof (cases "\<exists>q. table_path q \<and> table_at (pmem ph1) root q = Some g")
    case True
    then obtain q where q: "table_path q" "table_at (pmem ph1) root q = Some g" by blast
    then have "q \<noteq> []" using \<open>g \<noteq> root\<close> by auto
    then show ?thesis using pt_extD(5) [OF assms(2) q(1) _ _ q(2) assms(4)] st(3) st(4) [OF q(1) _ q(2)] by simp
  next
    case False
    then show ?thesis
      using pt_extD(4) [OF assms(2) used_frame_mono [OF assms(3) st(2)] _ assms(4)] st(3) by simp
  qed
qed

definition stack_mapped :: "u64 \<Rightarrow> u64 \<Rightarrow> nat set \<Rightarrow> phys \<Rightarrow> bool" where
  "stack_mapped root bottom I ph \<longleftrightarrow> (\<forall>i \<in> I. leaf_at (pmem ph) root (nth_page bottom i) = Some (page_entry (nth_page bottom i) MID_FLAGS))"

lemma exact_joins:
  assumes "user_exact root B ph M" "is_user_va va"
    and "\<And>va'. leaf_at (pmem ph') root va' = (if same_page va va' then Some e else leaf_at (pmem ph) root va')"
    and "\<And>va'. huge_on_path (pmem ph') root va' = huge_on_path (pmem ph) root va'"
  shows "user_exact root (insert va B) ph' M"
  unfolding user_exact_def
proof (intro allI impI conjI)
  fix v assume v: "is_user_va v"
  show "\<not> huge_on_path (pmem ph') root v" using assms(1,4) v by (simp add: user_exact_def)
  show "v \<in> dom M \<union> insert va B" if "leaf_at (pmem ph') root v \<noteq> None"
    using that assms(1) v assms(3) [of v] same_page_user [OF assms(2) v] by (cases "same_page va v") (auto simp: user_exact_def)
qed

lemma boot_stack_loop_ok:
  assumes "pages_ok ph1 root ph Map.empty" "\<And>i. i \<in> set is \<Longrightarrow> unat bottom + i * 4096 < 2 ^ 47" "distinct is"
  shows "\<exists>ph' r. boot_stack_loop oc root bottom is ph = Some (ph', r) \<and> pages_ok ph1 root ph' Map.empty \<and> leaves_kept root ph ph' \<and>
    card (free_set (frames ph)) \<le> card (free_set (frames ph')) + 3 * length is \<and>
    (r = Inr () \<longrightarrow> stack_mapped root bottom (set is) ph' \<and>
       (\<forall>B. is_user_va bottom \<longrightarrow> user_exact root B ph Map.empty \<longrightarrow> user_exact root (B \<union> nth_page bottom ` set is) ph' Map.empty)) \<and>
    (\<forall>e B. r = Inl e \<longrightarrow> is_user_va bottom \<longrightarrow> user_exact root B ph Map.empty \<longrightarrow> B \<inter> nth_page bottom ` set is = {} \<longrightarrow>
       card (free_set (frames ph)) < 3 * length is)"
  using assms
proof (induction "is" arbitrary: ph)
  case Nil
  then show ?case by (simp add: leaves_kept_def stack_mapped_def)
next
  case (Cons i "is")
  let ?va = "nth_page bottom i"
  have small: "unat (of_nat (i * 4096) :: u64) = i * 4096" using Cons.prems(2) [of i] by (intro unat_of_nat_small) simp
  have va: "add_ovf oc bottom (of_nat i * of_nat PAGE_SIZE) = Some ?va" "unat ?va = unat bottom + i * 4096"
    using small Cons.prems(2) [of i] by (simp_all add: nth_page_def PAGE_SIZE_def unat_word_ariths)
  have uva: "is_user_va ?va" if "is_user_va bottom" using page_offset [OF that, of i] Cons.prems(2) [of i] by (simp add: nth_page_def)
  have H: "{table_index ?va 4} \<subseteq> {i. i < 256}" using user_root_index [of ?va] va(2) Cons.prems(2) [of i] by simp
  have fl: "PRESENT OR WRITABLE OR NO_EXECUTE = MID_FLAGS" by (simp add: MID_FLAGS_def)
  show ?case
  proof (cases rule: map_page_cases [OF pages_okD(1) [OF Cons.prems(1)], where oc = oc and va = ?va and pa = ?va
        and flags = MID_FLAGS, case_names mapped refused])
    case (mapped ph2)
    have ok: "pages_ok ph1 root ph2 Map.empty" using pages_ok_ext(1) [OF Cons.prems(1) mapped(2,3) H] by simp
    have kept: "leaves_kept root ph ph2"
      unfolding leaves_kept_def using mapped(4,5) leaf_at_same_page by (metis option.distinct(1))
    have "unat bottom + j * 4096 < 2 ^ 47" if "j \<in> set is" for j using Cons.prems(2) that by simp
    then obtain ph' r where ih: "boot_stack_loop oc root bottom is ph2 = Some (ph', r)" "pages_ok ph1 root ph' Map.empty"
        "leaves_kept root ph2 ph'" "card (free_set (frames ph2)) \<le> card (free_set (frames ph')) + 3 * length is"
        "r = Inr () \<longrightarrow> stack_mapped root bottom (set is) ph' \<and>
           (\<forall>B. is_user_va bottom \<longrightarrow> user_exact root B ph2 Map.empty \<longrightarrow> user_exact root (B \<union> nth_page bottom ` set is) ph' Map.empty)"
        "\<forall>e B. r = Inl e \<longrightarrow> is_user_va bottom \<longrightarrow> user_exact root B ph2 Map.empty \<longrightarrow> B \<inter> nth_page bottom ` set is = {} \<longrightarrow>
           card (free_set (frames ph2)) < 3 * length is"
      using Cons.IH [OF ok] Cons.prems(3) by auto
    have leaf: "leaf_at (pmem ph') root ?va = Some (page_entry ?va MID_FLAGS)"
      using ih(3) mapped(5) [of ?va] by (simp add: leaves_kept_def same_page_def)
    have grown: "user_exact root (insert ?va B) ph2 Map.empty" if "is_user_va bottom" "user_exact root B ph Map.empty" for B
      using exact_joins [OF that(2) uva [OF that(1)] mapped(5,6)] .
    have new: "?va \<notin> nth_page bottom ` set is" if "is_user_va bottom"
      using nth_page_inj [OF that, of i] Cons.prems(2,3) by fastforce
    have call: "boot_stack_loop oc root bottom (i # is) ph = Some (ph', r)" using va(1) mapped(1) ih(1) by (simp add: map_err_def fl)
    have cnt: "card (free_set (frames ph)) \<le> card (free_set (frames ph')) + 3 * length (i # is)" using mapped(7) ih(4) by simp
    have fin: "stack_mapped root bottom (set (i # is)) ph'" "is_user_va bottom \<Longrightarrow> user_exact root B ph Map.empty \<Longrightarrow>
        user_exact root (B \<union> nth_page bottom ` set (i # is)) ph' Map.empty" if "r = Inr ()" for B
      using ih(5) that leaf grown [of B] by (auto simp: stack_mapped_def)
    have "card (free_set (frames ph)) < 3 * length (i # is)"
      if e: "r = Inl e" "is_user_va bottom" "user_exact root B ph Map.empty" "B \<inter> nth_page bottom ` set (i # is) = {}" for e B
    proof -
      have "insert ?va B \<inter> nth_page bottom ` set is = {}" using e(4) new [OF e(2)] by auto
      then have "card (free_set (frames ph2)) < 3 * length is" using ih(6) e(1,2) grown [OF e(2,3)] by blast
      then show ?thesis using mapped(7) by simp
    qed
    then show ?thesis using call ih(2) leaves_kept_trans [OF kept ih(3)] cnt fin by blast
  next
    case (refused ph2 e)
    have "pages_ok ph1 root ph2 Map.empty" using pages_ok_ext(1) [OF Cons.prems(1) refused(2,3) H] by simp
    moreover have "card (free_set (frames ph)) < 3 + 3 * length is"
      if "is_user_va bottom" "user_exact root B ph Map.empty" "?va \<notin> B" for B
    proof -
      have "leaf_at (pmem ph) root ?va = None" "\<not> huge_on_path (pmem ph) root ?va"
        using that uva by (auto simp: user_exact_def)
      then have "card (free_set (frames ph)) < 3" using refused(7) uva [OF that(1)]
        by (cases e) (auto simp: is_user_va_iff MID_FLAGS_def flags_contain_consts bit_or_iff bit_flag_consts)
      then show ?thesis by simp
    qed
    ultimately show ?thesis using va(1) refused(1,4,6) by (auto simp: map_err_def fl leaves_kept_def)
  qed
qed

definition untouched :: "phys \<Rightarrow> phys \<Rightarrow> bool" where
  "untouched ph ph' \<longleftrightarrow> (\<forall>g k. used_frame (frames ph) g \<longrightarrow> k < 4096 \<longrightarrow> pmem ph' (unat g + k) = pmem ph (unat g + k))"

definition boot_pages :: "u64 \<times> u64 \<Rightarrow> nat" where
  "boot_pages bs = (unat (snd bs) - unat (fst bs)) div 4096"

definition boot_stack_ok :: "u64 \<times> u64 \<Rightarrow> bool" where
  "boot_stack_ok bs \<longleftrightarrow> unat (fst bs) \<le> unat (snd bs) \<and> unat (snd bs) < 2 ^ 47"

lemma started_untouched: "space_started ph kroot ph1 root \<Longrightarrow> pages_ok ph1 root ph' M \<Longrightarrow> untouched ph ph'"
  unfolding untouched_def using space_untouched pages_okD(2) by blast

lemma alloc_user_address_space_ok:
  assumes "pt_inv ph kroot" "boot_stack_ok bs"
  shows "\<exists>ph' r. alloc_user_address_space oc bs kroot ph = Some (ph', r) \<and> untouched ph ph' \<and>
    card (free_set (frames ph)) \<le> card (free_set (frames ph')) + (1 + 3 * boot_pages bs) \<and>
    (\<forall>root. r = Inr root \<longrightarrow> (\<exists>ph1. space_started ph kroot ph1 root \<and> pages_ok ph1 root ph' Map.empty \<and>
       stack_mapped root (fst bs) {0..<boot_pages bs} ph' \<and>
       (is_user_va (fst bs) \<longrightarrow> user_exact root (nth_page (fst bs) ` {0..<boot_pages bs}) ph' Map.empty))) \<and>
    (\<forall>e. r = Inl e \<longrightarrow> is_user_va (fst bs) \<longrightarrow> card (free_set (frames ph)) < 1 + 3 * boot_pages bs)"
proof (cases "free_set (frames ph) = {}")
  case True
  then show ?thesis
    using alloc_frame_none [OF pt_invD(1) [OF assms(1)] True, of oc] by (simp add: alloc_user_address_space_def untouched_def)
next
  case False
  obtain j a where j: "j \<in> free_set (frames ph)" "alloc_inv a" "free_set a = free_set (frames ph) - {j}"
      "alloc_frame oc ph = Some (\<lparr>pmem = secure_zero (pmem ph) (j * 4096) 4096, frames = a\<rparr>, Some (frame_addr j))"
    using alloc_frame_some [OF pt_invD(1) [OF assms(1)] False, of oc] by blast
  define root where "root = frame_addr j"
  define ph1 where "ph1 = inherit_kernel_mappings root kroot \<lparr>pmem = secure_zero (pmem ph) (j * 4096) 4096, frames = a\<rparr>"
  have st: "space_started ph kroot ph1 root" using inherited_space [OF assms(1) j(1-3)] by (simp add: root_def ph1_def)
  then have ok: "pages_ok ph1 root ph1 Map.empty" "user_exact root {} ph1 Map.empty"
    by (simp_all add: space_started_def pages_ok_def)
  have cnt: "card (free_set (frames ph)) = card (free_set (frames ph1)) + 1"
    using j(3) card_Suc_Diff1 [OF finite_free_set j(1)] by (simp add: ph1_def inherit_kernel_mappings_def)
  define bottom top_va where bt: "bottom = fst bs" "top_va = snd bs"
  have b: "unat bottom \<le> unat top_va" "unat top_va < 2 ^ 47" using assms(2) by (simp_all add: boot_stack_ok_def bt)
  let ?n = "boot_pages bs"
  have n: "?n = (unat top_va - unat bottom) div PAGE_SIZE" by (simp add: boot_pages_def PAGE_SIZE_def bt)
  have len: "sub_ovf oc top_va bottom = Some (top_va - bottom)" "unat (top_va - bottom) = unat top_va - unat bottom"
    using b(1) by (simp_all add: unat_sub word_le_nat_alt)
  have call: "alloc_user_address_space oc bs kroot ph =
      try_then (boot_stack_loop oc root bottom [0..<?n] ph1) (\<lambda>_ ph. Some (ph, Inr root))"
    using j(4) unat_frame_addr [OF free_set_bound [OF j(1)]] len
    by (simp add: alloc_user_address_space_def map_boot_stack_identity_def root_def ph1_def n PAGE_SIZE_def Let_def prod.case_eq_if flip: bt)
  have "unat bottom + i * 4096 < 2 ^ 47" if "i \<in> set [0..<?n]" for i
  proof -
    have "i * 4096 < ?n * 4096" using that by simp
    moreover have "?n * 4096 \<le> unat top_va - unat bottom" by (simp add: n PAGE_SIZE_def)
    ultimately show ?thesis using b by linarith
  qed
  then obtain ph' r where l: "boot_stack_loop oc root bottom [0..<?n] ph1 = Some (ph', r)" "pages_ok ph1 root ph' Map.empty"
      "card (free_set (frames ph1)) \<le> card (free_set (frames ph')) + 3 * ?n"
      "r = Inr () \<longrightarrow> stack_mapped root bottom {0..<?n} ph' \<and>
         (\<forall>B. is_user_va bottom \<longrightarrow> user_exact root B ph1 Map.empty \<longrightarrow> user_exact root (B \<union> nth_page bottom ` {0..<?n}) ph' Map.empty)"
      "\<forall>e B. r = Inl e \<longrightarrow> is_user_va bottom \<longrightarrow> user_exact root B ph1 Map.empty \<longrightarrow> B \<inter> nth_page bottom ` {0..<?n} = {} \<longrightarrow>
         card (free_set (frames ph1)) < 3 * ?n"
    using boot_stack_loop_ok [OF ok(1), of "[0..<?n]" bottom oc] by auto
  note unt = started_untouched [OF st l(2)]
  show ?thesis unfolding call bt(1) [symmetric]
  proof (cases r)
    case (Inl e)
    then show "\<exists>ph' r. try_then (boot_stack_loop oc root bottom [0..<?n] ph1) (\<lambda>_ ph. Some (ph, Inr root)) = Some (ph', r) \<and> untouched ph ph' \<and>
        card (free_set (frames ph)) \<le> card (free_set (frames ph')) + (1 + 3 * ?n) \<and>
        (\<forall>root. r = Inr root \<longrightarrow> (\<exists>ph1. space_started ph kroot ph1 root \<and> pages_ok ph1 root ph' Map.empty \<and>
           stack_mapped root bottom {0..<?n} ph' \<and> (is_user_va bottom \<longrightarrow> user_exact root (nth_page bottom ` {0..<?n}) ph' Map.empty))) \<and>
        (\<forall>e. r = Inl e \<longrightarrow> is_user_va bottom \<longrightarrow> card (free_set (frames ph)) < 1 + 3 * ?n)"
      using l unt cnt ok(2) by auto
  next
    case (Inr u)
    then show "\<exists>ph' r. try_then (boot_stack_loop oc root bottom [0..<?n] ph1) (\<lambda>_ ph. Some (ph, Inr root)) = Some (ph', r) \<and> untouched ph ph' \<and>
        card (free_set (frames ph)) \<le> card (free_set (frames ph')) + (1 + 3 * ?n) \<and>
        (\<forall>root. r = Inr root \<longrightarrow> (\<exists>ph1. space_started ph kroot ph1 root \<and> pages_ok ph1 root ph' Map.empty \<and>
           stack_mapped root bottom {0..<?n} ph' \<and> (is_user_va bottom \<longrightarrow> user_exact root (nth_page bottom ` {0..<?n}) ph' Map.empty))) \<and>
        (\<forall>e. r = Inl e \<longrightarrow> is_user_va bottom \<longrightarrow> card (free_set (frames ph)) < 1 + 3 * ?n)"
      using l unt cnt ok(2) st by fastforce
  qed
qed

subsection \<open>The user stack\<close>

definition stack_pages :: "u64 set" where
  "stack_pages = nth_page 0x7FFFFFFEF000 ` {0..<16}"

definition stack_ready :: "page_map \<Rightarrow> phys \<Rightarrow> bool" where
  "stack_ready M ph \<longleftrightarrow> (\<forall>a. 0x7FFFFFFEF000 \<le> a \<longrightarrow> a < 0x7FFFFFFFF000 \<longrightarrow>
     vbyte ph M a = Some 0 \<and> (\<exists>f. M (page_of a) = Some (f, True)))"

lemma map_user_stack_ok:
  assumes "pages_ok ph0 root ph M"
  shows "\<exists>ph' r M'. map_user_stack oc root DEFAULT_USER_STACK_TOP DEFAULT_USER_STACK_SIZE ph = Some (ph', r) \<and>
    step_done stack_pages 64 ph0 root M ph M' ph' r \<and>
    (\<forall>rng. r = Inr rng \<longrightarrow> rng = (0x7FFFFFFEF000, 0x7FFFFFFFF000) \<and> stack_ready M' ph')"
proof -
  let ?b = "0x7FFFFFFEF000 :: u64"
  have ub: "is_user_va ?b" "unat ?b + 16 * 4096 \<le> 2 ^ 47" by (simp_all add: is_user_va_iff)
  obtain ph' r M' where m: "map_user_region oc root ?b 16 True ph = Some (ph', r)" "step_done stack_pages 64 ph0 root M ph M' ph' r"
      "r = Inr () \<longrightarrow> zero_pages True stack_pages M ph M' ph'"
    using map_user_region_ok [OF assms ub, of oc True] by (auto simp: stack_pages_def)
  have call: "map_user_stack oc root DEFAULT_USER_STACK_TOP DEFAULT_USER_STACK_SIZE ph =
      try_then (map_user_region oc root ?b 16 True ph) (\<lambda>_ ph. Some (ph, Inr (?b, 0x7FFFFFFFF000)))"
    using ub(1) by (simp add: map_user_stack_def DEFAULT_USER_STACK_TOP_def DEFAULT_USER_STACK_SIZE_def PAGE_SIZE_def Let_def)
  have "stack_ready M' ph'" if z: "zero_pages True stack_pages M ph M' ph'"
    unfolding stack_ready_def
  proof (intro allI impI)
    fix a :: nat assume a: "0x7FFFFFFEF000 \<le> a" "a < 0x7FFFFFFFF000"
    then have "page_of a \<in> stack_pages" using nth_page_of [OF ub, of a] by (simp add: stack_pages_def)
    moreover have "a < 2 ^ 47" using a by simp
    ultimately show "vbyte ph' M' a = Some 0 \<and> (\<exists>f. M' (page_of a) = Some (f, True))" using z unfolding zero_pages_def by blast
  qed
  then show ?thesis using call m by (cases r) (auto simp: step_done_def)
qed

subsection \<open>Loaders\<close>

text \<open>
  The interface of a loader that the spawn functions rely on: for an acceptable program it fills fresh
  pages in the user half and nothing else, what it has loaded stays while further pages are added,
  and it fails only when one of its pages is taken or frames run out.
\<close>

locale program_loader =
  fixes load :: "'p \<Rightarrow> bool \<Rightarrow> u64 \<Rightarrow> phys \<Rightarrow> (phys \<times> (ProcessError + unit)) option"
    and acceptable :: "'p \<Rightarrow> bool"
    and pages_needed :: "'p \<Rightarrow> u64 set"
    and frames_needed :: "'p \<Rightarrow> nat"
    and loaded :: "'p \<Rightarrow> page_map \<Rightarrow> phys \<Rightarrow> bool"
  assumes load_step: "acceptable x \<Longrightarrow> pages_ok ph0 root ph M \<Longrightarrow>
      \<exists>ph' r M'. load x oc root ph = Some (ph', r) \<and>
        step_done (pages_needed x) (frames_needed x) ph0 root M ph M' ph' r \<and> (r = Inr () \<longrightarrow> loaded x M' ph')"
    and loaded_stays: "acceptable x \<Longrightarrow> loaded x M ph \<Longrightarrow> page_added ph0 root M ph M' ph' \<Longrightarrow> loaded x M' ph'"
begin

lemma build_space_ok:
  assumes "acceptable x" "pt_inv ph kroot" "boot_stack_ok bs"
  shows "\<exists>ph' r. build_space oc bs kroot (\<lambda>space ph. load x oc space ph) ph = Some (ph', r) \<and> untouched ph ph' \<and>
    (\<forall>root rng. r = Inr (root, rng) \<longrightarrow> rng = (0x7FFFFFFEF000, 0x7FFFFFFFF000) \<and>
       (\<exists>ph1 M. space_started ph kroot ph1 root \<and> pages_ok ph1 root ph' M \<and> loaded x M ph' \<and> stack_ready M ph' \<and>
          stack_mapped root (fst bs) {0..<boot_pages bs} ph')) \<and>
    (\<forall>e. r = Inl e \<longrightarrow> is_user_va (fst bs) \<longrightarrow>
       pages_needed x \<inter> stack_pages = {} \<longrightarrow> nth_page (fst bs) ` {0..<boot_pages bs} \<inter> (pages_needed x \<union> stack_pages) = {} \<longrightarrow>
       card (free_set (frames ph)) < 1 + 3 * boot_pages bs + frames_needed x + 64)"
proof -
  let ?B = "nth_page (fst bs) ` {0..<boot_pages bs}"
  obtain phA rA where A: "alloc_user_address_space oc bs kroot ph = Some (phA, rA)" "untouched ph phA"
      "card (free_set (frames ph)) \<le> card (free_set (frames phA)) + (1 + 3 * boot_pages bs)"
      "\<forall>root. rA = Inr root \<longrightarrow> (\<exists>ph1. space_started ph kroot ph1 root \<and> pages_ok ph1 root phA Map.empty \<and>
         stack_mapped root (fst bs) {0..<boot_pages bs} phA \<and> (is_user_va (fst bs) \<longrightarrow> user_exact root ?B phA Map.empty))"
      "\<forall>e. rA = Inl e \<longrightarrow> is_user_va (fst bs) \<longrightarrow> card (free_set (frames ph)) < 1 + 3 * boot_pages bs"
    using alloc_user_address_space_ok [OF assms(2,3), of oc] by blast
  show ?thesis
  proof (cases rA)
    case (Inl e)
    then show ?thesis using A by (fastforce simp: build_space_def)
  next
    case rA: (Inr root)
    then obtain ph1 where st: "space_started ph kroot ph1 root" "pages_ok ph1 root phA Map.empty"
        "stack_mapped root (fst bs) {0..<boot_pages bs} phA" "is_user_va (fst bs) \<Longrightarrow> user_exact root ?B phA Map.empty"
      using A(4) by blast
    obtain phB rB MB where B: "load x oc root phA = Some (phB, rB)"
        "step_done (pages_needed x) (frames_needed x) ph1 root Map.empty phA MB phB rB" "rB = Inr () \<longrightarrow> loaded x MB phB"
      using load_step [OF assms(1) st(2), of oc] by blast
    note okB = page_addedD(1,3) [OF step_doneD(1) [OF B(2)]]
    have exB: "?B \<inter> pages_needed x = {}" if "?B \<inter> (pages_needed x \<union> stack_pages) = {}" using that by blast
    show ?thesis
    proof (cases rB)
      case (Inl e)
      then have "build_space oc bs kroot (\<lambda>space ph. load x oc space ph) ph = Some (phB, Inl e)"
        using A(1) rA B(1) by (simp add: build_space_def)
      moreover have "card (free_set (frames phA)) < frames_needed x" if "is_user_va (fst bs)" "?B \<inter> (pages_needed x \<union> stack_pages) = {}"
        using step_doneD(4) [OF B(2) Inl st(4) [OF that(1)]] exB [OF that(2)] by simp
      ultimately show ?thesis using started_untouched [OF st(1) okB(1)] A(3) by fastforce
    next
      case rB: (Inr u)
      obtain phC rC MC where C: "map_user_stack oc root DEFAULT_USER_STACK_TOP DEFAULT_USER_STACK_SIZE phB = Some (phC, rC)"
          "step_done stack_pages 64 ph1 root MB phB MC phC rC"
          "\<forall>rng. rC = Inr rng \<longrightarrow> rng = (0x7FFFFFFEF000, 0x7FFFFFFFF000) \<and> stack_ready MC phC"
        using map_user_stack_ok [OF okB(1), of oc] by blast
      note okC = page_addedD(1,3) [OF step_doneD(1) [OF C(2)]]
      have call: "build_space oc bs kroot (\<lambda>space ph. load x oc space ph) ph =
          Some (phC, case rC of Inl e \<Rightarrow> Inl e | Inr rng \<Rightarrow> Inr (root, rng))"
        using A(1) rA B(1) rB C(1) by (simp add: build_space_def split: sum.split)
      have unt: "untouched ph phC" using started_untouched [OF st(1) okC(1)] .
      have ld: "loaded x MC phC" using loaded_stays [OF assms(1) _ step_doneD(1) [OF C(2)]] B(3) rB by simp
      have sm: "stack_mapped root (fst bs) {0..<boot_pages bs} phC"
        using st(3) okB(2) okC(2) by (simp add: stack_mapped_def leaves_kept_def)
      have low: "card (free_set (frames ph)) < 1 + 3 * boot_pages bs + frames_needed x + 64"
        if e: "rC = Inl e" "is_user_va (fst bs)" "pages_needed x \<inter> stack_pages = {}" "?B \<inter> (pages_needed x \<union> stack_pages) = {}" for e
      proof -
        have "(dom MB \<union> ?B) \<inter> stack_pages = {}" using step_doneD(2) [OF B(2)] e(3,4) by auto
        then have "card (free_set (frames phB)) < 64"
          using step_doneD(4) [OF C(2) e(1) page_addedD(4) [OF step_doneD(1) [OF B(2)] st(4) [OF e(2)]]] by blast
        then show ?thesis using A(3) step_doneD(3) [OF B(2)] by simp
      qed
      show ?thesis
      proof (cases rC)
        case (Inl e)
        then show ?thesis using call unt low by simp
      next
        case (Inr rng)
        then show ?thesis using call unt C(3) st(1) okC(1) ld sm by auto
      qed
    qed
  qed
qed

text \<open>Registering the space: on success the process is in the free slot, otherwise the table is as before.\<close>

lemma register_ok:
  assumes "acceptable x" "pt_inv ph kroot" "boot_stack_ok bs" "find_free_slot ps = Some slot"
  shows "\<exists>st' r. register_process slot rip ps (build_space oc bs kroot (\<lambda>space ph. load x oc space ph) ph) = Some (st', r) \<and>
    untouched ph (lphys st') \<and>
    (case r of
       Inl e \<Rightarrow> processes st' = ps \<and> (is_user_va (fst bs) \<longrightarrow> pages_needed x \<inter> stack_pages = {} \<longrightarrow>
         nth_page (fst bs) ` {0..<boot_pages bs} \<inter> (pages_needed x \<union> stack_pages) = {} \<longrightarrow>
         card (free_set (frames ph)) < 1 + 3 * boot_pages bs + frames_needed x + 64)
     | Inr pid \<Rightarrow> \<exists>root ph1 M. pid = of_nat slot \<and>
         processes st' = ps[slot := Some (new_process slot root rip (0x7FFFFFFEF000, 0x7FFFFFFFF000))] \<and>
         space_started ph kroot ph1 root \<and> pages_ok ph1 root (lphys st') M \<and> loaded x M (lphys st') \<and> stack_ready M (lphys st') \<and>
         stack_mapped root (fst bs) {0..<boot_pages bs} (lphys st'))"
proof -
  have slot: "slot < length ps" using assms(4) by (simp add: find_free_slot_def find_upt_Some_iff)
  obtain ph' r where b: "build_space oc bs kroot (\<lambda>space ph. load x oc space ph) ph = Some (ph', r)" "untouched ph ph'"
      "\<forall>root rng. r = Inr (root, rng) \<longrightarrow> rng = (0x7FFFFFFEF000, 0x7FFFFFFFF000) \<and>
         (\<exists>ph1 M. space_started ph kroot ph1 root \<and> pages_ok ph1 root ph' M \<and> loaded x M ph' \<and> stack_ready M ph' \<and>
            stack_mapped root (fst bs) {0..<boot_pages bs} ph')"
      "\<forall>e. r = Inl e \<longrightarrow> is_user_va (fst bs) \<longrightarrow>
         pages_needed x \<inter> stack_pages = {} \<longrightarrow> nth_page (fst bs) ` {0..<boot_pages bs} \<inter> (pages_needed x \<union> stack_pages) = {} \<longrightarrow>
         card (free_set (frames ph)) < 1 + 3 * boot_pages bs + frames_needed x + 64"
    using build_space_ok [OF assms(1-3), of oc] by blast
  show ?thesis
  proof (cases r)
    case (Inl e)
    then show ?thesis using b by (simp add: register_process_def)
  next
    case (Inr v)
    obtain root rng where v: "v = (root, rng)" by (cases v)
    then obtain ph1 M where M: "rng = (0x7FFFFFFEF000, 0x7FFFFFFFF000)" "space_started ph kroot ph1 root" "pages_ok ph1 root ph' M"
        "loaded x M ph'" "stack_ready M ph'" "stack_mapped root (fst bs) {0..<boot_pages bs} ph'"
      using b(3) Inr by blast
    let ?p = "new_process slot root rip rng"
    have "register_process slot rip ps (build_space oc bs kroot (\<lambda>space ph. load x oc space ph) ph) =
        Some (\<lparr>lphys = ph', processes = ps[slot := Some ?p]\<rparr>, Inr (of_nat slot))"
      using b(1) Inr v slot by (simp add: register_process_def put_slot_def new_process_def)
    then show ?thesis using b(2) M by fastforce
  qed
qed

end

subsection \<open>ELF programs\<close>

fun segments_apart :: "ProgramHeader list \<Rightarrow> bool" where
  "segments_apart [] = True"
| "segments_apart (h # hs) = ((\<forall>h' \<in> set hs. segment_pages h \<inter> segment_pages h' = {}) \<and> segments_apart hs)"

text \<open>Segments that share a page are never loaded: they need more frames than there are.\<close>

definition program_frames :: "ProgramHeader list \<Rightarrow> nat" where
  "program_frames hs = (if segments_apart hs then sum_list (map segment_frames hs) else Suc MAX_FRAMES)"

lemma load_segments_ok:
  assumes "pages_ok ph0 root ph M" "\<forall>i \<in> set is. i < length (headers (loads img)) \<and> load_ok (raw img) (headers (loads img) ! i)"
  defines "hs \<equiv> map ((!) (headers (loads img))) is"
  shows "\<exists>ph' r M'. load_segments oc root img is ph = Some (ph', r) \<and>
    step_done (\<Union>h \<in> set hs. segment_pages h) (program_frames hs) ph0 root M ph M' ph' r \<and>
    (r = Inr () \<longrightarrow> (\<forall>h \<in> set hs. segment_loaded (raw img) h M' ph'))"
  unfolding hs_def using assms(1,2)
proof (induction "is" arbitrary: ph M)
  case Nil
  then show ?case using step_done_refl by (fastforce simp: program_frames_def)
next
  case (Cons i "is")
  let ?h = "headers (loads img) ! i" and ?hs = "map ((!) (headers (loads img))) is"
  let ?V = "\<Union>h \<in> set ?hs. segment_pages h"
  have h: "index_get (headers (loads img)) i = Some ?h" "load_ok (raw img) ?h" using Cons.prems(2) by auto
  obtain ph1 r1 M1 where m: "load_segment oc root ?h (raw img) ph = Some (ph1, r1)"
      "step_done (segment_pages ?h) (segment_frames ?h) ph0 root M ph M1 ph1 r1" "r1 = Inr () \<longrightarrow> segment_loaded (raw img) ?h M1 ph1"
    using load_segment_ok [OF Cons.prems(1) h(2), of oc] by blast
  have fr: "program_frames (?h # ?hs) = segment_frames ?h + program_frames ?hs \<and> segment_pages ?h \<inter> ?V = {} \<or>
      MAX_FRAMES < program_frames (?h # ?hs)"
    by (auto simp: program_frames_def)
  have big: "step_done (segment_pages ?h \<union> ?V) n ph0 root M ph M2 ph2 (r :: ProcessError + unit)"
    if "page_added ph0 root M ph M2 ph2" "dom M2 \<subseteq> dom M \<union> (segment_pages ?h \<union> ?V)" "MAX_FRAMES < n" for M2 ph2 r n
    unfolding step_done_def using that card_free_set [of "frames ph"] by auto
  show ?case
  proof (cases r1)
    case (Inl e)
    have "step_done (segment_pages ?h \<union> ?V) (program_frames (?h # ?hs)) ph0 root M ph M1 ph1 (Inl e :: ProcessError + unit)"
      using fr
    proof
      assume "program_frames (?h # ?hs) = segment_frames ?h + program_frames ?hs \<and> segment_pages ?h \<inter> ?V = {}"
      then show ?thesis using step_done_fail [OF m(2) [unfolded Inl], of ?V "program_frames ?hs" e] by simp
    next
      assume b: "MAX_FRAMES < program_frames (?h # ?hs)"
      have "dom M1 \<subseteq> dom M \<union> (segment_pages ?h \<union> ?V)" using step_doneD(2) [OF m(2)] by blast
      from big [OF step_doneD(1) [OF m(2)] this b] show ?thesis .
    qed
    then show ?thesis using h(1) m(1) Inl by auto
  next
    case (Inr u)
    note ok1 = page_addedD(1) [OF step_doneD(1) [OF m(2)]]
    obtain ph2 r2 M2 where r2: "load_segments oc root img is ph1 = Some (ph2, r2)"
        "step_done ?V (program_frames ?hs) ph0 root M1 ph1 M2 ph2 r2" "r2 = Inr () \<longrightarrow> (\<forall>h \<in> set ?hs. segment_loaded (raw img) h M2 ph2)"
      using Cons.IH [OF ok1] Cons.prems(2) by auto
    have sd: "step_done (segment_pages ?h \<union> ?V) (program_frames (?h # ?hs)) ph0 root M ph M2 ph2 r2"
      using fr
    proof
      assume "program_frames (?h # ?hs) = segment_frames ?h + program_frames ?hs \<and> segment_pages ?h \<inter> ?V = {}"
      then show ?thesis using step_done_seq [OF m(2) [unfolded Inr] r2(2)] by simp
    next
      assume b: "MAX_FRAMES < program_frames (?h # ?hs)"
      have "dom M2 \<subseteq> dom M \<union> (segment_pages ?h \<union> ?V)" 
        using order_trans [OF step_doneD(2) [OF r2(2)] Un_mono [OF step_doneD(2) [OF m(2)] order_refl]] by (simp only: Un_assoc)
      from big [OF page_added_trans [OF step_doneD(1) [OF m(2)] step_doneD(1) [OF r2(2)]] this b] show ?thesis .
    qed
    have "segment_loaded (raw img) ?h M2 ph2"
      using segment_loaded_mono [OF _ step_doneD(1) [OF r2(2)] h(2)] m(3) Inr by simp
    moreover have "load_segments oc root img (i # is) ph = Some (ph2, r2)" using h(1) m(1) Inr r2(1) by simp
    ultimately show ?thesis using sd r2(3) by auto
  qed
qed

definition load_elf :: "Elf64Image \<Rightarrow> bool \<Rightarrow> u64 \<Rightarrow> phys \<Rightarrow> (phys \<times> (ProcessError + unit)) option" where
  "load_elf img oc space ph = load_segments oc space img [0..<headers_len (loads img)] ph"

definition elf_acceptable :: "Elf64Image \<Rightarrow> bool" where
  "elf_acceptable img \<longleftrightarrow> headers_len (loads img) \<le> length (headers (loads img)) \<and>
     (\<forall>h \<in> set (loads_of (loads img)). load_ok (raw img) h)"

definition elf_pages :: "Elf64Image \<Rightarrow> u64 set" where
  "elf_pages img = (\<Union>h \<in> set (loads_of (loads img)). segment_pages h)"

definition elf_frames :: "Elf64Image \<Rightarrow> nat" where
  "elf_frames img = program_frames (loads_of (loads img))"

definition elf_loaded :: "Elf64Image \<Rightarrow> page_map \<Rightarrow> phys \<Rightarrow> bool" where
  "elf_loaded img M ph \<longleftrightarrow> (\<forall>h \<in> set (loads_of (loads img)). segment_loaded (raw img) h M ph)"

interpretation elf_loader: program_loader load_elf elf_acceptable elf_pages elf_frames elf_loaded
proof
  fix img ph0 root ph M oc assume a: "elf_acceptable img" "pages_ok ph0 root ph M"
  have hs: "map ((!) (headers (loads img))) [0..<headers_len (loads img)] = loads_of (loads img)"
    using a(1) by (auto simp: elf_acceptable_def loads_of_def intro: nth_equalityI)
  have "\<forall>i \<in> set [0..<headers_len (loads img)]. i < length (headers (loads img)) \<and> load_ok (raw img) (headers (loads img) ! i)"
    using a(1) unfolding elf_acceptable_def hs [symmetric] by auto
  from load_segments_ok [OF a(2) this, of oc, unfolded hs]
  show "\<exists>ph' r M'. load_elf img oc root ph = Some (ph', r) \<and>
      step_done (elf_pages img) (elf_frames img) ph0 root M ph M' ph' r \<and> (r = Inr () \<longrightarrow> elf_loaded img M' ph')"
    by (simp add: load_elf_def elf_pages_def elf_frames_def elf_loaded_def)
next
  fix img M ph ph0 root M' ph' assume "elf_acceptable img" "elf_loaded img M ph" "page_added ph0 root M ph M' ph'"
  then show "elf_loaded img M' ph'"
    using segment_loaded_mono by (auto simp: elf_loaded_def elf_acceptable_def)
qed

subsection \<open>Flat programs\<close>

definition flat_pages :: "bytes \<Rightarrow> nat" where
  "flat_pages payload = (length payload + 4095) div 4096"

lemma flat_copy_loop_ok:
  assumes "pages_ok ph0 root ph M" "is_user_va base" "unat base + flat_pages payload * 4096 \<le> 2 ^ 47"
    and "\<And>a. unat base \<le> a \<Longrightarrow> a < unat base + flat_pages payload * 4096 \<Longrightarrow> page_of a \<in> dom M" "i \<le> flat_pages payload"
  shows "\<exists>ph'. flat_copy_loop oc root base payload (min (i * 4096) (length payload)) [i..<flat_pages payload] ph = Some (ph', Inr ()) \<and>
    pages_ok ph0 root ph' M \<and> same_tables root ph ph' \<and>
    (\<forall>a < 2 ^ 47. vbyte ph' M a = (if unat base + i * 4096 \<le> a \<and> a < unat base + length payload
       then Some (payload ! (a - unat base)) else vbyte ph M a))"
  using assms(1,5)
proof (induction "flat_pages payload - i" arbitrary: i ph)
  case 0
  have "length payload \<le> i * 4096" using ceil_4096_le [of "length payload" i] 0 by (simp add: flat_pages_def)
  then show ?case using 0 by (auto simp: same_tables_def)
next
  case (Suc d)
  then have i: "i < flat_pages payload" by simp
  have less: "d = flat_pages payload - Suc i" "Suc i \<le> flat_pages payload" using Suc.hyps(2) i by simp_all
  have "\<not> flat_pages payload \<le> i" using i by simp
  then have lt: "i * 4096 < length payload" unfolding flat_pages_def ceil_4096_le by simp
  have upt: "[i..<flat_pages payload] = i # [Suc i..<flat_pages payload]" using i by (simp add: upt_rec)
  have room: "unat base + i * 4096 + 4096 \<le> 2 ^ 47" using assms(3) mult_le_mono1 [of "Suc i" "flat_pages payload" 4096] i by simp
  let ?va = "nth_page base i" and ?A = "unat base + i * 4096"
  have va: "unat ?va = ?A" "is_user_va ?va" using page_offset [OF assms(2), of i] room by (simp_all add: nth_page_def)
  have small: "unat (of_nat (i * 4096) :: u64) = i * 4096" using room by (intro unat_of_nat_small) simp
  have add: "add_ovf oc base (of_nat i * of_nat PAGE_SIZE) = Some ?va" using small room by (simp add: nth_page_def PAGE_SIZE_def)
  have md: "?A mod 4096 = 0" using assms(2) by (simp add: is_user_va_iff mod_add_eq [symmetric])
  have A: "?A < 2 ^ 47" using room by simp
  have pg: "page_of ?A = ?va" using unat_page_of [OF A] md va(1) div_mult_mod_eq [of ?A 4096] by (simp add: word_unat_eq_iff)
  obtain f w where f: "M ?va = Some (f, w)" using assms(4) [of ?A] pg room i by auto
  define c where "c = min (length payload - i * 4096) 4096"
  have c: "c \<le> 4096" "i * 4096 + c = min (Suc i * 4096) (length payload)" using lt by (auto simp: c_def)
  let ?bs = "take c (drop (i * 4096) payload)"
  let ?ph = "copy_bytes f ?bs ph"
  have len: "length ?bs = c" using lt by (auto simp: c_def)
  have sl: "slice payload (i * 4096) (i * 4096 + c) = Some ?bs" using lt by (simp add: c_def)
  have step: "flat_copy_loop oc root base payload (min (i * 4096) (length payload)) [i..<flat_pages payload] ph =
      flat_copy_loop oc root base payload (min (Suc i * 4096) (length payload)) [Suc i..<flat_pages payload] ?ph"
    using add walk_page [OF Suc.prems(1) f] sl lt c(2) unfolding upt
    by (simp add: PAGE_SIZE_def Let_def min_absorb1 flip: c_def)
  note cp = copy_page_ok [OF Suc.prems(1) f, of 0 ?bs, unfolded len, simplified, OF c(1)]
  obtain ph' where ph': "flat_copy_loop oc root base payload (min (Suc i * 4096) (length payload)) [Suc i..<flat_pages payload] ?ph = Some (ph', Inr ())"
      "pages_ok ph0 root ph' M" "same_tables root ?ph ph'"
      "\<forall>a < 2 ^ 47. vbyte ph' M a = (if unat base + Suc i * 4096 \<le> a \<and> a < unat base + length payload
         then Some (payload ! (a - unat base)) else vbyte ?ph M a)"
    using Suc.hyps(1) [OF _ cp(1), of "Suc i"] less by blast
  have here: "vbyte ?ph M a = (if ?A \<le> a \<and> a < ?A + c then Some (payload ! (a - unat base)) else vbyte ph M a)" if a: "a < 2 ^ 47" for a
  proof -
    have "page_of a = ?va \<and> a mod 4096 < c \<longleftrightarrow> ?A \<le> a \<and> a < ?A + c"
      using in_page_run(1) [of ?A c a] md c(1) page_of_eq [OF a A] pg by auto
    moreover have "?bs ! (a mod 4096) = payload ! (a - unat base)" if "?A \<le> a" "a < ?A + c"
      using in_page_run [of ?A c a] md c(1) that lt by (simp add: c_def)
    ultimately show ?thesis using cp(3) [of a] by auto
  qed
  have "vbyte ph' M a = (if ?A \<le> a \<and> a < unat base + length payload then Some (payload ! (a - unat base)) else vbyte ph M a)"
    if "a < 2 ^ 47" for a
    using ph'(4) here [OF that] that c(2) lt by (auto simp: min_def split: if_splits)
  then show ?case using step ph'(1,2) same_tables_trans [OF cp(2) ph'(3)] by auto
qed

definition load_flat :: "bytes \<Rightarrow> bool \<Rightarrow> u64 \<Rightarrow> phys \<Rightarrow> (phys \<times> (ProcessError + unit)) option" where
  "load_flat payload oc space ph = load_flat_payload oc space DEFAULT_USER_ENTRY payload False ph"

definition flat_acceptable :: "bytes \<Rightarrow> bool" where
  "flat_acceptable payload \<longleftrightarrow> payload \<noteq> [] \<and> length payload \<le> 2 ^ 46"

definition flat_page_set :: "bytes \<Rightarrow> u64 set" where
  "flat_page_set payload = nth_page DEFAULT_USER_ENTRY ` {0..<flat_pages payload}"

definition flat_loaded :: "bytes \<Rightarrow> page_map \<Rightarrow> phys \<Rightarrow> bool" where
  "flat_loaded payload M ph \<longleftrightarrow> (\<forall>k < flat_pages payload * 4096.
     vbyte ph M (0x400000 + k) = Some (if k < length payload then payload ! k else 0) \<and> (\<exists>f. M (page_of (0x400000 + k)) = Some (f, False)))"

lemma flat_size: "flat_acceptable payload \<Longrightarrow> 0x400000 + flat_pages payload * 4096 \<le> 2 ^ 47"
proof -
  assume "flat_acceptable payload"
  then have "flat_pages payload \<le> 2 ^ 34" unfolding flat_pages_def ceil_4096_le by (simp add: flat_acceptable_def)
  then have "flat_pages payload * 4096 \<le> 2 ^ 34 * 4096" by (rule mult_le_mono1)
  then show ?thesis by simp
qed

interpretation flat_loader: program_loader load_flat flat_acceptable flat_page_set "\<lambda>p. 4 * flat_pages p" flat_loaded
proof
  fix payload ph0 root ph M oc assume a: "flat_acceptable payload" "pages_ok ph0 root ph M"
  let ?n = "flat_pages payload" and ?b = "DEFAULT_USER_ENTRY"
  have b: "is_user_va ?b" "unat ?b = 0x400000" by (simp_all add: DEFAULT_USER_ENTRY_def is_user_va_iff)
  have sz: "unat ?b + ?n * 4096 \<le> 2 ^ 47" using flat_size [OF a(1)] b(2) by simp
  obtain ph1 r1 M1 where m: "map_user_region oc root ?b ?n False ph = Some (ph1, r1)"
      "step_done (flat_page_set payload) (4 * ?n) ph0 root M ph M1 ph1 r1" "r1 = Inr () \<longrightarrow> zero_pages False (flat_page_set payload) M ph M1 ph1"
    using map_user_region_ok [OF a(2) b(1) sz, of oc False] by (auto simp: flat_page_set_def)
  have "?n \<noteq> 0"
  proof
    assume "?n = 0"
    then have "flat_pages payload \<le> 0" by simp
    then show False using a(1) unfolding flat_pages_def ceil_4096_le by (simp add: flat_acceptable_def)
  qed
  then have call: "load_flat payload oc root ph = try_then (map_user_region oc root ?b ?n False ph) (\<lambda>_ ph. flat_copy_loop oc root ?b payload 0 [0..<?n] ph)"
    using b(1) by (simp add: load_flat_def load_flat_payload_def flat_pages_def PAGE_SIZE_def Let_def add.commute)
  show "\<exists>ph' r M'. load_flat payload oc root ph = Some (ph', r) \<and>
      step_done (flat_page_set payload) (4 * ?n) ph0 root M ph M' ph' r \<and> (r = Inr () \<longrightarrow> flat_loaded payload M' ph')"
  proof (cases r1)
    case (Inl e)
    then show ?thesis using m call by auto
  next
    case (Inr u)
    then have z: "zero_pages False (flat_page_set payload) M ph M1 ph1" using m(3) by simp
    have pg: "page_of x \<in> flat_page_set payload \<longleftrightarrow> 0x400000 \<le> x \<and> x < 0x400000 + ?n * 4096" if "x < 2 ^ 47" for x
      using nth_page_of [OF b(1) sz that] b(2) by (simp add: flat_page_set_def)
    note ok1 = page_addedD(1) [OF step_doneD(1) [OF m(2)]]
    have "page_of x \<in> dom M1" if "unat ?b \<le> x" "x < unat ?b + ?n * 4096" for x
      using z pg [of x] that sz b(2) by (simp add: zero_pages_def)
    then obtain ph2 where c: "flat_copy_loop oc root ?b payload 0 [0..<?n] ph1 = Some (ph2, Inr ())" "pages_ok ph0 root ph2 M1" "same_tables root ph1 ph2"
        "\<forall>x < 2 ^ 47. vbyte ph2 M1 x = (if 0x400000 \<le> x \<and> x < 0x400000 + length payload then Some (payload ! (x - 0x400000)) else vbyte ph1 M1 x)"
      using flat_copy_loop_ok [OF ok1 b(1) sz, of 0 oc] b(2) by auto
    have "length payload \<le> ?n * 4096" using ceil_4096_le [of "length payload" ?n] by (simp add: flat_pages_def)
    have "vbyte ph2 M1 x = vbyte ph1 M1 x" if "x < 2 ^ 47" "page_of x \<in> dom M" for x
    proof -
      have "page_of x \<notin> flat_page_set payload" using z that(2) unfolding zero_pages_def by blast
      then show ?thesis using c(4) that(1) pg [OF that(1)] \<open>length payload \<le> ?n * 4096\<close> by auto
    qed
    then have "page_added ph0 root M ph M1 ph2" by (rule page_added_same_tables [OF step_doneD(1) [OF m(2)] c(2,3)])
    then have "step_done (flat_page_set payload) (4 * ?n) ph0 root M ph M1 ph2 (Inr () :: ProcessError + unit)"
      using step_doneD(2,3) [OF m(2)] c(3) by (simp add: step_done_def same_tables_def)
    moreover have "flat_loaded payload M1 ph2"
      unfolding flat_loaded_def
    proof (intro allI impI)
      fix k assume k: "k < ?n * 4096"
      have x: "0x400000 + k < 2 ^ 47" using k sz b(2) by simp
      then have "page_of (0x400000 + k) \<in> flat_page_set payload" using pg [OF x] k by simp
      then show "vbyte ph2 M1 (0x400000 + k) = Some (if k < length payload then payload ! k else 0) \<and> (\<exists>f. M1 (page_of (0x400000 + k)) = Some (f, False))"
        using z c(4) x unfolding zero_pages_def by auto
    qed
    ultimately show ?thesis using m(1) call Inr c(1) by auto
  qed
next
  fix payload M ph ph0 root M' ph' assume a: "flat_acceptable payload" "flat_loaded payload M ph" "page_added ph0 root M ph M' ph'"
  show "flat_loaded payload M' ph'"
    unfolding flat_loaded_def
  proof (intro allI impI)
    fix k assume k: "k < flat_pages payload * 4096"
    let ?x = "0x400000 + k"
    obtain f where f: "M (page_of ?x) = Some (f, False)" using a(2) k by (auto simp: flat_loaded_def)
    have "?x < 2 ^ 47" "page_of ?x \<in> dom M" using k flat_size [OF a(1)] f by auto
    then have "vbyte ph' M' ?x = vbyte ph M ?x" "M' (page_of ?x) = M (page_of ?x)"
      using a(3) unfolding page_added_def map_le_def by metis+
    then show "vbyte ph' M' ?x = Some (if k < length payload then payload ! k else 0) \<and> (\<exists>f. M' (page_of ?x) = Some (f, False))"
      using a(2) k f by (simp add: flat_loaded_def)
  qed
qed

subsection \<open>What a spawned program finds\<close>

text \<open>The byte and the rights at a user address, read through the page tables.\<close>

definition user_byte :: "pmem \<Rightarrow> u64 \<Rightarrow> nat \<Rightarrow> u8 option" where
  "user_byte m root a =
     (case walk_to_phys m root (page_of a) of None \<Rightarrow> None | Some f \<Rightarrow> Some (m (unat f + a mod 4096)))"

definition user_rights :: "pmem \<Rightarrow> u64 \<Rightarrow> nat \<Rightarrow> bool \<Rightarrow> bool" where
  "user_rights m root a writable \<longleftrightarrow> (\<exists>e. leaf_at m root (page_of a) = Some e \<and> flags_contain e USER_ACCESSIBLE \<and>
     flags_contain e WRITABLE = writable \<and> flags_contain e NO_EXECUTE = writable)"

lemma pages_read:
  assumes "pages_ok ph0 root ph M" "M (page_of a) = Some (f, w)"
  shows "user_byte (pmem ph) root a = vbyte ph M a" "user_rights (pmem ph) root a w"
proof -
  show "user_byte (pmem ph) root a = vbyte ph M a"
    using walk_page [OF assms] vbyte_mem [of M a f w ph] assms(2) by (simp add: user_byte_def)
  have "unat f mod 4096 = 0" "unat f < 2 ^ 52"
    using used_frame_addr [OF pages_okD(6) [OF assms]] by (auto simp: MAX_FRAMES_def)
  note v = page_entry_value(2) [OF this flag_bits_user, of _ w]
  show "user_rights (pmem ph) root a w"
    using pages_okD(4) [OF assms] v [of 1] v [of 2] v [of 63]
    by (simp add: user_rights_def flags_contain_consts user_flags_def bit_or_iff bit_flag_consts)
qed

definition kernel_shared :: "phys \<Rightarrow> u64 \<Rightarrow> phys \<Rightarrow> u64 \<Rightarrow> bool" where
  "kernel_shared ph kroot ph' root \<longleftrightarrow> (\<forall>i. 256 \<le> i \<longrightarrow> i < 512 \<longrightarrow> get_entry (pmem ph') root i = get_entry (pmem ph) kroot i)"

lemma started_kernel_shared:
  assumes "space_started ph kroot ph1 root" "pages_ok ph1 root ph' M"
  shows "kernel_shared ph kroot ph' root"
proof -
  have "get_entry (pmem ph') root i = get_entry (pmem ph) kroot i" if "256 \<le> i" "i < 512" for i
    using pt_extD(6) [OF pages_okD(2) [OF assms(2)] that(2)] assms(1) that by (auto simp: space_started_def)
  then show ?thesis by (simp add: kernel_shared_def)
qed

definition stack_found :: "phys \<Rightarrow> u64 \<Rightarrow> bool" where
  "stack_found ph root \<longleftrightarrow> (\<forall>a. 0x7FFFFFFEF000 \<le> a \<longrightarrow> a < 0x7FFFFFFFF000 \<longrightarrow>
     user_byte (pmem ph) root a = Some 0 \<and> user_rights (pmem ph) root a True)"

lemma stack_ready_found: "pages_ok ph0 root ph M \<Longrightarrow> stack_ready M ph \<Longrightarrow> stack_found ph root"
  unfolding stack_ready_def stack_found_def using pages_read by metis

definition segment_found :: "bytes \<Rightarrow> ProgramHeader \<Rightarrow> phys \<Rightarrow> u64 \<Rightarrow> bool" where
  "segment_found data h ph root \<longleftrightarrow> (\<forall>k < unat (p_memsz h).
     user_byte (pmem ph) root (unat (p_vaddr h) + k) = Some (if k < unat (p_filesz h) then data ! (unat (p_offset h) + k) else 0) \<and>
     user_rights (pmem ph) root (unat (p_vaddr h) + k) (is_writable h))"

lemma segment_loaded_found: "pages_ok ph0 root ph M \<Longrightarrow> segment_loaded data h M ph \<Longrightarrow> segment_found data h ph root"
  unfolding segment_loaded_def segment_found_def using pages_read by metis

text \<open>The abstract view of the result, from which the properties below follow.\<close>

lemma spawn_elf_result:
  assumes "pt_inv (lphys st) kroot" "boot_stack_ok bs" "length data < 2 ^ 64" "length (processes st) = MAX_PROCESSES"
  shows "\<exists>st' r. spawn_elf oc bs kroot data st = Some (st', r) \<and> untouched (lphys st) (lphys st') \<and>
    (case r of
       Inl e \<Rightarrow> processes st' = processes st
     | Inr pid \<Rightarrow> \<exists>root ph1 M. elf_valid data \<and> unat pid < MAX_PROCESSES \<and> processes st ! unat pid = None \<and>
         processes st' = (processes st)[unat pid := Some (new_process (unat pid) root (e_entry (elf_header_of data)) (0x7FFFFFFEF000, 0x7FFFFFFFF000))] \<and>
         space_started (lphys st) kroot ph1 root \<and> pages_ok ph1 root (lphys st') M \<and> stack_ready M (lphys st') \<and>
         (\<forall>h \<in> set (program_headers_of data). p_type h = PT_LOAD \<longrightarrow> segment_loaded data h M (lphys st')))"
proof -
  obtain pr where pr: "elf_parse data = Some pr" "(\<exists>img. pr = Inr img) \<longleftrightarrow> elf_valid data"
      "\<forall>img. pr = Inr img \<longrightarrow> raw img = data \<and> entry img = e_entry (elf_header_of data) \<and> headers_len (loads img) \<le> 8 \<and>
         length (headers (loads img)) = 8 \<and> loads_of (loads img) = filter (\<lambda>h. p_type h = PT_LOAD) (program_headers_of data)"
    using elf_parse_result [OF assms(3)] by auto
  show ?thesis
  proof (cases pr)
    case (Inl e)
    then show ?thesis using pr(1) by (simp add: spawn_elf_def untouched_def)
  next
    case (Inr img)
    show ?thesis
    proof (cases "find_free_slot (processes st)")
      case None
      then show ?thesis using pr(1) Inr by (simp add: spawn_elf_def untouched_def)
    next
      case (Some slot)
      have valid: "elf_valid data" using pr(2) Inr by blast
      have acc: "elf_acceptable img"
        using pr(3) Inr valid by (auto simp: elf_acceptable_def elf_valid_def Let_def)
      have call: "spawn_elf oc bs kroot data st = register_process slot (entry img) (processes st)
          (build_space oc bs kroot (\<lambda>space ph. load_elf img oc space ph) (lphys st))"
        using pr(1) Inr Some by (simp add: spawn_elf_def load_elf_def)
      have slot: "slot < 4" "processes st ! slot = None"
        using Some assms(4) by (auto simp: find_free_slot_def find_upt_Some_iff MAX_PROCESSES_def)
      then have us: "unat (of_nat slot :: u8) = slot" by (intro unat_of_nat_small) simp
      note ok = elf_loader.register_ok [OF acc assms(1,2) Some, of "entry img" oc, folded call]
      then obtain st' r where r: "spawn_elf oc bs kroot data st = Some (st', r)" by blast
      show ?thesis
      proof (cases r)
        case (Inl e)
        then show ?thesis using ok [unfolded r Inl] r by simp
      next
        case rpid: (Inr pid)
        obtain root ph1 M where M: "pid = of_nat slot" "space_started (lphys st) kroot ph1 root" "pages_ok ph1 root (lphys st') M"
            "elf_loaded img M (lphys st')" "stack_ready M (lphys st')" "untouched (lphys st) (lphys st')"
            "processes st' = (processes st)[slot := Some (new_process slot root (entry img) (0x7FFFFFFEF000, 0x7FFFFFFFF000))]"
          using ok [unfolded r rpid] by auto
        have "segment_loaded data h M (lphys st')" if "h \<in> set (program_headers_of data)" "p_type h = PT_LOAD" for h
          using M(4) pr(3) Inr that by (auto simp: elf_loaded_def)
        moreover have "unat pid = slot" "slot < MAX_PROCESSES" "entry img = e_entry (elf_header_of data)"
          using us slot(1) M(1) pr(3) Inr by (simp_all add: MAX_PROCESSES_def)
        ultimately show ?thesis
          using M(2,3,5,6,7) valid slot(2) by (intro exI [of _ st'] exI [of _ r]) (auto simp: r rpid)
      qed
    qed
  qed
qed


definition loadable :: "bytes \<Rightarrow> ProgramHeader list" where
  "loadable data = filter (\<lambda>h. p_type h = PT_LOAD) (program_headers_of data)"

text \<open>The frames that are enough: the root, three tables for every page, and the pages.\<close>

definition spawn_frames :: "u64 \<times> u64 \<Rightarrow> bytes \<Rightarrow> nat" where
  "spawn_frames bs data = 1 + 3 * boot_pages bs + sum_list (map segment_frames (loadable data)) + 64"

definition layout_free :: "u64 \<times> u64 \<Rightarrow> bytes \<Rightarrow> bool" where
  "layout_free bs data \<longleftrightarrow> is_user_va (fst bs) \<and> segments_apart (loadable data) \<and>
     (\<Union>h \<in> set (loadable data). segment_pages h) \<inter> stack_pages = {} \<and>
     nth_page (fst bs) ` {0..<boot_pages bs} \<inter> ((\<Union>h \<in> set (loadable data). segment_pages h) \<union> stack_pages) = {}"

lemma spawn_elf_ok:
  assumes "pt_inv (lphys st) kroot" "boot_stack_ok bs" "length data < 2 ^ 64" "elf_valid data" "None \<in> set (processes st)"
    and "layout_free bs data" "spawn_frames bs data \<le> card (free_set (frames (lphys st)))"
  shows "\<exists>st' pid. spawn_elf oc bs kroot data st = Some (st', Inr pid)"
proof -
  obtain img where img: "elf_parse data = Some (Inr img)" "raw img = data" "headers_len (loads img) \<le> 8"
      "length (headers (loads img)) = 8" "loads_of (loads img) = loadable data"
    using elf_parse_result [OF assms(3)] assms(4) by (auto simp: loadable_def)
  obtain slot where slot: "find_free_slot (processes st) = Some slot"
    using assms(5) by (cases "find_free_slot (processes st)") (auto simp: find_free_slot_def find_upt_None_iff in_set_conv_nth)
  have acc: "elf_acceptable img" using img assms(4) by (auto simp: elf_acceptable_def elf_valid_def loadable_def Let_def)
  have call: "spawn_elf oc bs kroot data st = register_process slot (entry img) (processes st)
      (build_space oc bs kroot (\<lambda>space ph. load_elf img oc space ph) (lphys st))"
    using img(1) slot by (simp add: spawn_elf_def load_elf_def)
  have nd: "elf_pages img = (\<Union>h \<in> set (loadable data). segment_pages h)" "elf_frames img = sum_list (map segment_frames (loadable data))"
    using assms(6) by (simp_all add: elf_pages_def elf_frames_def program_frames_def img(5) layout_free_def)
  note ok = elf_loader.register_ok [OF acc assms(1,2) slot, of "entry img" oc, folded call]
  then obtain st' r where r: "spawn_elf oc bs kroot data st = Some (st', r)" by blast
  show ?thesis
  proof (cases r)
    case (Inl e)
    have "is_user_va (fst bs)" "elf_pages img \<inter> stack_pages = {}"
        "nth_page (fst bs) ` {0..<boot_pages bs} \<inter> (elf_pages img \<union> stack_pages) = {}"
        "\<not> card (free_set (frames (lphys st))) < 1 + 3 * boot_pages bs + elf_frames img + 64"
      using assms(6,7) unfolding nd layout_free_def spawn_frames_def by auto
    then show ?thesis using ok [unfolded r Inl] by simp
  qed (use r in simp)
qed

text \<open>C20: programs that fit do load. When the file is acceptable, its segments share no page with each
  other, with the user stack or with the boot stack, a process slot is empty and enough frames are
  free, spawning the program succeeds.\<close>

theorem spawn_elf_succeeds:
  assumes "pt_inv (lphys st) kroot" "boot_stack_ok bs" "length data < 2 ^ 64" "elf_valid data" "None \<in> set (processes st)"
    and "layout_free bs data" "spawn_frames bs data \<le> card (free_set (frames (lphys st)))"
  shows "\<exists>st' pid. spawn_elf oc bs kroot data st = Some (st', Inr pid)"
  by (rule spawn_elf_ok [OF assms])

text \<open>A flat program: its bytes at the default entry, zero up to the end of the last page, read-only.\<close>

lemma spawn_flat_loads:
  assumes "pt_inv (lphys st) kroot" "boot_stack_ok bs" "flat_acceptable payload" "find_free_slot (processes st) = Some slot" "slot < 4"
  shows "\<exists>st' r. spawn_flat oc bs kroot payload st = Some (st', r) \<and> untouched (lphys st) (lphys st') \<and>
    (case r of
       Inl e \<Rightarrow> processes st' = processes st
     | Inr pid \<Rightarrow> \<exists>p. pid = of_nat slot \<and> processes st' = (processes st)[slot := Some p] \<and> entry_rip p = 0x400000 \<and>
         (\<forall>k < flat_pages payload * 4096. user_byte (pmem (lphys st')) (pml4_phys p) (0x400000 + k) =
            Some (if k < length payload then payload ! k else 0) \<and> user_rights (pmem (lphys st')) (pml4_phys p) (0x400000 + k) False) \<and>
         stack_found (lphys st') (pml4_phys p))"
proof -
  have call: "spawn_flat oc bs kroot payload st = register_process slot DEFAULT_USER_ENTRY (processes st)
      (build_space oc bs kroot (\<lambda>space ph. load_flat payload oc space ph) (lphys st))"
    using assms(4) by (simp add: spawn_flat_def load_flat_def)
  note ok = flat_loader.register_ok [OF assms(3,1,2,4), of DEFAULT_USER_ENTRY oc, folded call]
  then obtain st' r where r: "spawn_flat oc bs kroot payload st = Some (st', r)" by blast
  show ?thesis
  proof (cases r)
    case (Inl e)
    then show ?thesis using ok [unfolded r Inl] r by simp
  next
    case (Inr pid)
    obtain root ph1 M where M: "pid = of_nat slot" "pages_ok ph1 root (lphys st') M" "flat_loaded payload M (lphys st')"
        "stack_ready M (lphys st')" "untouched (lphys st) (lphys st')"
        "processes st' = (processes st)[slot := Some (new_process slot root DEFAULT_USER_ENTRY (0x7FFFFFFEF000, 0x7FFFFFFFF000))]"
      using ok [unfolded r Inr] by auto
    have "user_byte (pmem (lphys st')) root (0x400000 + k) = Some (if k < length payload then payload ! k else 0) \<and>
        user_rights (pmem (lphys st')) root (0x400000 + k) False" if "k < flat_pages payload * 4096" for k
      using M(3) that pages_read [OF M(2)] unfolding flat_loaded_def by metis
    then show ?thesis
      using r Inr M(1,5,6) stack_ready_found [OF M(2,4)]
      by (intro exI [of _ st'] exI [of _ r]) (simp, intro exI [of _ "new_process slot root DEFAULT_USER_ENTRY (0x7FFFFFFEF000, 0x7FFFFFFFF000)"],
        simp add: new_process_def DEFAULT_USER_ENTRY_def)
  qed
qed

subsection \<open>A concrete program\<close>

definition demo_loader :: "BitmapFrameAllocator \<Rightarrow> loader" where
  "demo_loader a = \<lparr>lphys = \<lparr>pmem = (\<lambda>_. 0), frames = a\<rparr>, processes = replicate 4 None\<rparr>"

definition demo_stack :: "u64 \<times> u64" where
  "demo_stack = (0x12D000, 0x12F000)"

lemma demo_pool: "\<exists>a. mark_range_free True 0x200000 0x100000 allocator_new = Some a \<and> alloc_inv a \<and> free_set a = {512..<768}"
proof -
  obtain a where a: "mark_range_free True 0x200000 0x100000 allocator_new = Some a" "alloc_inv a"
      "free_set a = frames_inside 0x200000 0x100000"
    using mark_range_free_eq [OF alloc_inv_new(1), of "0x200000" "0x100000" True] alloc_inv_new(2) by auto
  moreover have "frames_inside 0x200000 0x100000 = {512..<768}" unfolding frames_inside_def MAX_FRAMES_def by auto
  ultimately show ?thesis by simp
qed

lemma demo_layout: "layout_free demo_stack demo_elf" "spawn_frames demo_stack demo_elf = 75" "boot_stack_ok demo_stack"
proof -
  have ld: "loadable demo_elf = [demo_load]" by (simp add: loadable_def demo_program_headers demo_load_def PT_LOAD_def)
  have bp: "boot_pages demo_stack = 2" by (simp add: boot_pages_def demo_stack_def)
  have np: "unat (nth_page base i) = unat base + i * 4096" if "is_user_va base" "unat base + i * 4096 < 2 ^ 47" for base i
    using page_offset [OF that] by (simp add: nth_page_def)
  have sp: "segment_pages demo_load = nth_page 0x400000 ` {0..<1}" by (simp add: segment_pages_def demo_load_def)
  have u: "unat v = 0x400000" if "v \<in> segment_pages demo_load" for v
    using that np [of "0x400000" 0] unfolding sp by (auto simp: is_user_va_iff)
  have t: "0x7FFFFFFEF000 \<le> unat v" if "v \<in> stack_pages" for v
    using that np [of "0x7FFFFFFEF000"] unfolding stack_pages_def by (auto simp: is_user_va_iff)
  have b: "unat v < 0x12F000" if "v \<in> nth_page 0x12D000 ` {0..<2}" for v
    using that np [of "0x12D000"] by (auto simp: is_user_va_iff less_2_cases_iff)
  have "segment_pages demo_load \<inter> stack_pages = {}" using u t by fastforce
  moreover have "nth_page 0x12D000 ` {0..<2} \<inter> (segment_pages demo_load \<union> stack_pages) = {}" using u t b by fastforce
  ultimately show "layout_free demo_stack demo_elf"
    unfolding layout_free_def bp ld by (simp add: demo_stack_def is_user_va_iff)
  show "spawn_frames demo_stack demo_elf = 75" by (simp add: spawn_frames_def bp ld segment_frames_def demo_load_def)
  show "boot_stack_ok demo_stack" by (simp add: boot_stack_ok_def demo_stack_def)
qed

lemma demo_kernel:
  assumes "alloc_inv a" "free_set a = {512..<768}"
  shows "pt_inv (lphys (demo_loader a)) 0x12C000"
proof (rule pt_inv_empty)
  show "alloc_inv (frames (lphys (demo_loader a)))" using assms(1) by (simp add: demo_loader_def)
  show "used_frame (frames (lphys (demo_loader a))) 0x12C000"
    unfolding used_frame_def demo_loader_def using assms(2)
    by (intro exI [of _ 300]) (simp add: frame_addr_def FRAME_SIZE_def MAX_FRAMES_def)
  show "get_entry (pmem (lphys (demo_loader a))) 0x12C000 i = 0" for i
    unfolding get_entry_def load64_def demo_loader_def by (rule from_le_zero) (auto simp: load_bytes_def)
qed

theorem spawn_elf_succeeds_witness:
  "\<exists>a st' pid. mark_range_free True 0x200000 0x100000 allocator_new = Some a \<and>
     spawn_elf True demo_stack 0x12C000 demo_elf (demo_loader a) = Some (st', Inr pid)"
proof -
  obtain a where a: "mark_range_free True 0x200000 0x100000 allocator_new = Some a" "alloc_inv a" "free_set a = {512..<768}"
    using demo_pool by blast
  then show ?thesis
    using spawn_elf_succeeds [OF demo_kernel [OF a(2,3)] demo_layout(3) _ demo_elf_valid _ demo_layout(1), of True]
    by (auto simp: length_demo_elf demo_layout(2)) (auto simp: demo_loader_def)
qed


subsection \<open>The processor's view\<close>

text \<open>C19: a spawned program cannot run. Entering a process that was spawned from a kernel address space
  whose present root entries are not user accessible and not executable, as all entries written by the
  mapping routine are, loads the root table, the entry point and the stack pointer of the process.
  But every translation in that address space then goes through a root entry without the user bit and
  with the no-execute bit: no address at all is accessible in ring 3, and no instruction can be
  fetched, the kernel's own included.\<close>

theorem spawned_program_unreachable:
  assumes "pt_inv (lphys st) kroot" "boot_stack_ok bs" "length data < 2 ^ 64" "length (processes st) = MAX_PROCESSES"
    and "root_locked (pmem (lphys st)) kroot" "spawn_elf oc bs kroot data st = Some (st', Inr pid)"
  shows "\<exists>cr3. enter_ring3 pid st' = Some (cr3, e_entry (elf_header_of data), 0x7FFFFFFFF000) \<and>
    (\<forall>va. \<not> ring3_access (pmem (lphys st')) cr3 va \<and> \<not> kernel_fetch (pmem (lphys st')) cr3 va)"
proof -
  obtain root ph1 M where M: "unat pid < MAX_PROCESSES" "space_started (lphys st) kroot ph1 root" "pages_ok ph1 root (lphys st') M"
      "processes st' = (processes st)[unat pid := Some (new_process (unat pid) root (e_entry (elf_header_of data)) (0x7FFFFFFEF000, 0x7FFFFFFFF000))]"
    using spawn_elf_result [OF assms(1-4), of oc] assms(6) by auto
  have "root_locked (pmem ph1) root"
    using M(2) assms(5) by (auto simp: root_locked_def space_started_def)
  then have "root_locked (pmem (lphys st')) root" using root_locked_ext [OF pages_okD(2) [OF M(3)]] by blast
  moreover have "enter_ring3 pid st' = Some (root, e_entry (elf_header_of data), 0x7FFFFFFFF000)"
    using M(1,4) assms(4) by (simp add: enter_ring3_def process_get_def new_process_def)
  ultimately show ?thesis using root_locked_access by blast
qed

theorem spawned_program_unreachable_witness:
  "\<exists>a st' pid cr3. mark_range_free True 0x200000 0x100000 allocator_new = Some a \<and>
     spawn_elf True demo_stack 0x12C000 demo_elf (demo_loader a) = Some (st', Inr pid) \<and>
     enter_ring3 pid st' = Some (cr3, 0x400000, 0x7FFFFFFFF000) \<and> \<not> ring3_access (pmem (lphys st')) cr3 0x400000"
proof -
  obtain a where a: "mark_range_free True 0x200000 0x100000 allocator_new = Some a" "alloc_inv a" "free_set a = {512..<768}"
    using demo_pool by blast
  note k = demo_kernel [OF a(2,3)]
  obtain st' pid where s: "spawn_elf True demo_stack 0x12C000 demo_elf (demo_loader a) = Some (st', Inr pid)"
    using spawn_elf_ok [OF k demo_layout(3) _ demo_elf_valid _ demo_layout(1), of True] a(3)
    by (auto simp: length_demo_elf demo_layout(2) demo_loader_def)
  have "get_entry (pmem (lphys (demo_loader a))) 0x12C000 i = 0" for i
    unfolding get_entry_def load64_def demo_loader_def by (rule from_le_zero) (auto simp: load_bytes_def)
  then have "length demo_elf < 2 ^ 64" "length (processes (demo_loader a)) = MAX_PROCESSES"
      "root_locked (pmem (lphys (demo_loader a))) 0x12C000"
    by (simp_all add: length_demo_elf demo_loader_def MAX_PROCESSES_def root_locked_def)
  from spawned_program_unreachable [OF k demo_layout(3) this s] a(1) s show ?thesis
    by (auto simp: elf_header_of_def demo_elf_header)
qed

end
