(* ===== verification/Keystore.thy ===== *)
theory Keystore
  imports CryptoService
begin

text \<open>
  \<^verbatim>\<open>src/src/hsm.rs\<close> and \<^verbatim>\<open>src/src/keystore.rs\<close>: the driver interface for
  pre-shared keys, the driver that has none, and the software key store. A key store is the list of
  its eight slots. \<open>Choice\<close> of the constant-time crate is a \<open>bool\<close>. The driver trait is the
  record of the two operations a key schedule calls; \<open>hsm_contract\<close> is what both implementations
  promise.
\<close>

subsection \<open>The driver interface\<close>

type_synonym PskId = bytes

definition PSK_ID_ZERO :: PskId where "PSK_ID_ZERO = replicate 16 0"

datatype HsmError = PskNotFound | NotProvisioned | HsmInternal

record HsmDriver =
  drv_exists :: "PskId \<Rightarrow> bool"
  drv_extract :: "PskId \<Rightarrow> bytes \<Rightarrow> (HsmError + bytes) option"

definition null_hsm :: HsmDriver where
  "null_hsm = \<lparr>drv_exists = (\<lambda>_. False), drv_extract = (\<lambda>_ _. Some (Inl NotProvisioned))\<rparr>"

subsection \<open>The store\<close>

definition MAX_PSK_SLOTS :: nat where "MAX_PSK_SLOTS = 8"
definition MAX_PSK_LEN :: nat where "MAX_PSK_LEN = 64"

datatype PskSlotState = Empty | Provisioned | Wiped

datatype KeystoreError = InvalidLength | Full | Duplicate | NotFound

record PskSlot =
  ps_id :: PskId
  ps_state :: PskSlotState
  ps_material :: bytes
  ps_len :: nat

type_synonym SoftKeystore = "PskSlot list"

definition psk_slot_empty :: PskSlot where
  "psk_slot_empty = \<lparr>ps_id = PSK_ID_ZERO, ps_state = Empty, ps_material = replicate MAX_PSK_LEN 0, ps_len = 0\<rparr>"

definition keystore_new :: SoftKeystore where
  "keystore_new = replicate MAX_PSK_SLOTS psk_slot_empty"

definition find_provisioned :: "SoftKeystore \<Rightarrow> PskId \<Rightarrow> nat option" where
  "find_provisioned ks i = List.find (\<lambda>n. ps_state (ks ! n) = Provisioned \<and> ps_id (ks ! n) = i) [0..<length ks]"

definition find_any_with_id :: "SoftKeystore \<Rightarrow> PskId \<Rightarrow> nat option" where
  "find_any_with_id ks i = List.find (\<lambda>n. ps_state (ks ! n) \<noteq> Empty \<and> ps_id (ks ! n) = i) [0..<length ks]"

definition fill_slot :: "PskId \<Rightarrow> bytes \<Rightarrow> PskSlot \<Rightarrow> PskSlot option" where
  "fill_slot i material s =
     do {
       buf \<leftarrow> copy_into (ps_material s) 0 (length material) material;
       let buf = take (length material) buf @ replicate (MAX_PSK_LEN - length material) 0;
       Some (s\<lparr>ps_material := buf, ps_id := i, ps_len := length material, ps_state := Provisioned\<rparr>)
     }"

definition provision :: "PskId \<Rightarrow> bytes \<Rightarrow> SoftKeystore \<Rightarrow> (SoftKeystore \<times> (KeystoreError + unit)) option" where
  "provision i material ks =
     (if material = [] \<or> MAX_PSK_LEN < length material then Some (ks, Inl InvalidLength)
      else if find_any_with_id ks i \<noteq> None then Some (ks, Inl Duplicate)
      else case List.find (\<lambda>n. ps_state (ks ! n) = Empty) [0..<length ks] of
        None \<Rightarrow> Some (ks, Inl Full)
      | Some n \<Rightarrow> do {
          s \<leftarrow> fill_slot i material (ks ! n);
          Some (ks[n := s], Inr ())
        })"

definition erase_slot :: "PskSlot \<Rightarrow> PskSlot" where
  "erase_slot s = s\<lparr>ps_material := replicate MAX_PSK_LEN 0, ps_id := PSK_ID_ZERO, ps_len := 0, ps_state := Wiped\<rparr>"

definition keystore_wipe_all :: "SoftKeystore \<Rightarrow> SoftKeystore" where
  "keystore_wipe_all ks = map erase_slot ks"

definition provisioned_count :: "SoftKeystore \<Rightarrow> nat" where
  "provisioned_count ks = length (filter (\<lambda>s. ps_state s = Provisioned) ks)"

definition psk_exists :: "SoftKeystore \<Rightarrow> PskId \<Rightarrow> bool" where
  "psk_exists ks i =
     fold (\<lambda>s acc. if ps_state s = Provisioned
                    then acc \<or> fold (\<lambda>(a, b) eq. eq \<and> a = b) (zip (ps_id s) i) True
                    else acc) ks False"

definition psk_hkdf_extract :: "('m, 'd) platform \<Rightarrow> SoftKeystore \<Rightarrow> PskId \<Rightarrow> bytes \<Rightarrow> (HsmError + bytes) option" where
  "psk_hkdf_extract P ks i salt =
     (case find_provisioned ks i of
        None \<Rightarrow> Some (Inl PskNotFound)
      | Some idx \<Rightarrow>
          if ps_len (ks ! idx) = 0 then Some (Inl HsmInternal)
          else do {
            psk \<leftarrow> slice (ps_material (ks ! idx)) 0 (ps_len (ks ! idx));
            Some (Inr (hkdf_extract P salt psk))
          })"

definition psk_destroy :: "PskId \<Rightarrow> SoftKeystore \<Rightarrow> SoftKeystore \<times> (HsmError + unit)" where
  "psk_destroy i ks =
     (case find_any_with_id ks i of
        Some idx \<Rightarrow> (ks[idx := erase_slot (ks ! idx)], Inr ())
      | None \<Rightarrow> (ks, Inr ()))"

definition soft_driver :: "('m, 'd) platform \<Rightarrow> SoftKeystore \<Rightarrow> HsmDriver" where
  "soft_driver P ks = \<lparr>drv_exists = psk_exists ks, drv_extract = psk_hkdf_extract P ks\<rparr>"

text \<open>The global store and the trust root slot, created empty at the first use and at boot.\<close>

definition global_mut :: "SoftKeystore option \<Rightarrow> SoftKeystore" where
  "global_mut st = (case st of None \<Rightarrow> keystore_new | Some ks \<Rightarrow> ks)"

definition read_trust_root_pk :: "bytes option \<Rightarrow> bytes option" where
  "read_trust_root_pk slot = slot"

definition provision_trust_root_pk :: "bytes \<Rightarrow> bytes option \<Rightarrow> bytes option \<times> (KeystoreError + unit)" where
  "provision_trust_root_pk pk slot = (Some pk, Inr ())"

subsection \<open>Well-formed stores\<close>

text \<open>
  A slot holds a key of 1 to 64 bytes, padded with zeros, or no key material at all. Two slots
  with keys have different identifiers.
\<close>

definition slot_wf :: "PskSlot \<Rightarrow> bool" where
  "slot_wf s \<longleftrightarrow> length (ps_id s) = 16 \<and> length (ps_material s) = MAX_PSK_LEN \<and>
     (if ps_state s = Provisioned
      then 0 < ps_len s \<and> ps_len s \<le> MAX_PSK_LEN \<and> (\<forall>k \<in> {ps_len s..<MAX_PSK_LEN}. ps_material s ! k = 0)
      else ps_len s = 0 \<and> ps_id s = PSK_ID_ZERO \<and> (\<forall>k < MAX_PSK_LEN. ps_material s ! k = 0))"

definition ids_distinct :: "SoftKeystore \<Rightarrow> bool" where
  "ids_distinct ks \<longleftrightarrow> (\<forall>m < length ks. \<forall>n < length ks.
     ps_state (ks ! m) = Provisioned \<and> ps_state (ks ! n) = Provisioned \<and> ps_id (ks ! m) = ps_id (ks ! n) \<longrightarrow> m = n)"

definition keystore_wf :: "SoftKeystore \<Rightarrow> bool" where
  "keystore_wf ks \<longleftrightarrow> length ks = MAX_PSK_SLOTS \<and> (\<forall>s \<in> set ks. slot_wf s) \<and> ids_distinct ks"

text \<open>The abstract store: a partial map from identifiers to keys.\<close>

definition keys_of :: "SoftKeystore \<Rightarrow> PskId \<Rightarrow> bytes option" where
  "keys_of ks i = map_option (\<lambda>n. take (ps_len (ks ! n)) (ps_material (ks ! n))) (find_provisioned ks i)"

lemma slot_wf_empty: "slot_wf psk_slot_empty"
  by (simp add: slot_wf_def psk_slot_empty_def PSK_ID_ZERO_def MAX_PSK_LEN_def)

lemma slot_wf_erase: "slot_wf (erase_slot s)"
  by (simp add: slot_wf_def erase_slot_def PSK_ID_ZERO_def MAX_PSK_LEN_def)

lemma keystore_wf_new: "keystore_wf keystore_new"
  using slot_wf_empty by (auto simp: keystore_wf_def keystore_new_def ids_distinct_def psk_slot_empty_def)

lemma fill_slot_wf:
  assumes "slot_wf s" "length i = 16" "material \<noteq> []" "length material \<le> 64"
  shows "\<exists>s'. fill_slot i material s = Some s' \<and> slot_wf s' \<and> ps_state s' = Provisioned \<and> ps_id s' = i \<and>
    take (ps_len s') (ps_material s') = material"
  using assms by (auto simp: fill_slot_def slot_wf_def MAX_PSK_LEN_def nth_append)

lemma ids_distinct_update:
  assumes "ids_distinct ks" "n < length ks"
    and "ps_state s = Provisioned \<Longrightarrow> (\<forall>m < length ks. m \<noteq> n \<longrightarrow> \<not> (ps_state (ks ! m) = Provisioned \<and> ps_id (ks ! m) = ps_id s))"
  shows "ids_distinct (ks[n := s])"
  using assms unfolding ids_distinct_def by (auto simp: nth_list_update)

lemma keystore_wf_update:
  assumes "keystore_wf ks" "n < length ks" "slot_wf s"
    and "ps_state s = Provisioned \<Longrightarrow> (\<forall>m < length ks. m \<noteq> n \<longrightarrow> \<not> (ps_state (ks ! m) = Provisioned \<and> ps_id (ks ! m) = ps_id s))"
  shows "keystore_wf (ks[n := s])"
  using assms ids_distinct_update [of ks n s]
  by (auto simp: keystore_wf_def dest!: set_update_subset_insert [THEN subsetD])

subsection \<open>The operations on the abstract store\<close>

lemma find_provisioned_Some:
  "keystore_wf ks \<Longrightarrow> find_provisioned ks i = Some n \<longleftrightarrow> n < length ks \<and> ps_state (ks ! n) = Provisioned \<and> ps_id (ks ! n) = i"
  unfolding find_provisioned_def find_upt_Some_iff keystore_wf_def ids_distinct_def by (metis less_trans nat_neq_iff)

lemma find_provisioned_None:
  "find_provisioned ks i = None \<longleftrightarrow> (\<forall>n < length ks. \<not> (ps_state (ks ! n) = Provisioned \<and> ps_id (ks ! n) = i))"
  unfolding find_provisioned_def find_upt_None_iff ..

lemma keys_of_Some:
  assumes "keystore_wf ks"
  shows "keys_of ks i = Some key \<longleftrightarrow> (\<exists>n < length ks. ps_state (ks ! n) = Provisioned \<and> ps_id (ks ! n) = i \<and>
    key = take (ps_len (ks ! n)) (ps_material (ks ! n)))"
  unfolding keys_of_def using find_provisioned_Some [OF assms] by auto

lemma keys_of_None:
  "keys_of ks i = None \<longleftrightarrow> (\<forall>n < length ks. \<not> (ps_state (ks ! n) = Provisioned \<and> ps_id (ks ! n) = i))"
  by (simp add: keys_of_def find_provisioned_None)

lemma keys_of_update:
  assumes "keystore_wf ks" "keystore_wf (ks[n := s])" "n < length ks" "ps_state (ks ! n) \<noteq> Provisioned" "ps_state s = Provisioned"
  shows "keys_of (ks[n := s]) = (keys_of ks)(ps_id s \<mapsto> take (ps_len s) (ps_material s))"
proof
  fix i
  show "keys_of (ks[n := s]) i = ((keys_of ks)(ps_id s \<mapsto> take (ps_len s) (ps_material s))) i"
  proof (cases "i = ps_id s")
    case True
    have "keys_of (ks[n := s]) i = Some (take (ps_len s) (ps_material s))"
      unfolding keys_of_Some [OF assms(2)] using assms(3,5) True by (intro exI [of _ n]) simp
    then show ?thesis using True by simp
  next
    case False
    have "keys_of (ks[n := s]) i = keys_of ks i"
    proof (cases "keys_of ks i")
      case None
      then have "\<not> (ps_state (ks[n := s] ! m) = Provisioned \<and> ps_id (ks[n := s] ! m) = i)" if "m < length ks" for m
        using that False unfolding keys_of_None by (cases "m = n") auto
      then show ?thesis unfolding None keys_of_None by simp
    next
      case (Some key)
      then obtain m where m: "m < length ks" "ps_state (ks ! m) = Provisioned" "ps_id (ks ! m) = i"
          "key = take (ps_len (ks ! m)) (ps_material (ks ! m))"
        by (auto simp: keys_of_Some [OF assms(1)])
      then have "m \<noteq> n" using assms(4) by auto
      then show ?thesis unfolding Some keys_of_Some [OF assms(2)] using m by (intro exI [of _ m]) simp
    qed
    then show ?thesis using False by simp
  qed
qed

lemma keys_of_erase:
  assumes "keystore_wf ks" "n < length ks"
  shows "keys_of (ks[n := erase_slot (ks ! n)]) =
    (if ps_state (ks ! n) = Provisioned then (keys_of ks)(ps_id (ks ! n) := None) else keys_of ks)"
proof
  fix i
  let ?ks = "ks[n := erase_slot (ks ! n)]"
  have wf: "keystore_wf ?ks"
    using assms slot_wf_erase by (intro keystore_wf_update) (simp_all add: erase_slot_def)
  have st: "ps_state (?ks ! m) = Provisioned \<and> ps_id (?ks ! m) = i \<longleftrightarrow> m \<noteq> n \<and> ps_state (ks ! m) = Provisioned \<and> ps_id (ks ! m) = i"
    if "m < length ks" for m using that by (cases "m = n") (simp_all add: erase_slot_def)
  have one: "m = n" if "m < length ks" "ps_state (ks ! m) = Provisioned" "ps_id (ks ! m) = i" "ps_state (ks ! n) = Provisioned" "ps_id (ks ! n) = i" for m
    using that assms by (auto simp: keystore_wf_def ids_distinct_def)
  show "keys_of ?ks i = (if ps_state (ks ! n) = Provisioned then (keys_of ks)(ps_id (ks ! n) := None) else keys_of ks) i"
  proof (cases "ps_state (ks ! n) = Provisioned \<and> ps_id (ks ! n) = i")
    case True
    then have "keys_of ?ks i = None" unfolding keys_of_None using st one by auto
    then show ?thesis using True by auto
  next
    case False
    have "keys_of ?ks i = keys_of ks i"
    proof (cases "keys_of ks i")
      case None
      then have "keys_of ?ks i = None" using st unfolding keys_of_None by simp
      then show ?thesis using None by simp
    next
      case (Some key)
      then obtain m where m: "m < length ks" "ps_state (ks ! m) = Provisioned" "ps_id (ks ! m) = i"
          "key = take (ps_len (ks ! m)) (ps_material (ks ! m))"
        by (auto simp: keys_of_Some [OF assms(1)])
      then have "m \<noteq> n" using False by auto
      then show ?thesis unfolding Some keys_of_Some [OF wf] using m by (intro exI [of _ m]) simp
    qed
    then show ?thesis using False by auto
  qed
qed

lemma provision_result:
  assumes "keystore_wf ks" "length i = 16"
  obtains (refused) e where "provision i m ks = Some (ks, Inl e)"
      "e = (if m = [] \<or> MAX_PSK_LEN < length m then InvalidLength else if find_any_with_id ks i \<noteq> None then Duplicate else Full)"
      "(m = [] \<or> MAX_PSK_LEN < length m) \<or> find_any_with_id ks i \<noteq> None \<or> (\<forall>s \<in> set ks. ps_state s \<noteq> Empty)"
    | (stored) n s where "provision i m ks = Some (ks[n := s], Inr ())" "n < length ks" "ps_state (ks ! n) = Empty"
      "ps_state s = Provisioned" "keystore_wf (ks[n := s])" "keys_of (ks[n := s]) = (keys_of ks)(i \<mapsto> m)" "keys_of ks i = None"
proof (cases "m = [] \<or> MAX_PSK_LEN < length m \<or> find_any_with_id ks i \<noteq> None")
  case True
  then show ?thesis by (intro refused) (auto simp: provision_def)
next
  case False
  note guards = False
  show ?thesis
  proof (cases "List.find (\<lambda>n. ps_state (ks ! n) = Empty) [0..<length ks]")
    case None
    then have "\<forall>s \<in> set ks. ps_state s \<noteq> Empty" by (auto simp: find_upt_None_iff in_set_conv_nth)
    then show ?thesis using guards None by (intro refused) (auto simp: provision_def)
  next
    case (Some n)
    then have n: "n < length ks" "ps_state (ks ! n) = Empty" by (auto simp: find_upt_Some_iff)
    obtain s where s: "fill_slot i m (ks ! n) = Some s" "slot_wf s" "ps_state s = Provisioned" "ps_id s = i"
        "take (ps_len s) (ps_material s) = m"
      using fill_slot_wf [of "ks ! n" i m] assms n(1) guards by (auto simp: keystore_wf_def MAX_PSK_LEN_def)
    have fresh: "\<not> (ps_state (ks ! k) = Provisioned \<and> ps_id (ks ! k) = i)" if "k < length ks" for k
      using guards that by (auto simp: find_any_with_id_def find_upt_None_iff)
    have wf: "keystore_wf (ks[n := s])" using keystore_wf_update [OF assms(1) n(1) s(2)] fresh s(4) by blast
    show ?thesis
    proof (rule stored [of n s])
      show "provision i m ks = Some (ks[n := s], Inr ())" using guards Some s(1) by (simp add: provision_def)
      show "keys_of (ks[n := s]) = (keys_of ks)(i \<mapsto> m)"
        using keys_of_update [OF assms(1) wf n(1) _ s(3)] n(2) s(4,5) by simp
      show "keys_of ks i = None" using fresh by (simp add: keys_of_None)
    qed (use n s(3) wf in auto)
  qed
qed

lemma psk_destroy_result:
  assumes "keystore_wf ks"
  shows "keystore_wf (fst (psk_destroy i ks))" "snd (psk_destroy i ks) = Inr ()"
    "i \<noteq> PSK_ID_ZERO \<Longrightarrow> keys_of (fst (psk_destroy i ks)) = (keys_of ks)(i := None)"
proof -
  have er: "keystore_wf (ks[n := erase_slot (ks ! n)])" if "n < length ks" for n
    using that assms slot_wf_erase by (intro keystore_wf_update) (simp_all add: erase_slot_def)
  show "keystore_wf (fst (psk_destroy i ks))" "snd (psk_destroy i ks) = Inr ()"
    using assms er by (auto simp: psk_destroy_def find_any_with_id_def find_upt_Some_iff split: option.splits)
  assume nz: "i \<noteq> PSK_ID_ZERO"
  show "keys_of (fst (psk_destroy i ks)) = (keys_of ks)(i := None)"
  proof (cases "find_any_with_id ks i")
    case None
    then have "keys_of ks i = None" by (auto simp: find_any_with_id_def find_upt_None_iff keys_of_None)
    then show ?thesis using None by (auto simp: psk_destroy_def)
  next
    case (Some n)
    then have n: "n < length ks" "ps_id (ks ! n) = i" by (auto simp: find_any_with_id_def find_upt_Some_iff)
    then have "slot_wf (ks ! n)" using assms by (simp add: keystore_wf_def)
    then have "ps_state (ks ! n) = Provisioned" using nz n(2) unfolding slot_wf_def by argo
    then show ?thesis using Some n keys_of_erase [OF assms n(1)] by (simp add: psk_destroy_def)
  qed
qed

lemma wipe_all_result: "length ks = 8 \<Longrightarrow> keystore_wf (keystore_wipe_all ks)" "keys_of (keystore_wipe_all ks) = Map.empty"
proof -
  show "length ks = 8 \<Longrightarrow> keystore_wf (keystore_wipe_all ks)"
    using slot_wf_erase by (auto simp: keystore_wf_def keystore_wipe_all_def MAX_PSK_SLOTS_def ids_distinct_def erase_slot_def)
  show "keys_of (keystore_wipe_all ks) = Map.empty"
    by (rule ext) (simp add: keys_of_None keystore_wipe_all_def erase_slot_def)
qed

lemma ids_equal:
  "length a = length b \<Longrightarrow> fold (\<lambda>(a, b) eq. eq \<and> a = b) (zip a b) acc \<longleftrightarrow> acc \<and> a = (b :: 'a list)"
  by (induction a b arbitrary: acc rule: list_induct2) auto

lemma psk_exists_iff:
  assumes "keystore_wf ks" "length i = 16"
  shows "psk_exists ks i \<longleftrightarrow> keys_of ks i \<noteq> None"
proof -
  have scan: "fold (\<lambda>s acc. if ps_state s = Provisioned then acc \<or> fold (\<lambda>(a, b) eq. eq \<and> a = b) (zip (ps_id s) i) True else acc) xs acc
      \<longleftrightarrow> acc \<or> (\<exists>s \<in> set xs. ps_state s = Provisioned \<and> ps_id s = i)"
    if "\<forall>s \<in> set xs. length (ps_id s) = 16" for xs :: SoftKeystore and acc
    using that by (induction xs arbitrary: acc) (auto simp: ids_equal assms(2))
  have "\<forall>s \<in> set ks. length (ps_id s) = 16" using assms(1) by (simp add: keystore_wf_def slot_wf_def)
  from scan [OF this, of False] have "psk_exists ks i \<longleftrightarrow> (\<exists>s \<in> set ks. ps_state s = Provisioned \<and> ps_id s = i)"
    unfolding psk_exists_def by (simp only: simp_thms)
  then show ?thesis unfolding keys_of_None set_conv_nth by blast
qed

lemma psk_extract_result:
  assumes "keystore_wf ks"
  shows "psk_hkdf_extract P ks i salt =
    Some (case keys_of ks i of None \<Rightarrow> Inl PskNotFound | Some key \<Rightarrow> Inr (hkdf_extract P salt key))"
proof (cases "find_provisioned ks i")
  case (Some n)
  then have n: "n < length ks" "ps_state (ks ! n) = Provisioned" using find_provisioned_Some [OF assms] by auto
  then have "slot_wf (ks ! n)" using assms by (simp add: keystore_wf_def)
  then have "0 < ps_len (ks ! n)" "ps_len (ks ! n) \<le> length (ps_material (ks ! n))" using n(2) by (auto simp: slot_wf_def)
  then show ?thesis using Some by (simp add: psk_hkdf_extract_def keys_of_def)
qed (simp add: psk_hkdf_extract_def keys_of_def)

subsection \<open>What a driver promises\<close>

text \<open>
  \<open>key k\<close> is the partial map of the keys behind a driver in state \<open>k\<close>. A driver never returns a key,
  only its HKDF-Extract under a salt.
\<close>

locale hsm_contract =
  fixes P :: "('m, 'd) platform" and ok :: "'k \<Rightarrow> bool" and drv :: "'k \<Rightarrow> HsmDriver" and key :: "'k \<Rightarrow> PskId \<Rightarrow> bytes option"
  assumes driver_exists: "ok k \<Longrightarrow> length i = 16 \<Longrightarrow> drv_exists (drv k) i \<longleftrightarrow> key k i \<noteq> None"
    and driver_extract: "ok k \<Longrightarrow> length i = 16 \<Longrightarrow> key k i = Some psk \<Longrightarrow> drv_extract (drv k) i salt = Some (Inr (hkdf_extract P salt psk))"
    and driver_missing: "ok k \<Longrightarrow> length i = 16 \<Longrightarrow> key k i = None \<Longrightarrow> \<exists>e. drv_extract (drv k) i salt = Some (Inl e)"
begin

lemma driver_consistent:
  assumes "ok k" "length i = 16"
  shows "drv_exists (drv k) i \<longleftrightarrow> (\<exists>prk. drv_extract (drv k) i salt = Some (Inr prk))"
proof (cases "key k i")
  case None
  then show ?thesis using driver_exists [OF assms] driver_missing [OF assms None, of salt] by auto
next
  case (Some psk)
  then show ?thesis using driver_exists [OF assms] driver_extract [OF assms Some, of salt] by auto
qed

end

interpretation soft_hsm: hsm_contract P keystore_wf "soft_driver P" keys_of
  by unfold_locales (simp_all add: soft_driver_def psk_exists_iff psk_extract_result)

interpretation no_hsm: hsm_contract P "\<lambda>_ :: unit. True" "\<lambda>_. null_hsm" "\<lambda>_. Map.empty"
  by unfold_locales (simp_all add: null_hsm_def)

subsection \<open>Runs\<close>

datatype keystore_op = OpProvision PskId bytes | OpDestroy PskId | OpWipeAll

fun keystore_op_ok :: "keystore_op \<Rightarrow> bool" where
  "keystore_op_ok (OpProvision i m) = (length i = 16)"
| "keystore_op_ok (OpDestroy i) = (length i = 16)"
| "keystore_op_ok OpWipeAll = True"

fun keystore_op_run :: "keystore_op \<Rightarrow> SoftKeystore \<Rightarrow> SoftKeystore option" where
  "keystore_op_run (OpProvision i m) ks = map_option fst (provision i m ks)"
| "keystore_op_run (OpDestroy i) ks = Some (fst (psk_destroy i ks))"
| "keystore_op_run OpWipeAll ks = Some (keystore_wipe_all ks)"

fun keystore_run :: "keystore_op list \<Rightarrow> SoftKeystore \<Rightarrow> SoftKeystore option" where
  "keystore_run [] ks = Some ks"
| "keystore_run (x # xs) ks = do { ks \<leftarrow> keystore_op_run x ks; keystore_run xs ks }"

fun lifecycle_rank :: "PskSlotState \<Rightarrow> nat" where
  "lifecycle_rank Empty = 0"
| "lifecycle_rank Provisioned = 1"
| "lifecycle_rank Wiped = 2"

definition slots_advance :: "SoftKeystore \<Rightarrow> SoftKeystore \<Rightarrow> bool" where
  "slots_advance ks ks' \<longleftrightarrow> length ks' = length ks \<and>
     (\<forall>n < length ks. lifecycle_rank (ps_state (ks ! n)) \<le> lifecycle_rank (ps_state (ks' ! n)))"

lemma lifecycle_rank_le: "lifecycle_rank st \<le> 2"
  by (cases st) simp_all

lemma slots_advance_trans: "slots_advance a b \<Longrightarrow> slots_advance b c \<Longrightarrow> slots_advance a c"
  by (fastforce simp: slots_advance_def)

lemma slots_advance_update:
  "lifecycle_rank (ps_state (ks ! n)) \<le> lifecycle_rank (ps_state s) \<Longrightarrow> slots_advance ks (ks[n := s])"
  unfolding slots_advance_def by (metis length_list_update nth_list_update_eq nth_list_update_neq order_refl)

lemma keystore_op_keeps:
  assumes "keystore_wf ks" "keystore_op_ok x"
  shows "\<exists>ks'. keystore_op_run x ks = Some ks' \<and> keystore_wf ks' \<and> slots_advance ks ks'"
proof (cases x)
  case (OpProvision i m)
  then have i: "length i = 16" using assms(2) by simp
  show ?thesis
  proof (cases rule: provision_result [OF assms(1) i, where m = m, case_names refused stored])
    case (refused e)
    then show ?thesis using OpProvision assms(1) by (simp add: slots_advance_def)
  next
    case (stored n s)
    then show ?thesis using OpProvision slots_advance_update [of ks n s] by simp
  qed
next
  case (OpDestroy i)
  have "slots_advance ks (fst (psk_destroy i ks))"
    using slots_advance_update lifecycle_rank_le
    by (auto simp: psk_destroy_def erase_slot_def slots_advance_def split: option.splits)
  then show ?thesis using OpDestroy psk_destroy_result(1) [OF assms(1)] by simp
next
  case OpWipeAll
  have "length ks = 8" using assms(1) by (simp add: keystore_wf_def MAX_PSK_SLOTS_def)
  moreover have "slots_advance ks (keystore_wipe_all ks)"
    using lifecycle_rank_le by (simp add: slots_advance_def keystore_wipe_all_def erase_slot_def)
  ultimately show ?thesis using OpWipeAll wipe_all_result(1) by simp
qed



text \<open>C23: the key store is a partial map from identifiers to keys. On a well-formed store, provisioning
  either fails and changes nothing, or the identifier had no key and now maps to exactly the given
  bytes; the existence test and the extraction read this map and the extraction of an unknown
  identifier reports it; destroying an identifier other than the zero one removes exactly its key; and
  wiping removes all keys.\<close>

theorem keystore_refines_map:
  assumes "keystore_wf ks" "length i = 16"
  shows "((\<exists>e. provision i m ks = Some (ks, Inl e)) \<or>
      (\<exists>ks'. provision i m ks = Some (ks', Inr ()) \<and> keys_of ks i = None \<and> keys_of ks' = (keys_of ks)(i \<mapsto> m))) \<and>
    (psk_exists ks i \<longleftrightarrow> keys_of ks i \<noteq> None) \<and>
    psk_hkdf_extract P ks i salt = Some (case keys_of ks i of None \<Rightarrow> Inl PskNotFound | Some key \<Rightarrow> Inr (hkdf_extract P salt key)) \<and>
    (i \<noteq> PSK_ID_ZERO \<longrightarrow> keys_of (fst (psk_destroy i ks)) = (keys_of ks)(i := None)) \<and>
    keys_of (keystore_wipe_all ks) = Map.empty"
proof (intro conjI impI)
  show "(\<exists>e. provision i m ks = Some (ks, Inl e)) \<or>
      (\<exists>ks'. provision i m ks = Some (ks', Inr ()) \<and> keys_of ks i = None \<and> keys_of ks' = (keys_of ks)(i \<mapsto> m))"
    by (cases rule: provision_result [OF assms, where m = m, case_names refused stored]) blast+
qed (use psk_exists_iff [OF assms] psk_extract_result [OF assms(1)] psk_destroy_result(3) [OF assms(1)] wipe_all_result(2) in blast)+

theorem keystore_refines_map_witness:
  "keys_of keystore_new (replicate 16 1) = None \<and> psk_exists keystore_new (replicate 16 1) = False \<and>
   keys_of (fst (psk_destroy (replicate 16 1) keystore_new)) (replicate 16 1) = None"
proof -
  have "keys_of keystore_new (replicate 16 1) = None"
    by (simp add: keys_of_None keystore_new_def psk_slot_empty_def)
  moreover have "replicate 16 1 \<noteq> PSK_ID_ZERO" by (simp add: PSK_ID_ZERO_def)
  ultimately show ?thesis
    using keystore_refines_map [OF keystore_wf_new, of "replicate 16 1" "[7]" demo_platform "[]"] by simp
qed

subsection \<open>Identifiers after destruction\<close>

text \<open>
  The comments of the file say that an identifier that was destroyed cannot be provisioned again.
  Erasing a slot also erases its identifier, so it can, as long as an empty slot is left.
\<close>

theorem destroyed_id_provisioned_again:
  assumes "keystore_wf ks" "length i = 16" "i \<noteq> PSK_ID_ZERO" "\<exists>s \<in> set ks. ps_state s = Empty" "m \<noteq> []" "length m \<le> 64"
  shows "\<exists>ks'. provision i m (fst (psk_destroy i ks)) = Some (ks', Inr ()) \<and> keys_of ks' i = Some m"
proof -
  let ?ks = "fst (psk_destroy i ks)"
  note wf = psk_destroy_result(1) [OF assms(1), of i]
  have "keys_of ?ks i = None" using psk_destroy_result(3) [OF assms(1,3)] by simp
  moreover have "ps_state (?ks ! n) = Provisioned" if "n < length ?ks" "ps_state (?ks ! n) \<noteq> Empty" "ps_id (?ks ! n) = i" for n
  proof -
    have "slot_wf (?ks ! n)" using wf that(1) by (simp add: keystore_wf_def)
    then show ?thesis using assms(3) that(3) unfolding slot_wf_def by argo
  qed
  ultimately have new: "find_any_with_id ?ks i = None"
    unfolding find_any_with_id_def find_upt_None_iff keys_of_None by blast
  obtain n where n: "n < length ks" "ps_state (ks ! n) = Empty" using assms(4) by (auto simp: in_set_conv_nth)
  then have "n < length ?ks" "ps_state (?ks ! n) = Empty"
    by (auto simp: psk_destroy_def find_any_with_id_def find_upt_Some_iff nth_list_update split: option.splits)
  then have free: "\<not> (\<forall>s \<in> set ?ks. ps_state s \<noteq> Empty)" by force
  show ?thesis
  proof (cases rule: provision_result [OF wf assms(2), where m = m, case_names refused stored])
    case (refused e)
    then show ?thesis using new free assms(5,6) by (simp add: MAX_PSK_LEN_def)
  next
    case (stored n s)
    then show ?thesis by simp
  qed
qed

text \<open>
  A key under the zero identifier survives its destruction once a slot before it was erased: the search
  stops at the erased slot.
\<close>

theorem zero_id_key_survives:
  "map_option (\<lambda>ks. psk_exists ks PSK_ID_ZERO)
     (keystore_run [OpProvision (replicate 16 1) [5], OpProvision PSK_ID_ZERO [6], OpDestroy (replicate 16 1), OpDestroy PSK_ID_ZERO]
        keystore_new) = Some True"
  by code_simp

end
