(* ===== verification/TlsRecord.thy ===== *)
theory TlsRecord
  imports Keystore
begin

text \<open>
  \<^verbatim>\<open>src/src/tls/mod.rs\<close> (types), \<^verbatim>\<open>src/src/tls/record.rs\<close> and
  \<^verbatim>\<open>src/src/tls/transcript.rs\<close>: the types of a TLS connection, record protection and the
  handshake transcript. Working copies that the code erases before it returns have no counterpart.
\<close>

subsection \<open>Types\<close>

definition MAX_TLS_CONNS :: nat where "MAX_TLS_CONNS = 4"
definition TRANSCRIPT_BUF_LEN :: nat where "TRANSCRIPT_BUF_LEN = 4096"
definition AEAD_KEY_LEN :: nat where "AEAD_KEY_LEN = 32"
definition AEAD_IV_LEN :: nat where "AEAD_IV_LEN = 12"
definition AEAD_TAG_LEN :: nat where "AEAD_TAG_LEN = 16"
definition TLS_MLKEM768_PK_LEN :: nat where "TLS_MLKEM768_PK_LEN = 1184"
definition TLS_MLKEM768_CT_LEN :: nat where "TLS_MLKEM768_CT_LEN = 1088"
definition TLS_X25519_PK_LEN :: nat where "TLS_X25519_PK_LEN = 32"
definition TLS_KEM_SS_LEN :: nat where "TLS_KEM_SS_LEN = 32"
definition TLS_HASH_LEN :: nat where "TLS_HASH_LEN = SHA256_OUTPUT_SIZE"

lemmas tls_sizes = MAX_TLS_CONNS_def TRANSCRIPT_BUF_LEN_def AEAD_KEY_LEN_def AEAD_IV_LEN_def AEAD_TAG_LEN_def
  TLS_MLKEM768_PK_LEN_def TLS_MLKEM768_CT_LEN_def TLS_X25519_PK_LEN_def TLS_KEM_SS_LEN_def TLS_HASH_LEN_def
  SHA256_OUTPUT_SIZE_def

datatype Profile = ProfileClosed | ProfileExternal

datatype KexPolicy = Hybrid | Classical

datatype CipherSuite = Aes256GcmSha256 | ChaCha20Poly1305Sha256

fun suite_code :: "CipherSuite \<Rightarrow> u8" where
  "suite_code Aes256GcmSha256 = 0x01"
| "suite_code ChaCha20Poly1305Sha256 = 0x02"

datatype Side = Client | Server

datatype TlsError =
  PoolFull | InvalidHandle | TranscriptOverflow | BadMessage | UnexpectedState | UnknownPsk | ProfileDisabled
  | HsmFailure | TlsAuthenticationFailed | FinishedMismatch | SequenceExhausted | TlsBufferTooSmall | KexPolicyMismatch
  | TlsInternal

fun tls_of_hsm :: "HsmError \<Rightarrow> TlsError" where
  "tls_of_hsm PskNotFound = UnknownPsk"
| "tls_of_hsm NotProvisioned = HsmFailure"
| "tls_of_hsm HsmInternal = HsmFailure"

record DirectionalKeys =
  dk_key :: bytes
  dk_iv :: bytes
  dk_seq :: u64

definition keys_empty :: DirectionalKeys where
  "keys_empty = \<lparr>dk_key = replicate AEAD_KEY_LEN 0, dk_iv = replicate AEAD_IV_LEN 0, dk_seq = 0\<rparr>"

definition keys_wipe :: "DirectionalKeys \<Rightarrow> DirectionalKeys" where
  "keys_wipe k = k\<lparr>dk_key := replicate AEAD_KEY_LEN 0, dk_iv := replicate AEAD_IV_LEN 0, dk_seq := 0\<rparr>"

subsection \<open>Records\<close>

definition RECORD_HEADER_LEN :: nat where "RECORD_HEADER_LEN = 5"
definition MAX_PLAINTEXT_LEN :: nat where "MAX_PLAINTEXT_LEN = 200"
definition CT_APPLICATION_DATA :: u8 where "CT_APPLICATION_DATA = 0x17"
definition LEGACY_RECORD_VERSION :: bytes where "LEGACY_RECORD_VERSION = [0x03, 0x03]"

lemmas record_sizes = RECORD_HEADER_LEN_def MAX_PLAINTEXT_LEN_def CT_APPLICATION_DATA_def LEGACY_RECORD_VERSION_def

definition build_nonce :: "bytes \<Rightarrow> u64 \<Rightarrow> bytes" where
  "build_nonce static_iv sq = map2 (XOR) static_iv (replicate (AEAD_IV_LEN - 8) 0 @ to_be 8 sq)"

definition build_aad :: "nat \<Rightarrow> TlsError + bytes" where
  "build_aad record_payload_len =
     (if 0xFFFF < record_payload_len then Inl TlsBufferTooSmall
      else Inr ([CT_APPLICATION_DATA] @ LEGACY_RECORD_VERSION @ to_be 2 (of_nat record_payload_len :: u16)))"

definition suite_encrypt ::
  "('m, 'd) platform \<Rightarrow> CipherSuite \<Rightarrow> bytes \<Rightarrow> bytes \<Rightarrow> bytes \<Rightarrow> bytes \<Rightarrow> (bytes \<times> bytes) option" where
  "suite_encrypt P suite key nonce aad pt =
     (case suite of
        Aes256GcmSha256 \<Rightarrow> Some (p_aes256gcm_encrypt P key nonce aad pt)
      | ChaCha20Poly1305Sha256 \<Rightarrow> p_chacha_encrypt P key nonce aad pt)"

definition suite_decrypt ::
  "('m, 'd) platform \<Rightarrow> CipherSuite \<Rightarrow> bytes \<Rightarrow> bytes \<Rightarrow> bytes \<Rightarrow> bytes \<Rightarrow> bytes \<Rightarrow> bytes option" where
  "suite_decrypt P suite key nonce aad ct tag =
     (case suite of
        Aes256GcmSha256 \<Rightarrow> p_aes256gcm_decrypt P key nonce aad ct tag
      | ChaCha20Poly1305Sha256 \<Rightarrow> p_chacha_decrypt P key nonce aad ct tag)"

definition encrypt_record ::
  "('m, 'd) platform \<Rightarrow> CipherSuite \<Rightarrow> bytes \<Rightarrow> DirectionalKeys \<Rightarrow> bytes \<Rightarrow> ((DirectionalKeys \<times> bytes) \<times> (TlsError + nat)) option" where
  "encrypt_record P suite plaintext keys out =
     (if MAX_PLAINTEXT_LEN < length plaintext then Some ((keys, out), Inl TlsBufferTooSmall)
      else if dk_seq keys = - 1 then Some ((keys, out), Inl SequenceExhausted)
      else
        let inner_len = length plaintext + 1;
            record_payload_len = inner_len + AEAD_TAG_LEN;
            total_len = RECORD_HEADER_LEN + record_payload_len
        in if length out < total_len then Some ((keys, out), Inl TlsBufferTooSmall)
           else (case build_aad record_payload_len of
             Inl e \<Rightarrow> Some ((keys, out), Inl e)
           | Inr aad \<Rightarrow> do {
               out \<leftarrow> copy_into out 0 RECORD_HEADER_LEN aad;
               inner \<leftarrow> copy_into (replicate (MAX_PLAINTEXT_LEN + 1) 0) 0 (length plaintext) plaintext;
               inner \<leftarrow> index_set inner (length plaintext) CT_APPLICATION_DATA;
               let nonce = build_nonce (dk_iv keys) (dk_seq keys);
               pt \<leftarrow> slice inner 0 inner_len;
               let tag_off = RECORD_HEADER_LEN + inner_len;
               case suite_encrypt P suite (dk_key keys) nonce aad pt of
                 None \<Rightarrow> Some ((keys, out), Inl TlsInternal)
               | Some (ct, tag) \<Rightarrow> do {
                   out \<leftarrow> copy_into out RECORD_HEADER_LEN tag_off ct;
                   out \<leftarrow> copy_into out tag_off (tag_off + AEAD_TAG_LEN) tag;
                   Some ((keys\<lparr>dk_seq := dk_seq keys + 1\<rparr>, out), Inr total_len)
                 }
             }))"

definition decrypt_record ::
  "('m, 'd) platform \<Rightarrow> CipherSuite \<Rightarrow> bytes \<Rightarrow> DirectionalKeys \<Rightarrow> bytes \<Rightarrow> ((DirectionalKeys \<times> bytes) \<times> (TlsError + nat)) option" where
  "decrypt_record P suite rcd keys out =
     (if length rcd < RECORD_HEADER_LEN + 1 + AEAD_TAG_LEN then Some ((keys, out), Inl BadMessage)
      else do {
        b0 \<leftarrow> index_get rcd 0;
        ver \<leftarrow> slice rcd 1 3;
        lb \<leftarrow> slice rcd 3 5;
        let len = unat (from_be lb :: u16);
        let ct_len = len - AEAD_TAG_LEN;
        if b0 \<noteq> CT_APPLICATION_DATA then Some ((keys, out), Inl BadMessage)
        else if ver \<noteq> LEGACY_RECORD_VERSION then Some ((keys, out), Inl BadMessage)
        else if RECORD_HEADER_LEN + len \<noteq> length rcd then Some ((keys, out), Inl BadMessage)
        else if len < AEAD_TAG_LEN + 1 then Some ((keys, out), Inl BadMessage)
        else if MAX_PLAINTEXT_LEN + 1 < ct_len then Some ((keys, out), Inl TlsBufferTooSmall)
        else if dk_seq keys = - 1 then Some ((keys, out), Inl SequenceExhausted)
        else do {
          aad \<leftarrow> slice rcd 0 RECORD_HEADER_LEN;
          ct \<leftarrow> slice rcd RECORD_HEADER_LEN (RECORD_HEADER_LEN + ct_len);
          tag \<leftarrow> slice rcd (RECORD_HEADER_LEN + ct_len) (length rcd);
          if length tag \<noteq> AEAD_TAG_LEN then Some ((keys, out), Inl BadMessage)
          else
            let nonce = build_nonce (dk_iv keys) (dk_seq keys)
            in (case suite_decrypt P suite (dk_key keys) nonce aad ct tag of
                 None \<Rightarrow> Some ((keys, out), Inl TlsAuthenticationFailed)
               | Some pt \<Rightarrow> do {
                   inner \<leftarrow> copy_into (replicate (MAX_PLAINTEXT_LEN + 1) 0) 0 ct_len pt;
                   real_type \<leftarrow> index_get inner (ct_len - 1);
                   if real_type \<noteq> CT_APPLICATION_DATA then Some ((keys, out), Inl BadMessage)
                   else
                     let content_len = ct_len - 1
                     in if length out < content_len then Some ((keys, out), Inl TlsBufferTooSmall)
                        else do {
                          content \<leftarrow> slice inner 0 content_len;
                          out \<leftarrow> copy_into out 0 content_len content;
                          Some ((keys\<lparr>dk_seq := dk_seq keys + 1\<rparr>, out), Inr content_len)
                        }
                 })
        }
      })"

subsection \<open>The transcript\<close>

record Transcript =
  tr_buf :: bytes
  tr_len :: nat

definition transcript_new :: Transcript where
  "transcript_new = \<lparr>tr_buf = replicate TRANSCRIPT_BUF_LEN 0, tr_len = 0\<rparr>"

definition transcript_update :: "bytes \<Rightarrow> Transcript \<Rightarrow> (Transcript \<times> (TlsError + unit)) option" where
  "transcript_update msg t =
     (if TRANSCRIPT_BUF_LEN < tr_len t + length msg then Some (t, Inl TranscriptOverflow)
      else do {
        buf \<leftarrow> copy_into (tr_buf t) (tr_len t) (tr_len t + length msg) msg;
        Some (t\<lparr>tr_buf := buf, tr_len := tr_len t + length msg\<rparr>, Inr ())
      })"

definition transcript_snapshot :: "('m, 'd) platform \<Rightarrow> Transcript \<Rightarrow> bytes option" where
  "transcript_snapshot P t =
     do {
       msgs \<leftarrow> slice (tr_buf t) 0 (tr_len t);
       slice (p_sha256 P msgs) 0 TLS_HASH_LEN
     }"

definition transcript_is_empty :: "Transcript \<Rightarrow> bool" where
  "transcript_is_empty t \<longleftrightarrow> tr_len t = 0"

definition transcript_wipe :: "Transcript \<Rightarrow> Transcript" where
  "transcript_wipe t = t\<lparr>tr_buf := replicate TRANSCRIPT_BUF_LEN 0, tr_len := 0\<rparr>"

text \<open>The messages accumulated so far.\<close>

definition transcript_ok :: "Transcript \<Rightarrow> bool" where
  "transcript_ok t \<longleftrightarrow> length (tr_buf t) = 4096 \<and> tr_len t \<le> 4096"

definition messages :: "Transcript \<Rightarrow> bytes" where
  "messages t = take (tr_len t) (tr_buf t)"

lemma transcript_new_ok: "transcript_ok transcript_new" "messages transcript_new = []"
  by (simp_all add: transcript_ok_def messages_def transcript_new_def tls_sizes)

lemma transcript_update_result:
  assumes "transcript_ok t"
  obtains (full) "transcript_update msg t = Some (t, Inl TranscriptOverflow)" "4096 < length (messages t) + length msg"
    | (added) t' where "transcript_update msg t = Some (t', Inr ())" "transcript_ok t'" "messages t' = messages t @ msg"
proof (cases "4096 < tr_len t + length msg")
  case True
  then show ?thesis using assms by (intro full) (simp_all add: transcript_update_def tls_sizes messages_def transcript_ok_def)
next
  case False
  let ?t = "t\<lparr>tr_buf := take (tr_len t) (tr_buf t) @ msg @ drop (tr_len t + length msg) (tr_buf t), tr_len := tr_len t + length msg\<rparr>"
  show ?thesis
  proof (rule added [of ?t])
    show "transcript_update msg t = Some (?t, Inr ())"
      using False assms by (simp add: transcript_update_def tls_sizes transcript_ok_def)
  qed (use False assms in \<open>simp_all add: transcript_ok_def messages_def\<close>)
qed

lemma transcript_snapshot_eq:
  "platform_ok P \<Longrightarrow> transcript_ok t \<Longrightarrow> transcript_snapshot P t = Some (p_sha256 P (messages t))"
  by (simp add: transcript_snapshot_def transcript_ok_def messages_def tls_sizes platform_digest)

subsection \<open>Protecting and unprotecting\<close>

definition record_aad :: "nat \<Rightarrow> bytes" where
  "record_aad n = [0x17, 3, 3] @ to_be 2 (of_nat (n + 17) :: u16)"

text \<open>The record that carries a plaintext: its header and the encryption of the plaintext and its type.\<close>

definition record_of :: "('m, 'd) platform \<Rightarrow> CipherSuite \<Rightarrow> DirectionalKeys \<Rightarrow> bytes \<Rightarrow> bytes option" where
  "record_of P suite keys pt =
     map_option (\<lambda>(ct, tag). record_aad (length pt) @ ct @ tag)
       (suite_encrypt P suite (dk_key keys) (build_nonce (dk_iv keys) (dk_seq keys)) (record_aad (length pt)) (pt @ [0x17]))"

lemma length_record_aad [simp]: "length (record_aad n) = 5"
  by (simp add: record_aad_def)

lemma build_aad_eq: "n \<le> 200 \<Longrightarrow> build_aad (n + 1 + 16) = Inr (record_aad n)"
  by (simp add: build_aad_def record_aad_def record_sizes add.commute)

lemma suite_encrypt_length:
  assumes "platform_ok P" "suite_encrypt P suite k n a pt = Some (ct, tag)"
  shows "length ct = length pt" "length tag = 16"
  using assms platform_gcm [OF assms(1), of k n a pt ct tag] platform_decrypt(3) [OF assms(1), of k n a pt ct tag]
  by (auto simp: suite_encrypt_def split: CipherSuite.splits)

lemma suite_decrypt_encrypt:
  "aead_ok P \<Longrightarrow> suite_encrypt P suite k n a pt = Some (ct, tag) \<Longrightarrow> suite_decrypt P suite k n a ct tag = Some pt"
  by (auto simp: suite_encrypt_def suite_decrypt_def aead_gcm aead_chacha split: CipherSuite.splits)

lemma record_of_length: "platform_ok P \<Longrightarrow> record_of P suite keys pt = Some r \<Longrightarrow> length r = length pt + 22"
  using suite_encrypt_length by (fastforce simp: record_of_def)

lemma encrypt_record_eq:
  assumes "platform_ok P" "length pt \<le> 200" "dk_seq keys \<noteq> - 1" "length pt + 22 \<le> length out"
  shows "encrypt_record P suite pt keys out =
    (case record_of P suite keys pt of
       None \<Rightarrow> Some ((keys, record_aad (length pt) @ drop 5 out), Inl TlsInternal)
     | Some r \<Rightarrow> Some ((keys\<lparr>dk_seq := dk_seq keys + 1\<rparr>, r @ drop (length r) out), Inr (length r)))"
proof -
  let ?inner = "pt @ replicate (201 - length pt) 0"
  have inner: "take (length pt + 1) (?inner[length pt := 0x17]) = pt @ [0x17]"
    using assms(2) by (cases "201 - length pt") (simp_all add: list_update_append)
  note aad = build_aad_eq [OF assms(2)]
  let ?e = "suite_encrypt P suite (dk_key keys) (build_nonce (dk_iv keys) (dk_seq keys)) (record_aad (length pt)) (pt @ [0x17])"
  show ?thesis
  proof (cases ?e)
    case None
    then show ?thesis
      using assms(2-4) aad inner by (simp add: encrypt_record_def record_of_def record_sizes tls_sizes Let_def CT_APPLICATION_DATA_def)
  next
    case (Some x)
    obtain ct tag where x: "?e = Some (ct, tag)" using Some by (cases x) auto
    note l = suite_encrypt_length [OF assms(1) x]
    have "encrypt_record P suite pt keys out =
        Some ((keys\<lparr>dk_seq := dk_seq keys + 1\<rparr>, (record_aad (length pt) @ ct @ tag) @ drop (length pt + 22) out), Inr (length pt + 22))"
      using assms(2-4) aad inner x l by (simp add: encrypt_record_def record_sizes tls_sizes Let_def add.commute)
    then show ?thesis using x l by (simp add: record_of_def add.commute)
  qed
qed

lemma decrypt_record_eq:
  assumes "platform_ok P" "aead_ok P" "record_of P suite keys pt = Some r" "length pt \<le> 200" "dk_seq keys \<noteq> - 1"
  shows "decrypt_record P suite r keys out =
    (if length out < length pt then Some ((keys, out), Inl TlsBufferTooSmall)
     else Some ((keys\<lparr>dk_seq := dk_seq keys + 1\<rparr>, pt @ drop (length pt) out), Inr (length pt)))"
proof -
  let ?n = "build_nonce (dk_iv keys) (dk_seq keys)" and ?a = "record_aad (length pt)"
  obtain ct tag where x: "suite_encrypt P suite (dk_key keys) ?n ?a (pt @ [0x17]) = Some (ct, tag)" and r: "r = ?a @ ct @ tag"
    using assms(3) by (auto simp: record_of_def)
  note l = suite_encrypt_length [OF assms(1) x]
  note d = suite_decrypt_encrypt [OF assms(2) x]
  have a: "?a = [0x17, 3, 3] @ to_be 2 (of_nat (length pt + 17) :: u16)" by (simp add: record_aad_def)
  have "unat (of_nat (length pt + 17) :: u16) = length pt + 17" using assms(4) by (subst unat_of_nat) (simp del: of_nat_add)
  moreover have "from_be (to_be 2 w) = (w :: u16)" for w by (simp add: from_be_def to_be_def)
  ultimately have len: "unat (from_be (to_be 2 (of_nat (length pt + 17) :: u16)) :: u16) = length pt + 17" by simp
  have parts: "length r = length pt + 22" "r ! 0 = 0x17" "take 2 (drop 1 r) = [3, 3]"
      "take 2 (drop 3 r) = to_be 2 (of_nat (length pt + 17) :: u16)" "take 5 r = ?a" "take (length pt + 1) (drop 5 r) = ct"
    using l by (simp_all add: r a)
  have tag: "drop (6 + length pt) r = tag" using l by (simp add: r)
  have inner: "(pt @ [0x17] @ replicate (200 - length pt) 0) ! length pt = 0x17" by simp
  have inner_eq: "copy_into (replicate 201 0) 0 (length pt + 1) (pt @ [0x17]) = Some (pt @ [0x17] @ replicate (200 - length pt) 0)"
    using assms(4) by simp
  show ?thesis
    using parts tag len d inner_eq assms(4,5) l unfolding decrypt_record_def
    by (simp add: record_sizes tls_sizes Let_def add.commute [of 5] nth_append)
qed

lemma build_nonce_inject:
  assumes "length iv = 12" "build_nonce iv a = build_nonce iv b"
  shows "a = b"
proof -
  have cancel: "a XOR x = a XOR y \<longleftrightarrow> x = y" for a x y :: u8
    by (metis xor.assoc xor.left_neutral xor_self_eq)
  have xor: "map2 (XOR) xs ys = map2 (XOR) xs zs \<Longrightarrow> ys = zs" if "length ys = length xs" "length zs = length xs" for xs ys zs :: bytes
    using that by (induction xs arbitrary: ys zs) (auto simp: length_Suc_conv cancel)
  have "replicate 4 0 @ to_be 8 a = replicate 4 0 @ to_be 8 b"
    by (rule xor [of _ iv]) (use assms in \<open>simp_all add: build_nonce_def tls_sizes\<close>)
  then have "to_be 8 a = to_be 8 b" by simp
  then show ?thesis by (metis from_to_be_64)
qed

subsection \<open>Sending many records\<close>

text \<open>The records that a run of calls puts out, with failed calls in between; each call has its own plaintext
  and output buffer.\<close>

fun records_out :: "('m, 'd) platform \<Rightarrow> CipherSuite \<Rightarrow> DirectionalKeys \<Rightarrow> (bytes \<times> bytes) list \<Rightarrow> bytes list option" where
  "records_out P suite keys [] = Some []"
| "records_out P suite keys ((pt, out) # calls) =
     do {
       ((keys', out'), r) \<leftarrow> encrypt_record P suite pt keys out;
       recs \<leftarrow> records_out P suite keys' calls;
       Some (case r of Inl _ \<Rightarrow> recs | Inr n \<Rightarrow> take n out' # recs)
     }"

text \<open>A record made by the cipher from a plaintext under a nonce: the header, the ciphertext of the plaintext
  and its type octet, the tag.\<close>

definition sealed_under :: "('m, 'd) platform \<Rightarrow> CipherSuite \<Rightarrow> bytes \<Rightarrow> bytes \<Rightarrow> bytes \<Rightarrow> bytes \<Rightarrow> bool" where
  "sealed_under P suite key pt nonce rcd \<longleftrightarrow>
     (let hdr = [0x17, 3, 3] @ to_be 2 (of_nat (length pt + 17) :: u16)
      in case suite_encrypt P suite key nonce hdr (pt @ [0x17]) of
           None \<Rightarrow> False | Some (ct, tag) \<Rightarrow> rcd = hdr @ ct @ tag)"

lemma record_of_sealed:
  "record_of P suite keys pt = Some r \<Longrightarrow> sealed_under P suite (dk_key keys) pt (build_nonce (dk_iv keys) (dk_seq keys)) r"
  by (auto simp: record_of_def sealed_under_def record_aad_def)

lemma encrypt_record_cases:
  assumes "platform_ok P"
  obtains (failed) out' e where "encrypt_record P suite pt keys out = Some ((keys, out'), Inl e)"
    | (sealed) r where "encrypt_record P suite pt keys out =
        Some ((keys\<lparr>dk_seq := dk_seq keys + 1\<rparr>, r @ drop (length r) out), Inr (length r))"
      "dk_seq keys \<noteq> - 1" "length pt \<le> 200" "length r \<le> length out" "record_of P suite keys pt = Some r"
proof (cases "200 < length pt \<or> dk_seq keys = - 1 \<or> length out < length pt + 22")
  case True
  then have "\<exists>e. encrypt_record P suite pt keys out = Some ((keys, out), Inl e)"
    by (auto simp: encrypt_record_def record_sizes tls_sizes Let_def)
  then show ?thesis using failed by blast
next
  case False
  then show ?thesis
    using encrypt_record_eq [OF assms, of pt keys out suite] record_of_length [OF assms] failed sealed
    by (cases "record_of P suite keys pt") auto
qed

text \<open>The records of a run, with the counter value each was sealed under.\<close>

lemma records_out_counters:
  assumes "platform_ok P"
  shows "\<exists>recs ss. records_out P suite keys calls = Some recs \<and> distinct ss \<and>
    length ss \<le> 2 ^ 64 - 1 - unat (dk_seq keys) \<and> (\<forall>s \<in> set ss. dk_seq keys \<le> s) \<and>
    list_all2 (\<lambda>s rcd. \<exists>pt \<in> set (map fst calls). sealed_under P suite (dk_key keys) pt (build_nonce (dk_iv keys) s) rcd) ss recs"
proof (induction calls arbitrary: keys)
  case (Cons c calls)
  obtain pt out where c: "c = (pt, out)" by (cases c)
  let ?S = "\<lambda>cs s rcd. \<exists>pt \<in> set (map fst cs). sealed_under P suite (dk_key keys) pt (build_nonce (dk_iv keys) s) rcd"
  have mono: "list_all2 (?S (c # calls)) ss recs" if "list_all2 (?S calls) ss recs" for ss recs
    using that by (rule list_all2_mono) auto
  show ?case
  proof (cases rule: encrypt_record_cases [OF assms, of suite pt keys out, case_names failed sealed])
    case (failed out' e)
    then show ?thesis using Cons.IH [of keys] mono c by fastforce
  next
    case (sealed r)
    let ?k = "keys\<lparr>dk_seq := dk_seq keys + 1\<rparr>"
    obtain recs ss where ss: "records_out P suite ?k calls = Some recs" "distinct ss"
        "length ss \<le> 2 ^ 64 - 1 - unat (dk_seq keys + 1)" "\<forall>s \<in> set ss. dk_seq keys + 1 \<le> s" "list_all2 (?S calls) ss recs"
      using Cons.IH [of ?k] by auto
    note step = unat_succ_no_wrap [OF sealed(2)]
    have lt: "dk_seq keys < s" if "s \<in> set ss" for s using ss(4) that step by (auto simp: word_le_nat_alt word_less_nat_alt)
    have "unat (dk_seq keys + 1) < 2 ^ 64" using unat_less_pow [of "dk_seq keys + 1"] by simp
    then have "length (dk_seq keys # ss) \<le> 2 ^ 64 - 1 - unat (dk_seq keys)" using ss(3) step by simp
    moreover have "list_all2 (?S (c # calls)) (dk_seq keys # ss) (r # recs)"
      using mono [OF ss(5)] record_of_sealed [OF sealed(5)] c by auto
    moreover have "records_out P suite keys (c # calls) = Some (r # recs)"
      using c sealed(1) ss(1) by simp
    ultimately show ?thesis
      using ss(2) lt by (intro exI [of _ "r # recs"] exI [of _ "dk_seq keys # ss"]) (auto simp: order.strict_implies_order)
  qed
qed simp

text \<open>C24: record nonces. Under one set of traffic keys, whatever plaintexts are protected and whichever of the
  calls fail, every call returns, and there is a nonce for each record put out, all of them different, such
  that the record is what the cipher makes of one of the plaintexts under that nonce; there are at most as
  many records as the counter has values left. A call that fails puts out nothing and leaves the counter, so
  its nonce is the one of the next record.\<close>

theorem tls_nonces_never_repeat:
  assumes "platform_ok P" "length (dk_iv keys) = 12"
  shows "\<exists>recs nonces. records_out P suite keys calls = Some recs \<and> distinct nonces \<and>
    list_all2 (\<lambda>nonce rcd. \<exists>pt \<in> set (map fst calls). sealed_under P suite (dk_key keys) pt nonce rcd) nonces recs \<and>
    length recs \<le> 2 ^ 64 - 1 - unat (dk_seq keys)"
proof -
  obtain recs ss where s: "records_out P suite keys calls = Some recs" "distinct ss"
      "length ss \<le> 2 ^ 64 - 1 - unat (dk_seq keys)"
      "list_all2 (\<lambda>s rcd. \<exists>pt \<in> set (map fst calls). sealed_under P suite (dk_key keys) pt (build_nonce (dk_iv keys) s) rcd) ss recs"
    using records_out_counters [OF assms(1), of suite keys calls] by blast
  have "distinct (map (build_nonce (dk_iv keys)) ss)"
    using s(2) build_nonce_inject [OF assms(2)] by (auto simp: distinct_map inj_on_def)
  then show ?thesis
    using s(1,3,4) list_all2_lengthD [OF s(4)]
    by (intro exI [of _ recs] exI [of _ "map (build_nonce (dk_iv keys)) ss"]) (simp add: list_all2_map1)
qed

theorem tls_nonces_never_repeat_witness:
  "\<exists>recs nonces. records_out demo_platform Aes256GcmSha256 keys_empty [([1, 2], replicate 30 0), ([3], []), ([4], replicate 30 0)] =
     Some recs \<and> length recs = 2 \<and> distinct (nonces :: bytes list) \<and> length nonces = 2"
proof -
  let ?cs = "[([1, 2], replicate 30 0), ([3], []), ([4], replicate 30 0)] :: (bytes \<times> bytes) list"
  have "length (dk_iv keys_empty) = 12" by (simp add: keys_empty_def tls_sizes)
  from tls_nonces_never_repeat [OF demo_platform_ok this, of Aes256GcmSha256 ?cs] obtain recs nonces where
    r: "records_out demo_platform Aes256GcmSha256 keys_empty ?cs = Some recs" "distinct nonces" and
    "list_all2 (\<lambda>nonce rcd. \<exists>pt \<in> set (map fst ?cs). sealed_under demo_platform Aes256GcmSha256 (dk_key keys_empty) pt nonce rcd)
       nonces recs"
    by blast
  then have "length nonces = length recs" by (blast dest: list_all2_lengthD)
  moreover
  have "map_option length (records_out demo_platform Aes256GcmSha256 keys_empty ?cs) = Some 2"
    by (simp add: encrypt_record_eq [OF demo_platform_ok] record_of_def suite_encrypt_def keys_empty_def
        encrypt_record_def [of _ _ "[3]"] record_sizes tls_sizes Let_def)
  ultimately show ?thesis using r by (auto simp del: records_out.simps)
qed

end
