(* ===== verification/TlsSchedule.thy ===== *)
theory TlsSchedule
  imports TlsRecord
begin

text \<open>
  \<^verbatim>\<open>src/src/tls/keyschedule.rs\<close>: HKDF-Expand-Label, Derive-Secret and the stages of the TLS 1.3
  key schedule for an external pre-shared key, with their counterparts written as in RFC 8446.
\<close>

definition ascii :: "string \<Rightarrow> bytes" where
  "ascii s = map of_char s"

subsection \<open>Labels\<close>

definition ZERO_HASH :: bytes where "ZERO_HASH = replicate TLS_HASH_LEN 0"

definition hkdf_expand_label :: "('m, 'd) platform \<Rightarrow> bytes \<Rightarrow> bytes \<Rightarrow> bytes \<Rightarrow> nat \<Rightarrow> (TlsError + bytes) option" where
  "hkdf_expand_label P sec label ctx n =
     (let prefixed_label_len = 6 + length label
      in if 255 < prefixed_label_len \<or> 255 < length ctx then Some (Inl TlsInternal)
         else if 0xFFFF < n then Some (Inl TlsInternal)
         else do {
           info \<leftarrow> copy_into (replicate 128 0) 0 2 (to_be 2 (of_nat n :: u16));
           info \<leftarrow> index_set info 2 (of_nat prefixed_label_len);
           info \<leftarrow> copy_into info 3 9 (ascii ''tls13 '');
           info \<leftarrow> copy_into info 9 (9 + length label) label;
           info \<leftarrow> index_set info (9 + length label) (of_nat (length ctx));
           let p = 9 + length label + 1;
           if 128 < p + length ctx then Some (Inl TlsInternal)
           else do {
             info \<leftarrow> copy_into info p (p + length ctx) ctx;
             inf \<leftarrow> slice info 0 (p + length ctx);
             r \<leftarrow> hkdf_expand P sec inf n;
             Some (case r of Inl _ \<Rightarrow> Inl TlsInternal | Inr okm \<Rightarrow> Inr okm)
           }
         })"

definition derive_secret :: "('m, 'd) platform \<Rightarrow> bytes \<Rightarrow> bytes \<Rightarrow> bytes \<Rightarrow> (TlsError + bytes) option" where
  "derive_secret P prk label transcript_hash = hkdf_expand_label P prk label transcript_hash TLS_HASH_LEN"

definition sha256_of_empty :: "('m, 'd) platform \<Rightarrow> bytes option" where
  "sha256_of_empty P = slice (p_sha256 P []) 0 TLS_HASH_LEN"

subsection \<open>The stages\<close>

record ScheduleSecrets =
  sec_early :: bytes
  sec_handshake :: bytes
  sec_master :: bytes
  client_handshake_traffic :: bytes
  server_handshake_traffic :: bytes
  client_application_traffic_0 :: bytes
  server_application_traffic_0 :: bytes
  binder_key :: bytes

definition secrets_empty :: ScheduleSecrets where
  "secrets_empty =
     \<lparr>sec_early = ZERO_HASH, sec_handshake = ZERO_HASH, sec_master = ZERO_HASH, client_handshake_traffic = ZERO_HASH,
      server_handshake_traffic = ZERO_HASH, client_application_traffic_0 = ZERO_HASH,
      server_application_traffic_0 = ZERO_HASH, binder_key = ZERO_HASH\<rparr>"

text \<open>\<open>f(..., out)?\<close> for an output that is a part of the state.\<close>

definition try_store :: "('e + 'a) option \<Rightarrow> ('a \<Rightarrow> 's \<Rightarrow> 's) \<Rightarrow> 's \<Rightarrow> ('s \<times> ('e + unit)) option" where
  "try_store r upd s =
     (case r of
        None \<Rightarrow> None
      | Some (Inl e) \<Rightarrow> Some (s, Inl e)
      | Some (Inr x) \<Rightarrow> Some (upd x s, Inr ()))"

definition derive_early_secrets ::
  "('m, 'd) platform \<Rightarrow> HsmDriver \<Rightarrow> PskId \<Rightarrow> ScheduleSecrets \<Rightarrow> (ScheduleSecrets \<times> (TlsError + unit)) option" where
  "derive_early_secrets P hsm psk_id s =
     try_then (map_err tls_of_hsm (try_store (drv_extract hsm psk_id ZERO_HASH) (\<lambda>x. sec_early_update (\<lambda>_. x)) s)) (\<lambda>_ s.
       do {
         h_empty \<leftarrow> sha256_of_empty P;
         try_store (derive_secret P (sec_early s) (ascii ''ext binder'') h_empty) (\<lambda>x. binder_key_update (\<lambda>_. x)) s
       })"

definition derive_handshake_secrets ::
  "('m, 'd) platform \<Rightarrow> bytes \<Rightarrow> bytes \<Rightarrow> KexPolicy \<Rightarrow> ScheduleSecrets \<Rightarrow> (ScheduleSecrets \<times> (TlsError + unit)) option" where
  "derive_handshake_secrets P ecdhe_ss transcript_hash policy s =
     (let expected = (case policy of Classical \<Rightarrow> TLS_KEM_SS_LEN | Hybrid \<Rightarrow> TLS_KEM_SS_LEN + TLS_KEM_SS_LEN)
      in if length ecdhe_ss \<noteq> expected then Some (s, Inl KexPolicyMismatch)
         else do {
           h_empty \<leftarrow> sha256_of_empty P;
           r \<leftarrow> derive_secret P (sec_early s) (ascii ''derived'') h_empty;
           case r of
             Inl e \<Rightarrow> Some (s, Inl e)
           | Inr early_derived \<Rightarrow>
               let s = s\<lparr>sec_handshake := hkdf_extract P early_derived ecdhe_ss\<rparr>
               in try_then (try_store (derive_secret P (sec_handshake s) (ascii ''c hs traffic'') transcript_hash)
                    (\<lambda>x. client_handshake_traffic_update (\<lambda>_. x)) s) (\<lambda>_ s.
                  try_store (derive_secret P (sec_handshake s) (ascii ''s hs traffic'') transcript_hash)
                    (\<lambda>x. server_handshake_traffic_update (\<lambda>_. x)) s)
         })"

definition derive_master_and_app_secrets ::
  "('m, 'd) platform \<Rightarrow> bytes \<Rightarrow> ScheduleSecrets \<Rightarrow> (ScheduleSecrets \<times> (TlsError + unit)) option" where
  "derive_master_and_app_secrets P transcript_hash s =
     do {
       h_empty \<leftarrow> sha256_of_empty P;
       r \<leftarrow> derive_secret P (sec_handshake s) (ascii ''derived'') h_empty;
       case r of
         Inl e \<Rightarrow> Some (s, Inl e)
       | Inr hs_derived \<Rightarrow>
           let s = s\<lparr>sec_master := hkdf_extract P hs_derived ZERO_HASH\<rparr>
           in try_then (try_store (derive_secret P (sec_master s) (ascii ''c ap traffic'') transcript_hash)
                (\<lambda>x. client_application_traffic_0_update (\<lambda>_. x)) s) (\<lambda>_ s.
              try_store (derive_secret P (sec_master s) (ascii ''s ap traffic'') transcript_hash)
                (\<lambda>x. server_application_traffic_0_update (\<lambda>_. x)) s)
     }"

definition derive_traffic_keys :: "('m, 'd) platform \<Rightarrow> bytes \<Rightarrow> DirectionalKeys \<Rightarrow> (DirectionalKeys \<times> (TlsError + unit)) option" where
  "derive_traffic_keys P traffic_secret k =
     try_then (try_store (hkdf_expand_label P traffic_secret (ascii ''key'') [] AEAD_KEY_LEN) (\<lambda>x. dk_key_update (\<lambda>_. x)) k) (\<lambda>_ k.
     try_store (hkdf_expand_label P traffic_secret (ascii ''iv'') [] AEAD_IV_LEN) (\<lambda>x. dk_iv_update (\<lambda>_. x)) k)"

definition derive_finished_key :: "('m, 'd) platform \<Rightarrow> bytes \<Rightarrow> (TlsError + bytes) option" where
  "derive_finished_key P traffic_secret = hkdf_expand_label P traffic_secret (ascii ''finished'') [] TLS_HASH_LEN"

definition compute_verify_data :: "('m, 'd) platform \<Rightarrow> bytes \<Rightarrow> bytes \<Rightarrow> bytes" where
  "compute_verify_data P finished_key transcript_hash = hmac_sha256_multi P finished_key [transcript_hash]"

definition compute_binder :: "('m, 'd) platform \<Rightarrow> bytes \<Rightarrow> bytes \<Rightarrow> (TlsError + bytes) option" where
  "compute_binder P bkey truncated_hash =
     do {
       r \<leftarrow> derive_finished_key P bkey;
       Some (case r of Inl e \<Rightarrow> Inl e | Inr finished_key \<Rightarrow> Inr (compute_verify_data P finished_key truncated_hash))
     }"

definition ct_eq_bytes :: "bytes \<Rightarrow> bytes \<Rightarrow> bool" where
  "ct_eq_bytes a b = (if length a \<noteq> length b then False else fold (\<lambda>(x, y) diff. diff OR (x XOR y)) (zip a b) 0 = 0)"

lemma ct_eq_bytes_iff: "ct_eq_bytes a b \<longleftrightarrow> a = b"
proof -
  have "fold (\<lambda>(x, y) diff. diff OR (x XOR y)) (zip a b) d = 0 \<longleftrightarrow> d = 0 \<and> a = b" if "length a = length b" for d
    using that
  proof (induction a b arbitrary: d rule: list_induct2)
    case (Cons x xs y ys)
    have "d OR (x XOR y) = 0 \<longleftrightarrow> d = 0 \<and> x = y"
      by (metis or.left_neutral or_eq_0_iff xor.assoc xor.right_neutral xor_self_eq)
    then show ?case using Cons by auto
  qed simp
  then show ?thesis by (auto simp: ct_eq_bytes_def)
qed

subsection \<open>RFC 8446\<close>

definition hkdf_label :: "nat \<Rightarrow> bytes \<Rightarrow> bytes \<Rightarrow> bytes" where
  "hkdf_label n label ctx =
     to_be 2 (of_nat n :: u16) @ [of_nat (6 + length label)] @ ascii ''tls13 '' @ label @ [of_nat (length ctx)] @ ctx"

definition rfc8446_expand_label :: "('m, 'd) platform \<Rightarrow> bytes \<Rightarrow> string \<Rightarrow> bytes \<Rightarrow> nat \<Rightarrow> bytes" where
  "rfc8446_expand_label P sec label ctx n = rfc5869_expand P sec (hkdf_label n (ascii label) ctx) n"

definition rfc8446_derive :: "('m, 'd) platform \<Rightarrow> bytes \<Rightarrow> string \<Rightarrow> bytes \<Rightarrow> bytes" where
  "rfc8446_derive P sec label msgs = rfc8446_expand_label P sec label (p_sha256 P msgs) 32"

definition rfc8446_early :: "('m, 'd) platform \<Rightarrow> bytes \<Rightarrow> bytes" where
  "rfc8446_early P psk = hkdf_extract P (replicate 32 0) psk"

definition rfc8446_handshake :: "('m, 'd) platform \<Rightarrow> bytes \<Rightarrow> bytes \<Rightarrow> bytes" where
  "rfc8446_handshake P psk ecdhe = hkdf_extract P (rfc8446_derive P (rfc8446_early P psk) ''derived'' []) ecdhe"

definition rfc8446_master :: "('m, 'd) platform \<Rightarrow> bytes \<Rightarrow> bytes \<Rightarrow> bytes" where
  "rfc8446_master P psk ecdhe = hkdf_extract P (rfc8446_derive P (rfc8446_handshake P psk ecdhe) ''derived'' []) (replicate 32 0)"

definition rfc8446_verify_data :: "('m, 'd) platform \<Rightarrow> bytes \<Rightarrow> bytes \<Rightarrow> bytes" where
  "rfc8446_verify_data P base msgs = hmac_sha256_multi P (rfc8446_expand_label P base ''finished'' [] 32) [p_sha256 P msgs]"

definition rfc8446_keys :: "('m, 'd) platform \<Rightarrow> bytes \<Rightarrow> DirectionalKeys" where
  "rfc8446_keys P sec =
     \<lparr>dk_key = rfc8446_expand_label P sec ''key'' [] 32, dk_iv = rfc8446_expand_label P sec ''iv'' [] 12, dk_seq = 0\<rparr>"

subsection \<open>The code computes the RFC's functions\<close>

text \<open>Filling a zeroed buffer from the front.\<close>

lemma fill_next:
  "length ys \<le> m \<Longrightarrow> i = length xs \<Longrightarrow> j = i + length ys \<Longrightarrow>
   copy_into (xs @ replicate m 0) i j ys = Some ((xs @ ys) @ replicate (m - length ys) 0)"
  by simp

lemma fill_byte:
  "0 < m \<Longrightarrow> i = length xs \<Longrightarrow> index_set (xs @ replicate m 0) i y = Some ((xs @ [y]) @ replicate (m - 1) 0)"
  by (cases m) (simp_all add: list_update_append)

lemma length_ascii [simp]: "length (ascii s) = length s"
  by (simp add: ascii_def)

lemma hkdf_expand_label_eq:
  assumes "platform_ok P" "length label \<le> 32" "length ctx \<le> 64" "n \<le> 168"
  shows "hkdf_expand_label P sec label ctx n = Some (Inr (rfc5869_expand P sec (hkdf_label n label ctx) n))"
proof -
  let ?a = "to_be 2 (of_nat n :: u16)" and ?t = "ascii ''tls13 ''"
  have len: "length (hkdf_label n label ctx) = 10 + length label + length ctx" by (simp add: hkdf_label_def)
  have 1: "copy_into (replicate 128 0) 0 2 ?a = Some (?a @ replicate 126 0)" by simp
  have 2: "index_set (?a @ replicate 126 0) 2 (of_nat (6 + length label)) = Some ((?a @ [of_nat (6 + length label)]) @ replicate 125 0)"
    by (subst fill_byte) simp_all
  have 3: "copy_into ((?a @ [of_nat (6 + length label)]) @ replicate 125 0) 3 9 ?t =
      Some ((?a @ [of_nat (6 + length label)] @ ?t) @ replicate 119 0)"
    by (subst fill_next) simp_all
  have 4: "copy_into ((?a @ [of_nat (6 + length label)] @ ?t) @ replicate 119 0) 9 (9 + length label) label =
      Some ((?a @ [of_nat (6 + length label)] @ ?t @ label) @ replicate (119 - length label) 0)"
    by (subst fill_next) (use assms(2) in simp_all)
  have 5: "index_set ((?a @ [of_nat (6 + length label)] @ ?t @ label) @ replicate (119 - length label) 0) (9 + length label) (of_nat (length ctx)) =
      Some ((?a @ [of_nat (6 + length label)] @ ?t @ label @ [of_nat (length ctx)]) @ replicate (118 - length label) 0)"
    by (subst fill_byte) (use assms(2) in simp_all)
  have 6: "copy_into ((?a @ [of_nat (6 + length label)] @ ?t @ label @ [of_nat (length ctx)]) @ replicate (118 - length label) 0)
      (9 + length label + 1) (9 + length label + 1 + length ctx) ctx =
      Some (hkdf_label n label ctx @ replicate (118 - length label - length ctx) 0)"
    by (subst fill_next) (use assms(2,3) in \<open>simp_all add: hkdf_label_def\<close>)
  have 7: "slice (hkdf_label n label ctx @ replicate (118 - length label - length ctx) 0) 0 (9 + length label + 1 + length ctx) = Some (hkdf_label n label ctx)"
    using assms(2,3) len by simp
  show ?thesis
    unfolding hkdf_expand_label_def Let_def 1 Option.bind.simps 2 3 4 5 6 7 hkdf_expand_rfc [OF assms(1,4)]
    using assms(2-4) by simp
qed

lemma expand_label_rfc:
  "platform_ok P \<Longrightarrow> length label \<le> 32 \<Longrightarrow> length ctx \<le> 64 \<Longrightarrow> n \<le> 168 \<Longrightarrow>
   hkdf_expand_label P sec (ascii label) ctx n = Some (Inr (rfc8446_expand_label P sec label ctx n))"
  by (simp add: hkdf_expand_label_eq rfc8446_expand_label_def)

lemma derive_secret_rfc:
  "platform_ok P \<Longrightarrow> length label \<le> 32 \<Longrightarrow>
   derive_secret P sec (ascii label) (p_sha256 P msgs) = Some (Inr (rfc8446_derive P sec label msgs))"
  by (simp add: derive_secret_def expand_label_rfc rfc8446_derive_def platform_digest tls_sizes)

lemma sha256_of_empty_eq: "platform_ok P \<Longrightarrow> sha256_of_empty P = Some (p_sha256 P [])"
  by (simp add: sha256_of_empty_def tls_sizes platform_digest)

lemma finished_key_rfc: "platform_ok P \<Longrightarrow> derive_finished_key P sec = Some (Inr (rfc8446_expand_label P sec ''finished'' [] 32))"
  by (simp add: derive_finished_key_def expand_label_rfc tls_sizes)

lemma compute_verify_data_rfc:
  "compute_verify_data P (rfc8446_expand_label P sec ''finished'' [] 32) (p_sha256 P msgs) = rfc8446_verify_data P sec msgs"
  by (simp add: compute_verify_data_def rfc8446_verify_data_def)

lemma compute_binder_rfc: "platform_ok P \<Longrightarrow> compute_binder P bkey (p_sha256 P msgs) = Some (Inr (rfc8446_verify_data P bkey msgs))"
  by (simp add: compute_binder_def finished_key_rfc compute_verify_data_rfc)

lemma traffic_keys_rfc:
  "platform_ok P \<Longrightarrow> derive_traffic_keys P sec k =
     Some (k\<lparr>dk_key := rfc8446_expand_label P sec ''key'' [] 32, dk_iv := rfc8446_expand_label P sec ''iv'' [] 12\<rparr>, Inr ())"
  by (simp add: derive_traffic_keys_def expand_label_rfc tls_sizes try_store_def)

lemma length_verify_data: "platform_ok P \<Longrightarrow> length (rfc8446_verify_data P sec msgs) = 32"
  by (simp add: rfc8446_verify_data_def hmac_length)

lemma derive_early_ok:
  assumes "platform_ok P" "drv_extract hsm psk_id (replicate 32 0) = Some (Inr (rfc8446_early P psk))"
  shows "derive_early_secrets P hsm psk_id s =
    Some (s\<lparr>sec_early := rfc8446_early P psk, binder_key := rfc8446_derive P (rfc8446_early P psk) ''ext binder'' []\<rparr>, Inr ())"
  using assms
  by (simp add: derive_early_secrets_def ZERO_HASH_def tls_sizes try_store_def map_err_def sha256_of_empty_eq derive_secret_rfc)

lemma derive_handshake_ok:
  assumes "platform_ok P" "sec_early s = rfc8446_early P psk" "length ecdhe = (case policy of Classical \<Rightarrow> 32 | Hybrid \<Rightarrow> 64)"
  defines "hs \<equiv> rfc8446_handshake P psk ecdhe"
  shows "derive_handshake_secrets P ecdhe (p_sha256 P msgs) policy s =
    Some (s\<lparr>sec_handshake := hs, client_handshake_traffic := rfc8446_derive P hs ''c hs traffic'' msgs,
             server_handshake_traffic := rfc8446_derive P hs ''s hs traffic'' msgs\<rparr>, Inr ())"
  using assms
  by (cases policy) (simp_all add: derive_handshake_secrets_def tls_sizes try_store_def sha256_of_empty_eq derive_secret_rfc
      rfc8446_handshake_def Let_def)

lemma derive_master_ok:
  assumes "platform_ok P" "sec_handshake s = rfc8446_handshake P psk ecdhe"
  defines "ms \<equiv> rfc8446_master P psk ecdhe"
  shows "derive_master_and_app_secrets P (p_sha256 P msgs) s =
    Some (s\<lparr>sec_master := ms, client_application_traffic_0 := rfc8446_derive P ms ''c ap traffic'' msgs,
             server_application_traffic_0 := rfc8446_derive P ms ''s ap traffic'' msgs\<rparr>, Inr ())"
  using assms
  by (simp add: derive_master_and_app_secrets_def tls_sizes ZERO_HASH_def try_store_def sha256_of_empty_eq derive_secret_rfc
      rfc8446_master_def Let_def)

end
