(* ===== verification/TlsHandshake.thy ===== *)
theory TlsHandshake
  imports TlsSchedule
begin

text \<open>
  \<^verbatim>\<open>src/src/tls/mod.rs\<close> (connections and their pool) and \<^verbatim>\<open>src/src/tls/handshake.rs\<close>:
  the handshake between two connections of the same kernel and the exchange of records between them.
  The key exchange crates, X25519 and ML-KEM-768, are the fields of a record \<open>kex\<close>; a secret key is
  represented by the seed it is made from. The state is the random generator and the pool.
\<close>

subsection \<open>Connections\<close>

record kex =
  x25519_public_key :: "bytes \<Rightarrow> bytes"
  x25519_dh :: "bytes \<Rightarrow> bytes \<Rightarrow> bytes option"
  mlkem768_keygen :: "bytes \<Rightarrow> bytes \<Rightarrow> bytes \<times> bytes"
  mlkem768_encaps :: "bytes \<Rightarrow> bytes \<Rightarrow> (bytes \<times> bytes) option"
  mlkem768_decaps :: "bytes \<Rightarrow> bytes \<Rightarrow> bytes"

datatype ConnState = Free | Handshaking | Connected | ConnClosed

record TlsConnection =
  conn_state :: ConnState
  conn_side :: Side
  conn_profile :: Profile
  conn_policy :: KexPolicy
  conn_suite :: CipherSuite
  conn_psk_id :: PskId
  conn_transcript :: Transcript
  app_write :: DirectionalKeys
  app_read :: DirectionalKeys

definition conn_empty :: TlsConnection where
  "conn_empty =
     \<lparr>conn_state = Free, conn_side = Client, conn_profile = ProfileClosed, conn_policy = Hybrid, conn_suite = Aes256GcmSha256,
      conn_psk_id = PSK_ID_ZERO, conn_transcript = transcript_new, app_write = keys_empty, app_read = keys_empty\<rparr>"

definition close_and_wipe :: "TlsConnection \<Rightarrow> TlsConnection" where
  "close_and_wipe c =
     c\<lparr>app_write := keys_wipe (app_write c), app_read := keys_wipe (app_read c),
        conn_transcript := transcript_wipe (conn_transcript c), conn_state := ConnClosed\<rparr>"

type_synonym ConnHandle = u8

record ('m, 'd) tls =
  tls_rng :: "('m, 'd) rng_state"
  tls_pool :: "TlsConnection option list"

definition alloc_slot :: "('m, 'd) tls \<Rightarrow> (('m, 'd) tls \<times> (TlsError + ConnHandle)) option" where
  "alloc_slot st =
     (case List.find (\<lambda>i. tls_pool st ! i = None) [0..<length (tls_pool st)] of
        Some i \<Rightarrow> Some (st\<lparr>tls_pool := (tls_pool st)[i := Some conn_empty]\<rparr>, Inr (of_nat i))
      | None \<Rightarrow> Some (st, Inl PoolFull))"

definition tls_slot :: "ConnHandle \<Rightarrow> ('m, 'd) tls \<Rightarrow> TlsError + TlsConnection" where
  "tls_slot h st =
     (if unat h < length (tls_pool st)
      then (case tls_pool st ! unat h of None \<Rightarrow> Inl InvalidHandle | Some c \<Rightarrow> Inr c)
      else Inl InvalidHandle)"

text \<open>\<open>let c = slot(h)?; ...\<close> with a block that works on the connection.\<close>

definition on_slot ::
  "ConnHandle \<Rightarrow> (TlsConnection \<Rightarrow> (TlsConnection \<times> (TlsError + 'a)) option) \<Rightarrow> ('m, 'd) tls \<Rightarrow> (('m, 'd) tls \<times> (TlsError + 'a)) option" where
  "on_slot h f st =
     (case tls_slot h st of
        Inl e \<Rightarrow> Some (st, Inl e)
      | Inr c \<Rightarrow> do {
          (c, r) \<leftarrow> f c;
          Some (st\<lparr>tls_pool := (tls_pool st)[unat h := Some c]\<rparr>, r)
        })"

text \<open>Closing wipes the keys and then empties the slot.\<close>

definition tls_close :: "ConnHandle \<Rightarrow> ('m, 'd) tls \<Rightarrow> ('m, 'd) tls \<times> (TlsError + unit)" where
  "tls_close h st =
     (if unat h < length (tls_pool st)
      then let wiped = map_option close_and_wipe (tls_pool st ! unat h);
               pool = (tls_pool st)[unat h := wiped]
           in (st\<lparr>tls_pool := pool[unat h := None]\<rparr>, Inr ())
      else (st, Inl InvalidHandle))"

definition tls_wipe_all :: "('m, 'd) tls \<Rightarrow> ('m, 'd) tls" where
  "tls_wipe_all st =
     (let pool = map (map_option close_and_wipe) (tls_pool st)
      in st\<lparr>tls_pool := map (\<lambda>_. None) pool\<rparr>)"

subsection \<open>Messages\<close>

definition HS_TYPE_CLIENT_HELLO :: u8 where "HS_TYPE_CLIENT_HELLO = 1"
definition HS_TYPE_SERVER_HELLO :: u8 where "HS_TYPE_SERVER_HELLO = 2"
definition HS_TYPE_FINISHED :: u8 where "HS_TYPE_FINISHED = 20"
definition HS_HEADER_LEN :: nat where "HS_HEADER_LEN = 4"
definition CH_FIXED_PREFIX_LEN :: nat where "CH_FIXED_PREFIX_LEN = 16 + 32 + 1 + 1 + TLS_X25519_PK_LEN"
definition SH_FIXED_LEN :: nat where "SH_FIXED_LEN = 32 + 1 + TLS_X25519_PK_LEN"
definition FIN_LEN :: nat where "FIN_LEN = TLS_HASH_LEN"

lemmas hs_sizes = HS_TYPE_CLIENT_HELLO_def HS_TYPE_SERVER_HELLO_def HS_TYPE_FINISHED_def HS_HEADER_LEN_def
  CH_FIXED_PREFIX_LEN_def SH_FIXED_LEN_def FIN_LEN_def

definition write_handshake_header :: "bytes \<Rightarrow> u8 \<Rightarrow> nat \<Rightarrow> (TlsError + bytes) option" where
  "write_handshake_header buf hs_type plen =
     (if 0x00FFFFFF < plen then Some (Inl TlsInternal)
      else if length buf < HS_HEADER_LEN then Some (Inl TlsBufferTooSmall)
      else do {
        buf \<leftarrow> index_set buf 0 hs_type;
        buf \<leftarrow> index_set buf 1 (of_nat (plen div 2 ^ 16 mod 256));
        buf \<leftarrow> index_set buf 2 (of_nat (plen div 2 ^ 8 mod 256));
        buf \<leftarrow> index_set buf 3 (of_nat (plen mod 256));
        Some (Inr buf)
      })"

definition parse_handshake_header :: "bytes \<Rightarrow> (TlsError + u8 \<times> nat) option" where
  "parse_handshake_header buf =
     (if length buf < HS_HEADER_LEN then Some (Inl BadMessage)
      else do {
        hs_type \<leftarrow> index_get buf 0;
        b1 \<leftarrow> index_get buf 1;
        b2 \<leftarrow> index_get buf 2;
        b3 \<leftarrow> index_get buf 3;
        Some (Inr (hs_type, push_bit 16 (unat b1) OR push_bit 8 (unat b2) OR unat b3))
      })"

text \<open>Uses of \<open>?\<close> on a value and on an operation on a local variable.\<close>

definition try_value :: "('e + 'a) option \<Rightarrow> 's \<Rightarrow> ('a \<Rightarrow> 's \<Rightarrow> ('s \<times> ('e + 'b)) option) \<Rightarrow> ('s \<times> ('e + 'b)) option" where
  "try_value r s f = try_then (map_option (\<lambda>x. (s, x)) r) f"

definition try_local :: "('l \<times> ('e + 'a)) option \<Rightarrow> 's \<Rightarrow> ('l \<Rightarrow> 's \<Rightarrow> ('s \<times> ('e + 'b)) option) \<Rightarrow> ('s \<times> ('e + 'b)) option" where
  "try_local r s f =
     (case r of
        None \<Rightarrow> None
      | Some (l, Inl e) \<Rightarrow> Some (s, Inl e)
      | Some (l, Inr _) \<Rightarrow> f l s)"

definition draw32 :: "('m, 'd) platform \<Rightarrow> ('m, 'd) tls \<Rightarrow> (('m, 'd) tls \<times> (TlsError + bytes)) option" where
  "draw32 P st =
     do {
       (g, out, r) \<leftarrow> rand_bytes P (tls_rng st) (replicate 32 0);
       Some (st\<lparr>tls_rng := g\<rparr>, case r of Inl _ \<Rightarrow> Inl HsmFailure | Inr _ \<Rightarrow> Inr out)
     }"

definition ephemeral_keys ::
  "('m, 'd) platform \<Rightarrow> kex \<Rightarrow> KexPolicy \<Rightarrow> ('m, 'd) tls \<Rightarrow> (('m, 'd) tls \<times> (TlsError + bytes \<times> bytes \<times> (bytes \<times> bytes) option)) option" where
  "ephemeral_keys P K policy st =
     try_then (draw32 P st) (\<lambda>c_seed st.
     try_then (draw32 P st) (\<lambda>s_seed st.
       case policy of
         Hybrid \<Rightarrow>
           try_then (draw32 P st) (\<lambda>d st.
           try_then (draw32 P st) (\<lambda>z st. Some (st, Inr (c_seed, s_seed, Some (mlkem768_keygen K d z)))))
       | Classical \<Rightarrow> Some (st, Inr (c_seed, s_seed, None))))"

definition ch_payload_len :: "KexPolicy \<Rightarrow> nat" where
  "ch_payload_len policy =
     CH_FIXED_PREFIX_LEN + (case policy of Hybrid \<Rightarrow> TLS_MLKEM768_PK_LEN | Classical \<Rightarrow> 0) + 1 + TLS_HASH_LEN"

definition sh_payload_len :: "KexPolicy \<Rightarrow> nat" where
  "sh_payload_len policy = SH_FIXED_LEN + (case policy of Hybrid \<Rightarrow> TLS_MLKEM768_CT_LEN | Classical \<Rightarrow> 0)"

text \<open>The first message without its binder, and the position of the binder length.\<close>

definition client_hello ::
  "('m, 'd) platform \<Rightarrow> KexPolicy \<Rightarrow> CipherSuite \<Rightarrow> PskId \<Rightarrow> bytes \<Rightarrow> bytes option \<Rightarrow> ('m, 'd) tls \<Rightarrow> (('m, 'd) tls \<times> (TlsError + bytes \<times> nat)) option" where
  "client_hello P policy suite psk_id x_pk ek st =
     try_value (write_handshake_header (replicate (HS_HEADER_LEN + CH_FIXED_PREFIX_LEN + TLS_MLKEM768_PK_LEN + 1 + TLS_HASH_LEN) 0)
         HS_TYPE_CLIENT_HELLO (ch_payload_len policy)) st (\<lambda>ch st. do {
       let p = HS_HEADER_LEN;
       ch \<leftarrow> copy_into ch p (p + 16) psk_id;
       let p = p + 16;
       try_then (draw32 P st) (\<lambda>client_random st. do {
         ch \<leftarrow> copy_into ch p (p + 32) client_random;
         let p = p + 32;
         ch \<leftarrow> index_set ch p (suite_code suite);
         let p = p + 1;
         ch \<leftarrow> index_set ch p (case policy of Hybrid \<Rightarrow> 1 | Classical \<Rightarrow> 0);
         let p = p + 1;
         ch \<leftarrow> copy_into ch p (p + TLS_X25519_PK_LEN) x_pk;
         let p = p + TLS_X25519_PK_LEN;
         (ch, p) \<leftarrow> (case ek of
             Some k \<Rightarrow> do { ch \<leftarrow> copy_into ch p (p + TLS_MLKEM768_PK_LEN) k; Some (ch, p + TLS_MLKEM768_PK_LEN) }
           | None \<Rightarrow> Some (ch, p));
         ch \<leftarrow> index_set ch p (of_nat TLS_HASH_LEN);
         Some (st, Inr (ch, p))
       })
     })"

text \<open>The binder of the client, entered into the message and checked with the secrets of the server.\<close>

definition bind_client_hello ::
  "('m, 'd) platform \<Rightarrow> ScheduleSecrets \<Rightarrow> ScheduleSecrets \<Rightarrow> bytes \<Rightarrow> nat \<Rightarrow> (TlsError + bytes) option" where
  "bind_client_hello P c_secrets s_secrets ch truncated_ch_end =
     do {
       truncated \<leftarrow> slice ch 0 truncated_ch_end;
       (tc, r) \<leftarrow> transcript_update truncated transcript_new;
       case r of
         Inl e \<Rightarrow> Some (Inl e)
       | Inr _ \<Rightarrow> do {
           truncated_hash \<leftarrow> transcript_snapshot P tc;
           r \<leftarrow> compute_binder P (binder_key c_secrets) truncated_hash;
           case r of
             Inl e \<Rightarrow> Some (Inl e)
           | Inr binder \<Rightarrow> do {
               let binder_pos = truncated_ch_end + 1;
               ch \<leftarrow> copy_into ch binder_pos (binder_pos + TLS_HASH_LEN) binder;
               r \<leftarrow> compute_binder P (binder_key s_secrets) truncated_hash;
               Some (case r of
                   Inl e \<Rightarrow> Inl e
                 | Inr expected \<Rightarrow> if \<not> ct_eq_bytes binder expected then Inl FinishedMismatch else Inr ch)
             }
         }
     }"

definition conn_update_transcript :: "bytes \<Rightarrow> TlsConnection \<Rightarrow> (TlsConnection \<times> (TlsError + unit)) option" where
  "conn_update_transcript msg c =
     do {
       (t, r) \<leftarrow> transcript_update msg (conn_transcript c);
       Some (c\<lparr>conn_transcript := t\<rparr>, r)
     }"

definition both_transcripts :: "ConnHandle \<Rightarrow> ConnHandle \<Rightarrow> bytes \<Rightarrow> ('m, 'd) tls \<Rightarrow> (('m, 'd) tls \<times> (TlsError + unit)) option" where
  "both_transcripts client_h server_h msg st =
     try_then (on_slot client_h (conn_update_transcript msg) st) (\<lambda>_ st. on_slot server_h (conn_update_transcript msg) st)"

definition client_hash :: "('m, 'd) platform \<Rightarrow> ConnHandle \<Rightarrow> ('m, 'd) tls \<Rightarrow> (('m, 'd) tls \<times> (TlsError + bytes)) option" where
  "client_hash P client_h st =
     on_slot client_h (\<lambda>c. do { h \<leftarrow> transcript_snapshot P (conn_transcript c); Some (c, Inr h) }) st"

definition server_hello ::
  "('m, 'd) platform \<Rightarrow> KexPolicy \<Rightarrow> CipherSuite \<Rightarrow> bytes \<Rightarrow> ('m, 'd) tls \<Rightarrow> (('m, 'd) tls \<times> (TlsError + bytes \<times> nat)) option" where
  "server_hello P policy suite x_pk st =
     try_value (write_handshake_header (replicate (HS_HEADER_LEN + SH_FIXED_LEN + TLS_MLKEM768_CT_LEN) 0)
         HS_TYPE_SERVER_HELLO (sh_payload_len policy)) st (\<lambda>sh st.
       try_then (draw32 P st) (\<lambda>server_random st. do {
         let q = HS_HEADER_LEN;
         sh \<leftarrow> copy_into sh q (q + 32) server_random;
         let q = q + 32;
         sh \<leftarrow> index_set sh q (suite_code suite);
         let q = q + 1;
         sh \<leftarrow> copy_into sh q (q + TLS_X25519_PK_LEN) x_pk;
         Some (st, Inr (sh, q + TLS_X25519_PK_LEN))
       }))"

definition key_exchange ::
  "('m, 'd) platform \<Rightarrow> kex \<Rightarrow> KexPolicy \<Rightarrow> bytes \<Rightarrow> bytes \<Rightarrow> (bytes \<times> bytes) option \<Rightarrow> bytes \<Rightarrow> nat \<Rightarrow> ('m, 'd) tls \<Rightarrow>
     (('m, 'd) tls \<times> (TlsError + bytes \<times> bytes)) option" where
  "key_exchange P K policy client_sk server_sk kp sh q st =
     (case x25519_dh K client_sk (x25519_public_key K server_sk) of
        None \<Rightarrow> Some (st, Inl TlsInternal)
      | Some client_ss \<Rightarrow>
          (case x25519_dh K server_sk (x25519_public_key K client_sk) of
             None \<Rightarrow> Some (st, Inl TlsInternal)
           | Some server_ss \<Rightarrow>
               if \<not> ct_eq_bytes client_ss server_ss then Some (st, Inl TlsInternal)
               else (case policy of
                   Hybrid \<Rightarrow>
                     (case kp of
                        None \<Rightarrow> Some (st, Inl TlsInternal)
                      | Some (ek, dk) \<Rightarrow>
                          try_then (draw32 P st) (\<lambda>m st.
                            case mlkem768_encaps K ek m of
                              None \<Rightarrow> Some (st, Inl TlsInternal)
                            | Some (kem_ct, kem_ss_server) \<Rightarrow> do {
                                sh \<leftarrow> copy_into sh q (q + TLS_MLKEM768_CT_LEN) kem_ct;
                                let kem_ss_client = mlkem768_decaps K kem_ct dk;
                                if \<not> ct_eq_bytes kem_ss_client kem_ss_server then Some (st, Inl TlsInternal)
                                else do {
                                  ss \<leftarrow> copy_into (replicate (TLS_KEM_SS_LEN + TLS_KEM_SS_LEN) 0) 0 TLS_KEM_SS_LEN client_ss;
                                  ss \<leftarrow> copy_into ss TLS_KEM_SS_LEN (TLS_KEM_SS_LEN + TLS_KEM_SS_LEN) kem_ss_client;
                                  Some (st, Inr (sh, ss))
                                }
                              }))
                 | Classical \<Rightarrow> Some (st, Inr (sh, client_ss)))))"

text \<open>A Finished message made with the secrets of the sender and checked with those of the receiver.\<close>

definition finished_message :: "('m, 'd) platform \<Rightarrow> bytes \<Rightarrow> bytes \<Rightarrow> bytes \<Rightarrow> (TlsError + bytes) option" where
  "finished_message P sender_secret receiver_secret hash =
     do {
       r \<leftarrow> derive_finished_key P sender_secret;
       case r of
         Inl e \<Rightarrow> Some (Inl e)
       | Inr fin_key \<Rightarrow> do {
           let verify = compute_verify_data P fin_key hash;
           r \<leftarrow> write_handshake_header (replicate (HS_HEADER_LEN + FIN_LEN) 0) HS_TYPE_FINISHED FIN_LEN;
           case r of
             Inl e \<Rightarrow> Some (Inl e)
           | Inr msg \<Rightarrow> do {
               msg \<leftarrow> copy_into msg HS_HEADER_LEN (HS_HEADER_LEN + FIN_LEN) verify;
               r \<leftarrow> derive_finished_key P receiver_secret;
               Some (case r of
                   Inl e \<Rightarrow> Inl e
                 | Inr view_key \<Rightarrow>
                     if \<not> ct_eq_bytes verify (compute_verify_data P view_key hash) then Inl FinishedMismatch else Inr msg)
             }
         }
     }"

definition install_keys :: "('m, 'd) platform \<Rightarrow> bytes \<Rightarrow> bytes \<Rightarrow> TlsConnection \<Rightarrow> (TlsConnection \<times> (TlsError + unit)) option" where
  "install_keys P write_secret read_secret c =
     do {
       (k, r) \<leftarrow> derive_traffic_keys P write_secret (app_write c);
       let c = c\<lparr>app_write := k\<rparr>;
       case r of
         Inl e \<Rightarrow> Some (c, Inl e)
       | Inr _ \<Rightarrow> do {
           (k, r) \<leftarrow> derive_traffic_keys P read_secret (app_read c);
           let c = c\<lparr>app_read := k\<rparr>;
           case r of
             Inl e \<Rightarrow> Some (c, Inl e)
           | Inr _ \<Rightarrow>
               Some (c\<lparr>app_write := (app_write c)\<lparr>dk_seq := 0\<rparr>, app_read := (app_read c)\<lparr>dk_seq := 0\<rparr>, conn_state := Connected\<rparr>, Inr ())
         }
     }"

subsection \<open>The handshake\<close>

text \<open>From the shared secret on: both sides derive their secrets, exchange Finished and install their keys.\<close>

definition finish_handshake ::
  "('m, 'd) platform \<Rightarrow> ConnHandle \<Rightarrow> ConnHandle \<Rightarrow> KexPolicy \<Rightarrow> bytes \<Rightarrow> ScheduleSecrets \<Rightarrow> ScheduleSecrets \<Rightarrow> ('m, 'd) tls \<Rightarrow>
     (('m, 'd) tls \<times> (TlsError + unit)) option" where
  "finish_handshake P client_h server_h policy ecdhe_ss c_secrets s_secrets st =
     try_then (client_hash P client_h st) (\<lambda>h_ch_sh st.
     try_local (derive_handshake_secrets P ecdhe_ss h_ch_sh policy c_secrets) st (\<lambda>c_secrets st.
     try_local (derive_handshake_secrets P ecdhe_ss h_ch_sh policy s_secrets) st (\<lambda>s_secrets st.
     try_value (finished_message P (server_handshake_traffic s_secrets) (server_handshake_traffic c_secrets) h_ch_sh) st (\<lambda>sf st.
     try_then (both_transcripts client_h server_h sf st) (\<lambda>_ st.
     try_then (client_hash P client_h st) (\<lambda>h_ch_sf st.
     try_value (finished_message P (client_handshake_traffic c_secrets) (client_handshake_traffic s_secrets) h_ch_sf) st (\<lambda>cf st.
     try_then (both_transcripts client_h server_h cf st) (\<lambda>_ st.
     try_then (client_hash P client_h st) (\<lambda>h_ch_cf st.
     try_local (derive_master_and_app_secrets P h_ch_cf c_secrets) st (\<lambda>c_secrets st.
     try_local (derive_master_and_app_secrets P h_ch_cf s_secrets) st (\<lambda>s_secrets st.
     try_then (on_slot client_h (install_keys P (client_application_traffic_0 c_secrets) (server_application_traffic_0 c_secrets)) st) (\<lambda>_ st.
     on_slot server_h (install_keys P (server_application_traffic_0 s_secrets) (client_application_traffic_0 s_secrets)) st))))))))))))"

definition do_handshake ::
  "('m, 'd) platform \<Rightarrow> kex \<Rightarrow> HsmDriver \<Rightarrow> ConnHandle \<Rightarrow> ConnHandle \<Rightarrow> KexPolicy \<Rightarrow> CipherSuite \<Rightarrow> PskId \<Rightarrow> ('m, 'd) tls \<Rightarrow>
     (('m, 'd) tls \<times> (TlsError + unit)) option" where
  "do_handshake P K hsm client_h server_h policy suite psk_id st =
     try_then (ephemeral_keys P K policy st) (\<lambda>(client_sk, server_sk, kp) st.
       if \<not> drv_exists hsm psk_id then Some (st, Inl UnknownPsk)
       else
         try_local (derive_early_secrets P hsm psk_id secrets_empty) st (\<lambda>c_secrets st.
         try_local (derive_early_secrets P hsm psk_id secrets_empty) st (\<lambda>s_secrets st.
         try_then (client_hello P policy suite psk_id (x25519_public_key K client_sk) (map_option fst kp) st) (\<lambda>(ch, truncated_ch_end) st.
         try_value (bind_client_hello P c_secrets s_secrets ch truncated_ch_end) st (\<lambda>ch st. do {
           ch_msg \<leftarrow> slice ch 0 (HS_HEADER_LEN + ch_payload_len policy);
           try_then (both_transcripts client_h server_h ch_msg st) (\<lambda>_ st.
           try_then (server_hello P policy suite (x25519_public_key K server_sk) st) (\<lambda>(sh, q) st.
           try_then (key_exchange P K policy client_sk server_sk kp sh q st) (\<lambda>(sh, ecdhe_ss) st. do {
             sh_msg \<leftarrow> slice sh 0 (HS_HEADER_LEN + sh_payload_len policy);
             try_then (both_transcripts client_h server_h sh_msg st) (\<lambda>_ st.
               finish_handshake P client_h server_h policy ecdhe_ss c_secrets s_secrets st)
           })))
         })))))"

definition start_conn :: "Side \<Rightarrow> Profile \<Rightarrow> KexPolicy \<Rightarrow> CipherSuite \<Rightarrow> PskId \<Rightarrow> TlsConnection \<Rightarrow> TlsConnection" where
  "start_conn side profile policy suite psk_id c =
     c\<lparr>conn_state := Handshaking, conn_side := side, conn_profile := profile, conn_policy := policy, conn_suite := suite, conn_psk_id := psk_id\<rparr>"

definition run_loopback ::
  "('m, 'd) platform \<Rightarrow> kex \<Rightarrow> HsmDriver \<Rightarrow> Profile \<Rightarrow> KexPolicy \<Rightarrow> CipherSuite \<Rightarrow> PskId \<Rightarrow> ('m, 'd) tls \<Rightarrow>
     (('m, 'd) tls \<times> (TlsError + ConnHandle \<times> ConnHandle)) option" where
  "run_loopback P K hsm profile policy suite psk_id st =
     try_then (alloc_slot st) (\<lambda>client_h st.
     try_then (on_slot client_h (\<lambda>c. Some (start_conn Client profile policy suite psk_id c, Inr ())) st) (\<lambda>_ st. do {
       (st, r) \<leftarrow> alloc_slot st;
       case r of
         Inl e \<Rightarrow> try_then (on_slot client_h (\<lambda>c. Some (c\<lparr>conn_state := Free\<rparr>, Inr ())) st) (\<lambda>_ st. Some (st, Inl e))
       | Inr server_h \<Rightarrow>
           try_then (on_slot server_h (\<lambda>c. Some (start_conn Server profile policy suite psk_id c, Inr ())) st) (\<lambda>_ st. do {
             (st, r) \<leftarrow> do_handshake P K hsm client_h server_h policy suite psk_id st;
             case r of
               Inl e \<Rightarrow> Some (fst (tls_close server_h (fst (tls_close client_h st))), Inl e)
             | Inr _ \<Rightarrow> Some (st, Inr (client_h, server_h))
           })
     }))"

text \<open>One record from a connection to another. The state includes the output buffer of the caller.\<close>

definition loopback_send_recv ::
  "('m, 'd) platform \<Rightarrow> ConnHandle \<Rightarrow> ConnHandle \<Rightarrow> bytes \<Rightarrow> ('m, 'd) tls \<times> bytes \<Rightarrow> ((('m, 'd) tls \<times> bytes) \<times> (TlsError + nat)) option" where
  "loopback_send_recv P from to plaintext = (\<lambda>(st, out).
     case tls_slot from st of
       Inl e \<Rightarrow> Some ((st, out), Inl e)
     | Inr f \<Rightarrow>
         let suite = conn_suite f
         in if conn_state f \<noteq> Connected then Some ((st, out), Inl UnexpectedState)
            else do {
              ((k, rec_buf), r) \<leftarrow> encrypt_record P suite plaintext (app_write f) (replicate 256 0);
              let st = st\<lparr>tls_pool := (tls_pool st)[unat from := Some (f\<lparr>app_write := k\<rparr>)]\<rparr>;
              case r of
                Inl e \<Rightarrow> Some ((st, out), Inl e)
              | Inr rec_len \<Rightarrow>
                  (case tls_slot to st of
                     Inl e \<Rightarrow> Some ((st, out), Inl e)
                   | Inr t \<Rightarrow>
                       if conn_state t \<noteq> Connected then Some ((st, out), Inl UnexpectedState)
                       else do {
                         rcd \<leftarrow> slice rec_buf 0 rec_len;
                         ((k, out), r) \<leftarrow> decrypt_record P suite rcd (app_read t) out;
                         Some ((st\<lparr>tls_pool := (tls_pool st)[unat to := Some (t\<lparr>app_read := k\<rparr>)]\<rparr>, out), r)
                       })
            })"

end
