(* ===== verification/TlsConnect.thy ===== *)
theory TlsConnect
  imports TlsHandshake
begin

text \<open>
  What the handshake of \<^verbatim>\<open>src/src/tls/handshake.rs\<close> achieves: two connections with mirrored
  traffic keys, those of the RFC 8446 key schedule, and nothing left behind when it fails.
\<close>

subsection \<open>The key exchange crates\<close>

definition kex_sizes :: "kex \<Rightarrow> bool" where
  "kex_sizes K \<longleftrightarrow>
     (\<forall>sk. length (x25519_public_key K sk) = 32) \<and>
     (\<forall>sk pk ss. x25519_dh K sk pk = Some ss \<longrightarrow> length ss = 32) \<and>
     (\<forall>d z. length (fst (mlkem768_keygen K d z)) = 1184) \<and>
     (\<forall>ek m ct ss. mlkem768_encaps K ek m = Some (ct, ss) \<longrightarrow> length ct = 1088 \<and> length ss = 32)"

definition kex_agrees :: "kex \<Rightarrow> bool" where
  "kex_agrees K \<longleftrightarrow>
     (\<forall>a b. \<exists>ss. x25519_dh K a (x25519_public_key K b) = Some ss \<and> x25519_dh K b (x25519_public_key K a) = Some ss) \<and>
     (\<forall>d z m. \<exists>ct ss. mlkem768_encaps K (fst (mlkem768_keygen K d z)) m = Some (ct, ss) \<and>
        mlkem768_decaps K ct (snd (mlkem768_keygen K d z)) = ss)"

definition rng_live :: "('m, 'd) platform \<Rightarrow> ('m, 'd) rng_state \<Rightarrow> bool" where
  "rng_live P g \<longleftrightarrow> cap_drbg g \<noteq> None \<and> (\<forall>d n. \<exists>d' out. p_drbg_generate P d n = (d', Inr out))"

subsection \<open>Running the stages\<close>

text \<open>
  \<open>hs_at\<close>: the state during a handshake, with the two connections and the rest of the pool as it was.
  \<open>hs_ok\<close>: what a stage may do. \<open>good\<close> stands for the conditions under which a handshake cannot
  fail; a stage that fails or does not return refutes them.
\<close>

definition hs_at ::
  "('m, 'd) platform \<Rightarrow> bool \<Rightarrow> TlsConnection option list \<Rightarrow> ConnHandle \<times> ConnHandle \<Rightarrow> ('m, 'd) tls \<Rightarrow> TlsConnection \<Rightarrow> TlsConnection \<Rightarrow> bool" where
  "hs_at P good pool hs st cc sc \<longleftrightarrow> (good \<longrightarrow> rng_live P (tls_rng st)) \<and> tls_pool st = pool[unat (fst hs) := Some cc, unat (snd hs) := Some sc]"

definition hs_ok ::
  "('m, 'd) platform \<Rightarrow> bool \<Rightarrow> TlsConnection option list \<Rightarrow> ConnHandle \<times> ConnHandle \<Rightarrow> (('m, 'd) tls \<times> (TlsError + 'a)) option \<Rightarrow>
     ('a \<Rightarrow> TlsConnection \<Rightarrow> TlsConnection \<Rightarrow> bool) \<Rightarrow> bool" where
  "hs_ok P good pool hs res Q \<longleftrightarrow>
     (case res of
        None \<Rightarrow> \<not> good
      | Some (st, r) \<Rightarrow> \<exists>cc sc. hs_at P good pool hs st cc sc \<and> (case r of Inl e \<Rightarrow> \<not> good | Inr x \<Rightarrow> Q x cc sc))"

definition handles_ok :: "TlsConnection option list \<Rightarrow> ConnHandle \<times> ConnHandle \<Rightarrow> bool" where
  "handles_ok pool hs \<longleftrightarrow> unat (fst hs) < length pool \<and> unat (snd hs) < length pool \<and> unat (fst hs) \<noteq> unat (snd hs)"

lemma hs_ok_bind:
  assumes "hs_ok P good pool hs r Q" "\<And>x st cc sc. hs_at P good pool hs st cc sc \<Longrightarrow> Q x cc sc \<Longrightarrow> hs_ok P good pool hs (f x st) R"
  shows "hs_ok P good pool hs (try_then r f) R"
proof (cases r)
  case None
  then show ?thesis using assms(1) by (simp add: hs_ok_def try_then_def)
next
  case (Some y)
  obtain st v where y: "r = Some (st, v)" using Some by (cases y) auto
  show ?thesis
  proof (cases v)
    case (Inl e)
    then show ?thesis using assms(1) y by (cases good) (auto simp: hs_ok_def)
  next
    case (Inr x)
    then obtain cc sc where "hs_at P good pool hs st cc sc" "Q x cc sc" using assms(1) y by (auto simp: hs_ok_def)
    then show ?thesis using assms(2) y Inr by simp
  qed
qed

lemma hs_ok_return: "hs_at P good pool hs st cc sc \<Longrightarrow> Q x cc sc \<Longrightarrow> hs_ok P good pool hs (Some (st, Inr x)) Q"
  by (auto simp: hs_ok_def)

lemma hs_ok_fail: "hs_at P good pool hs st cc sc \<Longrightarrow> \<not> good \<Longrightarrow> hs_ok P good pool hs (Some (st, Inl e)) Q"
  by (auto simp: hs_ok_def)

lemma rng_live_draw:
  assumes "rng_live P g"
  shows "\<exists>g' b. rand_bytes P g buf = Some (g', b, Inr ()) \<and> rng_live P g'"
proof -
  obtain d where d: "cap_drbg g = Some d" using assms by (auto simp: rng_live_def)
  moreover obtain d' out where "p_drbg_generate P d (length buf) = (d', Inr out)" using assms unfolding rng_live_def by blast
  ultimately have "rand_bytes P g buf = Some (g\<lparr>cap_drbg := Some d', ent := ent g\<rparr>, out, Inr ())"
    by (simp add: rand_bytes_def rand_bytes_loop.simps [of P d])
  then show ?thesis using assms by (auto simp: rng_live_def)
qed

lemma draw32_ok:
  assumes "platform_ok P" "hs_at P good pool hs st cc sc"
  shows "hs_ok P good pool hs (draw32 P st) (\<lambda>b cc' sc'. length b = 32 \<and> cc' = cc \<and> sc' = sc)"
proof (cases "rand_bytes P (tls_rng st) (replicate 32 0)")
  case None
  then show ?thesis
    using assms(2) rng_live_draw [of P "tls_rng st" "replicate 32 0"] by (auto simp: draw32_def hs_ok_def hs_at_def)
next
  case (Some x)
  obtain g b r where x: "rand_bytes P (tls_rng st) (replicate 32 0) = Some (g, b, r)" using Some by (cases x) auto
  have live: "rng_live P g \<and> r = Inr ()" if good
    using that assms(2) rng_live_draw [of P "tls_rng st" "replicate 32 0"] x by (simp add: hs_at_def)
  have "length b = 32" using rand_bytes_length [OF assms(1) x] by simp
  moreover have "hs_at P good pool hs (st\<lparr>tls_rng := g\<rparr>) cc sc" using assms(2) live by (simp add: hs_at_def)
  ultimately show ?thesis using x live by (cases r) (auto simp: draw32_def hs_ok_def)
qed

lemma hs_at_slots:
  assumes "handles_ok pool hs" "hs_at P good pool hs st cc sc"
  shows "tls_slot (fst hs) st = Inr cc" "tls_slot (snd hs) st = Inr sc"
proof -
  have "unat (fst hs) \<noteq> unat (snd hs)" using assms(1) by (simp add: handles_ok_def)
  then show "tls_slot (fst hs) st = Inr cc" "tls_slot (snd hs) st = Inr sc"
    using assms by (simp_all add: handles_ok_def hs_at_def tls_slot_def)
qed

lemma on_client_ok:
  assumes "handles_ok pool hs" "hs_at P good pool hs st cc sc" "f cc = Some (cc', Inr x)" "Q x cc' sc"
  shows "hs_ok P good pool hs (on_slot (fst hs) f st) Q"
proof -
  have ne: "unat (fst hs) \<noteq> unat (snd hs)" using assms(1) by (simp add: handles_ok_def)
  have "tls_pool st = pool[unat (fst hs) := Some cc, unat (snd hs) := Some sc]" using assms(2) by (simp add: hs_at_def)
  then have "(tls_pool st)[unat (fst hs) := Some cc'] = pool[unat (fst hs) := Some cc', unat (snd hs) := Some sc]"
    using ne by (simp add: list_update_swap)
  then have "hs_at P good pool hs (st\<lparr>tls_pool := (tls_pool st)[unat (fst hs) := Some cc']\<rparr>) cc' sc"
    using assms(2) by (simp add: hs_at_def)
  then show ?thesis using hs_at_slots [OF assms(1,2)] assms(3,4) by (auto simp: on_slot_def hs_ok_def)
qed

lemma on_server_ok:
  assumes "handles_ok pool hs" "hs_at P good pool hs st cc sc" "f sc = Some (sc', Inr x)" "Q x cc sc'"
  shows "hs_ok P good pool hs (on_slot (snd hs) f st) Q"
proof -
  have "hs_at P good pool hs (st\<lparr>tls_pool := (tls_pool st)[unat (snd hs) := Some sc']\<rparr>) cc sc'"
    using assms(2) by (simp add: hs_at_def)
  then show ?thesis using hs_at_slots [OF assms(1,2)] assms(3,4) by (auto simp: on_slot_def hs_ok_def)
qed

subsection \<open>Keys and messages\<close>

definition keypair_for :: "kex \<Rightarrow> KexPolicy \<Rightarrow> (bytes \<times> bytes) option \<Rightarrow> bool" where
  "keypair_for K policy kp \<longleftrightarrow> (case policy of Hybrid \<Rightarrow> \<exists>d z. kp = Some (mlkem768_keygen K d z) | Classical \<Rightarrow> kp = None)"

lemma ephemeral_keys_ok:
  assumes "platform_ok P" "hs_at P good pool hs st cc sc"
  shows "hs_ok P good pool hs (ephemeral_keys P K policy st) (\<lambda>(csk, ssk, kp) cc' sc'. keypair_for K policy kp \<and> cc' = cc \<and> sc' = sc)"
  unfolding ephemeral_keys_def
proof (rule hs_ok_bind [OF draw32_ok [OF assms]], rule hs_ok_bind [OF draw32_ok [OF assms(1)]], assumption, goal_cases)
  case (1 c_seed st1 cc1 sc1 s_seed st2 cc2 sc2)
  then have at: "hs_at P good pool hs st2 cc sc" by simp
  show ?case
  proof (cases policy)
    case Hybrid
    have "hs_ok P good pool hs (try_then (draw32 P st2) (\<lambda>d st. try_then (draw32 P st) (\<lambda>z st. Some (st, Inr (c_seed, s_seed, Some (mlkem768_keygen K d z))))))
        (\<lambda>(csk, ssk, kp) cc' sc'. keypair_for K policy kp \<and> cc' = cc \<and> sc' = sc)"
      by (rule hs_ok_bind [OF draw32_ok [OF assms(1) at]], rule hs_ok_bind [OF draw32_ok [OF assms(1)]], assumption, rule hs_ok_return, assumption)
         (auto simp: keypair_for_def Hybrid)
    then show ?thesis by (simp add: Hybrid)
  next
    case Classical
    then show ?thesis using at by (auto intro!: hs_ok_return simp: keypair_for_def)
  qed
qed

text \<open>The messages, as they are laid out in the comment of the source.\<close>

definition hs_header :: "u8 \<Rightarrow> nat \<Rightarrow> bytes" where
  "hs_header t n = [t, of_nat (n div 2 ^ 16 mod 256), of_nat (n div 2 ^ 8 mod 256), of_nat (n mod 256)]"

definition policy_code :: "KexPolicy \<Rightarrow> u8" where
  "policy_code policy = (case policy of Hybrid \<Rightarrow> 1 | Classical \<Rightarrow> 0)"

definition hello_prefix :: "KexPolicy \<Rightarrow> CipherSuite \<Rightarrow> PskId \<Rightarrow> bytes \<Rightarrow> bytes \<Rightarrow> bytes \<Rightarrow> bytes" where
  "hello_prefix policy suite psk_id rand x_pk ek =
     hs_header 1 (ch_payload_len policy) @ psk_id @ rand @ [suite_code suite, policy_code policy] @ x_pk @ ek"

definition server_hello_msg :: "KexPolicy \<Rightarrow> CipherSuite \<Rightarrow> bytes \<Rightarrow> bytes \<Rightarrow> bytes \<Rightarrow> bytes" where
  "server_hello_msg policy suite rand x_pk ct = hs_header 2 (sh_payload_len policy) @ rand @ [suite_code suite] @ x_pk @ ct"

definition finished_msg :: "bytes \<Rightarrow> bytes" where
  "finished_msg verify = hs_header 20 32 @ verify"

lemma length_hs_header [simp]: "length (hs_header t n) = 4"
  by (simp add: hs_header_def)

lemma write_handshake_header_eq:
  assumes "n \<le> 0xFFFFFF"
  shows "write_handshake_header (replicate (4 + m) 0) t n = Some (Inr (hs_header t n @ replicate m 0))"
proof -
  have "replicate (4 + m) (0 :: u8) = [0, 0, 0, 0] @ replicate m 0" by (simp add: numeral_eq_Suc)
  then show ?thesis using assms by (simp add: write_handshake_header_def hs_sizes hs_header_def numeral_2_eq_2 numeral_3_eq_3)
qed

lemma hs_payload_lens [simp]:
  "ch_payload_len Hybrid = 1299" "ch_payload_len Classical = 115" "sh_payload_len Hybrid = 1153" "sh_payload_len Classical = 65"
  by (simp_all add: ch_payload_len_def sh_payload_len_def hs_sizes tls_sizes)

definition share_len :: "KexPolicy \<Rightarrow> nat" where
  "share_len policy = (case policy of Hybrid \<Rightarrow> 1184 | Classical \<Rightarrow> 0)"

lemma hs_ok_value: "r = Some (Inr x) \<Longrightarrow> hs_ok P good pool hs (f x st) Q \<Longrightarrow> hs_ok P good pool hs (try_value r st f) Q"
  by (simp add: try_value_def)

lemma hs_ok_local: "r = Some (l, Inr x) \<Longrightarrow> hs_ok P good pool hs (f l st) Q \<Longrightarrow> hs_ok P good pool hs (try_local r st f) Q"
  by (simp add: try_local_def)

lemma client_hello_ok:
  assumes "platform_ok P" "hs_at P good pool hs st cc sc" "length psk_id = 16" "length x_pk = 32"
    and "case policy of Hybrid \<Rightarrow> \<exists>k. ek = Some k \<and> length k = 1184 | Classical \<Rightarrow> ek = None"
  shows "hs_ok P good pool hs (client_hello P policy suite psk_id x_pk ek st)
    (\<lambda>(ch, p) cc' sc'. cc' = cc \<and> sc' = sc \<and> (\<exists>rand share. length rand = 32 \<and> length share = share_len policy \<and>
       (let pre = hello_prefix policy suite psk_id rand x_pk share
        in p = length pre \<and> length pre = 86 + share_len policy \<and> ch = (pre @ [32]) @ replicate (1216 - share_len policy) 0)))"
proof -
  let ?h = "hs_header 1 (ch_payload_len policy)"
  have hdr: "write_handshake_header (replicate (HS_HEADER_LEN + CH_FIXED_PREFIX_LEN + TLS_MLKEM768_PK_LEN + 1 + TLS_HASH_LEN) 0)
      HS_TYPE_CLIENT_HELLO (ch_payload_len policy) = Some (Inr (?h @ replicate 1299 0))"
    using write_handshake_header_eq [of "ch_payload_len policy" 1299 1] by (cases policy) (simp_all add: hs_sizes tls_sizes)
  have share: "\<exists>share. length share = share_len policy \<and>
      (case ek of Some k \<Rightarrow> do { ch \<leftarrow> copy_into ch 86 (86 + 1184) k; Some (ch, 86 + 1184) } | None \<Rightarrow> Some (ch, 86)) =
      Some ((pre @ share) @ replicate (1217 - share_len policy) 0, 86 + share_len policy)"
    if "ch = pre @ replicate 1217 0" "length pre = 86" for ch pre
    using assms(5) that by (cases policy) (auto simp: share_len_def)
  show ?thesis
    unfolding client_hello_def
  proof (rule hs_ok_value [OF hdr], goal_cases)
    case 1
    have "copy_into (?h @ replicate 1299 0) 4 20 psk_id = Some ((?h @ psk_id) @ replicate 1283 0)"
      by (subst fill_next) (use assms(3) in simp_all)
    moreover have "hs_ok P good pool hs (try_then (draw32 P st) (\<lambda>client_random st. do {
         ch \<leftarrow> copy_into ((?h @ psk_id) @ replicate 1283 0) 20 52 client_random;
         ch \<leftarrow> index_set ch 52 (suite_code suite);
         ch \<leftarrow> index_set ch 53 (case policy of Hybrid \<Rightarrow> 1 | Classical \<Rightarrow> 0);
         ch \<leftarrow> copy_into ch 54 86 x_pk;
         (ch, p) \<leftarrow> (case ek of Some k \<Rightarrow> do { ch \<leftarrow> copy_into ch 86 (86 + 1184) k; Some (ch, 86 + 1184) } | None \<Rightarrow> Some (ch, 86));
         ch \<leftarrow> index_set ch p 32;
         Some (st, Inr (ch, p)) }))
      (\<lambda>(ch, p) cc' sc'. cc' = cc \<and> sc' = sc \<and> (\<exists>rand share. length rand = 32 \<and> length share = share_len policy \<and>
       (let pre = hello_prefix policy suite psk_id rand x_pk share
        in p = length pre \<and> length pre = 86 + share_len policy \<and> ch = (pre @ [32]) @ replicate (1216 - share_len policy) 0)))"
    proof (rule hs_ok_bind [OF draw32_ok [OF assms(1,2)]], goal_cases)
      case (1 rand st' cc' sc')
      let ?pre = "?h @ psk_id @ rand @ [suite_code suite, policy_code policy] @ x_pk"
      have s1: "copy_into ((?h @ psk_id) @ replicate 1283 0) 20 52 rand = Some ((?h @ psk_id @ rand) @ replicate 1251 0)"
        by (subst fill_next) (use assms(3) 1 in simp_all)
      have s2: "index_set ((?h @ psk_id @ rand) @ replicate 1251 0) 52 (suite_code suite) = Some ((?h @ psk_id @ rand @ [suite_code suite]) @ replicate 1250 0)"
        by (subst fill_byte) (use assms(3) 1 in simp_all)
      have s3: "index_set ((?h @ psk_id @ rand @ [suite_code suite]) @ replicate 1250 0) 53 (policy_code policy) =
          Some ((?h @ psk_id @ rand @ [suite_code suite, policy_code policy]) @ replicate 1249 0)"
        by (subst fill_byte) (use assms(3) 1 in simp_all)
      have s4: "copy_into ((?h @ psk_id @ rand @ [suite_code suite, policy_code policy]) @ replicate 1249 0) 54 86 x_pk = Some (?pre @ replicate 1217 0)"
        by (subst fill_next) (use assms(3,4) 1 in simp_all)
      obtain share where sh: "length share = share_len policy"
          "(case ek of Some k \<Rightarrow> do { ch \<leftarrow> copy_into (?pre @ replicate 1217 0) 86 (86 + 1184) k; Some (ch, 86 + 1184) } | None \<Rightarrow> Some (?pre @ replicate 1217 0, 86)) =
           Some ((?pre @ share) @ replicate (1217 - share_len policy) 0, 86 + share_len policy)"
        using share [OF refl, of ?pre] assms(3,4) 1 by auto
      have s5: "index_set ((?pre @ share) @ replicate (1217 - share_len policy) 0) (86 + share_len policy) 32 =
          Some (((?pre @ share) @ [32]) @ replicate (1216 - share_len policy) 0)"
        by (subst fill_byte) (use assms(3,4) 1 sh(1) in \<open>auto simp: share_len_def split: KexPolicy.splits\<close>)
      have pre: "?pre @ share = hello_prefix policy suite psk_id rand x_pk share" by (simp add: hello_prefix_def)
      have len: "length (hello_prefix policy suite psk_id rand x_pk share) = 86 + share_len policy"
        using assms(3,4) 1 sh(1) by (simp add: hello_prefix_def)
      show ?case
        unfolding policy_code_def [symmetric] s1 s2 s3 s4 Option.bind.simps sh(2) prod.case s5
        unfolding pre
        by (rule hs_ok_return, use 1 in simp) (use 1 sh(1) len in \<open>simp add: Let_def, metis\<close>)
    qed
    ultimately show ?case by (simp add: hs_sizes tls_sizes Let_def cong: option.case_cong)
  qed
qed

lemma bind_client_hello_eq:
  assumes "platform_ok P" "binder_key c = binder_key s" "length pre \<le> 4096" "32 \<le> m"
  shows "bind_client_hello P c s ((pre @ [32]) @ replicate m 0) (length pre) =
    Some (Inr ((pre @ [32] @ rfc8446_verify_data P (binder_key c) pre) @ replicate (m - 32) 0))"
proof -
  let ?b = "rfc8446_verify_data P (binder_key c) pre"
  obtain t where t: "transcript_update pre transcript_new = Some (t, Inr ())" "transcript_ok t" "messages t = pre"
    by (rule transcript_update_result [OF transcript_new_ok(1), of pre]) (use assms(3) transcript_new_ok(2) in auto)
  have "copy_into ((pre @ [32]) @ replicate m 0) (length pre + 1) (length pre + 1 + 32) ?b = Some (((pre @ [32]) @ ?b) @ replicate (m - 32) 0)"
    using length_verify_data [OF assms(1)] assms(4) by (subst fill_next) simp_all
  then show ?thesis
    using t assms(2) transcript_snapshot_eq [OF assms(1) t(2)] compute_binder_rfc [OF assms(1)]
    by (simp add: bind_client_hello_def ct_eq_bytes_iff tls_sizes Let_def)
qed

text \<open>A connection during the handshake: its initial record, with the messages so far.\<close>

definition conn_at :: "TlsConnection \<Rightarrow> bytes \<Rightarrow> TlsConnection \<Rightarrow> bool" where
  "conn_at base msgs c \<longleftrightarrow> (\<exists>t. c = base\<lparr>conn_transcript := t\<rparr> \<and> transcript_ok t \<and> messages t = msgs)"

lemma conn_update_ok:
  assumes "conn_at base msgs c" "length msgs + length msg \<le> 4096"
  shows "\<exists>c'. conn_update_transcript msg c = Some (c', Inr ()) \<and> conn_at base (msgs @ msg) c'"
proof -
  obtain t where t: "c = base\<lparr>conn_transcript := t\<rparr>" "transcript_ok t" "messages t = msgs" using assms(1) by (auto simp: conn_at_def)
  obtain t' where "transcript_update msg t = Some (t', Inr ())" "transcript_ok t'" "messages t' = msgs @ msg"
    by (rule transcript_update_result [OF t(2), of msg]) (use assms(2) t(3) in auto)
  then show ?thesis using t(1) by (auto simp: conn_update_transcript_def conn_at_def)
qed

lemma both_transcripts_ok:
  assumes "handles_ok pool hs" "hs_at P good pool hs st cc sc" "conn_at cb msgs cc" "conn_at sb msgs sc" "length msgs + length msg \<le> 4096"
  shows "hs_ok P good pool hs (both_transcripts (fst hs) (snd hs) msg st) (\<lambda>_ cc' sc'. conn_at cb (msgs @ msg) cc' \<and> conn_at sb (msgs @ msg) sc')"
proof -
  obtain cc' sc' where c: "conn_update_transcript msg cc = Some (cc', Inr ())" "conn_at cb (msgs @ msg) cc'"
      and s: "conn_update_transcript msg sc = Some (sc', Inr ())" "conn_at sb (msgs @ msg) sc'"
    using conn_update_ok [OF assms(3,5)] conn_update_ok [OF assms(4,5)] by blast
  show ?thesis
    unfolding both_transcripts_def
  proof (rule hs_ok_bind [where Q = "\<lambda>_ a b. a = cc' \<and> b = sc"])
    show "hs_ok P good pool hs (on_slot (fst hs) (conn_update_transcript msg) st) (\<lambda>_ a b. a = cc' \<and> b = sc)"
      by (rule on_client_ok [OF assms(1,2)]) (use c in auto)
  next
    fix x st1 cc1 sc1
    assume at: "hs_at P good pool hs st1 cc1 sc1" and eq: "cc1 = cc' \<and> sc1 = sc"
    show "hs_ok P good pool hs (on_slot (snd hs) (conn_update_transcript msg) st1) (\<lambda>_ cc' sc'. conn_at cb (msgs @ msg) cc' \<and> conn_at sb (msgs @ msg) sc')"
      by (rule on_server_ok [OF assms(1) at]) (use eq s c in auto)
  qed
qed

lemma client_hash_ok:
  assumes "platform_ok P" "handles_ok pool hs" "hs_at P good pool hs st cc sc" "conn_at cb msgs cc"
  shows "hs_ok P good pool hs (client_hash P (fst hs) st) (\<lambda>h cc' sc'. h = p_sha256 P msgs \<and> cc' = cc \<and> sc' = sc)"
proof -
  have h: "transcript_snapshot P (conn_transcript cc) = Some (p_sha256 P msgs)"
    using assms(4) transcript_snapshot_eq [OF assms(1)] by (auto simp: conn_at_def)
  show ?thesis unfolding client_hash_def by (rule on_client_ok [OF assms(2,3)]) (simp_all add: h)
qed

definition kem_ct_len :: "KexPolicy \<Rightarrow> nat" where
  "kem_ct_len policy = (case policy of Hybrid \<Rightarrow> 1088 | Classical \<Rightarrow> 0)"

lemma server_hello_ok:
  assumes "platform_ok P" "hs_at P good pool hs st cc sc" "length x_pk = 32"
  shows "hs_ok P good pool hs (server_hello P policy suite x_pk st)
    (\<lambda>(sh, q) cc' sc'. cc' = cc \<and> sc' = sc \<and> q = 69 \<and>
       (\<exists>rand. length rand = 32 \<and> sh = server_hello_msg policy suite rand x_pk [] @ replicate 1088 0))"
proof -
  let ?h = "hs_header 2 (sh_payload_len policy)"
  have hdr: "write_handshake_header (replicate (HS_HEADER_LEN + SH_FIXED_LEN + TLS_MLKEM768_CT_LEN) 0)
      HS_TYPE_SERVER_HELLO (sh_payload_len policy) = Some (Inr (?h @ replicate 1153 0))"
    using write_handshake_header_eq [of "sh_payload_len policy" 1153 2] by (cases policy) (simp_all add: hs_sizes tls_sizes)
  show ?thesis
    unfolding server_hello_def
  proof (rule hs_ok_value [OF hdr], rule hs_ok_bind [OF draw32_ok [OF assms(1,2)]], goal_cases)
    case (1 rand st' cc' sc')
    have s1: "copy_into (?h @ replicate 1153 0) 4 36 rand = Some ((?h @ rand) @ replicate 1121 0)"
      by (subst fill_next) (use 1 in simp_all)
    have s2: "index_set ((?h @ rand) @ replicate 1121 0) 36 (suite_code suite) = Some ((?h @ rand @ [suite_code suite]) @ replicate 1120 0)"
      by (subst fill_byte) (use 1 in simp_all)
    have s3: "copy_into ((?h @ rand @ [suite_code suite]) @ replicate 1120 0) 37 69 x_pk = Some ((?h @ rand @ [suite_code suite] @ x_pk) @ replicate 1088 0)"
      by (subst fill_next) (use 1 assms(3) in simp_all)
    have "hs_ok P good pool hs (Some (st', Inr ((?h @ rand @ [suite_code suite] @ x_pk) @ replicate 1088 0, 69)))
        (\<lambda>(sh, q) cc' sc'. cc' = cc \<and> sc' = sc \<and> q = 69 \<and>
         (\<exists>rand. length rand = 32 \<and> sh = server_hello_msg policy suite rand x_pk [] @ replicate 1088 0))"
      by (rule hs_ok_return) (use 1 in \<open>auto simp: server_hello_msg_def\<close>)
    then show ?case using s1 s2 s3 by (simp add: hs_sizes tls_sizes Let_def)
  qed
qed

definition shared_len :: "KexPolicy \<Rightarrow> nat" where
  "shared_len policy = (case policy of Classical \<Rightarrow> 32 | Hybrid \<Rightarrow> 64)"

lemma key_exchange_ok:
  assumes "platform_ok P" "hs_at P good pool hs st cc sc" "kex_sizes K" "good \<longrightarrow> kex_agrees K" "keypair_for K policy kp" "length pre = 69"
  shows "hs_ok P good pool hs (key_exchange P K policy csk ssk kp (pre @ replicate 1088 0) 69 st)
    (\<lambda>(sh, ss) cc' sc'. cc' = cc \<and> sc' = sc \<and> length ss = shared_len policy \<and>
       (\<exists>ct. length ct = kem_ct_len policy \<and> sh = (pre @ ct) @ replicate (1088 - kem_ct_len policy) 0))"
    (is "hs_ok _ _ _ _ _ ?Q")
proof (cases "\<exists>ss. x25519_dh K csk (x25519_public_key K ssk) = Some ss \<and> x25519_dh K ssk (x25519_public_key K csk) = Some ss")
  case False
  then have "\<not> good" using assms(4) unfolding kex_agrees_def by blast
  then show ?thesis using False assms(2)
    by (auto simp: key_exchange_def ct_eq_bytes_iff split: option.splits intro!: hs_ok_fail)
next
  case True
  then obtain ss where ss: "x25519_dh K csk (x25519_public_key K ssk) = Some ss" "x25519_dh K ssk (x25519_public_key K csk) = Some ss" by blast
  have len: "length ss = 32" using ss(1) assms(3) by (auto simp: kex_sizes_def)
  show ?thesis
  proof (cases policy)
    case Classical
    have "hs_ok P good pool hs (Some (st, Inr (pre @ replicate 1088 0, ss))) ?Q"
      by (rule hs_ok_return [OF assms(2)]) (use len in \<open>auto simp: Classical kem_ct_len_def shared_len_def\<close>)
    then show ?thesis using ss by (simp add: key_exchange_def ct_eq_bytes_iff Classical)
  next
    case Hybrid
    obtain d z where kp: "kp = Some (mlkem768_keygen K d z)" using assms(5) by (auto simp: keypair_for_def Hybrid)
    obtain ek dk where ek: "mlkem768_keygen K d z = (ek, dk)" by (cases "mlkem768_keygen K d z")
    have "hs_ok P good pool hs (try_then (draw32 P st) (\<lambda>m st.
        case mlkem768_encaps K ek m of
          None \<Rightarrow> Some (st, Inl TlsInternal)
        | Some (kem_ct, kem_ss_server) \<Rightarrow> do {
            sh \<leftarrow> copy_into (pre @ replicate 1088 0) 69 (69 + 1088) kem_ct;
            if mlkem768_decaps K kem_ct dk \<noteq> kem_ss_server then Some (st, Inl TlsInternal)
            else do {
              s \<leftarrow> copy_into (replicate 64 0) 0 32 ss;
              s \<leftarrow> copy_into s 32 64 (mlkem768_decaps K kem_ct dk);
              Some (st, Inr (sh, s))
            }
          })) ?Q"
    proof (rule hs_ok_bind [OF draw32_ok [OF assms(1,2)]], goal_cases)
      case (1 m st' cc' sc')
      then have at: "hs_at P good pool hs st' cc sc" by simp
      show ?case
      proof (cases "mlkem768_encaps K ek m")
        case None
        moreover have "\<not> good" using assms(4) ek None unfolding kex_agrees_def by (metis fst_conv option.distinct(1))
        ultimately show ?thesis using at by (auto intro: hs_ok_fail)
      next
        case (Some x)
        obtain ct kss where x: "mlkem768_encaps K ek m = Some (ct, kss)" using Some by (cases x) auto
        have l: "length ct = 1088" "length kss = 32" using x assms(3) by (auto simp: kex_sizes_def)
        have c1: "copy_into (pre @ replicate 1088 0) 69 (69 + 1088) ct = Some (pre @ ct)" using assms(6) l by simp
        have c2: "copy_into (replicate 64 0) 0 32 ss = Some (ss @ replicate 32 0)" "copy_into (ss @ replicate 32 0) 32 64 kss = Some (ss @ kss)"
          using len l by simp_all
        have ok: "hs_ok P good pool hs (Some (st', Inr (pre @ ct, ss @ kss))) ?Q"
          by (rule hs_ok_return [OF at]) (use len l in \<open>auto simp: Hybrid kem_ct_len_def shared_len_def\<close>)
        have "\<not> good" if "mlkem768_decaps K ct dk \<noteq> kss"
          using assms(4) ek x that unfolding kex_agrees_def by (metis fst_conv option.inject prod.inject snd_conv)
        then show ?thesis
          using ok at by (cases "mlkem768_decaps K ct dk = kss") (simp_all only: x option.case prod.case c1 c2 Option.bind.simps if_True if_False simp_thms hs_ok_fail)
      qed
    qed
    then show ?thesis using ss kp ek by (simp add: key_exchange_def ct_eq_bytes_iff Hybrid tls_sizes Let_def cong: option.case_cong prod.case_cong if_cong)
  qed
qed

lemma finished_message_eq:
  assumes "platform_ok P"
  shows "finished_message P sec sec (p_sha256 P msgs) = Some (Inr (finished_msg (rfc8446_verify_data P sec msgs)))"
proof -
  have "write_handshake_header (replicate 36 0) 20 32 = Some (Inr (hs_header 20 32 @ replicate 32 0))"
    using write_handshake_header_eq [of 32 32 20] by simp
  moreover have "copy_into (hs_header 20 32 @ replicate 32 0) 4 36 (rfc8446_verify_data P sec msgs) = Some ((hs_header 20 32 @ rfc8446_verify_data P sec msgs) @ replicate 0 0)"
    by (subst fill_next) (use length_verify_data [OF assms] in simp_all)
  ultimately show ?thesis
    using finished_key_rfc [OF assms] compute_verify_data_rfc [of P sec msgs]
    by (simp add: finished_message_def hs_sizes tls_sizes Let_def ct_eq_bytes_iff finished_msg_def)
qed

lemma length_finished_msg: "platform_ok P \<Longrightarrow> length (finished_msg (rfc8446_verify_data P sec msgs)) = 36"
  by (simp add: finished_msg_def length_verify_data)

lemma install_keys_eq:
  "platform_ok P \<Longrightarrow> install_keys P w r c =
     Some (c\<lparr>app_write := rfc8446_keys P w, app_read := rfc8446_keys P r, conn_state := Connected\<rparr>, Inr ())"
  by (simp add: install_keys_def traffic_keys_rfc rfc8446_keys_def)

subsection \<open>The whole handshake\<close>

text \<open>
  Two connected ends: each has the traffic keys that RFC 8446 derives from the master secret for the
  messages of the handshake, the client writes with the key the server reads with, and the other way
  round.
\<close>

definition traffic_keys :: "('m, 'd) platform \<Rightarrow> bytes \<Rightarrow> bytes \<Rightarrow> bytes \<Rightarrow> Side \<Rightarrow> DirectionalKeys" where
  "traffic_keys P psk ecdhe msgs side =
     rfc8446_keys P (rfc8446_derive P (rfc8446_master P psk ecdhe) (case side of Client \<Rightarrow> ''c ap traffic'' | Server \<Rightarrow> ''s ap traffic'') msgs)"

definition keyed :: "DirectionalKeys \<Rightarrow> DirectionalKeys \<Rightarrow> TlsConnection \<Rightarrow> TlsConnection" where
  "keyed w r c = c\<lparr>app_write := w, app_read := r, conn_state := Connected\<rparr>"

definition connected_pair :: "('m, 'd) platform \<Rightarrow> bytes \<Rightarrow> TlsConnection \<Rightarrow> TlsConnection \<Rightarrow> TlsConnection \<Rightarrow> TlsConnection \<Rightarrow> bool" where
  "connected_pair P psk cb sb cc sc \<longleftrightarrow>
     (\<exists>msgs ecdhe cc0 sc0. conn_at cb msgs cc0 \<and> conn_at sb msgs sc0 \<and>
        cc = keyed (traffic_keys P psk ecdhe msgs Client) (traffic_keys P psk ecdhe msgs Server) cc0 \<and>
        sc = keyed (traffic_keys P psk ecdhe msgs Server) (traffic_keys P psk ecdhe msgs Client) sc0)"

lemma install_both_ok:
  assumes "platform_ok P" "handles_ok pool hs" "hs_at P good pool hs st cc sc" "conn_at cb msgs cc" "conn_at sb msgs sc"
    and "client_application_traffic_0 c = rfc8446_derive P (rfc8446_master P psk ecdhe) ''c ap traffic'' msgs"
    and "server_application_traffic_0 c = rfc8446_derive P (rfc8446_master P psk ecdhe) ''s ap traffic'' msgs"
  shows "hs_ok P good pool hs
    (try_then (on_slot (fst hs) (install_keys P (client_application_traffic_0 c) (server_application_traffic_0 c)) st) (\<lambda>_ st.
       on_slot (snd hs) (install_keys P (server_application_traffic_0 c) (client_application_traffic_0 c)) st))
    (\<lambda>_ cc' sc'. connected_pair P psk cb sb cc' sc')"
proof -
  let ?c = "traffic_keys P psk ecdhe msgs Client" and ?s = "traffic_keys P psk ecdhe msgs Server"
  have ks: "rfc8446_keys P (client_application_traffic_0 c) = ?c" "rfc8446_keys P (server_application_traffic_0 c) = ?s"
    using assms(6,7) by (simp_all add: traffic_keys_def)
  show ?thesis
  proof (rule hs_ok_bind [where Q = "\<lambda>_ a b. a = keyed ?c ?s cc \<and> b = sc"])
    show "hs_ok P good pool hs (on_slot (fst hs) (install_keys P (client_application_traffic_0 c) (server_application_traffic_0 c)) st)
        (\<lambda>_ a b. a = keyed ?c ?s cc \<and> b = sc)"
      by (rule on_client_ok [OF assms(2,3)]) (simp_all add: install_keys_eq [OF assms(1)] ks keyed_def)
  next
    fix x st1 cc1 sc1
    assume at: "hs_at P good pool hs st1 cc1 sc1" and eq: "cc1 = keyed ?c ?s cc \<and> sc1 = sc"
    have "connected_pair P psk cb sb cc1 (keyed ?s ?c sc1)" using assms(4,5) eq unfolding connected_pair_def by blast
    then show "hs_ok P good pool hs (on_slot (snd hs) (install_keys P (server_application_traffic_0 c) (client_application_traffic_0 c)) st1)
        (\<lambda>_ cc' sc'. connected_pair P psk cb sb cc' sc')"
      by (rule on_server_ok [OF assms(2) at, rotated]) (simp add: install_keys_eq [OF assms(1)] ks keyed_def)
  qed
qed

lemma finish_after_sf:
  assumes "platform_ok P" "handles_ok pool hs" "hs_at P good pool hs st cc sc" "conn_at cb msgs cc" "conn_at sb msgs sc"
    and "length msgs + 36 \<le> 4096" "sec_handshake c = rfc8446_handshake P psk ecdhe"
  shows "hs_ok P good pool hs
    (try_then (client_hash P (fst hs) st) (\<lambda>h_ch_sf st.
     try_value (finished_message P (client_handshake_traffic c) (client_handshake_traffic c) h_ch_sf) st (\<lambda>cf st.
     try_then (both_transcripts (fst hs) (snd hs) cf st) (\<lambda>_ st.
     try_then (client_hash P (fst hs) st) (\<lambda>h_ch_cf st.
     try_local (derive_master_and_app_secrets P h_ch_cf c) st (\<lambda>c_secrets st.
     try_local (derive_master_and_app_secrets P h_ch_cf c) st (\<lambda>s_secrets st.
     try_then (on_slot (fst hs) (install_keys P (client_application_traffic_0 c_secrets) (server_application_traffic_0 c_secrets)) st) (\<lambda>_ st.
     on_slot (snd hs) (install_keys P (server_application_traffic_0 s_secrets) (client_application_traffic_0 s_secrets)) st))))))))
    (\<lambda>_ cc' sc'. connected_pair P psk cb sb cc' sc')"
proof (rule hs_ok_bind [OF client_hash_ok [OF assms(1-4)]], goal_cases)
  case (1 h st1 cc1 sc1)
  let ?cf = "finished_msg (rfc8446_verify_data P (client_handshake_traffic c) msgs)"
  have f: "finished_message P (client_handshake_traffic c) (client_handshake_traffic c) h = Some (Inr ?cf)"
    using finished_message_eq [OF assms(1)] 1(2) by simp
  have t: "conn_at cb msgs cc1" "conn_at sb msgs sc1" "length msgs + length ?cf \<le> 4096"
    using assms(4-6) 1(2) length_finished_msg [OF assms(1)] by simp_all
  show ?case
  proof (rule hs_ok_value [OF f], rule hs_ok_bind [OF both_transcripts_ok [OF assms(2) 1(1) t]], goal_cases)
    case (1 x st2 cc2 sc2)
    show ?case
    proof (rule hs_ok_bind [OF client_hash_ok [OF assms(1,2) 1(1)]], use 1 in blast, goal_cases)
      case (1 h2 st3 cc3 sc3)
      let ?ms = "rfc8446_master P psk ecdhe" and ?m = "msgs @ ?cf"
      let ?c = "c\<lparr>sec_master := ?ms, client_application_traffic_0 := rfc8446_derive P ?ms ''c ap traffic'' ?m,
             server_application_traffic_0 := rfc8446_derive P ?ms ''s ap traffic'' ?m\<rparr>"
      have d: "derive_master_and_app_secrets P h2 c = Some (?c, Inr ())"
        using derive_master_ok [OF assms(1,7)] 1(2) by simp
      show ?case
        by (rule hs_ok_local [OF d], rule hs_ok_local [OF d], rule install_both_ok [OF assms(1,2) 1(1), where msgs = ?m])
           (use 1(2) \<open>conn_at cb ?m cc2 \<and> conn_at sb ?m sc2\<close> in auto)
    qed
  qed
qed

lemma finish_handshake_ok:
  assumes "platform_ok P" "handles_ok pool hs" "hs_at P good pool hs st cc sc" "conn_at cb msgs cc" "conn_at sb msgs sc"
    and "length msgs + 72 \<le> 4096" "sec_early c = rfc8446_early P psk" "length ecdhe = shared_len policy"
  shows "hs_ok P good pool hs (finish_handshake P (fst hs) (snd hs) policy ecdhe c c st) (\<lambda>_ cc' sc'. connected_pair P psk cb sb cc' sc')"
  unfolding finish_handshake_def
proof (rule hs_ok_bind [OF client_hash_ok [OF assms(1-4)]], goal_cases)
  case (1 h st1 cc1 sc1)
  define hsec where "hsec = rfc8446_handshake P psk ecdhe"
  define c1 where "c1 = c\<lparr>sec_handshake := hsec, client_handshake_traffic := rfc8446_derive P hsec ''c hs traffic'' msgs,
             server_handshake_traffic := rfc8446_derive P hsec ''s hs traffic'' msgs\<rparr>"
  have d1: "derive_handshake_secrets P ecdhe h policy c = Some (c1, Inr ())"
    using derive_handshake_ok [OF assms(1,7), of ecdhe policy msgs] assms(8) 1(2) by (simp add: shared_len_def c1_def hsec_def)
  let ?sf = "finished_msg (rfc8446_verify_data P (server_handshake_traffic c1) msgs)"
  have f1: "finished_message P (server_handshake_traffic c1) (server_handshake_traffic c1) h = Some (Inr ?sf)"
    using finished_message_eq [OF assms(1)] 1(2) by simp
  have t1: "conn_at cb msgs cc1" "conn_at sb msgs sc1" "length msgs + length ?sf \<le> 4096"
    using assms(4-6) 1(2) length_finished_msg [OF assms(1)] by simp_all
  show ?case
  proof (rule hs_ok_local [OF d1], rule hs_ok_local [OF d1], rule hs_ok_value [OF f1],
      rule hs_ok_bind [OF both_transcripts_ok [OF assms(2) 1(1) t1]], goal_cases)
    case (1 x st2 cc2 sc2)
    then have at: "conn_at cb (msgs @ ?sf) cc2" "conn_at sb (msgs @ ?sf) sc2" by simp_all
    show ?case
      by (rule finish_after_sf [OF assms(1,2) 1(1) at])
         (use assms(6) in \<open>simp_all add: c1_def hsec_def length_finished_msg [OF assms(1)]\<close>)
  qed
qed

lemma policy_lens: "HS_HEADER_LEN + ch_payload_len policy = 119 + share_len policy" "HS_HEADER_LEN + sh_payload_len policy = 69 + kem_ct_len policy"
    "share_len policy \<le> 1184" "kem_ct_len policy \<le> 1088"
  by (cases policy; simp add: share_len_def kem_ct_len_def hs_sizes)+

text \<open>From the client hello on, with the same early secrets on both sides.\<close>

lemma after_client_hello:
  assumes "platform_ok P" "kex_sizes K" "handles_ok pool hs" "hs_at P good pool hs st cc sc" "conn_at cb msgs cc" "conn_at sb msgs sc"
    and "length msgs \<le> 1303" "good \<longrightarrow> kex_agrees K" "keypair_for K policy kp" "sec_early c = rfc8446_early P psk"
  shows "hs_ok P good pool hs
    (try_then (server_hello P policy suite (x25519_public_key K ssk) st) (\<lambda>(sh, q) st.
     try_then (key_exchange P K policy csk ssk kp sh q st) (\<lambda>(sh, ecdhe_ss) st. do {
       sh_msg \<leftarrow> slice sh 0 (HS_HEADER_LEN + sh_payload_len policy);
       try_then (both_transcripts (fst hs) (snd hs) sh_msg st) (\<lambda>_ st.
         finish_handshake P (fst hs) (snd hs) policy ecdhe_ss c c st) })))
    (\<lambda>_ cc' sc'. connected_pair P psk cb sb cc' sc')"
proof (rule hs_ok_bind [OF server_hello_ok [OF assms(1,4)]], use assms(2) in \<open>simp add: kex_sizes_def\<close>, clarify)
  fix st1 :: "('a, 'b) tls" and rand :: bytes
  let ?pre = "server_hello_msg policy suite rand (x25519_public_key K ssk) []"
  assume at1: "hs_at P good pool hs st1 cc sc" and "length rand = 32"
  then have pre: "length ?pre = 69" using assms(2) by (simp add: server_hello_msg_def kex_sizes_def)
  show "hs_ok P good pool hs
    (try_then (key_exchange P K policy csk ssk kp (?pre @ replicate 1088 0) 69 st1) (\<lambda>(sh, ecdhe_ss) st. do {
       sh_msg \<leftarrow> slice sh 0 (HS_HEADER_LEN + sh_payload_len policy);
       try_then (both_transcripts (fst hs) (snd hs) sh_msg st) (\<lambda>_ st.
         finish_handshake P (fst hs) (snd hs) policy ecdhe_ss c c st) }))
    (\<lambda>_ cc' sc'. connected_pair P psk cb sb cc' sc')"
  proof (rule hs_ok_bind [OF key_exchange_ok [OF assms(1) at1 assms(2,8,9) pre]], clarify)
    fix st2 :: "('a, 'b) tls" and ss ct :: bytes
    assume at2: "hs_at P good pool hs st2 cc sc" and ss: "length ss = shared_len policy" and ct: "length ct = kem_ct_len policy"
    have sl: "slice ((?pre @ ct) @ replicate (1088 - kem_ct_len policy) 0) 0 (HS_HEADER_LEN + sh_payload_len policy) = Some (?pre @ ct)"
      using pre ct policy_lens [of policy] by simp
    have room: "length msgs + length (?pre @ ct) \<le> 4096" using assms(7) pre ct policy_lens(4) [of policy] by simp
    have "hs_ok P good pool hs (try_then (both_transcripts (fst hs) (snd hs) (?pre @ ct) st2) (\<lambda>_ st.
         finish_handshake P (fst hs) (snd hs) policy ss c c st)) (\<lambda>_ cc' sc'. connected_pair P psk cb sb cc' sc')"
    proof (rule hs_ok_bind [OF both_transcripts_ok [OF assms(3) at2 assms(5,6) room]], goal_cases)
      case (1 x st3 cc3 sc3)
      then have at: "conn_at cb (msgs @ ?pre @ ct) cc3" "conn_at sb (msgs @ ?pre @ ct) sc3" by simp_all
      show ?case
        by (rule finish_handshake_ok [OF assms(1,3) 1(1) at _ assms(10) ss])
           (use assms(7) pre ct policy_lens(4) [of policy] in simp)
    qed
    then show "hs_ok P good pool hs (do {
         sh_msg \<leftarrow> slice ((?pre @ ct) @ replicate (1088 - kem_ct_len policy) 0) 0 (HS_HEADER_LEN + sh_payload_len policy);
         try_then (both_transcripts (fst hs) (snd hs) sh_msg st2) (\<lambda>_ st.
           finish_handshake P (fst hs) (snd hs) policy ss c c st) }) (\<lambda>_ cc' sc'. connected_pair P psk cb sb cc' sc')"
      unfolding sl by simp
  qed
qed

lemma after_early_secrets:
  assumes "platform_ok P" "kex_sizes K" "handles_ok pool hs" "hs_at P good pool hs st cc sc" "conn_at cb [] cc" "conn_at sb [] sc"
    and "length psk_id = 16" "good \<longrightarrow> kex_agrees K" "keypair_for K policy kp" "sec_early c = rfc8446_early P psk"
  shows "hs_ok P good pool hs
    (try_then (client_hello P policy suite psk_id (x25519_public_key K csk) (map_option fst kp) st) (\<lambda>(ch, truncated_ch_end) st.
     try_value (bind_client_hello P c c ch truncated_ch_end) st (\<lambda>ch st. do {
       ch_msg \<leftarrow> slice ch 0 (HS_HEADER_LEN + ch_payload_len policy);
       try_then (both_transcripts (fst hs) (snd hs) ch_msg st) (\<lambda>_ st.
       try_then (server_hello P policy suite (x25519_public_key K ssk) st) (\<lambda>(sh, q) st.
       try_then (key_exchange P K policy csk ssk kp sh q st) (\<lambda>(sh, ecdhe_ss) st. do {
         sh_msg \<leftarrow> slice sh 0 (HS_HEADER_LEN + sh_payload_len policy);
         try_then (both_transcripts (fst hs) (snd hs) sh_msg st) (\<lambda>_ st.
           finish_handshake P (fst hs) (snd hs) policy ecdhe_ss c c st)
       }))) })))
    (\<lambda>_ cc' sc'. connected_pair P psk cb sb cc' sc')"
proof -
  have share: "case policy of Hybrid \<Rightarrow> \<exists>k. map_option fst kp = Some k \<and> length k = 1184 | Classical \<Rightarrow> map_option fst kp = None"
  proof (cases policy)
    case Hybrid
    then obtain d z where "kp = Some (mlkem768_keygen K d z)" using assms(9) by (auto simp: keypair_for_def)
    then have "map_option fst kp = Some (fst (mlkem768_keygen K d z))" by (simp only: option.map)
    then show ?thesis using assms(2) Hybrid by (simp only: KexPolicy.case kex_sizes_def) blast
  next
    case Classical
    then show ?thesis using assms(9) by (simp add: keypair_for_def)
  qed
  have pk: "length (x25519_public_key K csk) = 32" using assms(2) by (simp add: kex_sizes_def)
  show ?thesis
  proof (rule hs_ok_bind [OF client_hello_ok [OF assms(1,4,7) pk share, of suite]], unfold Let_def, clarify, goal_cases)
    case (1 a b st2 _ _ rand shr)
    let ?pre = "hello_prefix policy suite psk_id rand (x25519_public_key K csk) shr"
    let ?msg = "?pre @ [32] @ rfc8446_verify_data P (binder_key c) ?pre"
    note pre = 1(4)
    have b: "bind_client_hello P c c ((?pre @ [32]) @ replicate (1216 - share_len policy) 0) (length ?pre) =
        Some (Inr (?msg @ replicate (1184 - share_len policy) 0))"
      using bind_client_hello_eq [OF assms(1), of c c ?pre "1216 - share_len policy"] pre policy_lens(3) [of policy] by simp
    have sl: "slice (?msg @ replicate (1184 - share_len policy) 0) 0 (HS_HEADER_LEN + ch_payload_len policy) = Some ?msg"
      using pre length_verify_data [OF assms(1)] policy_lens [of policy] by simp
    have len: "length ?msg \<le> 1303" using pre length_verify_data [OF assms(1)] policy_lens(3) [of policy] by simp
    show ?case
    proof (rule hs_ok_value [OF b], unfold sl Option.bind.simps, rule hs_ok_bind [OF both_transcripts_ok [OF assms(3) 1(1) assms(5,6)]], goal_cases)
      case (2 x st3 cc3 sc3)
      then show ?case
        using len assms(8-10) by (intro after_client_hello [OF assms(1-3) 2(1), where msgs = ?msg]) simp_all
    qed (use len in simp)
  qed
qed

lemma do_handshake_ok:
  assumes "platform_ok P" "kex_sizes K" "handles_ok pool hs" "hs_at P good pool hs st cc sc" "conn_at cb [] cc" "conn_at sb [] sc"
    and "length psk_id = 16" "good \<longrightarrow> kex_agrees K \<and> drv_exists hsm psk_id"
    and "drv_exists hsm psk_id \<Longrightarrow> drv_extract hsm psk_id (replicate 32 0) = Some (Inr (rfc8446_early P psk))"
  shows "hs_ok P good pool hs (do_handshake P K hsm (fst hs) (snd hs) policy suite psk_id st)
    (\<lambda>_ cc' sc'. drv_exists hsm psk_id \<and> connected_pair P psk cb sb cc' sc')"
  unfolding do_handshake_def
proof (rule hs_ok_bind [OF ephemeral_keys_ok [OF assms(1,4), of K policy]], clarify, goal_cases)
  case (1 csk ssk kp st1)
  show ?case
  proof (cases "drv_exists hsm psk_id")
    case True
    define c where "c = secrets_empty\<lparr>sec_early := rfc8446_early P psk, binder_key := rfc8446_derive P (rfc8446_early P psk) ''ext binder'' []\<rparr>"
    have e: "derive_early_secrets P hsm psk_id secrets_empty = Some (c, Inr ())"
      using derive_early_ok [OF assms(1) assms(9) [OF True]] by (simp add: c_def)
    have c: "sec_early c = rfc8446_early P psk" by (simp add: c_def)
    have "good \<longrightarrow> kex_agrees K" using assms(8) by blast
    from after_early_secrets [OF assms(1-3) 1(1) assms(5-7) this 1(2) c]
    show ?thesis by (simp add: True e try_local_def)
  next
    case False
    then show ?thesis using assms(8) 1(1) by (auto intro: hs_ok_fail)
  qed
qed

subsection \<open>Connecting two slots\<close>

definition free_conns :: "('m, 'd) tls \<Rightarrow> nat" where
  "free_conns st = length (filter (\<lambda>x. x = None) (tls_pool st))"

lemma alloc_slot_result:
  obtains (full) "alloc_slot st = Some (st, Inl PoolFull)" "free_conns st = 0"
    | (taken) i where "alloc_slot st = Some (st\<lparr>tls_pool := (tls_pool st)[i := Some conn_empty]\<rparr>, Inr (of_nat i))"
      "i < length (tls_pool st)" "tls_pool st ! i = None"
proof (cases "List.find (\<lambda>i. tls_pool st ! i = None) [0..<length (tls_pool st)]")
  case None
  then have "\<forall>x \<in> set (tls_pool st). x \<noteq> None" by (auto simp: find_upt_None_iff in_set_conv_nth)
  then show ?thesis using None full by (simp add: alloc_slot_def free_conns_def)
next
  case (Some i)
  then have "i < length (tls_pool st)" "tls_pool st ! i = None" by (auto simp: find_upt_Some_iff)
  then show ?thesis using Some by (intro taken [of i]) (simp_all add: alloc_slot_def)
qed

lemma free_conns_take:
  "i < length (tls_pool st) \<Longrightarrow> tls_pool st ! i = None \<Longrightarrow> Suc (free_conns (st\<lparr>tls_pool := (tls_pool st)[i := Some c]\<rparr>)) = free_conns st"
  using length_filter_update [of i "tls_pool st" "\<lambda>x. x = None" "Some c"] by (simp add: free_conns_def)

lemma unat_handle: "i < 4 \<Longrightarrow> unat (of_nat i :: ConnHandle) = i"
  by (simp add: unat_of_nat)

text \<open>Allocating a connection and setting it up.\<close>

lemma start_slot:
  assumes "length (tls_pool st) = 4" "i < 4"
  shows "on_slot (of_nat i) (\<lambda>c. Some (f c, Inr ())) (st\<lparr>tls_pool := (tls_pool st)[i := Some conn_empty]\<rparr>) =
    Some (st\<lparr>tls_pool := (tls_pool st)[i := Some (f conn_empty)]\<rparr>, Inr ())"
  using assms by (simp add: on_slot_def tls_slot_def unat_handle)

lemma conn_at_start: "conn_at (start_conn sd pr po su i conn_empty) [] (start_conn sd pr po su i conn_empty)"
  unfolding conn_at_def by (rule exI [of _ transcript_new]) (simp add: transcript_new_ok start_conn_def conn_empty_def)

lemma close_both:
  assumes "handles_ok pool hs" "pool ! unat (fst hs) = None" "pool ! unat (snd hs) = None"
    and "tls_pool st = pool[unat (fst hs) := Some cc, unat (snd hs) := Some sc]"
  shows "tls_pool (fst (tls_close (snd hs) (fst (tls_close (fst hs) st)))) = pool"
proof -
  have "pool[unat (fst hs) := None, unat (snd hs) := None] = pool"
    by (metis assms(2,3) list_update_id)
  then show ?thesis
    using assms(1,4) by (simp add: tls_close_def handles_ok_def Let_def list_update_swap [of "unat (fst hs)" "unat (snd hs)"])
qed

definition client_start :: "Profile \<Rightarrow> KexPolicy \<Rightarrow> CipherSuite \<Rightarrow> PskId \<Rightarrow> TlsConnection" where
  "client_start profile policy suite i = start_conn Client profile policy suite i conn_empty"

definition server_start :: "Profile \<Rightarrow> KexPolicy \<Rightarrow> CipherSuite \<Rightarrow> PskId \<Rightarrow> TlsConnection" where
  "server_start profile policy suite i = start_conn Server profile policy suite i conn_empty"

lemma run_loopback_starts:
  assumes "length (tls_pool st) = 4" "2 \<le> free_conns st"
  obtains c s st1 where "handles_ok (tls_pool st) (c, s)" "tls_pool st ! unat c = None" "tls_pool st ! unat s = None"
    "tls_rng st1 = tls_rng st"
    "tls_pool st1 = (tls_pool st)[unat c := Some (client_start profile policy suite i), unat s := Some (server_start profile policy suite i)]"
    "run_loopback P K hsm profile policy suite i st =
       do {
         (st, r) \<leftarrow> do_handshake P K hsm c s policy suite i st1;
         case r of
           Inl e \<Rightarrow> Some (fst (tls_close s (fst (tls_close c st))), Inl e)
         | Inr _ \<Rightarrow> Some (st, Inr (c, s))
       }"
proof (cases rule: alloc_slot_result [of st, case_names full taken])
  case full
  then show ?thesis using assms(2) by simp
next
  case (taken m)
  let ?cc = "client_start profile policy suite i" and ?sc = "server_start profile policy suite i"
  let ?st = "st\<lparr>tls_pool := (tls_pool st)[m := Some ?cc]\<rparr>"
  have m: "m < 4" using taken(2) assms(1) by simp
  have s1: "on_slot (of_nat m) (\<lambda>c. Some (start_conn Client profile policy suite i c, Inr ())) (st\<lparr>tls_pool := (tls_pool st)[m := Some conn_empty]\<rparr>) = Some (?st, Inr ())"
    using start_slot [OF assms(1) m] by (simp add: client_start_def)
  show ?thesis
  proof (cases rule: alloc_slot_result [of ?st, case_names full2 taken2])
    case full2
    then show ?thesis using free_conns_take [OF taken(2,3), of ?cc] assms(2) by simp
  next
    case (taken2 n)
    then have n: "n < 4" "n \<noteq> m" "tls_pool st ! n = None"
      using assms(1) taken(2) by (auto simp: nth_list_update split: if_splits)
    have s2: "on_slot (of_nat n) (\<lambda>c. Some (start_conn Server profile policy suite i c, Inr ())) (?st\<lparr>tls_pool := (tls_pool ?st)[n := Some conn_empty]\<rparr>) =
        Some (?st\<lparr>tls_pool := (tls_pool ?st)[n := Some ?sc]\<rparr>, Inr ())"
      using start_slot [of ?st n] assms(1) n(1) by (simp add: server_start_def)
    show ?thesis
      by (rule that [of "of_nat m" "of_nat n" "?st\<lparr>tls_pool := (tls_pool ?st)[n := Some ?sc]\<rparr>"])
         (use m n taken(1,3) taken2(1) s1 s2 assms(1) in \<open>simp_all add: handles_ok_def unat_handle run_loopback_def\<close>)
  qed
qed

text \<open>What a caller sees, for every key driver that keeps its contract.\<close>

definition loopback_outcome ::
  "('m, 'd) platform \<Rightarrow> bool \<Rightarrow> bytes option \<Rightarrow> TlsConnection \<Rightarrow> TlsConnection \<Rightarrow> ('m, 'd) tls \<Rightarrow> (('m, 'd) tls \<times> (TlsError + ConnHandle \<times> ConnHandle)) option \<Rightarrow> bool" where
  "loopback_outcome P good psk cb sb st res \<longleftrightarrow>
     (case res of
        None \<Rightarrow> \<not> good
      | Some (st', Inl e) \<Rightarrow> \<not> good \<and> tls_pool st' = tls_pool st
      | Some (st', Inr (c, s)) \<Rightarrow> \<exists>p cc sc. psk = Some p \<and> handles_ok (tls_pool st) (c, s) \<and> tls_pool st ! unat c = None \<and> tls_pool st ! unat s = None \<and>
          tls_pool st' = (tls_pool st)[unat c := Some cc, unat s := Some sc] \<and> connected_pair P p cb sb cc sc)"

lemma loopback_outcome_good:
  assumes "loopback_outcome P good psk cb sb st res" good
  obtains st' c s where "res = Some (st', Inr (c, s))"
proof (cases res)
  case (Some x)
  obtain st' r where x: "res = Some (st', r)" using Some by (cases x) auto
  then obtain cs where "r = Inr cs" using assms by (cases r) (auto simp: loopback_outcome_def)
  then show ?thesis using that x by (cases cs) auto
qed (use assms in \<open>simp add: loopback_outcome_def\<close>)

context hsm_contract
begin

lemma loopback_result:
  assumes "platform_ok P" "kex_sizes K" "length (tls_pool st) = 4" "2 \<le> free_conns st" "ok k" "length i = 16"
  shows "loopback_outcome P (rng_live P (tls_rng st) \<and> kex_agrees K \<and> key k i \<noteq> None) (key k i)
    (client_start profile policy suite i) (server_start profile policy suite i) st (run_loopback P K (drv k) profile policy suite i st)"
proof (rule run_loopback_starts [OF assms(3,4)])
  fix c s st1
  assume h: "handles_ok (tls_pool st) (c, s)" "tls_pool st ! unat c = None" "tls_pool st ! unat s = None" "tls_rng st1 = tls_rng st"
    "tls_pool st1 = (tls_pool st)[unat c := Some (client_start profile policy suite i), unat s := Some (server_start profile policy suite i)]"
    and run: "run_loopback P K (drv k) profile policy suite i st =
       do {
         (st, r) \<leftarrow> do_handshake P K (drv k) c s policy suite i st1;
         case r of
           Inl e \<Rightarrow> Some (fst (tls_close s (fst (tls_close c st))), Inl e)
         | Inr _ \<Rightarrow> Some (st, Inr (c, s))
       }"
  let ?good = "rng_live P (tls_rng st) \<and> kex_agrees K \<and> key k i \<noteq> None"
  let ?cb = "client_start profile policy suite i" and ?sb = "server_start profile policy suite i"
  have at: "hs_at P ?good (tls_pool st) (c, s) st1 ?cb ?sb" using h(4,5) by (simp add: hs_at_def)
  note ex = driver_exists [OF assms(5,6)]
  have psk: "drv_extract (drv k) i (replicate 32 0) = Some (Inr (rfc8446_early P (the (key k i))))" if "drv_exists (drv k) i"
    using that ex driver_extract [OF assms(5,6)] by (auto simp: rfc8446_early_def)
  have starts: "conn_at ?cb [] ?cb" "conn_at ?sb [] ?sb" using conn_at_start by (simp_all add: client_start_def server_start_def)
  have ok: "hs_ok P ?good (tls_pool st) (c, s) (do_handshake P K (drv k) c s policy suite i st1)
      (\<lambda>_ cc sc. drv_exists (drv k) i \<and> connected_pair P (the (key k i)) ?cb ?sb cc sc)"
    using do_handshake_ok [OF assms(1,2) h(1) at starts assms(6), of "drv k" "the (key k i)" policy suite] ex psk by simp
  show ?thesis
  proof (cases "do_handshake P K (drv k) c s policy suite i st1")
    case None
    then show ?thesis using ok by (simp add: run loopback_outcome_def hs_ok_def)
  next
    case (Some x)
    obtain st2 r where r: "do_handshake P K (drv k) c s policy suite i st1 = Some (st2, r)" using Some by (cases x) auto
    obtain cc sc where cs: "tls_pool st2 = (tls_pool st)[unat c := Some cc, unat s := Some sc]"
        "case r of Inl e \<Rightarrow> \<not> ?good | Inr x \<Rightarrow> drv_exists (drv k) i \<and> connected_pair P (the (key k i)) ?cb ?sb cc sc"
      using ok unfolding hs_ok_def hs_at_def r option.case prod.case fst_conv snd_conv by blast
    show ?thesis
    proof (cases r)
      case (Inl e)
      have "tls_pool (fst (tls_close s (fst (tls_close c st2)))) = tls_pool st" using close_both [OF h(1) _ _, of st2 cc sc] h(2,3) cs(1) by simp
      then show ?thesis using cs(2) Inl by (simp add: run r loopback_outcome_def)
    next
      case (Inr u)
      then have "drv_exists (drv k) i" "connected_pair P (the (key k i)) ?cb ?sb cc sc" using cs(2) by simp_all
      moreover have "key k i = Some (the (key k i))" using calculation(1) ex by simp
      ultimately show ?thesis
        unfolding run r loopback_outcome_def using cs(1) h(1-3) Inr by simp blast
    qed
  qed
qed

end

subsection \<open>The connection\<close>


text \<open>C16: with a provisioned key a TLS handshake succeeds. When the random generator works, the two key exchange
  mechanisms agree on their shared secrets, the store holds a key for the identifier and two slots are
  free, the loopback handshake returns two connected ends that mirror each other's keys, for every
  profile, key exchange policy and cipher suite.\<close>

theorem tls_handshake_succeeds:
  assumes "platform_ok P" "kex_sizes K" "kex_agrees K" "rng_live P (tls_rng st)" "length (tls_pool st) = MAX_TLS_CONNS" "2 \<le> free_conns st"
    and "keystore_wf ks" "length i = 16" "keys_of ks i \<noteq> None"
  shows "\<exists>st' c s cc sc. run_loopback P K (soft_driver P ks) profile policy suite i st = Some (st', Inr (c, s)) \<and>
    tls_slot c st' = Inr cc \<and> tls_slot s st' = Inr sc \<and> conn_state cc = Connected \<and> conn_state sc = Connected \<and>
    app_write cc = app_read sc \<and> app_read cc = app_write sc"
proof -
  have len: "length (tls_pool st) = 4" using assms(5) by (simp add: tls_sizes)
  note res = soft_hsm.loopback_result [OF assms(1,2) len assms(6-8), of profile policy suite]
  obtain st' c s where run: "run_loopback P K (soft_driver P ks) profile policy suite i st = Some (st', Inr (c, s))"
    by (rule loopback_outcome_good [OF res]) (use assms(3,4,9) in auto)
  then obtain p cc sc where p: "handles_ok (tls_pool st) (c, s)" "tls_pool st' = (tls_pool st)[unat c := Some cc, unat s := Some sc]"
      "connected_pair P p (client_start profile policy suite i) (server_start profile policy suite i) cc sc"
    using res by (auto simp: loopback_outcome_def)
  have "hs_at P False (tls_pool st) (c, s) st' cc sc" using p(2) by (simp add: hs_at_def)
  note slots = hs_at_slots [OF p(1) this]
  have "conn_state cc = Connected" "conn_state sc = Connected" "app_write cc = app_read sc" "app_read cc = app_write sc"
    using p(3) by (auto simp: connected_pair_def conn_at_def keyed_def)
  then show ?thesis using run slots by auto
qed

subsection \<open>A concrete handshake\<close>

definition demo_kex :: kex where
  "demo_kex =
     \<lparr>x25519_public_key = (\<lambda>sk. replicate 32 (sum_byte sk)),
      x25519_dh = (\<lambda>sk pk. Some (replicate 32 (sum_byte sk * hd pk))),
      mlkem768_keygen = (\<lambda>d z. (replicate 1184 (sum_byte d), replicate 2400 (sum_byte d))),
      mlkem768_encaps = (\<lambda>ek m. Some (replicate 1088 (sum_byte m), replicate 32 (sum_byte m + hd ek))),
      mlkem768_decaps = (\<lambda>ct dk. replicate 32 (hd ct + hd dk))\<rparr>"

lemma demo_kex_ok: "kex_sizes demo_kex" "kex_agrees demo_kex"
  by (simp_all add: kex_sizes_def kex_agrees_def demo_kex_def mult.commute)

definition demo_tls :: "(u64, u64) tls" where
  "demo_tls = \<lparr>tls_rng = \<lparr>ent = demo_entropy, cap_drbg = Some 0\<rparr>, tls_pool = replicate 4 None\<rparr>"

definition demo_keystore :: SoftKeystore where
  "demo_keystore = keystore_new[0 := \<lparr>ps_id = replicate 16 1, ps_state = Provisioned, ps_material = [5, 6] @ replicate 62 0, ps_len = 2\<rparr>]"

lemma demo_keystore_ok: "keystore_wf demo_keystore" "keys_of demo_keystore (replicate 16 1) = Some [5, 6]"
proof -
  have "provision (replicate 16 1) [5, 6] keystore_new = Some (demo_keystore, Inr ())" by code_simp
  then show "keystore_wf demo_keystore" "keys_of demo_keystore (replicate 16 1) = Some [5, 6]"
    by (cases rule: provision_result [OF keystore_wf_new, of "replicate 16 1" "[5, 6]", case_names len refused stored]; simp)+
qed

lemma demo_tls_ok: "rng_live demo_platform (tls_rng demo_tls)" "length (tls_pool demo_tls) = MAX_TLS_CONNS" "free_conns demo_tls = 4"
  by (simp_all add: rng_live_def demo_tls_def free_conns_def tls_sizes)

theorem tls_handshake_succeeds_witness:
  "\<exists>st' c s cc sc. run_loopback demo_platform demo_kex (soft_driver demo_platform demo_keystore) ProfileClosed Hybrid Aes256GcmSha256 (replicate 16 1) demo_tls
     = Some (st', Inr (c, s)) \<and> tls_slot c st' = Inr cc \<and> tls_slot s st' = Inr sc \<and> app_write cc = app_read sc"
proof -
  have "2 \<le> free_conns demo_tls" "length (replicate 16 (1 :: u8)) = 16" "keys_of demo_keystore (replicate 16 1) \<noteq> None"
    by (simp_all add: demo_tls_ok demo_keystore_ok)
  from tls_handshake_succeeds [OF demo_platform_ok demo_kex_ok demo_tls_ok(1,2) this(1) demo_keystore_ok(1) this(2,3)]
  show ?thesis by blast
qed


end
