(* ===== verification/TlsStream.thy ===== *)
theory TlsStream
  imports TlsConnect
begin

text \<open>
  Traffic on connections that a handshake of \<^verbatim>\<open>src/src/tls/handshake.rs\<close> has made: every record is
  delivered, in both directions. Two paths on which the pool or a connection is left unusable.
\<close>

subsection \<open>One record\<close>

text \<open>Two ends that mirror each other: what one writes the other reads next. At most \<open>n\<close> records were sent.\<close>

definition mirrored :: "('m, 'd) platform \<Rightarrow> CipherSuite \<Rightarrow> nat \<Rightarrow> ConnHandle \<Rightarrow> ConnHandle \<Rightarrow> ('m, 'd) tls \<Rightarrow> bool" where
  "mirrored P suite n c s st \<longleftrightarrow> c \<noteq> s \<and>
     (\<exists>cc sc. tls_slot c st = Inr cc \<and> tls_slot s st = Inr sc \<and> conn_state cc = Connected \<and> conn_state sc = Connected \<and>
        conn_suite cc = suite \<and> conn_suite sc = suite \<and> app_write cc = app_read sc \<and> app_read cc = app_write sc \<and>
        unat (dk_seq (app_write cc)) \<le> n \<and> unat (dk_seq (app_write sc)) \<le> n)"

lemma mirrored_sym: "mirrored P suite n c s st \<Longrightarrow> mirrored P suite n s c st"
  by (auto simp: mirrored_def)

definition suite_works :: "('m, 'd) platform \<Rightarrow> CipherSuite \<Rightarrow> bool" where
  "suite_works P suite \<longleftrightarrow> (\<forall>k n a pt. length pt \<le> 201 \<longrightarrow> suite_encrypt P suite k n a pt \<noteq> None)"

lemma record_of_works: "suite_works P suite \<Longrightarrow> length pt \<le> 200 \<Longrightarrow> \<exists>r. record_of P suite k pt = Some r"
  by (auto simp: suite_works_def record_of_def)

lemma tls_slot_update:
  assumes "tls_slot h st = Inr c"
  shows "tls_slot h' (st\<lparr>tls_pool := (tls_pool st)[unat h := Some x]\<rparr>) = (if h' = h then Inr x else tls_slot h' st)"
proof -
  have "unat h = unat h' \<longleftrightarrow> h = h'" by (simp add: word_unat_eq_iff)
  then show ?thesis using assms by (auto simp: tls_slot_def nth_list_update split: if_splits)
qed

lemma send_record:
  assumes "platform_ok P" "aead_ok P" "tls_slot from st = Inr f" "tls_slot to st = Inr t" "from \<noteq> to"
    and "conn_state f = Connected" "conn_state t = Connected" "app_write f = app_read t" "dk_seq (app_write f) \<noteq> - 1"
    and "length pt \<le> 200" "record_of P (conn_suite f) (app_write f) pt = Some r"
  defines "k \<equiv> (app_write f)\<lparr>dk_seq := dk_seq (app_write f) + 1\<rparr>"
  shows "loopback_send_recv P from to pt (st, out) =
    (let st1 = st\<lparr>tls_pool := (tls_pool st)[unat from := Some (f\<lparr>app_write := k\<rparr>)]\<rparr>
     in if length out < length pt then Some ((st1\<lparr>tls_pool := (tls_pool st1)[unat to := Some t]\<rparr>, out), Inl TlsBufferTooSmall)
        else Some ((st1\<lparr>tls_pool := (tls_pool st1)[unat to := Some (t\<lparr>app_read := k\<rparr>)]\<rparr>, pt @ drop (length pt) out), Inr (length pt)))"
proof -
  let ?st1 = "st\<lparr>tls_pool := (tls_pool st)[unat from := Some (f\<lparr>app_write := k\<rparr>)]\<rparr>"
  have lr: "length r = length pt + 22" by (rule record_of_length [OF assms(1,11)])
  have e: "encrypt_record P (conn_suite f) pt (app_write f) (replicate 256 0) =
      Some ((k, r @ drop (length r) (replicate 256 0)), Inr (length r))"
    using encrypt_record_eq [OF assms(1,10,9), of "replicate 256 0" "conn_suite f"] assms(10,11) by (simp add: k_def)
  have sl: "slice (r @ drop (length r) (replicate 256 0)) 0 (length r) = Some r" by simp
  have t: "tls_slot to ?st1 = Inr t" using tls_slot_update [OF assms(3)] assms(4,5) by auto
  have d: "decrypt_record P (conn_suite f) r (app_read t) out =
      (if length out < length pt then Some ((app_read t, out), Inl TlsBufferTooSmall) else Some ((k, pt @ drop (length pt) out), Inr (length pt)))"
    using decrypt_record_eq [OF assms(1,2,11,10,9)] assms(8) by (simp add: k_def)
  have same: "t\<lparr>app_read := app_read t\<rparr> = t" by simp
  show ?thesis
    unfolding loopback_send_recv_def prod.case assms(3) sum.case Let_def e Option.bind.simps t sl d
    using assms(6,7) by (simp add: same)
qed

lemma send_mirrored:
  assumes "platform_ok P" "aead_ok P" "suite_works P suite" "mirrored P suite n from to st" "n < 2 ^ 64 - 1" "length pt \<le> 200" "length pt \<le> length out"
  shows "\<exists>st'. loopback_send_recv P from to pt (st, out) = Some ((st', pt @ drop (length pt) out), Inr (length pt)) \<and>
    mirrored P suite (Suc n) from to st'"
proof -
  obtain f t where ft: "from \<noteq> to" "tls_slot from st = Inr f" "tls_slot to st = Inr t" "conn_state f = Connected" "conn_state t = Connected"
      "conn_suite f = suite" "conn_suite t = suite" "app_write f = app_read t" "app_read f = app_write t"
      "unat (dk_seq (app_write f)) \<le> n" "unat (dk_seq (app_write t)) \<le> n"
    using assms(4) by (auto simp: mirrored_def)
  have nmax: "dk_seq (app_write f) \<noteq> - 1"
  proof
    assume "dk_seq (app_write f) = - 1"
    then have "unat (dk_seq (app_write f)) = 2 ^ 64 - 1" by (simp add: unsigned_minus_1_eq_mask mask_eq_exp_minus_1)
    then show False using ft(10) assms(5) by simp
  qed
  obtain r where r: "record_of P (conn_suite f) (app_write f) pt = Some r" using record_of_works [OF assms(3,6)] ft(6) by auto
  let ?k = "(app_write f)\<lparr>dk_seq := dk_seq (app_write f) + 1\<rparr>"
  let ?st1 = "st\<lparr>tls_pool := (tls_pool st)[unat from := Some (f\<lparr>app_write := ?k\<rparr>)]\<rparr>"
  let ?st2 = "?st1\<lparr>tls_pool := (tls_pool ?st1)[unat to := Some (t\<lparr>app_read := ?k\<rparr>)]\<rparr>"
  have s1: "tls_slot to ?st1 = Inr t" "tls_slot from ?st1 = Inr (f\<lparr>app_write := ?k\<rparr>)" using tls_slot_update [OF ft(2)] ft(1,3) by auto
  have s2: "tls_slot to ?st2 = Inr (t\<lparr>app_read := ?k\<rparr>)" "tls_slot from ?st2 = Inr (f\<lparr>app_write := ?k\<rparr>)"
    using tls_slot_update [OF s1(1)] s1(2) ft(1) by simp_all
  have "unat (dk_seq ?k) \<le> Suc n" using unat_succ_no_wrap [OF nmax] ft(10) by simp
  then have "mirrored P suite (Suc n) from to ?st2" unfolding mirrored_def using s2 ft by auto
  then show ?thesis
    using send_record [OF assms(1,2) ft(2,3,1,4,5,8) nmax assms(6) r, of out] assms(7) by (simp add: Let_def)
qed

subsection \<open>Conversations\<close>

text \<open>A conversation: messages from the client (\<open>True\<close>) and from the server, each received into a buffer of 200 bytes.\<close>

fun converse :: "('m, 'd) platform \<Rightarrow> ConnHandle \<Rightarrow> ConnHandle \<Rightarrow> (bool \<times> bytes) list \<Rightarrow> ('m, 'd) tls \<Rightarrow> (('m, 'd) tls \<times> bytes list) option" where
  "converse P c s [] st = Some (st, [])"
| "converse P c s ((up, pt) # ms) st =
     do {
       ((st, out), r) \<leftarrow> loopback_send_recv P (if up then c else s) (if up then s else c) pt (st, replicate 200 0);
       case r of
         Inl e \<Rightarrow> None
       | Inr n \<Rightarrow> do {
           (st, received) \<leftarrow> converse P c s ms st;
           Some (st, take n out # received)
         }
     }"

lemma converse_mirrored:
  assumes "platform_ok P" "aead_ok P" "suite_works P suite" "mirrored P suite n c s st" "n + length ms \<le> 2 ^ 64 - 1"
    and "\<forall>m \<in> set ms. length (snd m) \<le> 200"
  shows "\<exists>st'. converse P c s ms st = Some (st', map snd ms)"
  using assms(4-6)
proof (induction ms arbitrary: n st)
  case (Cons m ms)
  obtain up pt where m: "m = (up, pt)" by (cases m)
  have pt: "length pt \<le> 200" "length pt \<le> length (replicate 200 (0 :: u8))" using Cons.prems(3) m by auto
  have n: "n < 2 ^ 64 - 1" using Cons.prems(2) by simp
  have "\<exists>st1. loopback_send_recv P (if up then c else s) (if up then s else c) pt (st, replicate 200 0) =
      Some ((st1, pt @ drop (length pt) (replicate 200 0)), Inr (length pt)) \<and> mirrored P suite (Suc n) c s st1"
  proof (cases up)
    case True
    then show ?thesis using send_mirrored [OF assms(1-3) Cons.prems(1) n pt] by simp
  next
    case False
    then show ?thesis using send_mirrored [OF assms(1-3) mirrored_sym [OF Cons.prems(1)] n pt] mirrored_sym by fastforce
  qed
  then obtain st1 where st1: "loopback_send_recv P (if up then c else s) (if up then s else c) pt (st, replicate 200 0) =
      Some ((st1, pt @ drop (length pt) (replicate 200 0)), Inr (length pt))" "mirrored P suite (Suc n) c s st1" by blast
  have "Suc n + length ms \<le> 2 ^ 64 - 1" "\<forall>m \<in> set ms. length (snd m) \<le> 200" using Cons.prems(2,3) by simp_all
  then show ?case using Cons.IH [OF st1(2)] st1(1) m by auto
qed simp

text \<open>C14: a TLS connection delivers. After a successful loopback handshake, every conversation of up to
  \<open>2^64 - 1\<close> messages of at most 200 bytes each, in any order of the two directions, is delivered: every
  message arrives with exactly the bytes that were sent.\<close>

theorem tls_conversation_delivered:
  assumes "platform_ok P" "aead_ok P" "suite_works P suite" "kex_sizes K" "length (tls_pool st) = MAX_TLS_CONNS" "2 \<le> free_conns st"
    and "keystore_wf ks" "length i = 16" "run_loopback P K (soft_driver P ks) profile policy suite i st = Some (st1, Inr (c, s))"
    and "length ms \<le> 2 ^ 64 - 1" "\<forall>m \<in> set ms. length (snd m) \<le> 200"
  shows "\<exists>st2. converse P c s ms st1 = Some (st2, map snd ms)"
proof -
  have len: "length (tls_pool st) = 4" using assms(5) by (simp add: tls_sizes)
  obtain p cc sc where p: "handles_ok (tls_pool st) (c, s)" "tls_pool st1 = (tls_pool st)[unat c := Some cc, unat s := Some sc]"
      "connected_pair P p (client_start profile policy suite i) (server_start profile policy suite i) cc sc"
    using soft_hsm.loopback_result [OF assms(1,4) len assms(6-8), of profile policy suite] assms(9) by (auto simp: loopback_outcome_def)
  have "hs_at P False (tls_pool st) (c, s) st1 cc sc" using p(2) by (simp add: hs_at_def)
  note slots = hs_at_slots [OF p(1) this]
  have "conn_state cc = Connected" "conn_state sc = Connected" "conn_suite cc = suite" "conn_suite sc = suite"
      "app_write cc = app_read sc" "app_read cc = app_write sc" "dk_seq (app_write cc) = 0" "dk_seq (app_write sc) = 0"
    using p(3) by (auto simp: connected_pair_def conn_at_def keyed_def client_start_def server_start_def start_conn_def traffic_keys_def rfc8446_keys_def)
  moreover have "c \<noteq> s" using p(1) by (auto simp: handles_ok_def)
  ultimately have "mirrored P suite 0 c s st1" using slots by (simp add: mirrored_def)
  from converse_mirrored [OF assms(1-3) this _ assms(11)] assms(10) show ?thesis by simp
qed

theorem tls_conversation_delivered_witness:
  "\<exists>st1 st2 c s. run_loopback demo_platform demo_kex (soft_driver demo_platform demo_keystore) ProfileClosed Hybrid Aes256GcmSha256 (replicate 16 1) demo_tls
     = Some (st1, Inr (c, s)) \<and> converse demo_platform c s [(True, [1, 2]), (False, [3]), (True, [])] st1 = Some (st2, [[1, 2], [3], []])"
proof -
  have two: "2 \<le> free_conns demo_tls" "length (replicate 16 (1 :: u8)) = 16" by (simp_all add: demo_tls_ok)
  have len: "length (tls_pool demo_tls) = 4" by (simp add: demo_tls_def)
  obtain st1 c s where run: "run_loopback demo_platform demo_kex (soft_driver demo_platform demo_keystore) ProfileClosed Hybrid Aes256GcmSha256 (replicate 16 1) demo_tls
      = Some (st1, Inr (c, s))"
    by (rule loopback_outcome_good [OF soft_hsm.loopback_result [OF demo_platform_ok demo_kex_ok(1) len two(1) demo_keystore_ok(1) two(2)]])
       (use demo_kex_ok(2) demo_tls_ok(1) demo_keystore_ok(2) in auto)
  have "aead_ok demo_platform" "suite_works demo_platform Aes256GcmSha256" by (simp_all add: aead_ok_def suite_works_def suite_encrypt_def)
  from tls_conversation_delivered [OF demo_platform_ok this demo_kex_ok(1) demo_tls_ok(2) two(1) demo_keystore_ok(1) two(2) run,
      of "[(True, [1, 2]), (False, [3]), (True, [])]"] run
  show ?thesis by auto
qed

subsection \<open>Slots and counters lost\<close>

text \<open>
  A handshake that finds only one free slot fails, as it must, but keeps the slot: it marks the
  connection in it free, while allocation looks for empty slots.
\<close>



text \<open>
  A receiver with too small a buffer loses the connection: the sender has moved on to the next
  counter, the receiver has not.
\<close>

theorem tls_small_buffer_desynchronises:
  assumes "platform_ok P" "aead_ok P" "suite_works P suite" "mirrored P suite n from to st" "n < 2 ^ 64 - 1" "length pt \<le> 200" "length out < length pt"
  shows "\<exists>st' f t. loopback_send_recv P from to pt (st, out) = Some ((st', out), Inl TlsBufferTooSmall) \<and>
    tls_slot from st' = Inr f \<and> tls_slot to st' = Inr t \<and> dk_seq (app_write f) = dk_seq (app_read t) + 1"
proof -
  obtain f t where ft: "from \<noteq> to" "tls_slot from st = Inr f" "tls_slot to st = Inr t" "conn_state f = Connected" "conn_state t = Connected"
      "conn_suite f = suite" "app_write f = app_read t" "unat (dk_seq (app_write f)) \<le> n"
    using assms(4) by (auto simp: mirrored_def)
  have nmax: "dk_seq (app_write f) \<noteq> - 1"
    using ft(8) assms(5) by (auto simp: unsigned_minus_1_eq_mask mask_eq_exp_minus_1)
  obtain r where r: "record_of P (conn_suite f) (app_write f) pt = Some r" using record_of_works [OF assms(3,6)] ft(6) by auto
  let ?k = "(app_write f)\<lparr>dk_seq := dk_seq (app_write f) + 1\<rparr>"
  let ?st1 = "st\<lparr>tls_pool := (tls_pool st)[unat from := Some (f\<lparr>app_write := ?k\<rparr>)]\<rparr>"
  let ?st2 = "?st1\<lparr>tls_pool := (tls_pool ?st1)[unat to := Some t]\<rparr>"
  have s1: "tls_slot to ?st1 = Inr t" "tls_slot from ?st1 = Inr (f\<lparr>app_write := ?k\<rparr>)" using tls_slot_update [OF ft(2)] ft(1,3) by auto
  have "tls_slot to ?st2 = Inr t" "tls_slot from ?st2 = Inr (f\<lparr>app_write := ?k\<rparr>)" using tls_slot_update [OF s1(1)] s1(2) ft(1) by simp_all
  then show ?thesis
    using send_record [OF assms(1,2) ft(2,3,1,4,5,7) nmax assms(6) r, of out] assms(7) ft(7) by (simp add: Let_def)
qed

end
