(* ===== verification/Spec2Isabelle.thy ===== *)
theory Spec2Isabelle
  imports IpcCall SyscallDispatch ProcessSpawn TlsStream
begin

text \<open>
  A verification library for the microkernel of this repository: a kernel for hardware security
  modules, written in Rust for a single core, without heap and without scheduler. File names below are
  relative to \<^verbatim>\<open>src/src\<close>.

  \<^bold>\<open>The program.\<close> At boot the kernel reads the memory map of the loader, sets up the frame
  allocator and the page tables, seeds a random generator from a quorum of entropy sources and draws its
  capability tokens from it. User programs are loaded from ELF files and run in Ring 3. They reach the kernel
  by system calls, which attach, use, relay and detach security modules behind slots of a registry; every
  use shows a capability with a secret token, and attaching and refusals are written to an audit ring.
  Inside the kernel, calls between endpoints carry requests to a crypto service and a signature service, and a
  TLS 1.3 layer with pre-shared keys connects two ends through a key store.

  \<^bold>\<open>Conventions.\<close> Machine integers are words of their width. A function that may panic or may not
  return has an \<open>option\<close> result, \<open>None\<close> standing for both; a \<open>Result\<close> of the source is a sum
  with the error on the left; a \<open>static mut\<close> is a field of a state record that is passed and returned. The
  question mark of the source is \<open>try_then\<close>. Code outside the repository (the cryptographic crates,
  instructions, ports, clocks) is the record \<open>platform\<close>, and the key exchange crates the record
  \<open>kex\<close>. What the kernel relies on is stated by \<open>platform_ok\<close> (output sizes), \<open>aead_ok\<close>
  (decryption inverts encryption), \<open>kex_sizes\<close> and \<open>kex_agrees\<close> (both ends of a key exchange get
  the same secret); \<open>demo_platform\<close> and \<open>demo_kex\<close> satisfy them and are what the witnesses run.

  \<^bold>\<open>Theories, with the files they model and what they show.\<close>

  \<^item> \<^verbatim>\<open>Prelude\<close>: bytes, buffers, little-endian words, error propagation, and the locale
    \<open>record_writer\<close> for loops that write fixed-size records. \<^verbatim>\<open>Platform\<close>: the parameters above.
    \<^verbatim>\<open>PhysMem\<close>: physical memory.

  \<^item> \<^verbatim>\<open>EntropyHealth\<close>, \<^verbatim>\<open>EntropySources\<close>, \<^verbatim>\<open>EntropyQuorum\<close>
    (\<^verbatim>\<open>arch/common/entropy/*.rs\<close>, \<^verbatim>\<open>arch/x86_64/entropy/hw.rs\<close>): the health test refines its
    reference; output only from a quorum of live sources; with two sources gone the reseed path halts instead of returning.

  \<^item> \<^verbatim>\<open>Capability\<close> (\<^verbatim>\<open>capability.rs\<close>): the generator, tokens, delegation, which can only
    take rights away, and the capability space. \<^verbatim>\<open>Ipc\<close>, \<^verbatim>\<open>IpcCall\<close> (\<^verbatim>\<open>ipc.rs\<close>):
    endpoints and calls; a call to a kernel service returns (locale \<open>kernel_service\<close>, interpreted on both
    services), a call to an endpoint without one does not.

  \<^item> \<^verbatim>\<open>CryptoService\<close> (\<^verbatim>\<open>crypto_service.rs\<close>): key derivation equals RFC 5869, encryption
    round trips. \<^verbatim>\<open>SignService\<close> (\<^verbatim>\<open>sign_service.rs\<close>): chunked upload, execution, download.

  \<^item> \<^verbatim>\<open>AuditRing\<close>, \<^verbatim>\<open>Attest\<close> (\<^verbatim>\<open>hsm_attest.rs\<close>): the ring refines a list of events
    (locale \<open>bounded_log\<close>); the attestation gate. \<^verbatim>\<open>WireProto\<close>, \<^verbatim>\<open>BusDrivers\<close>,
    \<^verbatim>\<open>WireDispatch\<close> (\<^verbatim>\<open>bus.rs\<close>): frames, transports (locale \<open>byte_pipe\<close> for the echo
    device), the commands of the wire protocol; nonces of the AES device never repeat.

  \<^item> \<^verbatim>\<open>HsmRegistry\<close>, \<^verbatim>\<open>HsmSyscalls\<close> (\<^verbatim>\<open>hsm_registry.rs\<close>), \<^verbatim>\<open>AirGap\<close>
    (\<^verbatim>\<open>air_gap.rs\<close>), \<^verbatim>\<open>SyscallAbi\<close> (\<^verbatim>\<open>arch/common/syscall.rs\<close>),
    \<^verbatim>\<open>SyscallDispatch\<close> (\<^verbatim>\<open>arch/x86_64/syscall.rs\<close>): the registry and every system call.
    The kernel invariant holds after any sequence of calls and stores of a user program; a forged capability
    changes nothing; a detached one is dead; every call other than exit, attach and getrandom is shown to return.

  \<^item> \<^verbatim>\<open>BootMemory\<close> (\<^verbatim>\<open>boot/memory_map.rs\<close>, \<^verbatim>\<open>arch/x86_64/multiboot2.rs\<close>),
    \<^verbatim>\<open>FrameAlloc\<close> (\<^verbatim>\<open>allocator.rs\<close>, locale \<open>frame_pool\<close>), \<^verbatim>\<open>PageTables\<close>
    (\<^verbatim>\<open>arch/x86_64/mmu.rs\<close>): the parser, exclusive frames, and that a mapped page and no other
    changes its translation.

  \<^item> \<^verbatim>\<open>ElfImage\<close> (\<^verbatim>\<open>elf.rs\<close>), \<^verbatim>\<open>ProcessLoad\<close>, \<^verbatim>\<open>UserPages\<close>,
    \<^verbatim>\<open>ProcessSpawn\<close> (\<^verbatim>\<open>process.rs\<close>): exactly the acceptable files are parsed; loading puts
    every segment where the file says and succeeds when frames suffice (locale \<open>program_loader\<close>, interpreted on
    the ELF and the flat loader); the flags of the intermediate entries keep Ring 3 out of every page.

  \<^item> \<^verbatim>\<open>Keystore\<close> (\<^verbatim>\<open>keystore.rs\<close>, \<^verbatim>\<open>hsm.rs\<close>): the store refines a map from identifiers to
    keys. The locale \<open>hsm_contract\<close> is the driver interface, interpreted on the store and on the driver without
    keys. \<^verbatim>\<open>TlsRecord\<close>, \<^verbatim>\<open>TlsSchedule\<close>, \<^verbatim>\<open>TlsHandshake\<close> (\<^verbatim>\<open>tls/*.rs\<close>): records,
    the key schedule against RFC 8446 reference functions, connections and the handshake. \<^verbatim>\<open>TlsConnect\<close> proves,
    by rules for a predicate \<open>hs_ok\<close> over the steps, that a handshake ends in a connected pair with mirrored
    keys or leaves no keys behind, and that it succeeds when nothing outside fails. \<^verbatim>\<open>TlsStream\<close>: every
    message is delivered unchanged.

  \<^bold>\<open>Loops.\<close> No fuel is used. Loops over fixed bounds are structural or have a termination proof. Loops
  that follow data or wait (\<open>parse_tags\<close>, \<open>parse_entries\<close>, \<open>kaslr_tags\<close>, \<open>rand_bytes_loop\<close>,
  \<open>gen_token_loop\<close>, \<open>poll_reply\<close>) are partial functions, with theorems on when they return and, for a zero
  tag and a missing service, that they do not. The retry loop of the quorum is bounded by the spin ceiling of the source.

  \<^bold>\<open>Not modelled.\<close> Assembly and register set-up (boot stubs, descriptor tables, interrupt entry, the switch
  to Ring 3), consoles, the boot sequence and its printed smoke tests, the aarch64 port, the stack canaries,
  and the user programs, which are replaced by arbitrary sequences of calls and stores. Erasure of memory is modelled where
  the memory is state; copies on the stack of a finished function are not. Timing, caches and interrupts are outside the model,
  as the source assumes one core with interrupts masked in system calls. One-line constants keep the names and values of the
  source.
\<close>

end
